(* ===== verification/Prelude.thy ===== *)
theory Prelude
  imports Main "HOL-Library.Word"
begin

text \<open>
  What the components share: the machine types, the byte-addressed store in which the
  C code's buffers live, the errno values the code returns, and the generic lemmas on
  lists, stores and words that carry the component proofs.

  \<^item> A pointer is a natural number and \<open>NULL\<close> is \<open>0\<close>. The store maps every address to a
    byte; a C array is a range of addresses, so two pointers can alias.
  \<^item> \<open>mem_bytes m p n\<close> reads a range, \<open>mem_store m p bs\<close> writes one.
  \<^item> The collection \<open>mem_simps\<close> holds the read-over-write lemmas, \<open>model_defs\<close> the
    definitions that a proof about an operation unfolds.
\<close>

unbundle bit_operations_syntax

named_theorems mem_simps "reading the store after a write"
named_theorems model_defs "definitions a proof about an operation unfolds"

section \<open>Machine types\<close>

type_synonym u8 = "8 word"
type_synonym u16 = "16 word"
type_synonym u32 = "32 word"
type_synonym u64 = "64 word"
type_synonym ptr = nat
type_synonym mem = "nat \<Rightarrow> u8"

abbreviation (input) NULL :: ptr where "NULL \<equiv> 0"

text \<open>The error numbers of \<open>include/linux/errno.h\<close> that the modelled code returns negated.\<close>

abbreviation (input) EPERM :: int where "EPERM \<equiv> 1"
abbreviation (input) ENOENT :: int where "ENOENT \<equiv> 2"
abbreviation (input) EIO :: int where "EIO \<equiv> 5"
abbreviation (input) E2BIG :: int where "E2BIG \<equiv> 7"
abbreviation (input) EAGAIN :: int where "EAGAIN \<equiv> 11"
abbreviation (input) ENOMEM :: int where "ENOMEM \<equiv> 12"
abbreviation (input) EEXIST :: int where "EEXIST \<equiv> 17"
abbreviation (input) ENODEV :: int where "ENODEV \<equiv> 19"
abbreviation (input) EINVAL :: int where "EINVAL \<equiv> 22"
abbreviation (input) EFBIG :: int where "EFBIG \<equiv> 27"
abbreviation (input) ENOSPC :: int where "ENOSPC \<equiv> 28"
abbreviation (input) EPROTONOSUPPORT :: int where "EPROTONOSUPPORT \<equiv> 93"

section \<open>The byte store\<close>

definition mem_bytes :: "mem \<Rightarrow> ptr \<Rightarrow> nat \<Rightarrow> u8 list" where
  "mem_bytes m p n = map m [p..<p + n]"

definition mem_store :: "mem \<Rightarrow> ptr \<Rightarrow> u8 list \<Rightarrow> mem" where
  "mem_store m p bs = (\<lambda>a. if p \<le> a \<and> a < p + length bs then bs ! (a - p) else m a)"

text \<open>The range of \<open>n\<close> bytes at \<open>p\<close> does not meet the range of \<open>k\<close> bytes at \<open>q\<close>.\<close>

definition disjoint_range :: "ptr \<Rightarrow> nat \<Rightarrow> ptr \<Rightarrow> nat \<Rightarrow> bool" where
  "disjoint_range p n q k \<longleftrightarrow> p + n \<le> q \<or> q + k \<le> p \<or> n = 0 \<or> k = 0"

lemma length_mem_bytes [simp]: "length (mem_bytes m p n) = n"
  by (simp add: mem_bytes_def)

lemma nth_mem_bytes [simp]: "i < n \<Longrightarrow> mem_bytes m p n ! i = m (p + i)"
  by (simp add: mem_bytes_def)

lemma mem_bytes_0 [simp]: "mem_bytes m p 0 = []"
  by (simp add: mem_bytes_def)

lemma mem_bytes_Suc: "mem_bytes m p (Suc n) = m p # mem_bytes m (Suc p) n"
  by (simp add: mem_bytes_def upt_conv_Cons del: upt_Suc)

lemma mem_bytes_Suc_last: "mem_bytes m p (Suc n) = mem_bytes m p n @ [m (p + n)]"
  by (simp add: mem_bytes_def)

lemma mem_bytes_add: "mem_bytes m p (n + k) = mem_bytes m p n @ mem_bytes m (p + n) k"
  by (intro nth_equalityI) (auto simp: nth_append ac_simps)

lemma take_mem_bytes: "k \<le> n \<Longrightarrow> take k (mem_bytes m p n) = mem_bytes m p k"
  by (intro nth_equalityI) auto

lemma drop_mem_bytes: "k \<le> n \<Longrightarrow> drop k (mem_bytes m p n) = mem_bytes m (p + k) (n - k)"
  by (intro nth_equalityI) (auto simp: ac_simps)

lemma mem_bytes_cong:
  "(\<And>a. p \<le> a \<Longrightarrow> a < p + n \<Longrightarrow> m a = m' a) \<Longrightarrow> mem_bytes m p n = mem_bytes m' p n"
  by (intro nth_equalityI) auto

lemma mem_store_Nil [simp]: "mem_store m p [] = m"
  by (rule ext) (auto simp: mem_store_def)

lemma mem_store_same [mem_simps]: "length bs = n \<Longrightarrow> mem_bytes (mem_store m p bs) p n = bs"
  by (intro nth_equalityI) (auto simp: mem_store_def)

lemma mem_store_other [mem_simps]:
  "a < p \<or> p + length bs \<le> a \<Longrightarrow> mem_store m p bs a = m a"
  by (auto simp: mem_store_def)

lemma mem_store_disjoint [mem_simps]:
  "disjoint_range q n p (length bs) \<Longrightarrow> mem_bytes (mem_store m p bs) q n = mem_bytes m q n"
  by (auto simp: disjoint_range_def mem_store_def intro!: mem_bytes_cong)

lemma mem_store_Cons: "mem_store m p (b # bs) = mem_store (m(p := b)) (Suc p) bs"
  by (rule ext) (auto simp: mem_store_def nth_Cons')

lemma mem_store_snoc: "mem_store m p (bs @ [b]) = (mem_store m p bs)(p + length bs := b)"
  by (rule ext) (auto simp: mem_store_def nth_append)

lemma mem_store_append:
  "mem_store m p (bs @ cs) = mem_store (mem_store m p bs) (p + length bs) cs"
  by (rule ext) (auto simp: mem_store_def nth_append)

lemma mem_bytes_upd_other [mem_simps]:
  "a < p \<or> p + n \<le> a \<Longrightarrow> mem_bytes (m(a := b)) p n = mem_bytes m p n"
  by (intro mem_bytes_cong) auto

lemma disjoint_range_sym: "disjoint_range p n q k \<longleftrightarrow> disjoint_range q k p n"
  by (auto simp: disjoint_range_def)

section \<open>Lists\<close>

lemma drop_Suc_snoc: "drop n (xs @ ys) = (if n \<le> length xs then drop n xs @ ys else drop (n - length xs) ys)"
  by simp

lemma list_update_drop_other: "i < n \<Longrightarrow> drop n (xs[i := v]) = drop n xs"
  by (simp add: drop_update_cancel)

text \<open>The last \<open>n\<close> elements: what a bounded buffer that overwrites its oldest data holds.\<close>

definition lastn :: "nat \<Rightarrow> 'a list \<Rightarrow> 'a list" where
  "lastn n xs = drop (length xs - n) xs"

lemma length_lastn [simp]: "length (lastn n xs) = min n (length xs)"
  by (auto simp: lastn_def)

lemma lastn_id [simp]: "length xs \<le> n \<Longrightarrow> lastn n xs = xs"
  by (simp add: lastn_def)

lemma lastn_lastn_append: "lastn n (lastn n xs @ ys) = lastn n (xs @ ys)"
proof (cases "length xs \<le> n")
  case False
  then show ?thesis
    by (simp add: lastn_def min_def) (metis Nat.diff_diff_right add.commute diff_add_inverse2
      diff_diff_left le_add_diff_inverse2 linorder_not_le nat_less_le)
qed simp

lemma lastn_snoc_full: "length xs = n \<Longrightarrow> 0 < n \<Longrightarrow> lastn n (xs @ [x]) = tl xs @ [x]"
  by (cases xs) (auto simp: lastn_def)

lemma mod_add_inj_nat:
  fixes c i j n :: nat
  assumes "(c + i) mod n = (c + j) mod n" "i < n" "j < n"
  shows "i = j"
proof -
  have aux: "a = b" if "(c + a) mod n = (c + b) mod n" "a \<le> b" "b < n" for a b
  proof -
    have "n dvd (c + b) - (c + a)" using that by (metis add_le_cancel_left mod_eq_dvd_iff_nat)
    then have "n dvd b - a" by simp
    with that show ?thesis by (metis diff_is_0_eq' dvd_imp_le le_neq_implies_less less_imp_diff_less
        linorder_not_le zero_less_diff)
  qed
  show ?thesis using assms aux [of i j] aux [of j i] by (cases "i \<le> j") auto
qed

lemma set_tl_nth: "length xs = n + 1 \<Longrightarrow> set (tl xs) = (!) xs ` {1..n}"
proof (cases xs)
  case (Cons x ys)
  assume "length xs = n + 1"
  then have "set ys = (!) ys ` {..<n}" using Cons by (auto simp: set_conv_nth image_iff)
  moreover have "(!) xs ` Suc ` {..<n} = (!) ys ` {..<n}" using Cons by (simp add: image_image)
  ultimately show ?thesis using Cons by (simp only: image_Suc_lessThan list.sel)
qed simp

lemma ex_pair3: "\<exists>a b c. x = ((a, b), c)"
  by (metis surj_pair)

section \<open>Words\<close>

lemma unat_plus_no_wrap:
  fixes a b :: "'a::len word"
  assumes "unat a + unat b < 2 ^ LENGTH('a)"
  shows "unat (a + b) = unat a + unat b"
  using assms by (simp add: unat_add_lem [THEN iffD1])

lemma unat_minus_le:
  fixes a b :: "'a::len word"
  assumes "b \<le> a"
  shows "unat (a - b) = unat a - unat b"
  using assms by (rule unat_sub)

lemma and_not_le: "(x::'a::len word) AND y \<le> x"
  by (rule word_and_le2)

end
