(* ===== verification/Circbuf.thy ===== *)
theory Circbuf
  imports Prelude
begin

text \<open>
  The circular buffer of \<open>lib/circbuf.c\<close>: a ring of \<open>totalsize\<close> bytes in the store, with the
  oldest byte at \<open>top\<close> and the next free place at \<open>tail\<close>. The loops of \<open>buf_pop\<close> and
  \<open>buf_push\<close> are recursive functions over the number of bytes left. The lemmas show that the
  ring holds a queue: a pop takes from its front, a push appends to its back and, when the
  ring is full, drops the oldest bytes.
\<close>

section \<open>Model\<close>

record circbuf_t =
  cb_size :: nat       \<comment> \<open>current number of bytes held\<close>
  cb_totalsize :: nat  \<comment> \<open>number of bytes allocated\<close>
  cb_top :: ptr        \<comment> \<open>pointer to current buffer start\<close>
  cb_tail :: ptr       \<comment> \<open>pointer to space for next element\<close>
  cb_data :: ptr       \<comment> \<open>all data\<close>
  cb_end :: ptr        \<comment> \<open>end of data buffer\<close>

text \<open>\<open>buf_init\<close>, where \<open>p\<close> is the pointer that \<open>malloc\<close> returned.\<close>

definition buf_init :: "ptr \<Rightarrow> nat \<Rightarrow> circbuf_t \<times> int" where
  "buf_init p sz =
     (\<lparr>cb_size = 0, cb_totalsize = sz, cb_top = p, cb_tail = p, cb_data = p, cb_end = p + sz\<rparr>, 1)"

definition buf_free :: "circbuf_t \<Rightarrow> circbuf_t \<times> int" where
  "buf_free buf =
     (\<lparr>cb_size = 0, cb_totalsize = 0, cb_top = NULL, cb_tail = NULL, cb_data = NULL, cb_end = NULL\<rparr>, 1)"

text \<open>
  The copy loop of \<open>buf_pop\<close>: \<open>dest[i] = *p++\<close>, then the bounds check. The last argument is the
  number of iterations left.
\<close>

fun buf_pop_loop :: "mem \<Rightarrow> circbuf_t \<Rightarrow> ptr \<Rightarrow> ptr \<Rightarrow> nat \<Rightarrow> nat \<Rightarrow> mem \<times> ptr" where
  "buf_pop_loop m buf p dest i 0 = (m, p)"
| "buf_pop_loop m buf p dest i (Suc n) =
     (let m' = m(dest + i := m p);
          p' = (if p + 1 = cb_end buf then cb_data buf else p + 1)
      in buf_pop_loop m' buf p' dest (i + 1) n)"

definition buf_pop :: "mem \<Rightarrow> circbuf_t \<Rightarrow> ptr \<Rightarrow> nat \<Rightarrow> mem \<times> circbuf_t \<times> nat" where
  "buf_pop m buf dest len =
     (let len' = (if len > cb_size buf then cb_size buf else len);
          (m', p) = buf_pop_loop m buf (cb_top buf) dest 0 len'
      in (m', buf\<lparr>cb_top := p, cb_size := cb_size buf - len'\<rparr>, len'))"

fun buf_push_loop :: "mem \<Rightarrow> circbuf_t \<Rightarrow> ptr \<Rightarrow> ptr \<Rightarrow> nat \<Rightarrow> nat \<Rightarrow> mem \<times> circbuf_t \<times> ptr" where
  "buf_push_loop m buf p src i 0 = (m, buf, p)"
| "buf_push_loop m buf p src i (Suc n) =
     (let m' = m(p := m (src + i));
          p' = (if p + 1 = cb_end buf then cb_data buf else p + 1);
          buf' = (if cb_size buf < cb_totalsize buf then buf\<lparr>cb_size := cb_size buf + 1\<rparr>
                  else buf\<lparr>cb_top := (if cb_top buf + 1 = cb_end buf then cb_data buf
                                      else cb_top buf + 1)\<rparr>)
      in buf_push_loop m' buf' p' src (i + 1) n)"

definition buf_push :: "mem \<Rightarrow> circbuf_t \<Rightarrow> ptr \<Rightarrow> nat \<Rightarrow> mem \<times> circbuf_t \<times> nat" where
  "buf_push m buf src len =
     (let (m', buf', p) = buf_push_loop m buf (cb_tail buf) src 0 len
      in (m', buf'\<lparr>cb_tail := p\<rparr>, len))"

section \<open>The queue a ring holds\<close>

definition ring_next :: "circbuf_t \<Rightarrow> ptr \<Rightarrow> ptr" where
  "ring_next buf p = (if p + 1 = cb_end buf then cb_data buf else p + 1)"

text \<open>The address of the \<open>i\<close>-th byte from \<open>top\<close>.\<close>

definition ring_addr :: "circbuf_t \<Rightarrow> nat \<Rightarrow> ptr" where
  "ring_addr buf i = cb_data buf + (cb_top buf - cb_data buf + i) mod cb_totalsize buf"

definition buf_list :: "mem \<Rightarrow> circbuf_t \<Rightarrow> u8 list" where
  "buf_list m buf = map (\<lambda>i. m (ring_addr buf i)) [0..<cb_size buf]"

definition buf_wf :: "circbuf_t \<Rightarrow> bool" where
  "buf_wf buf \<longleftrightarrow>
     0 < cb_totalsize buf \<and> cb_end buf = cb_data buf + cb_totalsize buf \<and>
     cb_data buf \<le> cb_top buf \<and> cb_top buf < cb_end buf \<and>
     cb_size buf \<le> cb_totalsize buf \<and> cb_tail buf = ring_addr buf (cb_size buf)"

text \<open>Everything but the tail pointer, which the push loop keeps in a local variable.\<close>

definition ring_ok :: "circbuf_t \<Rightarrow> bool" where
  "ring_ok buf \<longleftrightarrow>
     0 < cb_totalsize buf \<and> cb_end buf = cb_data buf + cb_totalsize buf \<and>
     cb_data buf \<le> cb_top buf \<and> cb_top buf < cb_end buf \<and> cb_size buf \<le> cb_totalsize buf"

lemma buf_wf_iff: "buf_wf buf \<longleftrightarrow> ring_ok buf \<and> cb_tail buf = ring_addr buf (cb_size buf)"
  by (auto simp: buf_wf_def ring_ok_def)

lemma ring_addr_upd [simp]:
  "ring_addr (buf\<lparr>cb_tail := p\<rparr>) i = ring_addr buf i"
  "ring_addr (buf\<lparr>cb_size := s\<rparr>) i = ring_addr buf i"
  "ring_addr (buf\<lparr>cb_top := t, cb_size := s\<rparr>) i = ring_addr (buf\<lparr>cb_top := t\<rparr>) i"
  by (simp_all add: ring_addr_def)

lemma buf_list_tail [simp]: "buf_list m (buf\<lparr>cb_tail := p\<rparr>) = buf_list m buf"
  by (simp add: buf_list_def)

lemma length_buf_list [simp]: "length (buf_list m buf) = cb_size buf"
  by (simp add: buf_list_def)

lemma nth_buf_list: "i < cb_size buf \<Longrightarrow> buf_list m buf ! i = m (ring_addr buf i)"
  by (simp add: buf_list_def)

lemma ring_addr_bounds:
  assumes "ring_ok buf"
  shows "cb_data buf \<le> ring_addr buf i" "ring_addr buf i < cb_end buf"
  using assms by (auto simp: ring_ok_def ring_addr_def)

lemma ring_addr_0: "ring_ok buf \<Longrightarrow> ring_addr buf 0 = cb_top buf"
  by (auto simp: ring_ok_def ring_addr_def)

lemma ring_next_addr: "ring_ok buf \<Longrightarrow> ring_next buf (ring_addr buf i) = ring_addr buf (Suc i)"
  by (auto simp: ring_ok_def ring_next_def ring_addr_def mod_Suc)

lemma ring_addr_inj:
  assumes "ring_ok buf" "i < cb_totalsize buf" "j < cb_totalsize buf" "ring_addr buf i = ring_addr buf j"
  shows "i = j"
proof -
  from assms(4) have "(cb_top buf - cb_data buf + i) mod cb_totalsize buf =
      (cb_top buf - cb_data buf + j) mod cb_totalsize buf" by (simp add: ring_addr_def)
  then show ?thesis using assms(2,3) by (rule mod_add_inj_nat)
qed

lemma buf_pop_loop_eq:
  assumes "ring_ok buf" "disjoint_range (dest + i) n (cb_data buf) (cb_totalsize buf)"
  shows "buf_pop_loop m buf (ring_addr buf k) dest i n =
           (mem_store m (dest + i) (map (\<lambda>j. m (ring_addr buf j)) [k..<k + n]), ring_addr buf (k + n))"
  using assms(2)
proof (induction n arbitrary: m i k)
  case (Suc n)
  let ?m = "m(dest + i := m (ring_addr buf k))"
  have dis: "disjoint_range (dest + (i + 1)) n (cb_data buf) (cb_totalsize buf)"
    using Suc.prems by (auto simp: disjoint_range_def)
  have "?m (ring_addr buf j) = m (ring_addr buf j)" for j
    using ring_addr_bounds [OF assms(1), of j] Suc.prems assms(1)
    by (auto simp: disjoint_range_def ring_ok_def)
  then show ?case
    using Suc.IH [OF dis, of ?m "Suc k"] ring_next_addr [OF assms(1), of k]
    by (simp add: ring_next_def mem_store_Cons upt_conv_Cons Let_def del: upt_Suc fun_upd_apply)
qed simp

text \<open>One iteration of the push loop.\<close>

definition push_step :: "circbuf_t \<Rightarrow> circbuf_t" where
  "push_step buf = (if cb_size buf < cb_totalsize buf then buf\<lparr>cb_size := cb_size buf + 1\<rparr>
     else buf\<lparr>cb_top := ring_next buf (cb_top buf)\<rparr>)"

lemma push_step_frame [simp]:
  "cb_data (push_step buf) = cb_data buf" "cb_end (push_step buf) = cb_end buf"
  "cb_totalsize (push_step buf) = cb_totalsize buf"
  by (simp_all add: push_step_def)

lemma push_step_ok: "ring_ok buf \<Longrightarrow> ring_ok (push_step buf)"
  by (auto simp: push_step_def ring_ok_def ring_next_def)

lemma ring_addr_shift:
  assumes "ring_ok buf" "cb_size buf = cb_totalsize buf"
  shows "ring_addr (push_step buf) i = ring_addr buf (Suc i)"
proof -
  let ?n = "cb_totalsize buf" and ?o = "cb_top buf - cb_data buf"
  have o: "?o < ?n" "cb_data buf \<le> cb_top buf" using assms by (auto simp: ring_ok_def)
  have "ring_next buf (cb_top buf) - cb_data buf = Suc ?o mod ?n"
    using assms o by (auto simp: ring_next_def ring_ok_def mod_Suc)
  with assms show ?thesis
    by (simp add: ring_addr_def push_step_def) (metis add_Suc mod_add_left_eq)
qed

lemma ring_addr_push_step:
  assumes "ring_ok buf"
  shows "ring_addr buf (Suc (cb_size buf)) = ring_addr (push_step buf) (cb_size (push_step buf))"
proof (cases "cb_size buf < cb_totalsize buf")
  case True
  then show ?thesis by (simp add: push_step_def ring_addr_def)
next
  case False
  then have "cb_size buf = cb_totalsize buf" using assms by (auto simp: ring_ok_def)
  then show ?thesis
    using ring_addr_shift [OF assms] False by (simp add: push_step_def)
qed

lemma buf_list_push_step:
  assumes "ring_ok buf"
  shows "buf_list (m(ring_addr buf (cb_size buf) := x)) (push_step buf) =
           lastn (cb_totalsize buf) (buf_list m buf @ [x])"
proof (cases "cb_size buf < cb_totalsize buf")
  case True
  have "ring_addr buf i \<noteq> ring_addr buf (cb_size buf)" if "i < cb_size buf" for i
    using ring_addr_inj [OF assms, of i "cb_size buf"] True that by auto
  then show ?thesis using True
    by (auto simp: buf_list_def push_step_def ring_addr_def)
next
  case False
  then have full: "cb_size buf = cb_totalsize buf" "0 < cb_totalsize buf"
    using assms by (auto simp: ring_ok_def)
  let ?n = "cb_totalsize buf" and ?m = "m(ring_addr buf (cb_size buf) := x)"
  have wrap: "ring_addr buf ?n = ring_addr buf 0" by (simp add: ring_addr_def)
  have "lastn ?n (buf_list m buf @ [x]) = tl (buf_list m buf) @ [x]"
    using full by (intro lastn_snoc_full) simp_all
  moreover have "buf_list ?m (push_step buf) = tl (buf_list m buf) @ [x]"
  proof (rule nth_equalityI)
    show "length (buf_list ?m (push_step buf)) = length (tl (buf_list m buf) @ [x])"
      using full by (simp add: push_step_def)
    fix i assume "i < length (buf_list ?m (push_step buf))"
    then have i: "i < ?n" "i < cb_size (push_step buf)" using full by (simp_all add: push_step_def)
    show "buf_list ?m (push_step buf) ! i = (tl (buf_list m buf) @ [x]) ! i"
    proof (cases "Suc i = ?n")
      case True
      then show ?thesis using i full
        by (auto simp: nth_buf_list ring_addr_shift [OF assms full(1)] nth_append)
    next
      case False
      then have "ring_addr buf (Suc i) \<noteq> ring_addr buf 0"
        using i ring_addr_inj [OF assms, of "Suc i" 0] by auto
      moreover have "i < ?n - 1" using i False by simp
      ultimately show ?thesis using i full wrap
        by (simp add: nth_buf_list ring_addr_shift [OF assms full(1)] nth_append nth_tl)
    qed
  qed
  ultimately show ?thesis by simp
qed

lemma buf_push_loop_Suc:
  "buf_push_loop m buf p src i (Suc n) =
     buf_push_loop (m(p := m (src + i))) (push_step buf) (ring_next buf p) src (i + 1) n"
  by (simp add: push_step_def ring_next_def Let_def)

lemma buf_push_loop_spec:
  assumes "ring_ok buf" "disjoint_range (src + i) n (cb_data buf) (cb_totalsize buf)"
    and "buf_push_loop m buf (ring_addr buf (cb_size buf)) src i n = (m', buf', p')"
  shows "ring_ok buf' \<and> p' = ring_addr buf' (cb_size buf') \<and>
         cb_totalsize buf' = cb_totalsize buf \<and> cb_data buf' = cb_data buf \<and>
         buf_list m' buf' = lastn (cb_totalsize buf) (buf_list m buf @ mem_bytes m (src + i) n)"
  using assms
proof (induction n arbitrary: m buf i)
  case 0
  then show ?case by (auto simp: ring_ok_def)
next
  case (Suc n)
  let ?a = "ring_addr buf (cb_size buf)"
  let ?m = "m(?a := m (src + i))" and ?b = "push_step buf"
  have a: "cb_data buf \<le> ?a" "?a < cb_data buf + cb_totalsize buf"
    using ring_addr_bounds [OF Suc.prems(1)] Suc.prems(1) by (auto simp: ring_ok_def)
  have dis: "disjoint_range (src + (i + 1)) n (cb_data ?b) (cb_totalsize ?b)"
    using Suc.prems(2) by (auto simp: disjoint_range_def)
  have run: "buf_push_loop ?m ?b (ring_addr ?b (cb_size ?b)) src (i + 1) n = (m', buf', p')"
    using Suc.prems(3) ring_addr_push_step [OF Suc.prems(1)] ring_next_addr [OF Suc.prems(1)]
    by (simp add: buf_push_loop_Suc del: buf_push_loop.simps)
  have bytes: "mem_bytes ?m (Suc (src + i)) n = mem_bytes m (Suc (src + i)) n"
    using a Suc.prems(2) by (intro mem_bytes_cong) (auto simp: disjoint_range_def)
  from Suc.IH [OF push_step_ok [OF Suc.prems(1)] dis run]
  show ?case
    by (simp add: bytes buf_list_push_step [OF Suc.prems(1)] lastn_lastn_append mem_bytes_Suc
        del: fun_upd_apply)
qed

section \<open>The operations on the queue\<close>

lemma buf_init_wf: "0 < sz \<Longrightarrow> buf_init p sz = (buf, r) \<Longrightarrow> buf_wf buf \<and> buf_list m buf = []"
  by (auto simp: buf_init_def buf_wf_def ring_addr_def buf_list_def)

lemma ring_addr_pop:
  assumes "ring_ok buf"
  shows "ring_addr (buf\<lparr>cb_top := ring_addr buf k\<rparr>) i = ring_addr buf (k + i)"
  using assms by (simp add: ring_addr_def ring_ok_def mod_add_left_eq add.assoc)

text \<open>
  \<open>buf_pop\<close> copies the oldest \<open>min len size\<close> bytes of the ring to the destination, in order, and
  removes exactly those bytes; the ring stays well-formed.
\<close>

theorem buf_pop_queue:
  assumes "buf_wf buf" "disjoint_range dest len (cb_data buf) (cb_totalsize buf)"
    and "buf_pop m buf dest len = (m', buf', r)"
  shows "r = min len (cb_size buf) \<and> buf_wf buf' \<and>
         mem_bytes m' dest r = take r (buf_list m buf) \<and>
         buf_list m' buf' = drop r (buf_list m buf)"
proof -
  have ok: "ring_ok buf" and tail: "cb_tail buf = ring_addr buf (cb_size buf)"
    using assms(1) by (simp_all add: buf_wf_iff)
  let ?n = "min len (cb_size buf)"
  let ?bs = "map (\<lambda>j. m (ring_addr buf j)) [0..<?n]"
  have dis: "disjoint_range (dest + 0) ?n (cb_data buf) (cb_totalsize buf)"
    using assms(2) by (auto simp: disjoint_range_def)
  have loop: "buf_pop_loop m buf (cb_top buf) dest 0 ?n = (mem_store m dest ?bs, ring_addr buf ?n)"
    using buf_pop_loop_eq [OF ok dis, of m 0] ring_addr_0 [OF ok] by simp
  have n: "(if len > cb_size buf then cb_size buf else len) = ?n" by simp
  have r: "r = ?n" and m': "m' = mem_store m dest ?bs"
    and b': "buf' = buf\<lparr>cb_top := ring_addr buf ?n, cb_size := cb_size buf - ?n\<rparr>"
    using assms(3) loop unfolding buf_pop_def n Let_def by auto
  have same: "m' (ring_addr buf i) = m (ring_addr buf i)" for i
    using dis ring_addr_bounds [OF ok, of i] ok unfolding m'
    by (intro mem_store_other) (auto simp: disjoint_range_def ring_ok_def)
  have "buf_wf buf'"
    using ok ring_addr_bounds [OF ok, of ?n] ring_addr_pop [OF ok, of ?n "cb_size buf - ?n"]
    by (auto simp: b' buf_wf_iff ring_ok_def tail)
  moreover have "mem_bytes m' dest r = take r (buf_list m buf)"
    by (simp add: m' r mem_simps buf_list_def take_map)
  moreover have "buf_list m' buf' = drop r (buf_list m buf)"
    by (rule nth_equalityI) (auto simp: b' r nth_buf_list ring_addr_pop [OF ok] same)
  ultimately show ?thesis using r by simp
qed

definition demo_ring :: circbuf_t where
  "demo_ring = \<lparr>cb_size = 3, cb_totalsize = 4, cb_top = 102, cb_tail = 101, cb_data = 100, cb_end = 104\<rparr>"

definition demo_mem :: mem where
  "demo_mem = (\<lambda>a. if a = 100 then 3 else if a = 102 then 1 else if a = 103 then 2 else word_of_nat a)"

lemma demo_ring_wf: "buf_wf demo_ring"
  by (simp add: demo_ring_def buf_wf_def ring_addr_def)

theorem buf_pop_queue_witness:
  "let (m', buf', r) = buf_pop demo_mem demo_ring 200 2
   in r = 2 \<and> mem_bytes m' 200 2 = [1, 2] \<and> buf_list m' buf' = [3]"
proof -
  obtain m' buf' r where run: "buf_pop demo_mem demo_ring 200 2 = (m', buf', r)" by (metis prod_cases3)
  have l: "buf_list demo_mem demo_ring = [1, 2, 3]" by code_simp
  have "disjoint_range 200 2 (cb_data demo_ring) (cb_totalsize demo_ring)" "cb_size demo_ring = 3"
    by (simp_all add: disjoint_range_def demo_ring_def)
  with buf_pop_queue [OF demo_ring_wf _ run] l run show ?thesis by auto
qed

text \<open>
  C30. \<open>buf_push\<close> appends all its bytes and keeps the newest \<open>totalsize\<close> of them: what is lost when
  too much is pushed is the oldest data, never the newest. The ring stays well-formed.
\<close>

theorem buf_push_queue:
  assumes "buf_wf buf" "disjoint_range src len (cb_data buf) (cb_totalsize buf)"
    and "buf_push m buf src len = (m', buf', r)"
  shows "r = len \<and> buf_wf buf' \<and> cb_totalsize buf' = cb_totalsize buf \<and> cb_data buf' = cb_data buf \<and>
         buf_list m' buf' = lastn (cb_totalsize buf) (buf_list m buf @ mem_bytes m src len)"
proof -
  obtain b p where run: "buf_push_loop m buf (ring_addr buf (cb_size buf)) src 0 len = (m', b, p)"
    and b: "buf' = b\<lparr>cb_tail := p\<rparr>" and r: "r = len"
    using assms(1,3) by (auto simp: buf_push_def buf_wf_iff split: prod.splits)
  from assms(1) have ok: "ring_ok buf" by (simp add: buf_wf_iff)
  from buf_push_loop_spec [OF ok _ run] assms(2) show ?thesis
    by (simp add: b r buf_wf_iff ring_ok_def)
qed

theorem buf_push_queue_witness:
  "let (m', buf', r) = buf_push demo_mem demo_ring 50 3
   in r = 3 \<and> buf_list m' buf' = [3, 50, 51, 52]"
proof -
  obtain m' buf' r where run: "buf_push demo_mem demo_ring 50 3 = (m', buf', r)" by (metis prod_cases3)
  have l: "lastn (cb_totalsize demo_ring) (buf_list demo_mem demo_ring @ mem_bytes demo_mem 50 3) = [3, 50, 51, 52]"
    by code_simp
  have "disjoint_range 50 3 (cb_data demo_ring) (cb_totalsize demo_ring)"
    by (simp add: disjoint_range_def demo_ring_def)
  with buf_push_queue [OF demo_ring_wf _ run] l run show ?thesis by simp
qed

end
