(* ===== verification/Interfaces.thy ===== *)
theory Interfaces
  imports Prelude
begin

text \<open>
  The contracts between components, as locales. A provider interprets a locale on its own
  definitions in its theory; the lemmas proved here once then hold of it.

  \<^item> \<open>block_allocator\<close>: what the boot code relies on when it asks the logical memory blocks for
    memory.
  \<^item> \<open>byte_fifo\<close>: what the users of a memory buffer rely on when they put and get single bytes.
  \<^item> \<open>string_map\<close>: what the environment import relies on when it enters and deletes variables.
  \<^item> \<open>read_cache\<close>: what the block layer relies on when it puts a cache in front of its devices.
\<close>

section \<open>Allocators of address ranges\<close>

text \<open>A sequence of requests, with the ranges that were granted, as start and length.\<close>

fun run_allocs :: "('s \<Rightarrow> 'q \<Rightarrow> 's \<times> nat option) \<Rightarrow> ('q \<Rightarrow> nat) \<Rightarrow> 's \<Rightarrow> 'q list \<Rightarrow> 's \<times> (nat \<times> nat) list" where
  "run_allocs alloc len s [] = (s, [])"
| "run_allocs alloc len s (q # qs) =
     (case alloc s q of
        (s', None) \<Rightarrow> run_allocs alloc len s' qs
      | (s', Some b) \<Rightarrow> (case run_allocs alloc len s' qs of (s'', rs) \<Rightarrow> (s'', (b, len q) # rs)))"

definition range_set :: "nat \<times> nat \<Rightarrow> nat set" where
  "range_set r = {fst r..<fst r + snd r}"

locale block_allocator =
  fixes inv :: "'s \<Rightarrow> bool"
    and taken :: "'s \<Rightarrow> nat set"
    and ok :: "'q \<Rightarrow> bool"
    and len :: "'q \<Rightarrow> nat"
    and alloc :: "'s \<Rightarrow> 'q \<Rightarrow> 's \<times> nat option"
  assumes alloc_inv: "inv s \<Longrightarrow> ok q \<Longrightarrow> alloc s q = (s', r) \<Longrightarrow> inv s'"
    and alloc_fail: "inv s \<Longrightarrow> ok q \<Longrightarrow> alloc s q = (s', None) \<Longrightarrow> taken s' = taken s"
    and alloc_fresh: "inv s \<Longrightarrow> ok q \<Longrightarrow> alloc s q = (s', Some b) \<Longrightarrow> range_set (b, len q) \<inter> taken s = {}"
    and alloc_taken: "inv s \<Longrightarrow> ok q \<Longrightarrow> alloc s q = (s', Some b) \<Longrightarrow> taken s' = taken s \<union> range_set (b, len q)"
begin

lemma run_allocs_spec:
  assumes "inv s" "\<forall>q \<in> set qs. ok q" "run_allocs alloc len s qs = (s', rs)"
  shows "inv s' \<and> taken s' = taken s \<union> \<Union> (range_set ` set rs) \<and>
    (\<forall>r \<in> set rs. range_set r \<inter> taken s = {}) \<and>
    sorted_wrt (\<lambda>r r'. range_set r \<inter> range_set r' = {}) rs"
  using assms
proof (induction qs arbitrary: s rs)
  case (Cons q qs)
  obtain s1 r where a: "alloc s q = (s1, r)" by fastforce
  have i1: "inv s1" using alloc_inv a Cons.prems by auto
  show ?case
  proof (cases r)
    case None
    then show ?thesis
      using Cons.IH [OF i1] Cons.prems a alloc_fail [of s q s1] by simp
  next
    case (Some b)
    obtain rs' where rs': "run_allocs alloc len s1 qs = (s', rs')" "rs = (b, len q) # rs'"
      using Cons.prems(3) a Some by (auto split: prod.splits)
    have t: "taken s1 = taken s \<union> range_set (b, len q)" "range_set (b, len q) \<inter> taken s = {}"
      using alloc_taken alloc_fresh a Some Cons.prems by auto
    show ?thesis
      using Cons.IH [OF i1 _ rs'(1)] Cons.prems(2) t rs'(2) by (simp add: Int_Un_distrib) blast
  qed
qed simp

end

section \<open>Bounded queues of bytes\<close>

datatype fifo_op = Put u8 | Get

text \<open>What each operation of a sequence returned: whether the byte was taken, or the byte read.\<close>

fun run_fifo ::
  "('s \<Rightarrow> u8 \<Rightarrow> 's \<times> bool) \<Rightarrow> ('s \<Rightarrow> 's \<times> int) \<Rightarrow> 's \<Rightarrow> fifo_op list \<Rightarrow> 's \<times> (bool + int) list" where
  "run_fifo put get s [] = (s, [])"
| "run_fifo put get s (Put c # ops) =
     (case put s c of (s', ok) \<Rightarrow> case run_fifo put get s' ops of (s'', rs) \<Rightarrow> (s'', Inl ok # rs))"
| "run_fifo put get s (Get # ops) =
     (case get s of (s', r) \<Rightarrow> case run_fifo put get s' ops of (s'', rs) \<Rightarrow> (s'', Inr r # rs))"

text \<open>The specification: a list of at most \<open>cap\<close> bytes.\<close>

definition fifo_put :: "nat \<Rightarrow> u8 list \<Rightarrow> u8 \<Rightarrow> u8 list \<times> bool" where
  "fifo_put cap q c = (if length q < cap then (q @ [c], True) else (q, False))"

fun fifo_get :: "u8 list \<Rightarrow> u8 list \<times> int" where
  "fifo_get [] = ([], - 1)"
| "fifo_get (c # q) = (q, uint c)"

locale byte_fifo =
  fixes inv :: "'s \<Rightarrow> bool"
    and items :: "'s \<Rightarrow> u8 list"
    and cap :: "'s \<Rightarrow> nat"
    and put :: "'s \<Rightarrow> u8 \<Rightarrow> 's \<times> bool"
    and get :: "'s \<Rightarrow> 's \<times> int"
  assumes put_law: "inv s \<Longrightarrow> put s c = (s', ok) \<Longrightarrow>
      inv s' \<and> cap s' = cap s \<and> fifo_put (cap s) (items s) c = (items s', ok)"
    and get_law: "inv s \<Longrightarrow> get s = (s', r) \<Longrightarrow> inv s' \<and> cap s' = cap s \<and> fifo_get (items s) = (items s', r)"
begin

lemma run_refines:
  assumes "inv s" "run_fifo put get s ops = (s', rs)"
  shows "inv s' \<and> run_fifo (fifo_put (cap s)) fifo_get (items s) ops = (items s', rs)"
  using assms
proof (induction ops arbitrary: s rs)
  case (Cons op ops)
  show ?case
  proof (cases op)
    case (Put c)
    obtain s1 ok rs1 where r: "put s c = (s1, ok)" "run_fifo put get s1 ops = (s', rs1)" "rs = Inl ok # rs1"
      using Cons.prems(2) Put by (auto split: prod.splits)
    then show ?thesis using Cons.IH [OF _ r(2)] put_law [OF Cons.prems(1) r(1)] Put by simp
  next
    case Get
    obtain s1 b rs1 where r: "get s = (s1, b)" "run_fifo put get s1 ops = (s', rs1)" "rs = Inr b # rs1"
      using Cons.prems(2) Get by (auto split: prod.splits)
    then show ?thesis using Cons.IH [OF _ r(2)] get_law [OF Cons.prems(1) r(1)] Get by simp
  qed
qed simp

end

section \<open>Maps of strings\<close>

datatype map_op = Enter "u8 list" "u8 list" | Del "u8 list"

fun op_key :: "map_op \<Rightarrow> u8 list" where
  "op_key (Enter k d) = k"
| "op_key (Del k) = k"

text \<open>What a sequence of changes does to a map.\<close>

fun map_step :: "map_op \<Rightarrow> (u8 list \<rightharpoonup> u8 list) \<Rightarrow> (u8 list \<rightharpoonup> u8 list)" where
  "map_step (Enter k d) f = f(k \<mapsto> d)"
| "map_step (Del k) f = f(k := None)"

fun run_map :: "('s \<Rightarrow> u8 list \<Rightarrow> u8 list \<Rightarrow> 's) \<Rightarrow> ('s \<Rightarrow> u8 list \<Rightarrow> 's) \<Rightarrow> map_op list \<Rightarrow> 's \<Rightarrow> 's" where
  "run_map enter del [] s = s"
| "run_map enter del (Enter k d # ops) s = run_map enter del ops (enter s k d)"
| "run_map enter del (Del k # ops) s = run_map enter del ops (del s k)"

locale string_map =
  fixes inv :: "'s \<Rightarrow> bool"
    and entries :: "'s \<Rightarrow> (u8 list \<rightharpoonup> u8 list)"
    and cap :: "'s \<Rightarrow> nat"
    and enter :: "'s \<Rightarrow> u8 list \<Rightarrow> u8 list \<Rightarrow> 's"
    and del :: "'s \<Rightarrow> u8 list \<Rightarrow> 's"
  assumes enter_law: "inv s \<Longrightarrow> k \<in> dom (entries s) \<or> card (dom (entries s)) < cap s \<Longrightarrow>
      inv (enter s k d) \<and> cap (enter s k d) = cap s \<and> entries (enter s k d) = (entries s)(k \<mapsto> d)"
    and del_law: "inv s \<Longrightarrow> inv (del s k) \<and> cap (del s k) = cap s \<and> entries (del s k) = (entries s)(k := None)"
    and finite_law: "finite (dom (entries s))"
begin

lemma enter_room:
  assumes "card (dom (entries s) \<union> insert k K) \<le> cap s" "finite K"
  shows "k \<in> dom (entries s) \<or> card (dom (entries s)) < cap s"
proof (rule disjCI)
  assume "\<not> card (dom (entries s)) < cap s"
  then have "card (dom (entries s) \<union> insert k K) \<le> card (dom (entries s))" using assms(1) by simp
  then have "dom (entries s) = dom (entries s) \<union> insert k K"
    using finite_law [of s] assms(2) by (intro card_seteq) auto
  then show "k \<in> dom (entries s)" by blast
qed

lemma run_map_spec:
  assumes "inv s" "card (dom (entries s) \<union> op_key ` set ops) \<le> cap s"
  shows "inv (run_map enter del ops s) \<and> cap (run_map enter del ops s) = cap s \<and>
    entries (run_map enter del ops s) = fold map_step ops (entries s)"
  using assms
proof (induction ops arbitrary: s)
  case (Cons op ops)
  let ?K = "op_key ` set ops"
  show ?case
  proof (cases op)
    case (Enter k d)
    have room: "k \<in> dom (entries s) \<or> card (dom (entries s)) < cap s"
      using enter_room [of s k ?K] Cons.prems(2) Enter by simp
    have "dom (entries (enter s k d)) \<union> ?K = dom (entries s) \<union> op_key ` set (op # ops)"
      using enter_law [OF Cons.prems(1) room, of d] Enter by auto
    then show ?thesis using Cons enter_law [OF Cons.prems(1) room, of d] Enter by simp
  next
    case (Del k)
    have "card (dom (entries (del s k)) \<union> ?K) \<le> card (dom (entries s) \<union> op_key ` set (op # ops))"
      using del_law [OF Cons.prems(1), of k] Del finite_law [of s] by (intro card_mono) auto
    then have "card (dom (entries (del s k)) \<union> ?K) \<le> cap (del s k)"
      using Cons.prems(2) del_law [OF Cons.prems(1), of k] by simp
    from Cons.IH [OF _ this] show ?thesis using del_law [OF Cons.prems(1), of k] Del by (simp del: fun_upd_apply)
  qed
qed simp

end

section \<open>Caches in front of devices\<close>

text \<open>
  A client reads ranges of devices and changes devices. Through a cache, a read asks the cache first
  and fills it on a miss, and a change of a device drops what the cache holds of that device.
\<close>

datatype ('d, 'r, 'w) dev_op = Dread 'd 'r | Dwrite 'd 'w

fun run_direct :: "('i \<Rightarrow> 'r \<Rightarrow> 'v) \<Rightarrow> ('i \<Rightarrow> 'w \<Rightarrow> 'i) \<Rightarrow> ('d \<Rightarrow> 'i) \<Rightarrow> ('d, 'r, 'w) dev_op list \<Rightarrow> ('d \<Rightarrow> 'i) \<times> 'v list" where
  "run_direct view upd img [] = (img, [])"
| "run_direct view upd img (Dread d r # ops) =
     (case run_direct view upd img ops of (img', vs) \<Rightarrow> (img', view (img d) r # vs))"
| "run_direct view upd img (Dwrite d w # ops) = run_direct view upd (img(d := upd (img d) w)) ops"

fun run_cached ::
  "('c \<Rightarrow> 'd \<Rightarrow> 'r \<Rightarrow> 'c \<times> 'v option) \<Rightarrow> ('c \<Rightarrow> 'd \<Rightarrow> 'r \<Rightarrow> 'v \<Rightarrow> 'c) \<Rightarrow> ('c \<Rightarrow> 'd \<Rightarrow> 'c) \<Rightarrow>
   ('i \<Rightarrow> 'r \<Rightarrow> 'v) \<Rightarrow> ('i \<Rightarrow> 'w \<Rightarrow> 'i) \<Rightarrow> 'c \<Rightarrow> ('d \<Rightarrow> 'i) \<Rightarrow> ('d, 'r, 'w) dev_op list \<Rightarrow> ('c \<times> ('d \<Rightarrow> 'i)) \<times> 'v list" where
  "run_cached lookup fill_c drop_dev view upd c img [] = ((c, img), [])"
| "run_cached lookup fill_c drop_dev view upd c img (Dread d r # ops) =
     (case lookup c d r of
        (c', Some v) \<Rightarrow>
          (case run_cached lookup fill_c drop_dev view upd c' img ops of (s, vs) \<Rightarrow> (s, v # vs))
      | (c', None) \<Rightarrow>
          let v = view (img d) r
          in case run_cached lookup fill_c drop_dev view upd (fill_c c' d r v) img ops of (s, vs) \<Rightarrow> (s, v # vs))"
| "run_cached lookup fill_c drop_dev view upd c img (Dwrite d w # ops) =
     run_cached lookup fill_c drop_dev view upd (drop_dev c d) (img(d := upd (img d) w)) ops"

fun reads_ok :: "('r \<Rightarrow> bool) \<Rightarrow> ('d, 'r, 'w) dev_op \<Rightarrow> bool" where
  "reads_ok ok (Dread d r) = ok r"
| "reads_ok ok (Dwrite d w) = True"

locale read_cache =
  fixes coherent :: "'c \<Rightarrow> ('d \<Rightarrow> 'i) \<Rightarrow> bool"
    and ok :: "'r \<Rightarrow> bool"
    and view :: "'i \<Rightarrow> 'r \<Rightarrow> 'v"
    and lookup :: "'c \<Rightarrow> 'd \<Rightarrow> 'r \<Rightarrow> 'c \<times> 'v option"
    and fill_c :: "'c \<Rightarrow> 'd \<Rightarrow> 'r \<Rightarrow> 'v \<Rightarrow> 'c"
    and drop_dev :: "'c \<Rightarrow> 'd \<Rightarrow> 'c"
  assumes lookup_hit: "coherent c img \<Longrightarrow> ok r \<Longrightarrow> lookup c d r = (c', Some v) \<Longrightarrow> v = view (img d) r"
    and lookup_keeps: "coherent c img \<Longrightarrow> ok r \<Longrightarrow> lookup c d r = (c', x) \<Longrightarrow> coherent c' img"
    and fill_keeps: "coherent c img \<Longrightarrow> ok r \<Longrightarrow> coherent (fill_c c d r (view (img d) r)) img"
    and drop_keeps: "coherent c img \<Longrightarrow> coherent (drop_dev c d) (img(d := i))"
begin

lemma run_cached_direct:
  assumes "coherent c img" "\<forall>op\<in>set ops. reads_ok ok op"
  shows "\<exists>c'. run_cached lookup fill_c drop_dev view upd c img ops =
           ((c', fst (run_direct view upd img ops)), snd (run_direct view upd img ops)) \<and>
           coherent c' (fst (run_direct view upd img ops))"
  using assms
proof (induction ops arbitrary: c img)
  case (Cons op ops)
  show ?case
  proof (cases op)
    case (Dread d r)
    then have r: "ok r" using Cons.prems(2) by simp
    obtain c1 x where l: "lookup c d r = (c1, x)" by fastforce
    have c1: "coherent c1 img" using lookup_keeps [OF Cons.prems(1) r l] .
    show ?thesis
    proof (cases x)
      case None
      then show ?thesis
        using Cons.IH [OF fill_keeps [OF c1 r, of d]] Cons.prems(2) Dread l
        by (auto simp: Let_def split: prod.splits)
    next
      case (Some v)
      then have "v = view (img d) r" using lookup_hit [OF Cons.prems(1) r] l by blast
      then show ?thesis using Cons.IH [OF c1] Cons.prems(2) Dread l Some by (auto split: prod.splits)
    qed
  next
    case (Dwrite d w)
    then show ?thesis using Cons.IH [OF drop_keeps [OF Cons.prems(1)], of d "upd (img d) w"] Cons.prems(2) by (simp add: fun_upd_def)
  qed
qed simp

end


section \<open>Block devices\<close>

text \<open>
  A block device as its users see it: a state whose content is a function from byte addresses, a read
  that returns the number of blocks and their bytes, and a write that stores whole blocks. Requests
  whose last block number or byte count wraps are not covered.
\<close>

definition request_fits :: "u64 \<Rightarrow> u64 \<Rightarrow> u64 \<Rightarrow> bool" where
  "request_fits blksz s n \<longleftrightarrow> unat s + unat n < 2 ^ 64 \<and> unat n * unat blksz < 2 ^ 64"

locale block_store =
  fixes inv :: "'d \<Rightarrow> bool"
    and content :: "'d \<Rightarrow> mem"
    and blksz :: u64
    and dread :: "'d \<Rightarrow> u64 \<Rightarrow> u64 \<Rightarrow> 'd \<times> u64 \<times> u8 list"
    and dwrite :: "'d \<Rightarrow> u64 \<Rightarrow> u64 \<Rightarrow> u8 list \<Rightarrow> 'd \<times> u64"
  assumes dread_law: "inv d \<Longrightarrow> request_fits blksz s n \<Longrightarrow>
      \<exists>d'. dread d s n = (d', n, mem_bytes (content d) (unat s * unat blksz) (unat n * unat blksz)) \<and>
        inv d' \<and> content d' = content d"
    and dwrite_law: "inv d \<Longrightarrow> request_fits blksz s n \<Longrightarrow> length bs = unat n * unat blksz \<Longrightarrow>
      \<exists>d'. dwrite d s n bs = (d', n) \<and> inv d' \<and> content d' = mem_store (content d) (unat s * unat blksz) bs"
begin

lemma write_read:
  assumes "inv d" "request_fits blksz s n" "length bs = unat n * unat blksz"
  shows "\<exists>d1 d2. dwrite d s n bs = (d1, n) \<and> dread d1 s n = (d2, n, bs) \<and> inv d2 \<and> content d2 = content d1"
proof -
  obtain d1 where d1: "dwrite d s n bs = (d1, n)" "inv d1" "content d1 = mem_store (content d) (unat s * unat blksz) bs"
    using dwrite_law [OF assms] by blast
  show ?thesis using dread_law [OF d1(2) assms(2)] d1 assms(3) by (auto simp: mem_store_same)
qed

end

end
