(* ===== verification/Lmb.thy ===== *)
theory Lmb
  imports Interfaces
begin

text \<open>
  The logical memory blocks of \<open>lib/lmb.c\<close>: the boot-time table of memory regions and of
  reservations. A table (\<open>struct lmb_region\<close>) is an array of \<open>max\<close> entries of which the first
  \<open>cnt\<close> are in use; addresses and sizes are 64-bit words that wrap around.

  The abstract view of a table is the partial function \<open>region_map\<close> from addresses to flags.
  On well-formed tables (non-empty regions, sorted, disjoint) the lemmas give the effect of
  adding, freeing and allocating on that function.
\<close>

section \<open>Model\<close>

record lmb_property =
  lp_base :: u64
  lp_size :: u64
  lp_flags :: u32

abbreviation (input) LMB_NONE :: u32 where "LMB_NONE \<equiv> 0"
abbreviation (input) LMB_NOMAP :: u32 where "LMB_NOMAP \<equiv> 4"
abbreviation (input) LMB_ALLOC_ANYWHERE :: u64 where "LMB_ALLOC_ANYWHERE \<equiv> 0"

record lmb_region =
  rg_cnt :: nat
  rg_max :: nat
  rg_region :: "lmb_property list"

record lmb =
  lmb_memory :: lmb_region
  lmb_reserved :: lmb_region

definition lmb_addrs_overlap :: "u64 \<Rightarrow> u64 \<Rightarrow> u64 \<Rightarrow> u64 \<Rightarrow> bool" where
  "lmb_addrs_overlap base1 size1 base2 size2 =
     (let base1_end = base1 + size1 - 1;
          base2_end = base2 + size2 - 1
      in base1 \<le> base2_end \<and> base2 \<le> base1_end)"

definition lmb_addrs_adjacent :: "u64 \<Rightarrow> u64 \<Rightarrow> u64 \<Rightarrow> u64 \<Rightarrow> int" where
  "lmb_addrs_adjacent base1 size1 base2 size2 =
     (if base2 = base1 + size1 then 1
      else if base1 = base2 + size2 then - 1
      else 0)"

definition lmb_regions_overlap :: "lmb_region \<Rightarrow> nat \<Rightarrow> nat \<Rightarrow> bool" where
  "lmb_regions_overlap rgn r1 r2 =
     lmb_addrs_overlap (lp_base (rg_region rgn ! r1)) (lp_size (rg_region rgn ! r1))
       (lp_base (rg_region rgn ! r2)) (lp_size (rg_region rgn ! r2))"

definition lmb_regions_adjacent :: "lmb_region \<Rightarrow> nat \<Rightarrow> nat \<Rightarrow> int" where
  "lmb_regions_adjacent rgn r1 r2 =
     lmb_addrs_adjacent (lp_base (rg_region rgn ! r1)) (lp_size (rg_region rgn ! r1))
       (lp_base (rg_region rgn ! r2)) (lp_size (rg_region rgn ! r2))"

text \<open>The shift loop of \<open>lmb_remove_region\<close>; the last argument is the number of iterations left.\<close>

fun remove_shift :: "lmb_property list \<Rightarrow> nat \<Rightarrow> nat \<Rightarrow> lmb_property list" where
  "remove_shift rs i 0 = rs"
| "remove_shift rs i (Suc n) = remove_shift (rs[i := rs ! (i + 1)]) (i + 1) n"

definition lmb_remove_region :: "lmb_region \<Rightarrow> nat \<Rightarrow> lmb_region" where
  "lmb_remove_region rgn r =
     rgn\<lparr>rg_region := remove_shift (rg_region rgn) r (rg_cnt rgn - 1 - r), rg_cnt := rg_cnt rgn - 1\<rparr>"

definition upd_region :: "lmb_region \<Rightarrow> nat \<Rightarrow> (lmb_property \<Rightarrow> lmb_property) \<Rightarrow> lmb_region" where
  "upd_region rgn i f = rgn\<lparr>rg_region := (rg_region rgn)[i := f (rg_region rgn ! i)]\<rparr>"

definition lmb_coalesce_regions :: "lmb_region \<Rightarrow> nat \<Rightarrow> nat \<Rightarrow> lmb_region" where
  "lmb_coalesce_regions rgn r1 r2 =
     lmb_remove_region
       (upd_region rgn r1 (\<lambda>p. p\<lparr>lp_size := lp_size p + lp_size (rg_region rgn ! r2)\<rparr>)) r2"

definition lmb_fix_over_lap_regions :: "lmb_region \<Rightarrow> nat \<Rightarrow> nat \<Rightarrow> lmb_region" where
  "lmb_fix_over_lap_regions rgn r1 r2 =
     (let base1 = lp_base (rg_region rgn ! r1); size1 = lp_size (rg_region rgn ! r1);
          base2 = lp_base (rg_region rgn ! r2); size2 = lp_size (rg_region rgn ! r2)
      in if base1 + size1 > base2 + size2 then rgn
         else lmb_remove_region
                (upd_region rgn r1 (\<lambda>p. p\<lparr>lp_size := base2 + size2 - base1\<rparr>)) r2)"

definition lmb_init :: "nat \<Rightarrow> nat \<Rightarrow> lmb \<Rightarrow> lmb" where
  "lmb_init memory_regions reserved_regions l =
     l\<lparr>lmb_memory := (lmb_memory l)\<lparr>rg_max := memory_regions, rg_cnt := 0\<rparr>,
       lmb_reserved := (lmb_reserved l)\<lparr>rg_max := reserved_regions, rg_cnt := 0\<rparr>\<rparr>"

text \<open>
  The scan of \<open>lmb_add_region_flags\<close>: \<open>Inl r\<close> is \<open>return r\<close>; \<open>Inr (rgn, i, coalesced)\<close> is leaving
  the loop, by a \<open>break\<close> or at its end, with the loop variable \<open>i\<close>.
\<close>

function add_scan :: "lmb_region \<Rightarrow> u64 \<Rightarrow> u64 \<Rightarrow> u32 \<Rightarrow> nat \<Rightarrow> int + lmb_region \<times> nat \<times> int" where
  "add_scan rgn base sz flags i =
     (if i < rg_cnt rgn then
        let rgnbase = lp_base (rg_region rgn ! i);
            rgnsize = lp_size (rg_region rgn ! i);
            rgnflags = lp_flags (rg_region rgn ! i);
            end_addr = base + sz - 1;
            rgnend = rgnbase + rgnsize - 1
        in if rgnbase \<le> base \<and> end_addr \<le> rgnend
           then (if flags = rgnflags then Inl 0 else Inl (- 1))
           else let adjacent = lmb_addrs_adjacent base sz rgnbase rgnsize
           in if adjacent > 0
              then (if flags \<noteq> rgnflags then Inr (rgn, i, 0)
                    else Inr (upd_region rgn i
                      (\<lambda>p. p\<lparr>lp_base := lp_base p - sz, lp_size := lp_size p + sz\<rparr>), i, 1))
              else if adjacent < 0
              then (if flags \<noteq> rgnflags then Inr (rgn, i, 0)
                    else Inr (upd_region rgn i (\<lambda>p. p\<lparr>lp_size := lp_size p + sz\<rparr>), i, 1))
              else if lmb_addrs_overlap base sz rgnbase rgnsize then Inl (- 1)
              else add_scan rgn base sz flags (i + 1)
      else Inr (rgn, i, 0))"
  by pat_completeness auto
termination
  by (relation "measure (\<lambda>(rgn, base, sz, flags, i). rg_cnt rgn - i)") auto

declare add_scan.simps [simp del]

text \<open>Merging entry \<open>i\<close>, which the scan may have grown, with its successor.\<close>

definition add_merge :: "lmb_region \<Rightarrow> nat \<Rightarrow> int \<Rightarrow> lmb_region \<times> int" where
  "add_merge rgn i coalesced =
     (if i < rg_cnt rgn - 1 \<and> lp_flags (rg_region rgn ! i) = lp_flags (rg_region rgn ! (i + 1)) then
        if lmb_regions_adjacent rgn i (i + 1) \<noteq> 0
        then (lmb_coalesce_regions rgn i (i + 1), coalesced + 1)
        else if lmb_regions_overlap rgn i (i + 1)
        then (lmb_fix_over_lap_regions rgn i (i + 1), coalesced + 1)
        else (rgn, coalesced)
      else (rgn, coalesced))"

text \<open>The insertion loop, from \<open>i = cnt - 1\<close> down: the argument \<open>Suc i\<close> stands for the loop variable \<open>i\<close>.\<close>

fun insert_shift :: "lmb_property list \<Rightarrow> lmb_property \<Rightarrow> nat \<Rightarrow> lmb_property list" where
  "insert_shift rs p 0 = rs"
| "insert_shift rs p (Suc i) =
     (if lp_base p < lp_base (rs ! i) then insert_shift (rs[i + 1 := rs ! i]) p i
      else rs[i + 1 := p])"

definition lmb_add_region_flags :: "lmb_region \<Rightarrow> u64 \<Rightarrow> u64 \<Rightarrow> u32 \<Rightarrow> lmb_region \<times> int" where
  "lmb_add_region_flags rgn base sz flags =
     (let new = \<lparr>lp_base = base, lp_size = sz, lp_flags = flags\<rparr> in
      if rg_cnt rgn = 0
      then (rgn\<lparr>rg_region := (rg_region rgn)[0 := new], rg_cnt := 1\<rparr>, 0)
      else case add_scan rgn base sz flags 0 of
        Inl r \<Rightarrow> (rgn, r)
      | Inr (rgn1, i, co) \<Rightarrow>
          (case add_merge rgn1 i co of (rgn2, coalesced) \<Rightarrow>
             if coalesced \<noteq> 0 then (rgn2, coalesced)
             else if rg_cnt rgn2 \<ge> rg_max rgn2 then (rgn2, - 1)
             else let rs = insert_shift (rg_region rgn2) new (rg_cnt rgn2);
                      rs' = (if base < lp_base (rs ! 0) then rs[0 := new] else rs)
                  in (rgn2\<lparr>rg_region := rs', rg_cnt := rg_cnt rgn2 + 1\<rparr>, 0)))"

definition lmb_add_region :: "lmb_region \<Rightarrow> u64 \<Rightarrow> u64 \<Rightarrow> lmb_region \<times> int" where
  "lmb_add_region rgn base sz = lmb_add_region_flags rgn base sz LMB_NONE"

definition lmb_add :: "lmb \<Rightarrow> u64 \<Rightarrow> u64 \<Rightarrow> lmb \<times> int" where
  "lmb_add l base sz =
     (case lmb_add_region (lmb_memory l) base sz of (rgn, r) \<Rightarrow> (l\<lparr>lmb_memory := rgn\<rparr>, r))"

text \<open>The search loop of \<open>lmb_free\<close>: the index at which it stops, \<open>cnt\<close> when nothing matches.\<close>

function free_find :: "lmb_region \<Rightarrow> u64 \<Rightarrow> u64 \<Rightarrow> nat \<Rightarrow> nat" where
  "free_find rgn base end_addr i =
     (if i < rg_cnt rgn then
        let rgnbegin = lp_base (rg_region rgn ! i);
            rgnend = rgnbegin + lp_size (rg_region rgn ! i) - 1
        in if rgnbegin \<le> base \<and> end_addr \<le> rgnend then i else free_find rgn base end_addr (i + 1)
      else i)"
  by pat_completeness auto
termination
  by (relation "measure (\<lambda>(rgn, base, e, i). rg_cnt rgn - i)") auto

declare free_find.simps [simp del]

definition lmb_free :: "lmb \<Rightarrow> u64 \<Rightarrow> u64 \<Rightarrow> lmb \<times> int" where
  "lmb_free l base sz =
     (let rgn = lmb_reserved l;
          end_addr = base + sz - 1;
          i = free_find rgn base end_addr 0
      in if i = rg_cnt rgn then (l, - 1)
         else
           let rgnbegin = lp_base (rg_region rgn ! i);
               rgnend = rgnbegin + lp_size (rg_region rgn ! i) - 1
           in if rgnbegin = base \<and> rgnend = end_addr
              then (l\<lparr>lmb_reserved := lmb_remove_region rgn i\<rparr>, 0)
              else if rgnbegin = base
              then (l\<lparr>lmb_reserved := upd_region rgn i
                       (\<lambda>p. p\<lparr>lp_base := end_addr + 1, lp_size := lp_size p - sz\<rparr>)\<rparr>, 0)
              else if rgnend = end_addr
              then (l\<lparr>lmb_reserved := upd_region rgn i (\<lambda>p. p\<lparr>lp_size := lp_size p - sz\<rparr>)\<rparr>, 0)
              else
                let rgn' = upd_region rgn i (\<lambda>p. p\<lparr>lp_size := base - lp_base p\<rparr>)
                in case lmb_add_region_flags rgn' (end_addr + 1) (rgnend - end_addr)
                          (lp_flags (rg_region rgn' ! i)) of
                     (rgn'', r) \<Rightarrow> (l\<lparr>lmb_reserved := rgn''\<rparr>, r))"

definition lmb_reserve_flags :: "lmb \<Rightarrow> u64 \<Rightarrow> u64 \<Rightarrow> u32 \<Rightarrow> lmb \<times> int" where
  "lmb_reserve_flags l base sz flags =
     (case lmb_add_region_flags (lmb_reserved l) base sz flags of
        (rgn, r) \<Rightarrow> (l\<lparr>lmb_reserved := rgn\<rparr>, r))"

definition lmb_reserve :: "lmb \<Rightarrow> u64 \<Rightarrow> u64 \<Rightarrow> lmb \<times> int" where
  "lmb_reserve l base sz = lmb_reserve_flags l base sz LMB_NONE"

function overlaps_find :: "lmb_region \<Rightarrow> u64 \<Rightarrow> u64 \<Rightarrow> nat \<Rightarrow> int" where
  "overlaps_find rgn base sz i =
     (if i < rg_cnt rgn then
        if lmb_addrs_overlap base sz (lp_base (rg_region rgn ! i)) (lp_size (rg_region rgn ! i))
        then int i
        else overlaps_find rgn base sz (i + 1)
      else - 1)"
  by pat_completeness auto
termination
  by (relation "measure (\<lambda>(rgn, base, sz, i). rg_cnt rgn - i)") auto

declare overlaps_find.simps [simp del]

definition lmb_overlaps_region :: "lmb_region \<Rightarrow> u64 \<Rightarrow> u64 \<Rightarrow> int" where
  "lmb_overlaps_region rgn base sz = overlaps_find rgn base sz 0"

definition lmb_align_down :: "u64 \<Rightarrow> u64 \<Rightarrow> u64" where
  "lmb_align_down addr sz = addr AND NOT (sz - 1)"

lemma lmb_align_down_le: "lmb_align_down a s \<le> a"
  by (simp add: lmb_align_down_def word_and_le2)

lemma overlaps_find_overlap:
  assumes "overlaps_find rgn base sz i = int k"
  shows "k < rg_cnt rgn \<and>
    lmb_addrs_overlap base sz (lp_base (rg_region rgn ! k)) (lp_size (rg_region rgn ! k))"
  using assms
proof (induction rgn base sz i rule: overlaps_find.induct)
  case (1 rgn base sz i)
  then show ?case
    by (simp add: overlaps_find.simps [of rgn base sz i] split: if_splits)
qed

lemma overlap_step_down:
  assumes "lmb_addrs_overlap base sz rb rs" "\<not> rb < sz" "base \<noteq> 0"
  shows "rb - sz < base"
proof -
  have "unat rb \<le> unat (base + sz - 1)" "unat sz \<le> unat rb"
    using assms by (simp_all add: lmb_addrs_overlap_def word_le_nat_alt not_less)
  moreover have "0 < unat base" using assms(3) by (simp add: unat_gt_0)
  ultimately show ?thesis by unat_arith
qed

text \<open>
  The inner loop of \<open>__lmb_alloc_base\<close>, which moves the candidate below each reservation it
  meets: \<open>Some\<close> when the function returns from it, \<open>None\<close> when the loop is left. The candidate
  goes down strictly, whatever the alignment, so the loop ends.
\<close>

function alloc_while :: "lmb \<Rightarrow> u64 \<Rightarrow> u64 \<Rightarrow> u64 \<Rightarrow> u64 \<Rightarrow> (lmb \<times> u64) option" where
  "alloc_while l lmbbase base sz align =
     (if base \<noteq> 0 \<and> lmbbase \<le> base then
        let rgn = lmb_overlaps_region (lmb_reserved l) base sz
        in if rgn < 0 then
             (case lmb_add_region (lmb_reserved l) base sz of
                (rg, r) \<Rightarrow> Some (l\<lparr>lmb_reserved := rg\<rparr>, if r < 0 then 0 else base))
           else
             let res_base = lp_base (rg_region (lmb_reserved l) ! nat rgn)
             in if res_base < sz then None
                else alloc_while l lmbbase (lmb_align_down (res_base - sz) align) sz align
      else None)"
  by pat_completeness auto
termination
proof (relation "measure (\<lambda>(l, lmbbase, base, sz, align). unat base)", goal_cases)
  case (2 l lmbbase base sz align rgn res_base)
  then have k: "overlaps_find (lmb_reserved l) base sz 0 = int (nat rgn)"
    by (simp add: lmb_overlaps_region_def)
  with 2 overlaps_find_overlap [OF k] have "res_base - sz < base"
    by (blast intro: overlap_step_down)
  then have "lmb_align_down (res_base - sz) align < base"
    using lmb_align_down_le by (rule order.strict_trans1 [rotated])
  then show ?case by (simp add: word_less_nat_alt)
qed simp

declare alloc_while.simps [simp del]

text \<open>The outer loop, from the last memory region down; \<open>Suc i\<close> stands for the loop variable \<open>i\<close>.\<close>

fun alloc_regions :: "lmb \<Rightarrow> u64 \<Rightarrow> u64 \<Rightarrow> u64 \<Rightarrow> nat \<Rightarrow> lmb \<times> u64" where
  "alloc_regions l sz align max_addr 0 = (l, 0)"
| "alloc_regions l sz align max_addr (Suc i) =
     (let lmbbase = lp_base (rg_region (lmb_memory l) ! i);
          lmbsize = lp_size (rg_region (lmb_memory l) ! i)
      in if lmbsize < sz then alloc_regions l sz align max_addr i
         else if max_addr = LMB_ALLOC_ANYWHERE then
           (case alloc_while l lmbbase (lmb_align_down (lmbbase + lmbsize - sz) align) sz align of
              Some res \<Rightarrow> res | None \<Rightarrow> alloc_regions l sz align max_addr i)
         else if lmbbase < max_addr then
           (let base0 = lmbbase + lmbsize;
                base1 = (if base0 < lmbbase then - 1 else base0);
                base2 = min base1 max_addr
            in case alloc_while l lmbbase (lmb_align_down (base2 - sz) align) sz align of
                 Some res \<Rightarrow> res | None \<Rightarrow> alloc_regions l sz align max_addr i)
         else alloc_regions l sz align max_addr i)"

definition lmb_alloc_base_raw :: "lmb \<Rightarrow> u64 \<Rightarrow> u64 \<Rightarrow> u64 \<Rightarrow> lmb \<times> u64" where
  "lmb_alloc_base_raw l sz align max_addr =
     alloc_regions l sz align max_addr (rg_cnt (lmb_memory l))"

text \<open>\<open>lmb_alloc_base\<close> prints a message when the allocation failed and returns the same value.\<close>

definition lmb_alloc_base :: "lmb \<Rightarrow> u64 \<Rightarrow> u64 \<Rightarrow> u64 \<Rightarrow> lmb \<times> u64" where
  "lmb_alloc_base l sz align max_addr = lmb_alloc_base_raw l sz align max_addr"

definition lmb_alloc :: "lmb \<Rightarrow> u64 \<Rightarrow> u64 \<Rightarrow> lmb \<times> u64" where
  "lmb_alloc l sz align = lmb_alloc_base l sz align LMB_ALLOC_ANYWHERE"

definition lmb_alloc_addr :: "lmb \<Rightarrow> u64 \<Rightarrow> u64 \<Rightarrow> lmb \<times> u64" where
  "lmb_alloc_addr l base sz =
     (let rgn = lmb_overlaps_region (lmb_memory l) base sz
      in if rgn \<ge> 0 \<and>
            lmb_addrs_overlap (lp_base (rg_region (lmb_memory l) ! nat rgn))
              (lp_size (rg_region (lmb_memory l) ! nat rgn)) (base + sz - 1) 1
         then (case lmb_reserve l base sz of (l', r) \<Rightarrow> (l', if r \<ge> 0 then base else 0))
         else (l, 0))"

function free_size_loop :: "lmb \<Rightarrow> u64 \<Rightarrow> nat \<Rightarrow> u64" where
  "free_size_loop l addr i =
     (if i < rg_cnt (lmb_reserved l) then
        let p = rg_region (lmb_reserved l) ! i
        in if addr < lp_base p then lp_base p - addr
           else if lp_base p + lp_size p > addr then 0
           else free_size_loop l addr (i + 1)
      else
        let p = rg_region (lmb_memory l) ! (rg_cnt (lmb_memory l) - 1)
        in lp_base p + lp_size p - addr)"
  by pat_completeness auto
termination
  by (relation "measure (\<lambda>(l, addr, i). rg_cnt (lmb_reserved l) - i)") auto

declare free_size_loop.simps [simp del]

definition lmb_get_free_size :: "lmb \<Rightarrow> u64 \<Rightarrow> u64" where
  "lmb_get_free_size l addr =
     (if lmb_overlaps_region (lmb_memory l) addr 1 \<ge> 0 then free_size_loop l addr 0 else 0)"

function reserved_flags_loop :: "lmb \<Rightarrow> u64 \<Rightarrow> u32 \<Rightarrow> nat \<Rightarrow> bool" where
  "reserved_flags_loop l addr flags i =
     (if i < rg_cnt (lmb_reserved l) then
        let p = rg_region (lmb_reserved l) ! i;
            upper = lp_base p + lp_size p - 1
        in if addr \<ge> lp_base p \<and> addr \<le> upper then (lp_flags p AND flags) = flags
           else reserved_flags_loop l addr flags (i + 1)
      else False)"
  by pat_completeness auto
termination
  by (relation "measure (\<lambda>(l, addr, flags, i). rg_cnt (lmb_reserved l) - i)") auto

declare reserved_flags_loop.simps [simp del]

definition lmb_is_reserved_flags :: "lmb \<Rightarrow> u64 \<Rightarrow> u32 \<Rightarrow> bool" where
  "lmb_is_reserved_flags l addr flags = reserved_flags_loop l addr flags 0"

definition lmb_is_reserved :: "lmb \<Rightarrow> u64 \<Rightarrow> bool" where
  "lmb_is_reserved l addr = lmb_is_reserved_flags l addr LMB_NONE"

text \<open>
  \<open>arch_lmb_reserve_generic\<close>: the banks of \<open>gd->bd->bi_dram\<close> as a list of start and size, and
  the monitor's start and length when it was not relocated (\<open>GD_FLG_SKIP_RELOC\<close>).
\<close>

fun reserve_generic_loop :: "lmb \<Rightarrow> u64 \<Rightarrow> u64 \<Rightarrow> (u64 \<times> u64) option \<Rightarrow> (u64 \<times> u64) list \<Rightarrow> lmb" where
  "reserve_generic_loop l sp end_addr skip_reloc [] = l"
| "reserve_generic_loop l sp end_addr skip_reloc ((start, sz) # banks) =
     (if sz = 0 \<or> sp < start then reserve_generic_loop l sp end_addr skip_reloc banks
      else
        let bank_end = start + sz - 1
        in if sp > bank_end then reserve_generic_loop l sp end_addr skip_reloc banks
           else
             let bank_end' = (if bank_end > end_addr then end_addr - 1 else bank_end);
                 l1 = fst (lmb_reserve l sp (bank_end' - sp + 1))
             in (case skip_reloc of
                   None \<Rightarrow> l1
                 | Some (mon_start, mon_len) \<Rightarrow> fst (lmb_reserve l1 mon_start mon_len)))"

definition arch_lmb_reserve_generic ::
  "lmb \<Rightarrow> u64 \<Rightarrow> u64 \<Rightarrow> u64 \<Rightarrow> (u64 \<times> u64) option \<Rightarrow> (u64 \<times> u64) list \<Rightarrow> lmb" where
  "arch_lmb_reserve_generic l sp end_addr align skip_reloc banks =
     reserve_generic_loop l (sp - align) end_addr skip_reloc banks"

text \<open>
  \<open>lmb_init_and_reserve\<close> and \<open>lmb_init_and_reserve_range\<close>; \<open>reserve_common\<close> stands for the
  architecture, board, device-tree and EFI hooks of \<open>lmb_reserve_common\<close>.
\<close>

definition add_banks :: "lmb \<Rightarrow> (u64 \<times> u64) list \<Rightarrow> lmb" where
  "add_banks l banks = foldl (\<lambda>l (start, sz). if sz \<noteq> 0 then fst (lmb_add l start sz) else l) l banks"

definition lmb_init_and_reserve ::
  "(lmb \<Rightarrow> lmb) \<Rightarrow> nat \<Rightarrow> nat \<Rightarrow> lmb \<Rightarrow> (u64 \<times> u64) list \<Rightarrow> lmb" where
  "lmb_init_and_reserve reserve_common nmem nres l banks =
     reserve_common (add_banks (lmb_init nmem nres l) banks)"

definition lmb_init_and_reserve_range ::
  "(lmb \<Rightarrow> lmb) \<Rightarrow> nat \<Rightarrow> nat \<Rightarrow> lmb \<Rightarrow> u64 \<Rightarrow> u64 \<Rightarrow> lmb" where
  "lmb_init_and_reserve_range reserve_common nmem nres l base sz =
     reserve_common (fst (lmb_add (lmb_init nmem nres l) base sz))"

section \<open>Well-formed tables and the map they stand for\<close>

definition lo :: "lmb_property \<Rightarrow> nat" where "lo p = unat (lp_base p)"
definition hi :: "lmb_property \<Rightarrow> nat" where "hi p = unat (lp_base p) + unat (lp_size p)"

definition valid_region :: "lmb_property \<Rightarrow> bool" where
  "valid_region p \<longleftrightarrow> lp_size p \<noteq> 0 \<and> hi p < 2 ^ 64"

text \<open>The entries in use.\<close>

definition regions :: "lmb_region \<Rightarrow> lmb_property list" where
  "regions rgn = take (rg_cnt rgn) (rg_region rgn)"

definition sorted_regions :: "lmb_property list \<Rightarrow> bool" where
  "sorted_regions xs \<longleftrightarrow> (\<forall>p \<in> set xs. valid_region p) \<and> sorted_wrt (\<lambda>p q. hi p \<le> lo q) xs"

definition rgn_wf :: "lmb_region \<Rightarrow> bool" where
  "rgn_wf rgn \<longleftrightarrow> rg_cnt rgn \<le> rg_max rgn \<and> 0 < rg_max rgn \<and> length (rg_region rgn) = rg_max rgn \<and>
     sorted_regions (regions rgn)"

text \<open>No two neighbours with the same flags touch: there is nothing left to merge.\<close>

definition merged :: "lmb_property list \<Rightarrow> bool" where
  "merged xs \<longleftrightarrow> successively (\<lambda>p q. hi p = lo q \<longrightarrow> lp_flags p \<noteq> lp_flags q) xs"

text \<open>The flags of the region that holds an address.\<close>

fun region_map :: "lmb_property list \<Rightarrow> nat \<Rightarrow> u32 option" where
  "region_map [] a = None"
| "region_map (p # ps) a = (if lo p \<le> a \<and> a < hi p then Some (lp_flags p) else region_map ps a)"

abbreviation reserved_at :: "lmb_region \<Rightarrow> nat \<Rightarrow> u32 option" where
  "reserved_at rgn \<equiv> region_map (regions rgn)"

definition range_free :: "lmb_property list \<Rightarrow> nat \<Rightarrow> nat \<Rightarrow> bool" where
  "range_free xs b n \<longleftrightarrow> (\<forall>p \<in> set xs. hi p \<le> b \<or> b + n \<le> lo p)"

lemma lo_less_hi: "valid_region p \<Longrightarrow> lo p < hi p"
  by (simp add: valid_region_def lo_def hi_def unat_gt_0)

lemma region_map_append: "region_map (xs @ ys) a = (case region_map xs a of None \<Rightarrow> region_map ys a | r \<Rightarrow> r)"
  by (induction xs) auto

lemma region_map_mid:
  "region_map (ys @ x # ws @ zs) a =
     (case region_map ys a of None \<Rightarrow>
        (case region_map (x # ws) a of None \<Rightarrow> region_map zs a | Some f \<Rightarrow> Some f) | Some f \<Rightarrow> Some f)"
  by (simp add: region_map_append split: option.splits)

lemma region_map_None: "region_map xs a = None \<longleftrightarrow> (\<forall>p \<in> set xs. \<not> (lo p \<le> a \<and> a < hi p))"
  by (induction xs) auto

lemma region_map_SomeD: "region_map xs a = Some f \<Longrightarrow> \<exists>q \<in> set xs. lo q \<le> a \<and> a < hi q \<and> lp_flags q = f"
  by (induction xs) (auto split: if_splits)

lemma sorted_regions_append:
  "sorted_regions (xs @ ys) \<longleftrightarrow>
     sorted_regions xs \<and> sorted_regions ys \<and> (\<forall>p \<in> set xs. \<forall>q \<in> set ys. hi p \<le> lo q)"
  by (auto simp: sorted_regions_def sorted_wrt_append)

lemma sorted_regions_Cons:
  "sorted_regions (p # xs) \<longleftrightarrow> valid_region p \<and> sorted_regions xs \<and> (\<forall>q \<in> set xs. hi p \<le> lo q)"
  by (auto simp: sorted_regions_def)

lemma sorted_regions_Nil [simp]: "sorted_regions []"
  by (simp add: sorted_regions_def)

text \<open>The word comparisons of the code on valid regions.\<close>

lemma unat_end:
  fixes b s :: u64
  assumes "s \<noteq> 0" "unat b + unat s < 2 ^ 64"
  shows "unat (b + s) = unat b + unat s" "unat (b + s - 1) = unat b + unat s - 1"
proof -
  show sum: "unat (b + s) = unat b + unat s" using assms by (simp add: unat_plus_no_wrap)
  have "0 < unat s" using assms by (simp add: unat_gt_0)
  then have "1 \<le> b + s" by (simp add: word_le_nat_alt sum)
  then show "unat (b + s - 1) = unat b + unat s - 1" by (simp add: unat_sub sum)
qed

lemma region_end:
  assumes "valid_region x"
  shows "unat (lp_base x + lp_size x - 1) = hi x - 1" "0 < hi x"
  using assms lo_less_hi [OF assms] unat_end(2) [of "lp_size x" "lp_base x"]
  by (auto simp: valid_region_def hi_def)

lemma addrs_overlap_iff:
  assumes "s1 \<noteq> 0" "unat b1 + unat s1 < 2 ^ 64" "s2 \<noteq> 0" "unat b2 + unat s2 < 2 ^ 64"
  shows "lmb_addrs_overlap b1 s1 b2 s2 \<longleftrightarrow>
           unat b1 < unat b2 + unat s2 \<and> unat b2 < unat b1 + unat s1"
proof -
  have "0 < unat s1" "0 < unat s2" using assms by (simp_all add: unat_gt_0)
  then show ?thesis
    using unat_end(2) [OF assms(1,2)] unat_end(2) [OF assms(3,4)]
    by (auto simp: lmb_addrs_overlap_def word_le_nat_alt)
qed

lemma addrs_adjacent_valid:
  fixes b1 s1 b2 s2 :: u64
  assumes "s1 \<noteq> 0" "unat b1 + unat s1 < 2 ^ 64" "s2 \<noteq> 0" "unat b2 + unat s2 < 2 ^ 64"
  shows "lmb_addrs_adjacent b1 s1 b2 s2 =
     (if unat b2 = unat b1 + unat s1 then 1 else if unat b1 = unat b2 + unat s2 then - 1 else 0)"
  using unat_end(1) [OF assms(1,2)] unat_end(1) [OF assms(3,4)]
  by (simp add: lmb_addrs_adjacent_def word_unat_eq_iff)

lemma addrs_adjacent_regions:
  assumes "valid_region p" "valid_region q"
  shows "lmb_addrs_adjacent (lp_base p) (lp_size p) (lp_base q) (lp_size q) =
     (if hi p = lo q then 1 else if hi q = lo p then - 1 else 0)"
  using assms addrs_adjacent_valid [of "lp_size p" "lp_base p" "lp_size q" "lp_base q"]
  by (auto simp: valid_region_def hi_def lo_def)

lemma addrs_overlap_regions:
  assumes "valid_region p" "valid_region q"
  shows "lmb_addrs_overlap (lp_base p) (lp_size p) (lp_base q) (lp_size q) \<longleftrightarrow> lo p < hi q \<and> lo q < hi p"
  using assms addrs_overlap_iff [of "lp_size p" "lp_base p" "lp_size q" "lp_base q"]
  by (auto simp: valid_region_def hi_def lo_def)

lemma region_contains_iff:
  assumes "valid_region p" "valid_region q"
  shows "lp_base q \<le> lp_base p \<and> lp_base p + lp_size p - 1 \<le> lp_base q + lp_size q - 1 \<longleftrightarrow>
         lo q \<le> lo p \<and> hi p \<le> hi q"
proof -
  have "0 < unat (lp_size p)" "0 < unat (lp_size q)"
    using assms by (simp_all add: valid_region_def unat_gt_0)
  then show ?thesis
    using assms unat_end(2) [of "lp_size p" "lp_base p"] unat_end(2) [of "lp_size q" "lp_base q"]
    by (auto simp: valid_region_def hi_def lo_def word_le_nat_alt)
qed

section \<open>The array loops as list operations\<close>

lemma remove_shift_props:
  "length (remove_shift rs i n) = length rs \<and>
   (i + n < length rs \<longrightarrow> (\<forall>j < length rs.
      remove_shift rs i n ! j = (if i \<le> j \<and> j < i + n then rs ! (j + 1) else rs ! j)))"
  by (induction n arbitrary: rs i) (auto simp: nth_list_update)

lemma regions_remove:
  assumes "r < rg_cnt rgn" "rg_cnt rgn \<le> length (rg_region rgn)" "regions rgn = ys @ x # zs" "length ys = r"
  shows "regions (lmb_remove_region rgn r) = ys @ zs"
proof (rule nth_equalityI)
  have len: "length ys + length zs + 1 = rg_cnt rgn"
    using arg_cong [OF assms(3), of length] assms(2) by (simp add: regions_def)
  have elt: "rg_region rgn ! j = (ys @ x # zs) ! j" if "j < rg_cnt rgn" for j
    using that by (simp add: assms(3) [symmetric] regions_def)
  show "length (regions (lmb_remove_region rgn r)) = length (ys @ zs)"
    using len assms(2) by (simp add: regions_def lmb_remove_region_def remove_shift_props)
  fix j assume "j < length (regions (lmb_remove_region rgn r))"
  then have "j < rg_cnt rgn - 1" by (simp add: regions_def lmb_remove_region_def)
  with assms len elt show "regions (lmb_remove_region rgn r) ! j = (ys @ zs) ! j"
    by (auto simp: regions_def lmb_remove_region_def remove_shift_props nth_append)
qed

lemma remove_region_frame [simp]:
  "rg_max (lmb_remove_region rgn r) = rg_max rgn" "rg_cnt (lmb_remove_region rgn r) = rg_cnt rgn - 1"
  "length (rg_region (lmb_remove_region rgn r)) = length (rg_region rgn)"
  by (simp_all add: lmb_remove_region_def remove_shift_props)

lemma upd_region_frame [simp]:
  "rg_max (upd_region rgn i f) = rg_max rgn" "rg_cnt (upd_region rgn i f) = rg_cnt rgn"
  "length (rg_region (upd_region rgn i f)) = length (rg_region rgn)"
  by (simp_all add: upd_region_def)

lemma regions_upd:
  assumes "regions rgn = ys @ x # zs" "length ys = i" "rg_cnt rgn \<le> length (rg_region rgn)"
  shows "regions (upd_region rgn i f) = ys @ f x # zs"
proof -
  have i: "i < rg_cnt rgn"
    using arg_cong [OF assms(1), of length] assms(2,3) by (simp add: regions_def)
  then have "rg_region rgn ! i = regions rgn ! i" by (simp add: regions_def)
  also have "\<dots> = x" using assms by (simp add: nth_append)
  finally have "regions (upd_region rgn i f) = (regions rgn)[i := f x]"
    by (simp add: regions_def upd_region_def take_update_swap)
  then show ?thesis using assms by (simp add: list_update_append)
qed

lemma regions_nth: "i < rg_cnt rgn \<Longrightarrow> rg_region rgn ! i = regions rgn ! i"
  by (simp add: regions_def)

lemma regions_mem:
  "i < rg_cnt rgn \<Longrightarrow> rg_cnt rgn \<le> length (rg_region rgn) \<Longrightarrow> rg_region rgn ! i \<in> set (regions rgn)"
  by (metis length_take min.absorb2 nth_mem nth_take regions_def)

lemma rgn_wf_valid: "rgn_wf rgn \<Longrightarrow> q \<in> set (regions rgn) \<Longrightarrow> valid_region q"
  by (simp add: rgn_wf_def sorted_regions_def)

lemma regions_split:
  assumes "i < rg_cnt rgn" "rg_cnt rgn \<le> length (rg_region rgn)"
  obtains ys x zs where "regions rgn = ys @ x # zs" "length ys = i" "x = regions rgn ! i"
proof
  have i: "i < length (regions rgn)" using assms by (simp add: regions_def)
  show "regions rgn = take i (regions rgn) @ regions rgn ! i # drop (Suc i) (regions rgn)"
    using i by (rule id_take_nth_drop)
  show "length (take i (regions rgn)) = i" using i by simp
qed simp

lemma insert_shift_above:
  assumes "\<forall>z \<in> set zs. lp_base p < lp_base z" "ys \<noteq> []" "\<not> lp_base p < lp_base (last ys)"
  shows "insert_shift (ys @ zs @ w # rest) p (length ys + length zs) = ys @ p # zs @ rest"
  using assms
proof (induction zs arbitrary: w rest rule: rev_induct)
  case Nil
  then obtain ys' y where "ys = ys' @ [y]" by (metis append_butlast_last_id)
  with Nil show ?case by (simp add: nth_append list_update_append)
next
  case (snoc z zs)
  have "(ys @ zs @ z # w # rest)[Suc (length ys + length zs) := z] = ys @ zs @ z # z # rest"
    using list_update_append [of "ys @ zs @ [z]" "w # rest" "Suc (length ys + length zs)" z] by simp
  then show ?case using snoc.IH [of z "z # rest"] snoc.prems by (simp add: nth_append)
qed

lemma insert_shift_front:
  assumes "\<forall>z \<in> set zs. lp_base p < lp_base z" "zs \<noteq> []"
  shows "insert_shift (zs @ w # rest) p (length zs) = hd zs # zs @ rest"
  using assms
proof (induction zs arbitrary: w rest rule: rev_induct)
  case (snoc z zs)
  have upd: "(zs @ z # w # rest)[Suc (length zs) := z] = zs @ z # z # rest"
    using list_update_append [of "zs @ [z]" "w # rest" "Suc (length zs)" z] by simp
  show ?case
  proof (cases "zs = []")
    case False
    then show ?thesis using upd snoc.IH [of z "z # rest"] snoc.prems by (simp add: nth_append)
  qed (use snoc.prems in simp)
qed simp

section \<open>Adding a region that meets no entry\<close>

text \<open>Where the scan stops when the new region \<open>p\<close> is disjoint from every entry.\<close>

definition touches :: "lmb_property \<Rightarrow> lmb_property \<Rightarrow> bool" where
  "touches p q \<longleftrightarrow> hi p = lo q \<or> hi q = lo p"

definition grow_down :: "u64 \<Rightarrow> lmb_property \<Rightarrow> lmb_property" where
  "grow_down sz = (\<lambda>p. p\<lparr>lp_base := lp_base p - sz, lp_size := lp_size p + sz\<rparr>)"

definition grow_up :: "u64 \<Rightarrow> lmb_property \<Rightarrow> lmb_property" where
  "grow_up sz = (\<lambda>p. p\<lparr>lp_size := lp_size p + sz\<rparr>)"

definition scan_result :: "lmb_region \<Rightarrow> lmb_property \<Rightarrow> nat \<Rightarrow> lmb_region \<times> nat \<times> int" where
  "scan_result rgn p i =
     (let q = regions rgn ! i in
      if i = rg_cnt rgn \<or> lp_flags p \<noteq> lp_flags q then (rgn, i, 0)
      else if hi p = lo q then (upd_region rgn i (grow_down (lp_size p)), i, 1)
      else (upd_region rgn i (grow_up (lp_size p)), i, 1))"

lemma add_scan_free:
  assumes "\<forall>q \<in> set (regions rgn). valid_region q \<and> (hi q \<le> lo p \<or> hi p \<le> lo q)" "valid_region p"
    and "rg_cnt rgn \<le> length (rg_region rgn)" "i \<le> rg_cnt rgn"
  shows "\<exists>j. i \<le> j \<and> j \<le> rg_cnt rgn \<and> (\<forall>k. i \<le> k \<and> k < j \<longrightarrow> \<not> touches p (regions rgn ! k)) \<and>
     (j < rg_cnt rgn \<longrightarrow> touches p (regions rgn ! j)) \<and>
     add_scan rgn (lp_base p) (lp_size p) (lp_flags p) i = Inr (scan_result rgn p j)"
  using assms(4)
proof (induction "rg_cnt rgn - i" arbitrary: i)
  case 0
  then show ?case
    by (intro exI [of _ i]) (auto simp: add_scan.simps scan_result_def Let_def)
next
  case (Suc n)
  then have i: "i < rg_cnt rgn" by simp
  let ?q = "regions rgn ! i"
  have "?q \<in> set (regions rgn)"
    using i assms(3) by (intro nth_mem) (simp add: regions_def)
  then have q: "valid_region ?q" "hi ?q \<le> lo p \<or> hi p \<le> lo ?q" using assms(1) by auto
  have lt: "lo p < hi p" "lo ?q < hi ?q" using lo_less_hi q(1) assms(2) by auto
  have notin: "\<not> (lp_base ?q \<le> lp_base p \<and> lp_base p + lp_size p - 1 \<le> lp_base ?q + lp_size ?q - 1)"
    using region_contains_iff [OF assms(2) q(1)] q(2) lt by auto
  have noover: "\<not> lmb_addrs_overlap (lp_base p) (lp_size p) (lp_base ?q) (lp_size ?q)"
    using addrs_overlap_regions [OF assms(2) q(1)] q(2) by auto
  note step = add_scan.simps [of rgn "lp_base p" "lp_size p" "lp_flags p" i]
    addrs_adjacent_regions [OF assms(2) q(1)] regions_nth [OF i] notin noover i
  show ?case
  proof (cases "touches p ?q")
    case True
    then have "add_scan rgn (lp_base p) (lp_size p) (lp_flags p) i = Inr (scan_result rgn p i)"
      using step by (auto simp: Let_def scan_result_def touches_def grow_down_def grow_up_def)
    with True i show ?thesis by (intro exI [of _ i]) auto
  next
    case False
    then have eq: "add_scan rgn (lp_base p) (lp_size p) (lp_flags p) i =
        add_scan rgn (lp_base p) (lp_size p) (lp_flags p) (Suc i)"
      using step by (auto simp: Let_def touches_def)
    have "n = rg_cnt rgn - Suc i" using Suc.hyps(2) by simp
    from Suc.hyps(1) [OF this] i obtain j where
      j: "Suc i \<le> j" "j \<le> rg_cnt rgn" "\<forall>k. Suc i \<le> k \<and> k < j \<longrightarrow> \<not> touches p (regions rgn ! k)"
      "j < rg_cnt rgn \<longrightarrow> touches p (regions rgn ! j)"
      "add_scan rgn (lp_base p) (lp_size p) (lp_flags p) (Suc i) = Inr (scan_result rgn p j)"
      by (auto simp: Suc_le_eq)
    have "\<forall>k. i \<le> k \<and> k < j \<longrightarrow> \<not> touches p (regions rgn ! k)"
      using False j(3) by (metis Suc_leI le_neq_implies_less)
    with j eq show ?thesis by (intro exI [of _ j]) auto
  qed
qed

lemma region_map_split:
  assumes "sorted_regions (ys @ x # zs)"
  shows "region_map (ys @ x # zs) a =
     (if lo x \<le> a \<and> a < hi x then Some (lp_flags x) else region_map (ys @ zs) a)"
proof -
  have "region_map ys a = None" if "lo x \<le> a"
    using assms that by (force simp: sorted_regions_append region_map_None)
  then show ?thesis by (auto simp: region_map_append split: option.splits)
qed

lemma grow_down_props:
  assumes "valid_region p" "valid_region q" "hi p = lo q"
  shows "lo (grow_down (lp_size p) q) = lo p" "hi (grow_down (lp_size p) q) = hi q"
    "valid_region (grow_down (lp_size p) q)" "lp_flags (grow_down (lp_size p) q) = lp_flags q"
proof -
  have b: "lp_base q = lp_base p + lp_size p"
    using assms unat_end(1) [of "lp_size p" "lp_base p"]
    by (simp add: valid_region_def hi_def lo_def word_unat_eq_iff)
  have s: "unat (lp_size q + lp_size p) = unat (lp_size q) + unat (lp_size p)"
    using assms by (intro unat_plus_no_wrap) (simp add: valid_region_def hi_def lo_def)
  have "0 < unat (lp_size p)" using assms by (simp add: valid_region_def unat_gt_0)
  with s have "lp_size q + lp_size p \<noteq> 0" by (metis add_eq_0_iff_both_eq_0 less_irrefl unat_0)
  then show "lo (grow_down (lp_size p) q) = lo p" "hi (grow_down (lp_size p) q) = hi q"
    "valid_region (grow_down (lp_size p) q)" "lp_flags (grow_down (lp_size p) q) = lp_flags q"
    using assms s b by (simp_all add: grow_down_def valid_region_def hi_def lo_def)
qed

lemma grow_up_props:
  assumes "valid_region p" "valid_region q" "hi q = lo p"
  shows "lo (grow_up (lp_size p) q) = lo q" "hi (grow_up (lp_size p) q) = hi p"
    "valid_region (grow_up (lp_size p) q)" "lp_flags (grow_up (lp_size p) q) = lp_flags q"
proof -
  have s: "unat (lp_size q + lp_size p) = unat (lp_size q) + unat (lp_size p)"
    using assms by (intro unat_plus_no_wrap) (simp add: valid_region_def hi_def lo_def)
  have "0 < unat (lp_size p)" using assms by (simp add: valid_region_def unat_gt_0)
  with s have "lp_size q + lp_size p \<noteq> 0" by (metis add_eq_0_iff_both_eq_0 less_irrefl unat_0)
  then show "lo (grow_up (lp_size p) q) = lo q" "hi (grow_up (lp_size p) q) = hi p"
    "valid_region (grow_up (lp_size p) q)" "lp_flags (grow_up (lp_size p) q) = lp_flags q"
    using assms s by (simp_all add: grow_up_def valid_region_def hi_def lo_def)
qed

lemma regions_length:
  "rg_cnt rgn \<le> length (rg_region rgn) \<Longrightarrow> regions rgn = xs \<Longrightarrow> length xs = rg_cnt rgn"
  by (auto simp: regions_def)

lemma regions_coalesce:
  assumes "regions rgn = ys @ x # z # zs" "rg_cnt rgn \<le> length (rg_region rgn)"
  shows "regions (lmb_coalesce_regions rgn (length ys) (length ys + 1)) = ys @ grow_up (lp_size z) x # zs"
proof -
  let ?r = "upd_region rgn (length ys) (grow_up (lp_size z))"
  have len: "length ys + 1 < rg_cnt rgn" using regions_length [OF assms(2,1)] by simp
  then have "rg_region rgn ! Suc (length ys) = z"
    by (simp add: regions_nth assms(1) nth_append)
  then have "lmb_coalesce_regions rgn (length ys) (length ys + 1) = lmb_remove_region ?r (length ys + 1)"
    by (simp add: lmb_coalesce_regions_def grow_up_def)
  moreover have "regions ?r = (ys @ [grow_up (lp_size z) x]) @ z # zs"
    using regions_upd [OF assms(1) refl assms(2)] by simp
  ultimately show ?thesis
    using regions_remove [of "length ys + 1" ?r "ys @ [grow_up (lp_size z) x]" z zs] len assms(2) by simp
qed

lemma add_merge_sorted:
  assumes "regions rgn = ys @ x # zs" "sorted_regions (ys @ x # zs)" "rg_cnt rgn \<le> length (rg_region rgn)"
  shows "add_merge rgn (length ys) co =
     (if zs \<noteq> [] \<and> lp_flags x = lp_flags (hd zs) \<and> hi x = lo (hd zs)
      then (lmb_coalesce_regions rgn (length ys) (length ys + 1), co + 1) else (rgn, co))"
proof (cases zs)
  case Nil
  have "\<not> length ys < rg_cnt rgn - 1" using regions_length [OF assms(3,1)] Nil by simp
  then show ?thesis by (simp add: add_merge_def Nil)
next
  case (Cons z zs')
  have v: "valid_region x" "valid_region z" "hi x \<le> lo z"
    using assms(2) Cons by (auto simp: sorted_regions_append sorted_regions_Cons)
  have len: "length ys + 1 < rg_cnt rgn" using regions_length [OF assms(3,1)] Cons by simp
  then have at: "rg_region rgn ! length ys = x" "rg_region rgn ! Suc (length ys) = z"
    using assms(1) Cons by (simp_all add: regions_nth nth_append)
  have "hi z \<noteq> lo x" "\<not> (lo x < hi z \<and> lo z < hi x)"
    using v lo_less_hi [OF v(1)] lo_less_hi [OF v(2)] by auto
  then show ?thesis
    using len v(3) Cons addrs_adjacent_regions [OF v(1,2)] addrs_overlap_regions [OF v(1,2)]
    by (auto simp: add_merge_def lmb_regions_adjacent_def lmb_regions_overlap_def at)
qed

definition insert_entry :: "lmb_region \<Rightarrow> lmb_property \<Rightarrow> lmb_region" where
  "insert_entry rgn p =
     (let rs = insert_shift (rg_region rgn) p (rg_cnt rgn);
          rs' = (if lp_base p < lp_base (rs ! 0) then rs[0 := p] else rs)
      in rgn\<lparr>rg_region := rs', rg_cnt := rg_cnt rgn + 1\<rparr>)"

lemma length_insert_shift [simp]: "length (insert_shift rs p i) = length rs"
  by (induction rs p i rule: insert_shift.induct) auto

lemma insert_entry_frame [simp]:
  "rg_max (insert_entry rgn p) = rg_max rgn" "rg_cnt (insert_entry rgn p) = rg_cnt rgn + 1"
  "length (rg_region (insert_entry rgn p)) = length (rg_region rgn)"
  by (simp_all add: insert_entry_def Let_def)

lemma regions_insert_entry:
  assumes "regions rgn = ys @ zs" "rg_cnt rgn < length (rg_region rgn)" "0 < rg_cnt rgn"
    and "\<forall>y \<in> set ys. lp_base y \<le> lp_base p" "\<forall>z \<in> set zs. lp_base p < lp_base z"
  shows "regions (insert_entry rgn p) = ys @ p # zs"
proof -
  obtain w rest where split: "rg_region rgn = ys @ zs @ w # rest"
    using assms(1,2) by (metis append.assoc append_take_drop_id drop_eq_Nil list.exhaust
        linorder_not_le regions_def)
  have cnt: "rg_cnt rgn = length ys + length zs"
    using regions_length [OF less_imp_le [OF assms(2)] assms(1)] by simp
  show ?thesis
  proof (cases "ys = []")
    case True
    then have "zs \<noteq> []" using cnt assms(3) by auto
    then show ?thesis
      using insert_shift_front [OF assms(5), of w rest] split cnt True assms(5)
      by (simp add: insert_entry_def Let_def regions_def hd_in_set)
  next
    case False
    then have "insert_shift (rg_region rgn) p (rg_cnt rgn) = ys @ p # zs @ rest"
      using insert_shift_above [OF assms(5) False, of w rest] split cnt assms(4)
      by (simp add: not_less)
    moreover have "\<not> lp_base p < lp_base (ys ! 0)" using False assms(4) by (simp add: not_less)
    ultimately show ?thesis
      using cnt False by (simp add: insert_entry_def Let_def regions_def nth_append)
  qed
qed

lemma sorted_split_at:
  assumes "sorted_regions xs" "\<forall>q \<in> set xs. hi q \<le> lo p \<or> hi p \<le> lo q" "valid_region p"
  obtains ys zs where "xs = ys @ zs" "\<forall>y \<in> set ys. hi y \<le> lo p" "\<forall>z \<in> set zs. hi p \<le> lo z"
proof
  let ?P = "\<lambda>q. hi q \<le> lo p"
  show "xs = takeWhile ?P xs @ dropWhile ?P xs" by simp
  show "\<forall>y \<in> set (takeWhile ?P xs). hi y \<le> lo p" by (auto dest: set_takeWhileD)
  show "\<forall>z \<in> set (dropWhile ?P xs). hi p \<le> lo z"
    using assms(1,2)
  proof (induction xs)
    case (Cons q qs)
    then show ?case
      using lo_less_hi [OF assms(3)] lo_less_hi [of q] by (fastforce simp: sorted_regions_Cons)
  qed simp
qed

lemma insert_free:
  assumes "rgn_wf rgn" "valid_region p" "rg_cnt rgn < rg_max rgn" "0 < rg_cnt rgn"
    and "\<forall>q \<in> set (regions rgn). hi q \<le> lo p \<or> hi p \<le> lo q"
  obtains ys zs where "regions rgn = ys @ zs" "regions (insert_entry rgn p) = ys @ p # zs"
    "sorted_regions (ys @ p # zs)" "\<forall>y \<in> set ys. hi y \<le> lo p" "\<forall>z \<in> set zs. hi p \<le> lo z"
proof -
  have sorted: "sorted_regions (regions rgn)" using assms(1) by (simp add: rgn_wf_def)
  from sorted_split_at [OF sorted assms(5,2)] obtain ys zs where
    xs: "regions rgn = ys @ zs" "\<forall>y \<in> set ys. hi y \<le> lo p" "\<forall>z \<in> set zs. hi p \<le> lo z" .
  have "lp_base y \<le> lp_base p" if "y \<in> set ys" for y
    using xs(2) that by (auto simp: word_le_nat_alt hi_def lo_def)
  moreover have "lp_base p < lp_base z" if "z \<in> set zs" for z
    using xs(3) that lo_less_hi [OF assms(2)] by (fastforce simp: word_less_nat_alt hi_def lo_def)
  ultimately have "regions (insert_entry rgn p) = ys @ p # zs"
    using xs(1) assms(1,3,4) by (intro regions_insert_entry) (auto simp: rgn_wf_def)
  moreover have "sorted_regions (ys @ p # zs)"
    using sorted xs assms(2) by (auto simp: sorted_regions_append sorted_regions_Cons)
  ultimately show ?thesis using that xs by blast
qed

text \<open>The table \<open>rgn'\<close> is \<open>rgn\<close> with the region \<open>p\<close> added.\<close>

definition added :: "lmb_region \<Rightarrow> lmb_property \<Rightarrow> lmb_region \<Rightarrow> bool" where
  "added rgn p rgn' \<longleftrightarrow> rgn_wf rgn' \<and> rg_max rgn' = rg_max rgn \<and>
     reserved_at rgn' = (\<lambda>a. if lo p \<le> a \<and> a < hi p then Some (lp_flags p) else reserved_at rgn a) \<and>
     ((\<forall>q \<in> set (regions rgn). lp_flags q = lp_flags p) \<longrightarrow>
        merged (regions rgn') \<and> (\<forall>q \<in> set (regions rgn'). lp_flags q = lp_flags p))"

lemma addedD:
  assumes "added rgn p rgn'"
  shows "rgn_wf rgn'" "reserved_at rgn' a = (if lo p \<le> a \<and> a < hi p then Some (lp_flags p) else reserved_at rgn a)"
  using assms by (simp_all add: added_def)

lemmas merged_simps = merged_def successively_append_iff successively_Cons

lemma added_empty:
  assumes "rgn_wf rgn" "valid_region p" "rg_cnt rgn = 0"
  shows "added rgn p (rgn\<lparr>rg_region := (rg_region rgn)[0 := p], rg_cnt := 1\<rparr>)"
proof -
  obtain w ws where "rg_region rgn = w # ws"
    using assms(1) by (cases "rg_region rgn") (auto simp: rgn_wf_def)
  then show ?thesis
    using assms by (auto simp: added_def rgn_wf_def regions_def sorted_regions_Cons merged_def)
qed

lemma added_insert:
  assumes "rgn_wf rgn" "merged (regions rgn)" "valid_region p" "rg_cnt rgn < rg_max rgn" "0 < rg_cnt rgn"
    and "\<forall>q \<in> set (regions rgn). hi q \<le> lo p \<or> hi p \<le> lo q"
    and "(\<forall>q \<in> set (regions rgn). lp_flags q = lp_flags p) \<longrightarrow> (\<forall>q \<in> set (regions rgn). \<not> touches p q)"
  shows "added rgn p (insert_entry rgn p)"
proof -
  obtain ys zs where xs: "regions rgn = ys @ zs" "regions (insert_entry rgn p) = ys @ p # zs"
    "sorted_regions (ys @ p # zs)"
    using insert_free [OF assms(1,3,4,5,6)] by metis
  have "merged (ys @ p # zs)" if "\<forall>q \<in> set (regions rgn). lp_flags q = lp_flags p"
  proof -
    have "ys \<noteq> [] \<Longrightarrow> \<not> touches p (last ys)" "zs \<noteq> [] \<Longrightarrow> \<not> touches p (hd zs)"
      using that assms(7) xs(1) by simp_all
    then show ?thesis
      using assms(2) by (cases zs) (auto simp: xs(1) merged_simps touches_def)
  qed
  moreover have "region_map (ys @ p # zs) =
      (\<lambda>a. if lo p \<le> a \<and> a < hi p then Some (lp_flags p) else region_map (ys @ zs) a)"
    by (rule ext) (rule region_map_split [OF xs(3)])
  ultimately show ?thesis
    using assms(1,4) by (auto simp: added_def rgn_wf_def xs)
qed

text \<open>Replacing the entry \<open>x\<close> by \<open>x'\<close> (and dropping \<open>ws\<close> after it) adds \<open>p\<close>.\<close>

lemma added_replace:
  assumes "rgn_wf rgn" "regions rgn = ys @ x # ws @ zs" "regions rgn' = ys @ x' # zs"
    and "rg_max rgn' = rg_max rgn" "rg_cnt rgn' \<le> rg_max rgn" "length (rg_region rgn') = length (rg_region rgn)"
    and "sorted_regions (ys @ x' # zs)" "lp_flags x' = lp_flags p" "merged (ys @ x' # zs)"
    and "\<And>a. lo x' \<le> a \<and> a < hi x' \<longleftrightarrow> (lo p \<le> a \<and> a < hi p) \<or> region_map (x # ws) a = Some (lp_flags p)"
    and "\<And>a f. region_map (x # ws) a = Some f \<Longrightarrow> f = lp_flags p"
  shows "added rgn p rgn'"
proof -
  have old: "sorted_regions (ys @ x # ws @ zs)" using assms(1,2) by (simp add: rgn_wf_def)
  have map: "region_map (ys @ x' # zs) a =
      (if lo p \<le> a \<and> a < hi p then Some (lp_flags p) else region_map (ys @ x # ws @ zs) a)" for a
  proof (cases "region_map (x # ws) a")
    case None
    then have "lo x' \<le> a \<and> a < hi x' \<longleftrightarrow> lo p \<le> a \<and> a < hi p" using assms(10) by simp
    then show ?thesis
      unfolding region_map_split [OF assms(7)] region_map_mid None
      by (simp add: assms(8) region_map_append split: option.splits)
  next
    case (Some f)
    then obtain q where q: "q \<in> set (x # ws)" "lo q \<le> a" using region_map_SomeD by blast
    have "\<forall>y \<in> set ys. hi y \<le> lo q"
      using old q(1) by (auto simp: sorted_regions_append)
    with q(2) have "region_map ys a = None" by (fastforce simp: region_map_None)
    moreover have "lo x' \<le> a \<and> a < hi x'" "f = lp_flags p" using Some assms(10,11) by blast+
    ultimately show ?thesis
      unfolding region_map_split [OF assms(7)] region_map_mid Some by (simp add: assms(8))
  qed
  show ?thesis
    unfolding added_def assms(2,3)
  proof (intro conjI impI)
    show "rgn_wf rgn'" using assms(1,3-7) by (simp add: rgn_wf_def)
    show "rg_max rgn' = rg_max rgn" by (rule assms(4))
    show "region_map (ys @ x' # zs) = (\<lambda>a. if lo p \<le> a \<and> a < hi p then Some (lp_flags p)
        else region_map (ys @ x # ws @ zs) a)" by (rule ext) (rule map)
    show "merged (ys @ x' # zs)" by (rule assms(9))
    assume "\<forall>q \<in> set (ys @ x # ws @ zs). lp_flags q = lp_flags p"
    then show "\<forall>q \<in> set (ys @ x' # zs). lp_flags q = lp_flags p" using assms(8) by auto
  qed
qed

lemma added_down:
  assumes "rgn_wf rgn" "merged (regions rgn)" "valid_region p" "regions rgn = ys @ x # zs"
    and "hi p = lo x" "lp_flags p = lp_flags x" "\<forall>y \<in> set ys. hi y \<le> lo p \<and> \<not> touches p y"
  shows "added rgn p (upd_region rgn (length ys) (grow_down (lp_size p)))"
proof -
  let ?x = "grow_down (lp_size p) x"
  have sx: "sorted_regions (ys @ x # zs)" and cnt: "rg_cnt rgn \<le> length (rg_region rgn)"
    using assms(1,4) by (simp_all add: rgn_wf_def)
  have v: "valid_region x" using sx by (simp add: sorted_regions_append sorted_regions_Cons)
  note vx = grow_down_props [OF assms(3) v assms(5)]
  have r: "regions (upd_region rgn (length ys) (grow_down (lp_size p))) = ys @ ?x # zs"
    using regions_upd [OF assms(4) refl cnt] by simp
  have s: "sorted_regions (ys @ ?x # zs)"
    using sx assms(7) vx by (auto simp: sorted_regions_append sorted_regions_Cons)
  have m: "merged (ys @ ?x # zs)"
    using assms(2,4,7) vx by (auto simp: merged_simps touches_def)
  show ?thesis
    by (rule added_replace [OF assms(1) _ r _ _ _ s _ m, where ws = "[]"])
       (use assms vx lo_less_hi [OF v] lo_less_hi [OF assms(3)] in \<open>auto simp: rgn_wf_def split: if_splits\<close>)
qed

lemma added_up:
  assumes "rgn_wf rgn" "merged (regions rgn)" "valid_region p" "regions rgn = ys @ x # zs"
    and "hi x = lo p" "lp_flags p = lp_flags x" "\<forall>z \<in> set zs. hi p \<le> lo z"
    and "zs \<noteq> [] \<longrightarrow> \<not> (lp_flags x = lp_flags (hd zs) \<and> hi p = lo (hd zs))"
  shows "added rgn p (upd_region rgn (length ys) (grow_up (lp_size p)))"
proof -
  let ?x = "grow_up (lp_size p) x"
  have sx: "sorted_regions (ys @ x # zs)" and cnt: "rg_cnt rgn \<le> length (rg_region rgn)"
    using assms(1,4) by (simp_all add: rgn_wf_def)
  have v: "valid_region x" using sx by (simp add: sorted_regions_append sorted_regions_Cons)
  note vx = grow_up_props [OF assms(3) v assms(5)]
  have r: "regions (upd_region rgn (length ys) (grow_up (lp_size p))) = ys @ ?x # zs"
    using regions_upd [OF assms(4) refl cnt] by simp
  have s: "sorted_regions (ys @ ?x # zs)"
    using sx assms(7) vx by (auto simp: sorted_regions_append sorted_regions_Cons)
  have m: "merged (ys @ ?x # zs)"
    using assms(2,4,8) vx by (cases zs) (auto simp: merged_simps)
  show ?thesis
    by (rule added_replace [OF assms(1) _ r _ _ _ s _ m, where ws = "[]"])
       (use assms vx lo_less_hi [OF v] lo_less_hi [OF assms(3)] in \<open>auto simp: rgn_wf_def split: if_splits\<close>)
qed

lemma added_up_merge:
  assumes "rgn_wf rgn" "merged (regions rgn)" "valid_region p" "regions rgn = ys @ x # z # zs"
    and "hi x = lo p" "lp_flags p = lp_flags x" "hi p = lo z" "lp_flags x = lp_flags z"
  shows "added rgn p (lmb_coalesce_regions (upd_region rgn (length ys) (grow_up (lp_size p)))
           (length ys) (length ys + 1))"
proof -
  let ?x = "grow_up (lp_size p) x"
  let ?y = "grow_up (lp_size z) ?x" and ?r = "upd_region rgn (length ys) (grow_up (lp_size p))"
  have sx: "sorted_regions (ys @ x # z # zs)" and cnt: "rg_cnt rgn \<le> length (rg_region rgn)"
    using assms(1,4) by (simp_all add: rgn_wf_def)
  have v: "valid_region x" "valid_region z" using sx by (auto simp: sorted_regions_append sorted_regions_Cons)
  note vx = grow_up_props [OF assms(3) v(1) assms(5)]
  have vy: "lo ?y = lo x" "hi ?y = hi z" "valid_region ?y" "lp_flags ?y = lp_flags x"
    using grow_up_props [OF v(2) vx(3)] vx assms(7) by simp_all
  have "regions ?r = ys @ ?x # z # zs" using regions_upd [OF assms(4) refl cnt] by simp
  then have r: "regions (lmb_coalesce_regions ?r (length ys) (length ys + 1)) = ys @ ?y # zs"
    using cnt by (intro regions_coalesce) simp_all
  have s: "sorted_regions (ys @ ?y # zs)"
    using sx vy by (auto simp: sorted_regions_append sorted_regions_Cons)
  have m: "merged (ys @ ?y # zs)"
    using assms(2,4,8) vy by (cases zs) (auto simp: merged_simps)
  show ?thesis
    by (rule added_replace [OF assms(1) _ r _ _ _ s _ m, where ws = "[z]"])
       (use assms vy lo_less_hi [OF v(1)] lo_less_hi [OF v(2)] lo_less_hi [OF assms(3)]
        in \<open>auto simp: rgn_wf_def lmb_coalesce_regions_def split: if_splits\<close>)
qed

lemma lmb_property_eta [simp]:
  "\<lparr>lp_base = lp_base p, lp_size = lp_size p, lp_flags = lp_flags p\<rparr> = p"
  by simp

lemma add_region_flags_unfold:
  assumes "0 < rg_cnt rgn" "add_scan rgn (lp_base p) (lp_size p) (lp_flags p) 0 = Inr (rgn1, i, co)"
    "add_merge rgn1 i co = (rgn2, coalesced)"
  shows "lmb_add_region_flags rgn (lp_base p) (lp_size p) (lp_flags p) =
     (if coalesced \<noteq> 0 then (rgn2, coalesced)
      else if rg_cnt rgn2 \<ge> rg_max rgn2 then (rgn2, - 1) else (insert_entry rgn2 p, 0))"
  using assms by (simp add: lmb_add_region_flags_def insert_entry_def Let_def)

lemma add_region_no_touch:
  assumes "rgn_wf rgn" "merged (regions rgn)" "valid_region p" "0 < rg_cnt rgn"
    and "\<forall>q \<in> set (regions rgn). hi q \<le> lo p \<or> hi p \<le> lo q"
    and "add_scan rgn (lp_base p) (lp_size p) (lp_flags p) 0 = Inr (rgn, i, 0)"
    and "i = rg_cnt rgn \<and> (\<forall>q \<in> set (regions rgn). \<not> touches p q) \<or>
         i < rg_cnt rgn \<and> lp_flags p \<noteq> lp_flags (regions rgn ! i)"
  shows "lmb_add_region_flags rgn (lp_base p) (lp_size p) (lp_flags p) =
           (if rg_cnt rgn = rg_max rgn then (rgn, - 1) else (insert_entry rgn p, 0))"
    and "rg_cnt rgn < rg_max rgn \<Longrightarrow> added rgn p (insert_entry rgn p)"
proof -
  have wf: "rg_cnt rgn \<le> rg_max rgn" "rg_cnt rgn \<le> length (rg_region rgn)" "sorted_regions (regions rgn)"
    using assms(1) by (auto simp: rgn_wf_def)
  have "add_merge rgn i 0 = (rgn, 0)"
  proof (cases "i < rg_cnt rgn")
    case True
    then obtain ys x zs where xs: "regions rgn = ys @ x # zs" and len: "length ys = i"
      using regions_split wf(2) by metis
    have "\<not> (zs \<noteq> [] \<and> lp_flags x = lp_flags (hd zs) \<and> hi x = lo (hd zs))"
      using assms(2) by (auto simp: xs merged_simps)
    then show ?thesis
      using add_merge_sorted [OF xs _ wf(2), of 0] wf(3) xs len by auto
  next
    case False
    then have "\<not> i < rg_cnt rgn - 1" by simp
    then show ?thesis by (simp add: add_merge_def)
  qed
  then show "lmb_add_region_flags rgn (lp_base p) (lp_size p) (lp_flags p) =
      (if rg_cnt rgn = rg_max rgn then (rgn, - 1) else (insert_entry rgn p, 0))"
    using add_region_flags_unfold [OF assms(4,6)] wf(1) by auto
  show "added rgn p (insert_entry rgn p)" if "rg_cnt rgn < rg_max rgn"
  proof (rule added_insert [OF assms(1-3) that assms(4,5)])
    show "(\<forall>q \<in> set (regions rgn). lp_flags q = lp_flags p) \<longrightarrow> (\<forall>q \<in> set (regions rgn). \<not> touches p q)"
      using assms(7) wf(2) by (metis length_take min.absorb2 nth_mem regions_def)
  qed
qed

lemma add_region_free:
  assumes "rgn_wf rgn" "merged (regions rgn)" "valid_region p"
    and free: "\<forall>q \<in> set (regions rgn). hi q \<le> lo p \<or> hi p \<le> lo q"
    and res: "lmb_add_region_flags rgn (lp_base p) (lp_size p) (lp_flags p) = (rgn', r)"
  shows "r = - 1 \<and> rgn' = rgn \<and> rg_cnt rgn = rg_max rgn \<or> 0 \<le> r \<and> added rgn p rgn'"
proof (cases "rg_cnt rgn = 0")
  case True
  then show ?thesis
    using res added_empty [OF assms(1,3)] by (auto simp: lmb_add_region_flags_def Let_def)
next
  case False
  have wf: "rg_cnt rgn \<le> length (rg_region rgn)" "sorted_regions (regions rgn)"
    "\<forall>q \<in> set (regions rgn). valid_region q" "length (regions rgn) = rg_cnt rgn"
    using assms(1) by (auto simp: rgn_wf_def sorted_regions_def regions_def)
  obtain j where j: "j \<le> rg_cnt rgn" "\<forall>k < j. \<not> touches p (regions rgn ! k)"
    "j < rg_cnt rgn \<longrightarrow> touches p (regions rgn ! j)"
    "add_scan rgn (lp_base p) (lp_size p) (lp_flags p) 0 = Inr (scan_result rgn p j)"
    using add_scan_free [of rgn p 0] wf(1,3) assms(3) free by auto
  show ?thesis
  proof (cases "j = rg_cnt rgn \<or> lp_flags p \<noteq> lp_flags (regions rgn ! j)")
    case True
    then have "scan_result rgn p j = (rgn, j, 0)" by (auto simp: scan_result_def Let_def)
    moreover have "j = rg_cnt rgn \<and> (\<forall>q \<in> set (regions rgn). \<not> touches p q) \<or>
        j < rg_cnt rgn \<and> lp_flags p \<noteq> lp_flags (regions rgn ! j)"
      using True j(1,2) wf(4) by (metis in_set_conv_nth le_neq_implies_less)
    ultimately show ?thesis
      using add_region_no_touch [OF assms(1-3) _ free, of j] j(4) res False assms(1)
      by (auto simp: rgn_wf_def split: if_splits)
  next
    case hit: False
    then have jl: "j < rg_cnt rgn" using j(1) by simp
    then obtain ys x zs where xs: "regions rgn = ys @ x # zs" and len: "length ys = j"
      and x: "x = regions rgn ! j"
      using regions_split wf(1) by metis
    have near: "\<forall>y \<in> set ys. \<not> touches p y"
      using j(2) len by (auto simp: xs in_set_conv_nth nth_append)
    have fl: "lp_flags p = lp_flags x" using hit x by simp
    have v: "valid_region x" "lo x < hi x" "lo p < hi p"
      using wf(3) xs lo_less_hi assms(3) by auto
    have sx: "sorted_regions (ys @ x # zs)" using wf(2) xs by simp
    have merge: "add_merge (upd_region rgn j g) j 1 =
        (if zs \<noteq> [] \<and> lp_flags (g x) = lp_flags (hd zs) \<and> hi (g x) = lo (hd zs)
         then (lmb_coalesce_regions (upd_region rgn j g) j (j + 1), 2) else (upd_region rgn j g, 1))"
      if "sorted_regions (ys @ g x # zs)" for g
      using add_merge_sorted [of "upd_region rgn j g" ys "g x" zs 1] regions_upd [OF xs len wf(1), of g]
        that wf(1) len
      by simp
    have ord: "\<forall>y \<in> set ys. hi y \<le> lo x" "\<forall>z \<in> set zs. hi x \<le> lo z \<and> lo z < hi z"
      "\<forall>y \<in> set ys. lo y < hi y" "valid_region x"
      using sx wf(3) lo_less_hi by (auto simp: xs sorted_regions_append sorted_regions_Cons)
    have unfold: "lmb_add_region_flags rgn (lp_base p) (lp_size p) (lp_flags p) = (rgn2, co)"
      if "scan_result rgn p j = (rgn1, j, 1)" "add_merge rgn1 j 1 = (rgn2, co)" "co \<noteq> 0" for rgn1 rgn2 co
      using add_region_flags_unfold [of rgn p rgn1 j 1 rgn2 co] that j(4) False by simp
    show ?thesis
    proof (cases "hi p = lo x")
      case True
      let ?r = "upd_region rgn j (grow_down (lp_size p))"
      have "\<forall>y \<in> set ys. hi y \<le> lo p \<and> \<not> touches p y"
        using near ord(1,3) True free by (force simp: xs)
      from added_down [OF assms(1-3) xs True fl this] have add: "added rgn p ?r" by (simp add: len)
      have "sorted_regions (ys @ grow_down (lp_size p) x # zs)"
        using add regions_upd [OF xs len wf(1), of "grow_down (lp_size p)"] by (simp add: added_def rgn_wf_def)
      moreover have "\<not> (zs \<noteq> [] \<and> lp_flags x = lp_flags (hd zs) \<and> hi x = lo (hd zs))"
        using assms(2) by (auto simp: xs merged_simps)
      ultimately have "add_merge ?r j 1 = (?r, 1)"
        using merge [of "grow_down (lp_size p)"] grow_down_props [OF assms(3) ord(4) True] by auto
      then have "lmb_add_region_flags rgn (lp_base p) (lp_size p) (lp_flags p) = (?r, 1)"
        using hit True x by (intro unfold [of ?r]) (auto simp: scan_result_def)
      then show ?thesis using res add by simp
    next
      case False
      then have eq: "hi x = lo p" using j(3) jl x by (auto simp: touches_def)
      let ?g = "grow_up (lp_size p)" and ?r = "upd_region rgn j (grow_up (lp_size p))"
      note gx = grow_up_props [OF assms(3) ord(4) eq]
      have above: "\<forall>z \<in> set zs. hi p \<le> lo z" using ord(2) eq free by (force simp: xs)
      have s': "sorted_regions (ys @ ?g x # zs)"
        using sx gx above by (auto simp: sorted_regions_append sorted_regions_Cons)
      have sr: "scan_result rgn p j = (?r, j, 1)" using hit False x by (auto simp: scan_result_def)
      show ?thesis
      proof (cases "zs \<noteq> [] \<and> lp_flags x = lp_flags (hd zs) \<and> hi p = lo (hd zs)")
        case True
        then obtain z zs' where z: "zs = z # zs'" by (cases zs) auto
        have "add_merge ?r j 1 = (lmb_coalesce_regions ?r j (j + 1), 2)"
          using merge [of ?g, OF s'] gx True by simp
        then show ?thesis
          using unfold [OF sr] res added_up_merge [OF assms(1-3), of ys x z zs'] xs z eq fl True len by auto
      next
        case none: False
        have "add_merge ?r j 1 = (?r, 1)" using merge [of ?g, OF s'] gx none by auto
        then show ?thesis
          using unfold [OF sr] res added_up [OF assms(1-3) xs eq fl above] none len by auto
      qed
    qed
  qed
qed

section \<open>Allocation\<close>

lemma overlaps_find_neg:
  "overlaps_find rgn base sz i < 0 \<Longrightarrow> i \<le> k \<Longrightarrow> k < rg_cnt rgn \<Longrightarrow>
   \<not> lmb_addrs_overlap base sz (lp_base (rg_region rgn ! k)) (lp_size (rg_region rgn ! k))"
proof (induction rgn base sz i rule: overlaps_find.induct)
  case (1 rgn base sz i)
  then show ?case
    by (cases "k = i") (auto simp: overlaps_find.simps [of rgn base sz i] split: if_splits)
qed

lemma no_overlap_free:
  assumes "rgn_wf rgn" "lmb_overlaps_region rgn base sz < 0" "valid_region p"
    and "lp_base p = base" "lp_size p = sz"
  shows "\<forall>q \<in> set (regions rgn). hi q \<le> lo p \<or> hi p \<le> lo q"
proof
  fix q assume q: "q \<in> set (regions rgn)"
  then obtain k where k: "k < rg_cnt rgn" "rg_region rgn ! k = q"
    by (auto simp: regions_def in_set_conv_nth)
  have "\<not> lmb_addrs_overlap (lp_base p) (lp_size p) (lp_base q) (lp_size q)"
    using overlaps_find_neg [of rgn base sz 0 k] assms(2,4,5) k by (simp add: lmb_overlaps_region_def)
  moreover have "valid_region q" using q assms(1) by (simp add: rgn_wf_def sorted_regions_def)
  ultimately show "hi q \<le> lo p \<or> hi p \<le> lo q"
    using addrs_overlap_regions [OF assms(3)] by (auto simp: not_less)
qed

lemma overlaps_region_nonneg:
  assumes "\<not> lmb_overlaps_region rgn base sz < 0"
  shows "nat (lmb_overlaps_region rgn base sz) < rg_cnt rgn"
    and "lmb_addrs_overlap base sz (lp_base (rg_region rgn ! nat (lmb_overlaps_region rgn base sz)))
           (lp_size (rg_region rgn ! nat (lmb_overlaps_region rgn base sz)))"
  using overlaps_find_overlap [of rgn base sz 0 "nat (lmb_overlaps_region rgn base sz)"] assms
  by (simp_all add: lmb_overlaps_region_def)

definition lmb_block :: "u64 \<Rightarrow> u64 \<Rightarrow> lmb_property" where
  "lmb_block base sz = \<lparr>lp_base = base, lp_size = sz, lp_flags = LMB_NONE\<rparr>"

lemma lmb_block_simps [simp]:
  "lp_base (lmb_block b s) = b" "lp_size (lmb_block b s) = s" "lp_flags (lmb_block b s) = LMB_NONE"
  "lo (lmb_block b s) = unat b" "hi (lmb_block b s) = unat b + unat s"
  by (simp_all add: lmb_block_def lo_def hi_def)

definition lmb_wf :: "lmb \<Rightarrow> bool" where
  "lmb_wf l \<longleftrightarrow> rgn_wf (lmb_memory l) \<and> rgn_wf (lmb_reserved l) \<and> merged (regions (lmb_reserved l))"

text \<open>What a successful allocation of \<open>sz\<close> bytes at \<open>r\<close> means.\<close>

definition allocated :: "lmb \<Rightarrow> lmb \<Rightarrow> u64 \<Rightarrow> u64 \<Rightarrow> bool" where
  "allocated l l' r sz \<longleftrightarrow>
     lmb_memory l' = lmb_memory l \<and>
     (\<forall>a. unat r \<le> a \<and> a < unat r + unat sz \<longrightarrow> reserved_at (lmb_reserved l) a = None) \<and>
     added (lmb_reserved l) (lmb_block r sz) (lmb_reserved l')"

lemma alloc_while_spec:
  assumes "lmb_wf l" "sz \<noteq> 0" "lim < 2 ^ 64"
    and "alloc_while l lmbbase base sz align = Some (l', r)"
    and "lmbbase \<le> base \<longrightarrow> unat base + unat sz \<le> lim" "base AND (align - 1) = 0"
  shows "r = 0 \<and> l' = l \<or>
     r \<noteq> 0 \<and> lmbbase \<le> r \<and> unat r + unat sz \<le> lim \<and> r AND (align - 1) = 0 \<and> allocated l l' r sz"
  using assms
proof (induction l lmbbase base sz align rule: alloc_while.induct)
  case (1 l lmbbase base sz align)
  have base: "base \<noteq> 0" "lmbbase \<le> base"
    using "1.prems"(4) by (simp_all add: alloc_while.simps [of l lmbbase base] split: if_splits)
  let ?rgn = "lmb_overlaps_region (lmb_reserved l) base sz"
  let ?rb = "lp_base (rg_region (lmb_reserved l) ! nat ?rgn)"
  have wf: "rgn_wf (lmb_reserved l)" "merged (regions (lmb_reserved l))"
    using "1.prems"(1) by (simp_all add: lmb_wf_def)
  have top: "unat base + unat sz \<le> lim" using "1.prems"(5) base by simp
  show ?case
  proof (cases "?rgn < 0")
    case True
    let ?p = "lmb_block base sz"
    have vp: "valid_region ?p" using "1.prems"(2,3) top by (simp add: valid_region_def)
    have free: "\<forall>q \<in> set (regions (lmb_reserved l)). hi q \<le> lo ?p \<or> hi ?p \<le> lo q"
      using no_overlap_free [OF wf(1) True vp] by simp
    obtain rg ret where add: "lmb_add_region (lmb_reserved l) base sz = (rg, ret)" by fastforce
    then have res: "l' = l\<lparr>lmb_reserved := rg\<rparr>" "r = (if ret < 0 then 0 else base)"
      using "1.prems"(4) True base by (auto simp: alloc_while.simps [of l lmbbase base])
    have "ret = - 1 \<and> rg = lmb_reserved l \<or> 0 \<le> ret \<and> added (lmb_reserved l) ?p rg"
      using add_region_free [OF wf vp free] add by (auto simp: lmb_add_region_def)
    moreover have "reserved_at (lmb_reserved l) a = None" if "unat base \<le> a \<and> a < unat base + unat sz" for a
      using free that by (fastforce simp: region_map_None)
    ultimately show ?thesis
      using res base top "1.prems"(6) by (auto simp: allocated_def)
  next
    case False
    then have run: "\<not> ?rb < sz" "alloc_while l lmbbase (lmb_align_down (?rb - sz) align) sz align = Some (l', r)"
      using "1.prems"(4) base by (auto simp: alloc_while.simps [of l lmbbase base] Let_def split: if_splits)
    have "?rb - sz < base"
      using overlap_step_down overlaps_region_nonneg(2) [OF False] run(1) base(1) by blast
    then have "unat (lmb_align_down (?rb - sz) align) < unat base"
      using lmb_align_down_le [of "?rb - sz" align] by (simp add: word_le_nat_alt word_less_nat_alt)
    moreover have "lmb_align_down (?rb - sz) align AND (align - 1) = 0"
      by (simp add: lmb_align_down_def and.assoc)
    ultimately show ?thesis
      using "1.IH" [OF _ refl False refl run(1) "1.prems"(1,2,3) run(2)] base top by simp
  qed
qed

text \<open>Where the search of one memory region starts, before it is aligned.\<close>

definition alloc_start :: "lmb_property \<Rightarrow> u64 \<Rightarrow> u64 \<Rightarrow> u64" where
  "alloc_start p sz max_addr =
     (if max_addr = 0 then lp_base p + lp_size p - sz
      else min (if lp_base p + lp_size p < lp_base p then - 1 else lp_base p + lp_size p) max_addr - sz)"

lemma alloc_regions_Suc:
  "alloc_regions l sz align max_addr (Suc i) =
     (let p = rg_region (lmb_memory l) ! i in
      if lp_size p < sz \<or> max_addr \<noteq> 0 \<and> \<not> lp_base p < max_addr then alloc_regions l sz align max_addr i
      else case alloc_while l (lp_base p) (lmb_align_down (alloc_start p sz max_addr) align) sz align of
             Some res \<Rightarrow> res | None \<Rightarrow> alloc_regions l sz align max_addr i)"
  by (simp add: alloc_start_def Let_def)

lemma alloc_regions_spec:
  assumes "lmb_wf l" "sz \<noteq> 0" "max_addr = 0 \<or> sz \<le> max_addr" "n \<le> rg_cnt (lmb_memory l)"
    and "alloc_regions l sz align max_addr n = (l', r)"
  shows "r = 0 \<and> l' = l \<or>
     r \<noteq> 0 \<and> (\<exists>p \<in> set (regions (lmb_memory l)). lo p \<le> unat r \<and> unat r + unat sz \<le> hi p) \<and>
     (max_addr = 0 \<or> unat r + unat sz \<le> unat max_addr) \<and> r AND (align - 1) = 0 \<and> allocated l l' r sz"
  using assms(4,5)
proof (induction n)
  case (Suc i)
  let ?p = "rg_region (lmb_memory l) ! i"
  let ?top = "if max_addr = 0 then hi ?p else min (hi ?p) (unat max_addr)"
  define b where "b = alloc_start ?p sz max_addr"
  have p: "?p \<in> set (regions (lmb_memory l))" and v: "valid_region ?p"
    using Suc.prems(1) assms(1) regions_mem [of i "lmb_memory l"] rgn_wf_valid
    by (auto simp: lmb_wf_def rgn_wf_def)
  show ?case
  proof (cases "lp_size ?p < sz \<or> max_addr \<noteq> 0 \<and> \<not> lp_base ?p < max_addr")
    case True
    then show ?thesis using Suc by (simp add: alloc_regions_Suc del: alloc_regions.simps)
  next
    case False
    show ?thesis
    proof (cases "alloc_while l (lp_base ?p) (lmb_align_down b align) sz align")
      case None
      then show ?thesis using Suc False by (simp add: alloc_regions_Suc b_def del: alloc_regions.simps)
    next
      case (Some res)
      have pe: "unat (lp_base ?p + lp_size ?p) = hi ?p"
        using v unat_end(1) by (simp add: valid_region_def hi_def)
      have nowrap: "\<not> lp_base ?p + lp_size ?p < lp_base ?p"
        using pe by (simp add: word_less_nat_alt hi_def)
      have "sz \<le> lp_base ?p + lp_size ?p" using False pe by (simp add: word_le_nat_alt hi_def not_less)
      then have "unat b + unat sz = ?top"
        using False assms(3) pe nowrap
        by (auto simp: b_def alloc_start_def unat_sub min_def word_le_nat_alt)
      moreover have "unat (lmb_align_down b align) \<le> unat b"
        using lmb_align_down_le by (simp add: word_le_nat_alt)
      moreover have "lmb_align_down b align AND (align - 1) = 0"
        by (simp add: lmb_align_down_def and.assoc)
      moreover have "(l', r) = res" using Suc.prems(2) False Some
        by (simp add: alloc_regions_Suc b_def del: alloc_regions.simps)
      moreover have "?top < 2 ^ 64" using v by (auto simp: valid_region_def)
      ultimately have "r = 0 \<and> l' = l \<or> r \<noteq> 0 \<and> lp_base ?p \<le> r \<and> unat r + unat sz \<le> ?top \<and>
          r AND (align - 1) = 0 \<and> allocated l l' r sz"
        using alloc_while_spec [OF assms(1,2), of ?top "lp_base ?p" "lmb_align_down b align" align l' r] Some
        by auto
      then show ?thesis using p by (auto simp: word_le_nat_alt lo_def split: if_splits)
    qed
  qed
qed simp

section \<open>Freeing\<close>

lemma free_find_props:
  "i \<le> rg_cnt rgn \<Longrightarrow> free_find rgn base e i \<le> rg_cnt rgn \<and>
   (free_find rgn base e i < rg_cnt rgn \<longrightarrow>
      (let q = rg_region rgn ! free_find rgn base e i
       in lp_base q \<le> base \<and> e \<le> lp_base q + lp_size q - 1))"
proof (induction rgn base e i rule: free_find.induct)
  case (1 rgn base e i)
  then show ?case
    by (subst (1 2 3) free_find.simps [of rgn base e i]) (simp add: Let_def)
qed

lemma free_find_found:
  assumes "k < rg_cnt rgn" "i \<le> k" "lp_base (rg_region rgn ! k) \<le> base"
    "e \<le> lp_base (rg_region rgn ! k) + lp_size (rg_region rgn ! k) - 1"
  shows "free_find rgn base e i < rg_cnt rgn"
  using assms
proof (induction rgn base e i rule: free_find.induct)
  case (1 rgn base e i)
  then show ?case
    by (subst free_find.simps) (cases "i = k", auto simp: Let_def)
qed

text \<open>Cutting the entry \<open>x\<close> down to the pieces \<open>ws\<close> that are left of it.\<close>

lemma region_map_cut:
  assumes "sorted_regions (ys @ x # zs)" "sorted_regions (ys @ ws @ zs)"
    and "\<And>a. region_map ws a = (if (lo x \<le> a \<and> a < hi x) \<and> \<not> (b \<le> a \<and> a < e) then Some (lp_flags x) else None)"
    and "lo x \<le> b" "e \<le> hi x"
  shows "region_map (ys @ ws @ zs) a = (if b \<le> a \<and> a < e then None else region_map (ys @ x # zs) a)"
proof -
  have out: "region_map ys a = None" "region_map zs a = None" if "lo x \<le> a \<and> a < hi x"
    using that assms(1) by (force simp: region_map_None sorted_regions_append sorted_regions_Cons)+
  show ?thesis
    using out assms(3-5) by (auto simp: region_map_append split: option.splits)
qed

lemma free_whole:
  assumes "rgn_wf rgn" "merged (regions rgn)" "regions rgn = ys @ x # zs"
  shows "rgn_wf (lmb_remove_region rgn (length ys)) \<and>
    reserved_at (lmb_remove_region rgn (length ys)) =
      (\<lambda>a. if lo x \<le> a \<and> a < hi x then None else reserved_at rgn a)"
proof -
  have wf: "rg_cnt rgn \<le> length (rg_region rgn)" "sorted_regions (ys @ x # zs)"
    using assms(1,3) by (simp_all add: rgn_wf_def)
  have r: "regions (lmb_remove_region rgn (length ys)) = ys @ zs"
    using regions_length [OF wf(1) assms(3)] wf(1) assms(3) by (intro regions_remove) auto
  have s: "sorted_regions (ys @ [] @ zs)" using wf(2) by (auto simp: sorted_regions_append sorted_regions_Cons)
  show ?thesis
    using assms(1) r s region_map_cut [OF wf(2) s, of "lo x" "hi x"]
    by (auto simp: rgn_wf_def assms(3))
qed

lemma free_edge:
  assumes "rgn_wf rgn" "regions rgn = ys @ x # zs" "valid_region (f x)" "lp_flags (f x) = lp_flags x"
    and "lo x \<le> lo (f x)" "hi (f x) \<le> hi x" "b = lo x \<and> e = lo (f x) \<and> hi (f x) = hi x \<or>
      b = hi (f x) \<and> e = hi x \<and> lo (f x) = lo x"
  shows "rgn_wf (upd_region rgn (length ys) f) \<and>
    reserved_at (upd_region rgn (length ys) f) = (\<lambda>a. if b \<le> a \<and> a < e then None else reserved_at rgn a)"
proof -
  have wf: "rg_cnt rgn \<le> length (rg_region rgn)" "sorted_regions (ys @ x # zs)"
    using assms(1,2) by (simp_all add: rgn_wf_def)
  have r: "regions (upd_region rgn (length ys) f) = ys @ [f x] @ zs"
    using regions_upd [OF assms(2) refl wf(1)] by simp
  have s: "sorted_regions (ys @ [f x] @ zs)"
    using wf(2) assms(3,5,6) by (force simp: sorted_regions_append sorted_regions_Cons)
  have lt: "lo (f x) < hi (f x)" using lo_less_hi [OF assms(3)] .
  have "region_map [f x] a =
      (if (lo x \<le> a \<and> a < hi x) \<and> \<not> (b \<le> a \<and> a < e) then Some (lp_flags x) else None)" for a
    using assms(4-7) lt by auto
  from region_map_cut [OF wf(2) s this] show ?thesis
    using assms(1,5-7) r s lt by (auto simp: rgn_wf_def assms(2))
qed

lemma free_split:
  assumes "rgn_wf rgn" "merged (regions rgn)" "regions rgn = ys @ x # zs" "valid_region p"
    and "lo x < b" "b < lo p" "hi p = hi x" "lp_flags p = lp_flags x"
    and "lo (f x) = lo x" "hi (f x) = b" "valid_region (f x)" "lp_flags (f x) = lp_flags x"
    and "lmb_add_region_flags (upd_region rgn (length ys) f) (lp_base p) (lp_size p) (lp_flags p) = (rgn', r)"
    and "0 \<le> r"
  shows "rgn_wf rgn' \<and>
    reserved_at rgn' = (\<lambda>a. if b \<le> a \<and> a < lo p then None else reserved_at rgn a)"
proof -
  let ?r = "upd_region rgn (length ys) f"
  have wf: "rg_cnt rgn \<le> length (rg_region rgn)" "sorted_regions (ys @ x # zs)"
    using assms(1,3) by (simp_all add: rgn_wf_def)
  have lt: "lo p < hi p" "lo x < hi x" using lo_less_hi assms(4,5,6,7) by fastforce+
  have r: "regions ?r = ys @ f x # zs" using regions_upd [OF assms(3) refl wf(1)] by simp
  have cut: "rgn_wf ?r" "reserved_at ?r = (\<lambda>a. if b \<le> a \<and> a < hi x then None else reserved_at rgn a)"
    using free_edge [OF assms(1,3), of f b "hi x"] assms(5-7,9-12) lt by auto
  have m: "merged (regions ?r)"
    using assms(2,3,6,7,9,10,12) lt wf(2) unfolding r
    by (cases zs) (auto simp: merged_simps sorted_regions_append sorted_regions_Cons)
  have ord: "\<forall>y \<in> set ys. hi y \<le> lo x" "\<forall>z \<in> set zs. hi x \<le> lo z"
    using wf(2) by (auto simp: sorted_regions_append sorted_regions_Cons)
  have free: "\<forall>q \<in> set (regions ?r). hi q \<le> lo p \<or> hi p \<le> lo q"
    using ord assms(5-7,10) unfolding r by fastforce
  have add: "added ?r p rgn'"
    using add_region_free [OF cut(1) m assms(4) free assms(13)] assms(14) by auto
  have "reserved_at rgn a = Some (lp_flags p)" if "lo p \<le> a" "a < hi p" for a
    using that region_map_split [OF wf(2), of a] assms(3,5-8) by simp
  then have "reserved_at rgn' a = (if b \<le> a \<and> a < lo p then None else reserved_at rgn a)" for a
    using lt assms(5-7) by (simp add: addedD(2) [OF add] cut(2))
  then show ?thesis using addedD(1) [OF add] by auto
qed

text \<open>The entry that \<open>lmb_free\<close> cuts: it holds the whole range.\<close>

lemma free_find_entry:
  assumes "rgn_wf rgn" "sz \<noteq> 0" "unat base + unat sz < 2 ^ 64"
    and "free_find rgn base (base + sz - 1) 0 \<noteq> rg_cnt rgn"
  obtains ys x zs where "regions rgn = ys @ x # zs" "free_find rgn base (base + sz - 1) 0 = length ys"
    "rg_region rgn ! length ys = x" "valid_region x" "lo x \<le> unat base" "unat base + unat sz \<le> hi x"
proof -
  let ?i = "free_find rgn base (base + sz - 1) 0"
  have wf: "rg_cnt rgn \<le> length (rg_region rgn)" using assms(1) by (simp add: rgn_wf_def)
  have ilt: "?i < rg_cnt rgn" using free_find_props [of 0 rgn base "base + sz - 1"] assms(4) by simp
  obtain ys x zs where xs: "regions rgn = ys @ x # zs" "length ys = ?i" "x = regions rgn ! ?i"
    using regions_split [OF ilt wf] by metis
  then have at: "rg_region rgn ! ?i = x" using ilt by (simp add: regions_nth)
  have v: "valid_region x" using xs(1) rgn_wf_valid [OF assms(1)] by fastforce
  have e: "unat (base + sz - 1) = unat base + unat sz - 1" "0 < unat sz"
    using unat_end [OF assms(2,3)] assms(2) by (simp_all add: unat_gt_0)
  note region_end [OF v]
  moreover have "lp_base x \<le> base" "base + sz - 1 \<le> lp_base x + lp_size x - 1"
    using free_find_props [of 0 rgn base "base + sz - 1"] ilt at by (simp_all add: Let_def)
  ultimately have "lo x \<le> unat base" "unat base + unat sz \<le> hi x"
    using e by (auto simp: word_le_nat_alt lo_def)
  then show ?thesis using that [OF xs(1) xs(2) [symmetric] _ v] xs(2) at by simp
qed

text \<open>The three ways in which a cut leaves one piece, and the way it leaves two.\<close>

lemma cut_region_words:
  assumes "valid_region x" "sz \<noteq> 0" "unat base + unat sz < 2 ^ 64" "lo x \<le> unat base" "unat base + unat sz \<le> hi x"
  shows "lp_base x = base \<longleftrightarrow> lo x = unat base"
    and "lp_base x + lp_size x - 1 = base + sz - 1 \<longleftrightarrow> hi x = unat base + unat sz"
    and "unat (lp_size x - sz) = hi x - lo x - unat sz" "unat (base - lp_base x) = unat base - lo x"
    and "unat (lp_base x + lp_size x - 1 - (base + sz - 1)) = hi x - (unat base + unat sz)"
    and "unat (base + sz) = unat base + unat sz"
proof -
  have e: "unat (base + sz - 1) = unat base + unat sz - 1" "0 < unat sz"
    using unat_end [OF assms(2,3)] assms(2) by (simp_all add: unat_gt_0)
  note xe = region_end [OF assms(1)]
  show "lp_base x = base \<longleftrightarrow> lo x = unat base" by (simp add: lo_def word_unat_eq_iff)
  show "lp_base x + lp_size x - 1 = base + sz - 1 \<longleftrightarrow> hi x = unat base + unat sz"
    using e xe by (auto simp: word_unat_eq_iff)
  show "unat (lp_size x - sz) = hi x - lo x - unat sz"
    using assms(4,5) by (subst unat_sub) (auto simp: word_le_nat_alt lo_def hi_def)
  show "unat (base - lp_base x) = unat base - lo x"
    using assms(4) by (subst unat_sub) (auto simp: word_le_nat_alt lo_def)
  show "unat (lp_base x + lp_size x - 1 - (base + sz - 1)) = hi x - (unat base + unat sz)"
    using e xe assms(5) by (subst unat_sub) (auto simp: word_le_nat_alt)
  show "unat (base + sz) = unat base + unat sz" by (rule unat_end(1) [OF assms(2,3)])
qed

lemma lmb_free_ok:
  assumes "lmb_wf l" "sz \<noteq> 0" "unat base + unat sz < 2 ^ 64" "lmb_free l base sz = (l', r)" "0 \<le> r"
  shows "lmb_memory l' = lmb_memory l \<and> rgn_wf (lmb_reserved l') \<and>
    reserved_at (lmb_reserved l') =
      (\<lambda>a. if unat base \<le> a \<and> a < unat base + unat sz then None else reserved_at (lmb_reserved l) a)"
proof -
  let ?rgn = "lmb_reserved l"
  have wf: "rgn_wf ?rgn" "merged (regions ?rgn)" using assms(1) by (simp_all add: lmb_wf_def)
  have found: "free_find ?rgn base (base + sz - 1) 0 \<noteq> rg_cnt ?rgn"
    using assms(4,5) by (auto simp: lmb_free_def Let_def)
  obtain ys x zs where xs: "regions ?rgn = ys @ x # zs" and i: "free_find ?rgn base (base + sz - 1) 0 = length ys"
    and at: "rg_region ?rgn ! length ys = x" and v: "valid_region x" "lo x \<le> unat base" "unat base + unat sz \<le> hi x"
    using free_find_entry [OF wf(1) assms(2,3) found] by blast
  note w = cut_region_words [OF v(1) assms(2,3) v(2,3)]
  have ne: "length ys \<noteq> rg_cnt ?rgn" using found i by simp
  note run = assms(4) [unfolded lmb_free_def Let_def i at w(1,2)]
  have ys_lt: "length ys < length (rg_region ?rgn)"
    using regions_length [OF _ xs] wf(1) by (simp add: rgn_wf_def)
  have gt: "0 < unat sz" using assms(2) by (simp add: unat_gt_0)
  define front where "front = (\<lambda>p. p\<lparr>lp_base := base + sz - 1 + 1, lp_size := lp_size p - sz\<rparr> :: lmb_property)"
  define chop where "chop = (\<lambda>p. p\<lparr>lp_size := lp_size p - sz\<rparr> :: lmb_property)"
  define cut where "cut = (\<lambda>p. p\<lparr>lp_size := base - lp_base p\<rparr> :: lmb_property)"
  define rest where "rest = \<lparr>lp_base = base + sz, lp_size = lp_base x + lp_size x - 1 - (base + sz - 1), lp_flags = lp_flags x\<rparr>"
  consider (whole) "lo x = unat base" "hi x = unat base + unat sz"
    | (front) "lo x = unat base" "hi x \<noteq> unat base + unat sz"
    | (chop) "lo x \<noteq> unat base" "hi x = unat base + unat sz"
    | (middle) "lo x \<noteq> unat base" "hi x \<noteq> unat base + unat sz" by blast
  then show ?thesis
  proof cases
    case whole
    then have "l' = l\<lparr>lmb_reserved := lmb_remove_region ?rgn (length ys)\<rparr>"
      using run ne by simp
    then show ?thesis using free_whole [OF wf xs] whole by simp
  next
    case front
    then have "l' = l\<lparr>lmb_reserved := upd_region ?rgn (length ys) front\<rparr>"
      using run ne by (simp add: front_def)
    moreover have "lo (front x) = unat base + unat sz" "hi (front x) = hi x" "lp_flags (front x) = lp_flags x"
      using w v front by (simp_all add: front_def lo_def hi_def)
    moreover have "valid_region (front x)"
      using calculation v(1,3) w(3) front by (auto simp: valid_region_def front_def hi_def lo_def)
    ultimately show ?thesis
      using free_edge [OF wf(1) xs, of front "unat base" "unat base + unat sz"] front v by simp
  next
    case chop
    then have "l' = l\<lparr>lmb_reserved := upd_region ?rgn (length ys) chop\<rparr>"
      using run ne by (simp add: chop_def)
    moreover have "lo (chop x) = lo x" "hi (chop x) = unat base" "lp_flags (chop x) = lp_flags x"
      using w v chop by (simp_all add: chop_def lo_def hi_def)
    moreover have "valid_region (chop x)"
      using calculation v(1,2) w(3) chop assms(3) by (auto simp: valid_region_def chop_def hi_def lo_def)
    ultimately show ?thesis
      using free_edge [OF wf(1) xs, of chop "unat base" "unat base + unat sz"] chop v gt by simp
  next
    case middle
    have cx: "lo (cut x) = lo x" "hi (cut x) = unat base" "lp_flags (cut x) = lp_flags x"
      using w v by (simp_all add: cut_def lo_def hi_def)
    have rx: "lo rest = unat base + unat sz" "hi rest = hi x" "lp_flags rest = lp_flags x"
      using w v by (simp_all add: rest_def lo_def hi_def)
    have vc: "valid_region (cut x)" "valid_region rest"
      using cx rx middle v assms(3) w(4,5) by (auto simp: valid_region_def cut_def rest_def hi_def lo_def)
    obtain rg where add: "lmb_add_region_flags (upd_region ?rgn (length ys) cut)
        (lp_base rest) (lp_size rest) (lp_flags rest) = (rg, r)" and l': "l' = l\<lparr>lmb_reserved := rg\<rparr>"
      using run ne middle at cx(3) by (auto simp: cut_def rest_def upd_region_def ys_lt split: prod.splits)
    show ?thesis
      using free_split [OF wf xs vc(2), of "unat base" cut rg r] middle v cx rx vc gt add assms(5) l' by auto
  qed
qed

section \<open>Queries\<close>

lemma drop_regions:
  "i < rg_cnt rgn \<Longrightarrow> rg_cnt rgn \<le> length (rg_region rgn) \<Longrightarrow>
   drop i (regions rgn) = rg_region rgn ! i # drop (Suc i) (regions rgn)"
  by (metis Cons_nth_drop_Suc length_take min.absorb2 regions_def regions_nth)

lemma in_region_iff:
  assumes "valid_region p"
  shows "addr \<ge> lp_base p \<and> addr \<le> lp_base p + lp_size p - 1 \<longleftrightarrow> lo p \<le> unat addr \<and> unat addr < hi p"
  using region_end [OF assms] by (auto simp: word_le_nat_alt lo_def)

lemma reserved_flags_loop_eq:
  assumes "rgn_wf (lmb_reserved l)"
  shows "reserved_flags_loop l addr flags i =
     (case region_map (drop i (regions (lmb_reserved l))) (unat addr) of
        None \<Rightarrow> False | Some f \<Rightarrow> f AND flags = flags)"
  using assms
proof (induction l addr flags i rule: reserved_flags_loop.induct)
  case (1 l addr flags i)
  let ?rgn = "lmb_reserved l"
  have cnt: "rg_cnt ?rgn \<le> length (rg_region ?rgn)" using "1.prems" by (simp add: rgn_wf_def)
  show ?case
  proof (cases "i < rg_cnt ?rgn")
    case True
    note v = rgn_wf_valid [OF "1.prems" regions_mem [OF True cnt]]
    show ?thesis
      using True "1.IH" [OF True refl refl _ "1.prems"] in_region_iff [OF v, of addr]
      by (subst reserved_flags_loop.simps) (simp add: drop_regions [OF True cnt] Let_def)
  next
    case False
    then show ?thesis by (simp add: reserved_flags_loop.simps regions_def)
  qed
qed

lemma free_size_loop_free:
  assumes "rgn_wf (lmb_reserved l)"
    and "unat addr \<le> a" "a < unat addr + unat (free_size_loop l addr i)"
  shows "region_map (drop i (regions (lmb_reserved l))) a = None"
  using assms
proof (induction l addr i rule: free_size_loop.induct)
  case (1 l addr i)
  let ?rgn = "lmb_reserved l" and ?p = "rg_region (lmb_reserved l) ! i"
  have cnt: "rg_cnt ?rgn \<le> length (rg_region ?rgn)" using "1.prems"(1) by (simp add: rgn_wf_def)
  show ?case
  proof (cases "i < rg_cnt ?rgn")
    case True
    note v = rgn_wf_valid [OF "1.prems"(1) regions_mem [OF True cnt]]
    have hp: "unat (lp_base ?p + lp_size ?p) = hi ?p"
      using v unat_end(1) [of "lp_size ?p" "lp_base ?p"] by (simp add: valid_region_def hi_def)
    have s: "sorted_regions (?p # drop (Suc i) (regions ?rgn))"
      using "1.prems"(1) append_take_drop_id [of i "regions ?rgn"]
      by (metis drop_regions [OF True cnt] rgn_wf_def sorted_regions_append)
    consider (below) "addr < lp_base ?p" | (inside) "\<not> addr < lp_base ?p" "lp_base ?p + lp_size ?p > addr"
      | (next_one) "\<not> addr < lp_base ?p" "\<not> lp_base ?p + lp_size ?p > addr" by blast
    then show ?thesis
    proof cases
      case below
      then have "unat (free_size_loop l addr i) = lo ?p - unat addr"
        using True by (subst free_size_loop.simps) (simp add: Let_def unat_sub less_imp_le lo_def)
      with below have "a < lo ?p" using "1.prems"(3) by (simp add: word_less_nat_alt lo_def)
      then show ?thesis
        using s by (force simp: drop_regions [OF True cnt] region_map_None sorted_regions_Cons lo_less_hi
            dest: lo_less_hi)
    next
      case inside
      then have "free_size_loop l addr i = 0" using True by (subst free_size_loop.simps) (simp add: Let_def)
      then show ?thesis using "1.prems"(2,3) by simp
    next
      case next_one
      then have eq: "free_size_loop l addr i = free_size_loop l addr (i + 1)"
        using True by (subst free_size_loop.simps) (simp add: Let_def)
      have "hi ?p \<le> a" using next_one(2) "1.prems"(2) hp by (simp add: word_less_nat_alt)
      then show ?thesis
        using "1.IH" [OF True refl next_one "1.prems"(1,2)] "1.prems"(3) eq
        by (simp add: drop_regions [OF True cnt])
    qed
  next
    case False
    then show ?thesis by (simp add: regions_def)
  qed
qed

section \<open>The allocator contract\<close>

definition lmb_inv :: "lmb \<Rightarrow> bool" where
  "lmb_inv l \<longleftrightarrow> lmb_wf l \<and> (\<forall>q \<in> set (regions (lmb_reserved l)). lp_flags q = LMB_NONE)"

definition lmb_taken :: "lmb \<Rightarrow> nat set" where
  "lmb_taken l = dom (reserved_at (lmb_reserved l))"

text \<open>A request of a size and an alignment, as the boot code makes it with \<open>lmb_alloc\<close>.\<close>

definition lmb_request :: "lmb \<Rightarrow> u64 \<times> u64 \<Rightarrow> lmb \<times> nat option" where
  "lmb_request l q =
     (case lmb_alloc l (fst q) (snd q) of (l', r) \<Rightarrow> (l', if r = 0 then None else Some (unat r)))"

lemma lmb_request_spec:
  assumes "lmb_inv l" "fst q \<noteq> 0" "lmb_request l q = (l', r)"
  shows "r = None \<and> l' = l \<or>
    (\<exists>b. r = Some b \<and> lmb_inv l' \<and> range_set (b, unat (fst q)) \<inter> lmb_taken l = {} \<and>
      lmb_taken l' = lmb_taken l \<union> range_set (b, unat (fst q)))"
proof -
  obtain b where a: "alloc_regions l (fst q) (snd q) 0 (rg_cnt (lmb_memory l)) = (l', b)"
    and r: "r = (if b = 0 then None else Some (unat b))"
    using assms(3) by (auto simp: lmb_request_def lmb_alloc_def lmb_alloc_base_def lmb_alloc_base_raw_def
        split: prod.splits)
  have wf: "lmb_wf l" using assms(1) by (simp add: lmb_inv_def)
  consider "b = 0" "l' = l" | "b \<noteq> 0" "allocated l l' b (fst q)"
    using alloc_regions_spec [OF wf assms(2) _ _ a] by auto
  then show ?thesis
  proof cases
    case 2
    then have add: "added (lmb_reserved l) (lmb_block b (fst q)) (lmb_reserved l')"
      and free: "\<forall>a. unat b \<le> a \<and> a < unat b + unat (fst q) \<longrightarrow> reserved_at (lmb_reserved l) a = None"
      and mem: "lmb_memory l' = lmb_memory l" by (simp_all add: allocated_def)
    have "lmb_inv l'" using add assms(1) mem by (simp add: lmb_inv_def lmb_wf_def added_def)
    moreover have "range_set (unat b, unat (fst q)) \<inter> lmb_taken l = {}"
      using free by (auto simp: range_set_def lmb_taken_def)
    moreover have "lmb_taken l' = lmb_taken l \<union> range_set (unat b, unat (fst q))"
      using addedD(2) [OF add] by (auto simp: lmb_taken_def range_set_def dom_def split: if_splits)
    ultimately show ?thesis using r 2 by simp
  qed (simp add: r)
qed

interpretation lmb_alloc: block_allocator lmb_inv lmb_taken "\<lambda>q. fst q \<noteq> 0" "\<lambda>q. unat (fst q)" lmb_request
  by unfold_locales (use lmb_request_spec in blast)+

section \<open>Properties\<close>

text \<open>
  C27. Adding a region that meets no entry of a well-formed, fully merged table either fails
  because the table is full, leaving it as it was, or gives a well-formed table that maps the
  new addresses to the new flags and every other address to what it was.
\<close>

theorem lmb_add_region_flags_correct:
  assumes "rgn_wf rgn" "merged (regions rgn)" "sz \<noteq> 0" "unat base + unat sz < 2 ^ 64"
    and "\<And>q. q \<in> set (regions rgn) \<Longrightarrow> hi q \<le> unat base \<or> unat base + unat sz \<le> lo q"
    and "lmb_add_region_flags rgn base sz flags = (rgn', r)"
  shows "r = - 1 \<and> rgn' = rgn \<and> rg_cnt rgn = rg_max rgn \<or>
    0 \<le> r \<and> rgn_wf rgn' \<and>
    reserved_at rgn' = (\<lambda>a. if unat base \<le> a \<and> a < unat base + unat sz then Some flags else reserved_at rgn a)"
proof -
  let ?p = "\<lparr>lp_base = base, lp_size = sz, lp_flags = flags\<rparr>"
  have "valid_region ?p" using assms(3,4) by (simp add: valid_region_def hi_def)
  moreover have "\<forall>q \<in> set (regions rgn). hi q \<le> lo ?p \<or> hi ?p \<le> lo q"
    using assms(5) by (simp add: lo_def hi_def)
  ultimately have "r = - 1 \<and> rgn' = rgn \<and> rg_cnt rgn = rg_max rgn \<or> 0 \<le> r \<and> added rgn ?p rgn'"
    using assms(6) by (intro add_region_free [OF assms(1,2)]) simp_all
  moreover have "lo ?p = unat base" "hi ?p = unat base + unat sz" by (simp_all add: lo_def hi_def)
  ultimately show ?thesis using addedD [of rgn ?p rgn'] by auto
qed

definition demo_region :: lmb_region where
  "demo_region =
     (let p = \<lparr>lp_base = 0x1000, lp_size = 0x1000, lp_flags = 0\<rparr>
      in \<lparr>rg_cnt = 1, rg_max = 4, rg_region = [p, p, p, p]\<rparr>)"

lemma demo_region_wf: "rgn_wf demo_region" "merged (regions demo_region)"
  "regions demo_region = [\<lparr>lp_base = 0x1000, lp_size = 0x1000, lp_flags = 0\<rparr>]"
  by (simp_all add: demo_region_def Let_def rgn_wf_def regions_def sorted_regions_def valid_region_def
      hi_def merged_def)

theorem lmb_add_region_flags_witness:
  "reserved_at (fst (lmb_add_region_flags demo_region 0x4000 0x1000 4)) 0x4800 = Some 4"
proof -
  obtain rgn' r where run: "lmb_add_region_flags demo_region 0x4000 0x1000 4 = (rgn', r)" by fastforce
  have "rg_cnt demo_region \<noteq> rg_max demo_region" by (simp add: demo_region_def Let_def)
  then show ?thesis
    using lmb_add_region_flags_correct [OF demo_region_wf(1,2) _ _ _ run] run
    by (simp add: demo_region_wf(3) hi_def lo_def)
qed


definition demo_lmb :: lmb where
  "demo_lmb = \<lparr>lmb_memory = demo_region, lmb_reserved = demo_region\<lparr>rg_cnt := 0\<rparr>\<rparr>"

lemma demo_lmb_wf: "lmb_wf demo_lmb"
  by (simp add: demo_lmb_def lmb_wf_def demo_region_wf, simp add: demo_region_def Let_def rgn_wf_def
      regions_def merged_def)


text \<open>
  Without the hypothesis that the size is at most \<open>max_addr\<close>, the allocator can return an
  address outside every memory region: the subtraction of the size from the limit wraps around.
  Here the only memory is \<open>0x1000\<close> bytes at 0, the request is for \<open>0x1000\<close> bytes below \<open>0x800\<close>, and
  the result is not the failure value 0 but an address at the top of the address space.
\<close>

theorem lmb_alloc_base_wraps:
  "snd (lmb_alloc_base
     \<lparr>lmb_memory = \<lparr>rg_cnt = 1, rg_max = 1, rg_region = [\<lparr>lp_base = 0, lp_size = 0x1000, lp_flags = 0\<rparr>]\<rparr>,
      lmb_reserved = \<lparr>rg_cnt = 0, rg_max = 1, rg_region = [\<lparr>lp_base = 0, lp_size = 0, lp_flags = 0\<rparr>]\<rparr>\<rparr>
     0x1000 1 0x800) = 0xFFFFFFFFFFFFF800"
  by code_simp



text \<open>
  C28. A \<open>lmb_free\<close> that reports success removes exactly the freed range from the reservations and
  leaves a well-formed table, in each of its four cases (the whole entry, its front, its end, a
  hole in its middle).
\<close>

theorem lmb_free_correct:
  assumes "lmb_wf l" "sz \<noteq> 0" "unat base + unat sz < 2 ^ 64" "lmb_free l base sz = (l', r)" "0 \<le> r"
  shows "lmb_memory l' = lmb_memory l \<and> rgn_wf (lmb_reserved l') \<and>
    reserved_at (lmb_reserved l') =
      (\<lambda>a. if unat base \<le> a \<and> a < unat base + unat sz then None else reserved_at (lmb_reserved l) a)"
  using assms by (rule lmb_free_ok)

definition demo_reserved :: lmb where
  "demo_reserved = demo_lmb\<lparr>lmb_reserved := demo_region\<rparr>"

lemma demo_reserved_wf: "lmb_wf demo_reserved"
  by (simp add: demo_reserved_def demo_lmb_def lmb_wf_def demo_region_wf(1,2))

theorem lmb_free_correct_witness:
  "reserved_at (lmb_reserved (fst (lmb_free demo_reserved 0x1400 0x100))) 0x1450 = None \<and>
   reserved_at (lmb_reserved (fst (lmb_free demo_reserved 0x1400 0x100))) 0x1500 = Some 0"
proof -
  have r: "snd (lmb_free demo_reserved 0x1400 0x100) = 0" by code_simp
  then obtain l' where run: "lmb_free demo_reserved 0x1400 0x100 = (l', 0)" by (metis prod.collapse)
  have "reserved_at (lmb_reserved demo_reserved) 0x1500 = Some 0"
    by (simp add: demo_reserved_def demo_region_wf(3) lo_def hi_def)
  with lmb_free_correct [OF demo_reserved_wf _ _ run] run show ?thesis by simp
qed

text \<open>
  When the table is full, \<open>lmb_free\<close> of a hole reports failure and still loses the reservation of
  everything after the hole: the entry was cut before the rest of it could not be added.
\<close>

theorem lmb_free_full_loses_tail:
  "let p = \<lparr>lp_base = 0x1000, lp_size = 0x1000, lp_flags = 0\<rparr>;
       l = \<lparr>lmb_memory = \<lparr>rg_cnt = 0, rg_max = 1, rg_region = [p]\<rparr>, lmb_reserved = \<lparr>rg_cnt = 1, rg_max = 1, rg_region = [p]\<rparr>\<rparr>;
       (l', r) = lmb_free l 0x1400 0x100
   in r = - 1 \<and> reserved_at (lmb_reserved l) 0x1800 = Some 0 \<and> reserved_at (lmb_reserved l') 0x1800 = None"
  by code_simp

text \<open>
  \<open>lmb_is_reserved_flags\<close> answers whether some reservation holds the address and has all the
  given flags.
\<close>

theorem lmb_is_reserved_flags_correct:
  assumes "rgn_wf (lmb_reserved l)"
  shows "lmb_is_reserved_flags l addr flags \<longleftrightarrow>
    (\<exists>f. reserved_at (lmb_reserved l) (unat addr) = Some f \<and> f AND flags = flags)"
  using reserved_flags_loop_eq [OF assms, of addr flags 0]
  by (simp add: lmb_is_reserved_flags_def split: option.splits)

theorem lmb_is_reserved_flags_witness:
  "lmb_is_reserved_flags demo_reserved 0x1234 0 \<and> \<not> lmb_is_reserved_flags demo_reserved 0x1234 4"
  using lmb_is_reserved_flags_correct [of demo_reserved] demo_reserved_wf
  by (simp add: lmb_wf_def, simp add: demo_reserved_def demo_region_wf(3) lo_def hi_def)

text \<open>
  No address in the range whose size \<open>lmb_get_free_size\<close> returns is reserved.
\<close>

theorem lmb_get_free_size_free:
  assumes "rgn_wf (lmb_reserved l)" "unat addr \<le> a" "a < unat addr + unat (lmb_get_free_size l addr)"
  shows "reserved_at (lmb_reserved l) a = None"
  using free_size_loop_free [OF assms(1,2), of 0] assms(2,3)
  by (simp add: lmb_get_free_size_def split: if_splits)

theorem lmb_get_free_size_witness:
  "lmb_get_free_size demo_lmb 0x1800 = 0x800 \<and> reserved_at (lmb_reserved demo_lmb) 0x1900 = None"
proof -
  have "lmb_get_free_size demo_lmb 0x1800 = 0x800" by code_simp
  then show ?thesis
    using lmb_get_free_size_free [where l = demo_lmb and addr = "0x1800" and a = "0x1900"] demo_lmb_wf by (simp add: lmb_wf_def)
qed

text \<open>
  \<open>lmb_reserve_flags\<close> can report success without reserving anything. When the new region touches
  an entry with other flags and that entry touches the next one with the same flags as its own,
  the two old entries are merged, the merge counts as success and the new region is dropped.
\<close>

theorem lmb_reserve_flags_drops_region:
  "let d = \<lparr>lp_base = 0x1000, lp_size = 0x1000, lp_flags = 0\<rparr>; e = \<lparr>lp_base = 0x2000, lp_size = 0x1000, lp_flags = 0\<rparr>;
       rgn = \<lparr>rg_cnt = 2, rg_max = 4, rg_region = [d, e, e, e]\<rparr>;
       (rgn', r) = lmb_add_region_flags rgn 0 0x1000 4
   in r = 1 \<and> reserved_at rgn' 0x800 = None"
  by code_simp

text \<open>
  \<open>lmb_alloc_addr\<close> hands out a range that is already reserved, when the reservation has the
  default flags: adding a region inside an entry with equal flags counts as success.
\<close>

theorem lmb_alloc_addr_reserved:
  "snd (lmb_alloc_addr demo_reserved 0x1400 0x100) = 0x1400 \<and>
   reserved_at (lmb_reserved demo_reserved) 0x1400 = Some 0"
  by code_simp

end
