(* ===== verification/Ctype.thy ===== *)
theory Ctype
  imports Prelude
begin

text \<open>
  Character classes: the table \<open>_ctype\<close> of \<open>lib/ctype.c\<close> and the macros of
  \<open>include/linux/ctype.h\<close> that read it, on bytes. The lemmas give the ranges that the table
  encodes.
\<close>

section \<open>Model\<close>

text \<open>Sixteen entries to a line; \<open>1\<close> is \<open>_U\<close>, \<open>2\<close> \<open>_L\<close>, \<open>4\<close> \<open>_D\<close>, \<open>8\<close> \<open>_C\<close>, \<open>16\<close> \<open>_P\<close>, \<open>32\<close> \<open>_S\<close>,
  \<open>64\<close> \<open>_X\<close>, \<open>128\<close> \<open>_SP\<close>.\<close>

definition ctype_table :: "u8 list" where
  "ctype_table =
     [8, 8, 8, 8, 8, 8, 8, 8, 8, 40, 40, 40, 40, 40, 8, 8,
      8, 8, 8, 8, 8, 8, 8, 8, 8, 8, 8, 8, 8, 8, 8, 8,
      160, 16, 16, 16, 16, 16, 16, 16, 16, 16, 16, 16, 16, 16, 16, 16,
      4, 4, 4, 4, 4, 4, 4, 4, 4, 4, 16, 16, 16, 16, 16, 16,
      16, 65, 65, 65, 65, 65, 65, 1, 1, 1, 1, 1, 1, 1, 1, 1,
      1, 1, 1, 1, 1, 1, 1, 1, 1, 1, 1, 16, 16, 16, 16, 16,
      16, 66, 66, 66, 66, 66, 66, 2, 2, 2, 2, 2, 2, 2, 2, 2,
      2, 2, 2, 2, 2, 2, 2, 2, 2, 2, 2, 16, 16, 16, 16, 8,
      0, 0, 0, 0, 0, 0, 0, 0, 0, 0, 0, 0, 0, 0, 0, 0,
      0, 0, 0, 0, 0, 0, 0, 0, 0, 0, 0, 0, 0, 0, 0, 0,
      160, 16, 16, 16, 16, 16, 16, 16, 16, 16, 16, 16, 16, 16, 16, 16,
      16, 16, 16, 16, 16, 16, 16, 16, 16, 16, 16, 16, 16, 16, 16, 16,
      1, 1, 1, 1, 1, 1, 1, 1, 1, 1, 1, 1, 1, 1, 1, 1,
      1, 1, 1, 1, 1, 1, 1, 16, 1, 1, 1, 1, 1, 1, 1, 2,
      2, 2, 2, 2, 2, 2, 2, 2, 2, 2, 2, 2, 2, 2, 2, 2,
      2, 2, 2, 2, 2, 2, 2, 16, 2, 2, 2, 2, 2, 2, 2, 2]"

definition ismask :: "u8 \<Rightarrow> u8" where
  "ismask c = ctype_table ! unat c"

definition isdigit :: "u8 \<Rightarrow> bool" where "isdigit c = (ismask c AND 4 \<noteq> 0)"
definition isupper :: "u8 \<Rightarrow> bool" where "isupper c = (ismask c AND 1 \<noteq> 0)"
definition islower :: "u8 \<Rightarrow> bool" where "islower c = (ismask c AND 2 \<noteq> 0)"
definition isalpha :: "u8 \<Rightarrow> bool" where "isalpha c = (ismask c AND 3 \<noteq> 0)"
definition isalnum :: "u8 \<Rightarrow> bool" where "isalnum c = (ismask c AND 7 \<noteq> 0)"
definition isspace :: "u8 \<Rightarrow> bool" where "isspace c = (ismask c AND 32 \<noteq> 0)"
definition isxdigit :: "u8 \<Rightarrow> bool" where "isxdigit c = (ismask c AND 68 \<noteq> 0)"
definition isprint :: "u8 \<Rightarrow> bool" where "isprint c = (ismask c AND 151 \<noteq> 0)"
definition isblank :: "u8 \<Rightarrow> bool" where "isblank c = (c = 32 \<or> c = 9)"

definition tolower :: "u8 \<Rightarrow> u8" where
  "tolower c = (if isupper c then c - (65 - 97) else c)"

definition toupper :: "u8 \<Rightarrow> u8" where
  "toupper c = (if islower c then c - (97 - 65) else c)"

section \<open>The ranges the table encodes\<close>

lemma unat_u8_less: "unat (c :: u8) < 256"
  using unsigned_less [of c] by simp

text \<open>The table is read once, in step with the code points.\<close>

lemma ctype_ranges:
  "list_all2 (\<lambda>n v. (v AND 4 \<noteq> 0) = (48 \<le> n \<and> n \<le> 57)) [0::int..255] ctype_table"
  "list_all2 (\<lambda>n v. (v AND 68 \<noteq> 0) = (48 \<le> n \<and> n \<le> 57 \<or> 65 \<le> n \<and> n \<le> 70 \<or> 97 \<le> n \<and> n \<le> 102)) [0::int..255] ctype_table"
  "list_all2 (\<lambda>n v. (v AND 1 \<noteq> 0) = (65 \<le> n \<and> n \<le> 90 \<or> 192 \<le> n \<and> n \<le> 222 \<and> n \<noteq> 215)) [0::int..255] ctype_table"
  "list_all2 (\<lambda>n v. (v AND 2 \<noteq> 0) = (97 \<le> n \<and> n \<le> 122 \<or> 223 \<le> n \<and> n \<noteq> 247)) [0::int..255] ctype_table"
  "list_all2 (\<lambda>n v. (v AND 32 \<noteq> 0) = (9 \<le> n \<and> n \<le> 13 \<or> n = 32 \<or> n = 160)) [0::int..255] ctype_table"
  by code_simp+

lemma ctype_lookup:
  assumes "list_all2 P [0::int..255] ctype_table"
  shows "P (int (unat c)) (ismask c)"
proof -
  have "unat c < length [0::int..255]" using unat_u8_less [of c] by simp
  with assms have "P ([0::int..255] ! unat c) (ctype_table ! unat c)" by (rule list_all2_nthD)
  then show ?thesis using unat_u8_less [of c] by (simp add: ismask_def nth_upto del: of_nat_unat)
qed

lemma isdigit_iff: "isdigit c \<longleftrightarrow> 48 \<le> unat c \<and> unat c \<le> 57"
  using ctype_lookup [OF ctype_ranges(1), of c] by (simp add: isdigit_def del: of_nat_unat)

lemma isxdigit_iff: "isxdigit c \<longleftrightarrow> 48 \<le> unat c \<and> unat c \<le> 57 \<or> 65 \<le> unat c \<and> unat c \<le> 70 \<or> 97 \<le> unat c \<and> unat c \<le> 102"
  using ctype_lookup [OF ctype_ranges(2), of c] by (simp add: isxdigit_def del: of_nat_unat)

lemma isupper_iff: "isupper c \<longleftrightarrow> 65 \<le> unat c \<and> unat c \<le> 90 \<or> 192 \<le> unat c \<and> unat c \<le> 222 \<and> unat c \<noteq> 215"
  using ctype_lookup [OF ctype_ranges(3), of c] by (simp add: isupper_def del: of_nat_unat)

lemma islower_iff: "islower c \<longleftrightarrow> 97 \<le> unat c \<and> unat c \<le> 122 \<or> 223 \<le> unat c \<and> unat c \<noteq> 247"
  using ctype_lookup [OF ctype_ranges(4), of c] by (simp add: islower_def del: of_nat_unat)

lemma isspace_iff: "isspace c \<longleftrightarrow> 9 \<le> unat c \<and> unat c \<le> 13 \<or> unat c = 32 \<or> unat c = 160"
  using ctype_lookup [OF ctype_ranges(5), of c] by (simp add: isspace_def del: of_nat_unat)

lemma unat_tolower: "unat (tolower c) = (if isupper c then unat c + 32 else unat c)"
proof (cases "isupper c")
  case True
  then have "unat c + 32 < 256" by (auto simp: isupper_iff)
  then have "unat (c + 32) = unat c + 32" by (simp add: unat_plus_no_wrap)
  then show ?thesis using True by (simp add: tolower_def)
qed (simp add: tolower_def)

lemma tolower_not_upper: "\<not> isupper (tolower c)"
  using unat_u8_less [of c] by (cases "isupper c") (auto simp: isupper_iff unat_tolower)

lemma tolower_idem [simp]: "tolower (tolower c) = tolower c"
  using tolower_not_upper [of c] by (simp add: tolower_def [of "tolower c"])

end
