(* ===== verification/Strings.thy ===== *)
theory Strings
  imports Ctype
begin

text \<open>
  The string and memory routines of \<open>lib/string.c\<close> on the byte store. A routine that scans for a
  terminator may not return when there is none, so its result is an option and \<open>None\<close> means that
  it never returns; the lemmas show that it does return on a terminated string (\<open>cstr\<close>), with what
  result. The word-at-a-time paths of \<open>memset\<close>, \<open>memcpy\<close> and \<open>memchr_inv\<close> are modelled for the
  64-bit build, in which \<open>sizeof(unsigned long)\<close> is 8. A character argument of type \<open>int\<close> is
  converted as the code converts it.
\<close>

section \<open>Model\<close>

abbreviation to_char :: "int \<Rightarrow> u8" where "to_char c \<equiv> word_of_int c"

subsection \<open>Length and search\<close>

partial_function (option) strlen_loop :: "mem \<Rightarrow> ptr \<Rightarrow> ptr option" where
  "strlen_loop m sc = (if m sc \<noteq> 0 then strlen_loop m (sc + 1) else Some sc)"

definition strlen :: "mem \<Rightarrow> ptr \<Rightarrow> nat option" where
  "strlen m s = map_option (\<lambda>sc. sc - s) (strlen_loop m s)"

fun strnlen_loop :: "mem \<Rightarrow> ptr \<Rightarrow> nat \<Rightarrow> ptr" where
  "strnlen_loop m sc 0 = sc"
| "strnlen_loop m sc (Suc count) = (if m sc \<noteq> 0 then strnlen_loop m (sc + 1) count else sc)"

definition strnlen :: "mem \<Rightarrow> ptr \<Rightarrow> nat \<Rightarrow> nat" where
  "strnlen m s count = strnlen_loop m s count - s"

partial_function (option) strchr :: "mem \<Rightarrow> ptr \<Rightarrow> int \<Rightarrow> ptr option" where
  "strchr m s c =
     (if m s \<noteq> to_char c then if m s = 0 then Some NULL else strchr m (s + 1) c
      else Some s)"

partial_function (option) strchrnul :: "mem \<Rightarrow> ptr \<Rightarrow> int \<Rightarrow> ptr option" where
  "strchrnul m s c =
     (if m s \<noteq> to_char c then if m s = 0 then Some s else strchrnul m (s + 1) c
      else Some s)"

text \<open>The loop of \<open>strrchr\<close> from \<open>p = s + n\<close> down to \<open>s\<close>.\<close>

fun strrchr_loop :: "mem \<Rightarrow> ptr \<Rightarrow> int \<Rightarrow> nat \<Rightarrow> ptr" where
  "strrchr_loop m s c 0 = (if m s = to_char c then s else NULL)"
| "strrchr_loop m s c (Suc n) = (if m (s + Suc n) = to_char c then s + Suc n else strrchr_loop m s c n)"

definition strrchr :: "mem \<Rightarrow> ptr \<Rightarrow> int \<Rightarrow> ptr option" where
  "strrchr m s c = map_option (strrchr_loop m s c) (strlen m s)"

text \<open>The inner loops of \<open>strcspn\<close>, \<open>strspn\<close> and \<open>strpbrk\<close>: is the byte \<open>b\<close> in the string at \<open>r\<close>?\<close>

partial_function (option) in_set_at :: "mem \<Rightarrow> u8 \<Rightarrow> ptr \<Rightarrow> bool option" where
  "in_set_at m b r = (if m r \<noteq> 0 then if b = m r then Some True else in_set_at m b (r + 1) else Some False)"

partial_function (option) strcspn_loop :: "mem \<Rightarrow> ptr \<Rightarrow> ptr \<Rightarrow> nat \<Rightarrow> nat option" where
  "strcspn_loop m p reject count =
     (if m p \<noteq> 0 then
        Option.bind (in_set_at m (m p) reject)
          (\<lambda>found. if found then Some count else strcspn_loop m (p + 1) reject (count + 1))
      else Some count)"

definition strcspn :: "mem \<Rightarrow> ptr \<Rightarrow> ptr \<Rightarrow> nat option" where
  "strcspn m s reject = strcspn_loop m s reject 0"

partial_function (option) strspn_loop :: "mem \<Rightarrow> ptr \<Rightarrow> ptr \<Rightarrow> nat \<Rightarrow> nat option" where
  "strspn_loop m p accept count =
     (if m p \<noteq> 0 then
        Option.bind (in_set_at m (m p) accept)
          (\<lambda>found. if found then strspn_loop m (p + 1) accept (count + 1) else Some count)
      else Some count)"

definition strspn :: "mem \<Rightarrow> ptr \<Rightarrow> ptr \<Rightarrow> nat option" where
  "strspn m s accept = strspn_loop m s accept 0"

partial_function (option) strpbrk :: "mem \<Rightarrow> ptr \<Rightarrow> ptr \<Rightarrow> ptr option" where
  "strpbrk m sc1 ct =
     (if m sc1 \<noteq> 0 then
        Option.bind (in_set_at m (m sc1) ct)
          (\<lambda>found. if found then Some sc1 else strpbrk m (sc1 + 1) ct)
      else Some NULL)"

subsection \<open>Copying\<close>

partial_function (option) strcpy_loop :: "mem \<Rightarrow> ptr \<Rightarrow> ptr \<Rightarrow> mem option" where
  "strcpy_loop m dest src =
     (let m' = m(dest := m src) in if m src \<noteq> 0 then strcpy_loop m' (dest + 1) (src + 1) else Some m')"

definition strcpy :: "mem \<Rightarrow> ptr \<Rightarrow> ptr \<Rightarrow> (mem \<times> ptr) option" where
  "strcpy m dest src = map_option (\<lambda>m'. (m', dest)) (strcpy_loop m dest src)"

fun strncpy_loop :: "mem \<Rightarrow> ptr \<Rightarrow> ptr \<Rightarrow> nat \<Rightarrow> mem" where
  "strncpy_loop m dest src 0 = m"
| "strncpy_loop m dest src (Suc count) =
     (let m' = m(dest := m src) in if m src \<noteq> 0 then strncpy_loop m' (dest + 1) (src + 1) count else m')"

definition strncpy :: "mem \<Rightarrow> ptr \<Rightarrow> ptr \<Rightarrow> nat \<Rightarrow> mem \<times> ptr" where
  "strncpy m dest src count = (strncpy_loop m dest src count, dest)"

text \<open>\<open>memcpy\<close>: words while both pointers are aligned, then bytes, always forward.\<close>

fun copy_bytes :: "mem \<Rightarrow> ptr \<Rightarrow> ptr \<Rightarrow> nat \<Rightarrow> mem" where
  "copy_bytes m d8 s8 0 = m"
| "copy_bytes m d8 s8 (Suc count) = copy_bytes (m(d8 := m s8)) (d8 + 1) (s8 + 1) count"

function copy_words :: "mem \<Rightarrow> ptr \<Rightarrow> ptr \<Rightarrow> nat \<Rightarrow> mem \<times> ptr \<times> ptr \<times> nat" where
  "copy_words m dl sl count =
     (if count \<ge> 8 then copy_words (mem_store m dl (mem_bytes m sl 8)) (dl + 8) (sl + 8) (count - 8)
      else (m, dl, sl, count))"
  by pat_completeness auto
termination
  by (relation "measure (\<lambda>(m, dl, sl, count). count)") auto

declare copy_words.simps [simp del]

definition memcpy :: "mem \<Rightarrow> ptr \<Rightarrow> ptr \<Rightarrow> nat \<Rightarrow> mem \<times> ptr" where
  "memcpy m dest src count =
     (if src = dest then (m, dest)
      else
        let (m', dl, sl, count') =
              (if (dest OR src) AND (8 - 1) = 0 then copy_words m dest src count else (m, dest, src, count))
        in (copy_bytes m' dl sl count', dest))"

fun move_down :: "mem \<Rightarrow> ptr \<Rightarrow> ptr \<Rightarrow> nat \<Rightarrow> mem" where
  "move_down m dest src 0 = m"
| "move_down m dest src (Suc count) = move_down (m(dest + count := m (src + count))) dest src count"

definition memmove :: "mem \<Rightarrow> ptr \<Rightarrow> ptr \<Rightarrow> nat \<Rightarrow> mem \<times> ptr" where
  "memmove m dest src count =
     (if dest \<le> src \<or> src + count \<le> dest then (fst (memcpy m dest src count), dest)
      else (move_down m dest src count, dest))"

definition strlcpy :: "mem \<Rightarrow> ptr \<Rightarrow> ptr \<Rightarrow> nat \<Rightarrow> (mem \<times> nat) option" where
  "strlcpy m dest src sz =
     map_option (\<lambda>ret.
       if sz \<noteq> 0 then
         let len = (if ret \<ge> sz then sz - 1 else ret);
             m' = fst (memcpy m dest src len)
         in (m'(dest + len := 0), ret)
       else (m, ret)) (strlen m src)"

definition strcat :: "mem \<Rightarrow> ptr \<Rightarrow> ptr \<Rightarrow> (mem \<times> ptr) option" where
  "strcat m dest src =
     Option.bind (strlen_loop m dest) (\<lambda>d. map_option (\<lambda>m'. (m', dest)) (strcpy_loop m d src))"

fun strncat_loop :: "mem \<Rightarrow> ptr \<Rightarrow> ptr \<Rightarrow> nat \<Rightarrow> mem" where
  "strncat_loop m dest src 0 = m"
| "strncat_loop m dest src (Suc count) =
     (let m' = m(dest := m src)
      in if m src = 0 then m'
         else if count = 0 then m'(dest + 1 := 0)
         else strncat_loop m' (dest + 1) (src + 1) count)"

definition strncat :: "mem \<Rightarrow> ptr \<Rightarrow> ptr \<Rightarrow> nat \<Rightarrow> (mem \<times> ptr) option" where
  "strncat m dest src count =
     (if count \<noteq> 0 then
        map_option (\<lambda>d. (strncat_loop m d src count, dest)) (strlen_loop m dest)
      else Some (m, dest))"

definition strlcat :: "mem \<Rightarrow> ptr \<Rightarrow> ptr \<Rightarrow> nat \<Rightarrow> (mem \<times> nat) option" where
  "strlcat m dest src sz =
     (let len = strnlen m dest sz
      in map_option (\<lambda>(m', r). (m', len + r)) (strlcpy m (dest + len) src (sz - len)))"

text \<open>\<open>strdup\<close>, \<open>strndup\<close> and \<open>memdup\<close>; \<open>alloc\<close> gives the pointer that \<open>malloc\<close> returns for a size.\<close>

definition strdup :: "(nat \<Rightarrow> ptr) \<Rightarrow> mem \<Rightarrow> ptr \<Rightarrow> (mem \<times> ptr) option" where
  "strdup alloc m s =
     (if s = NULL then Some (m, NULL)
      else Option.bind (strlen m s) (\<lambda>n.
        let new = alloc (n + 1)
        in if new = NULL then Some (m, NULL) else strcpy m new s))"

definition strndup :: "(nat \<Rightarrow> ptr) \<Rightarrow> mem \<Rightarrow> ptr \<Rightarrow> nat \<Rightarrow> (mem \<times> ptr) option" where
  "strndup alloc m s n =
     (if s = NULL then Some (m, NULL)
      else map_option (\<lambda>len0.
        let len = (if n < len0 then n else len0);
            new = alloc (len + 1)
        in if new = NULL then (m, NULL)
           else ((fst (strncpy m new s len))(new + len := 0), new)) (strlen m s))"

definition memdup :: "(nat \<Rightarrow> ptr) \<Rightarrow> mem \<Rightarrow> ptr \<Rightarrow> nat \<Rightarrow> mem \<times> ptr" where
  "memdup alloc m src len =
     (let p = alloc len in if p = NULL then (m, NULL) else (fst (memcpy m p src len), p))"

subsection \<open>Comparing\<close>

partial_function (option) strcmp :: "mem \<Rightarrow> ptr \<Rightarrow> ptr \<Rightarrow> int option" where
  "strcmp m cs ct =
     (let a = m cs; b = m ct; ret = uint a - uint b
      in if ret \<noteq> 0 \<or> b = 0 then Some ret else strcmp m (cs + 1) (ct + 1))"

fun strncmp_loop :: "mem \<Rightarrow> ptr \<Rightarrow> ptr \<Rightarrow> int \<Rightarrow> nat \<Rightarrow> int" where
  "strncmp_loop m cs ct ret 0 = ret"
| "strncmp_loop m cs ct ret (Suc count) =
     (let a = m cs; b = m ct; ret' = uint a - uint b
      in if ret' \<noteq> 0 \<or> b = 0 then ret' else strncmp_loop m (cs + 1) (ct + 1) ret' count)"

definition strncmp :: "mem \<Rightarrow> ptr \<Rightarrow> ptr \<Rightarrow> nat \<Rightarrow> int" where
  "strncmp m cs ct count = strncmp_loop m cs ct 0 count"

text \<open>The \<open>do ... while (--len)\<close> loop of \<open>strncasecmp\<close>, entered with \<open>len > 0\<close>.\<close>

function strncasecmp_loop :: "mem \<Rightarrow> ptr \<Rightarrow> ptr \<Rightarrow> nat \<Rightarrow> u8 \<times> u8" where
  "strncasecmp_loop m s1 s2 len =
     (if m s1 = 0 \<or> m s2 = 0 then (m s1, m s2)
      else
        let c1 = (if m s1 = m s2 then m s1 else tolower (m s1));
            c2 = (if m s1 = m s2 then m s2 else tolower (m s2))
        in if c1 = c2 \<and> 1 < len then strncasecmp_loop m (s1 + 1) (s2 + 1) (len - 1) else (c1, c2))"
  by pat_completeness auto
termination
  by (relation "measure (\<lambda>(m, s1, s2, len). len)") auto

declare strncasecmp_loop.simps [simp del]

definition strncasecmp :: "mem \<Rightarrow> ptr \<Rightarrow> ptr \<Rightarrow> nat \<Rightarrow> int" where
  "strncasecmp m s1 s2 len =
     (if len \<noteq> 0 then case strncasecmp_loop m s1 s2 len of (c1, c2) \<Rightarrow> uint c1 - uint c2 else 0)"

definition strcasecmp :: "mem \<Rightarrow> ptr \<Rightarrow> ptr \<Rightarrow> int" where
  "strcasecmp m s1 s2 = strncasecmp m s1 s2 (2 ^ 32 - 1)"

fun memcmp_loop :: "mem \<Rightarrow> ptr \<Rightarrow> ptr \<Rightarrow> int \<Rightarrow> nat \<Rightarrow> int" where
  "memcmp_loop m su1 su2 res 0 = res"
| "memcmp_loop m su1 su2 res (Suc count) =
     (let res' = uint (m su1) - uint (m su2)
      in if res' \<noteq> 0 then res' else memcmp_loop m (su1 + 1) (su2 + 1) res' count)"

definition memcmp :: "mem \<Rightarrow> ptr \<Rightarrow> ptr \<Rightarrow> nat \<Rightarrow> int" where
  "memcmp m cs ct count = memcmp_loop m cs ct 0 count"

text \<open>
  The search loop of \<open>strstr\<close>; \<open>Suc n\<close> iterations are left while \<open>l1 = l2 + n\<close>. Both lengths are
  kept in an \<open>int\<close>, so each is cut to 32 bits; the \<open>count\<close> given to \<open>memcmp\<close> is extended again.
\<close>

definition to_int :: "nat \<Rightarrow> int" where
  "to_int n = signed_take_bit 31 (int n)"

fun strstr_loop :: "mem \<Rightarrow> ptr \<Rightarrow> ptr \<Rightarrow> nat \<Rightarrow> nat \<Rightarrow> ptr" where
  "strstr_loop m s1 s2 l2 0 = NULL"
| "strstr_loop m s1 s2 l2 (Suc n) =
     (if memcmp m s1 s2 l2 = 0 then s1 else strstr_loop m (s1 + 1) s2 l2 n)"

definition strstr :: "mem \<Rightarrow> ptr \<Rightarrow> ptr \<Rightarrow> ptr option" where
  "strstr m s1 s2 =
     Option.bind (strlen m s2) (\<lambda>n2.
       let l2 = to_int n2 in
       if l2 = 0 then Some s1
       else map_option (\<lambda>n1.
              let l1 = to_int n1
              in strstr_loop m s1 s2 (unat (word_of_int l2 :: u64)) (nat (l1 - l2 + 1)))
            (strlen m s1))"

subsection \<open>Tokens\<close>

text \<open>\<open>strtok\<close> with its static pointer \<open>___strtok\<close>, passed in and out.\<close>

definition strtok :: "mem \<Rightarrow> ptr \<Rightarrow> ptr \<Rightarrow> ptr \<Rightarrow> (mem \<times> ptr \<times> ptr) option" where
  "strtok m static_strtok s ct =
     (let sbegin0 = (if s \<noteq> NULL then s else static_strtok)
      in if sbegin0 = NULL then Some (m, static_strtok, NULL)
         else Option.bind (strspn m sbegin0 ct) (\<lambda>n.
           let sbegin = sbegin0 + n
           in if m sbegin = 0 then Some (m, NULL, NULL)
              else map_option (\<lambda>send.
                if send \<noteq> NULL \<and> m send \<noteq> 0 then (m(send := 0), send + 1, sbegin)
                else (m, send, sbegin)) (strpbrk m sbegin ct)))"

text \<open>\<open>strsep\<close>: the new store, the new value of \<open>*s\<close> and the token.\<close>

definition strsep :: "mem \<Rightarrow> ptr \<Rightarrow> ptr \<Rightarrow> (mem \<times> ptr \<times> ptr) option" where
  "strsep m sbegin ct =
     (if sbegin = NULL then Some (m, sbegin, NULL)
      else map_option (\<lambda>e. if e \<noteq> NULL then (m(e := 0), e + 1, sbegin) else (m, e, sbegin))
             (strpbrk m sbegin ct))"

partial_function (option) strswab_loop :: "mem \<Rightarrow> ptr \<Rightarrow> ptr \<Rightarrow> mem option" where
  "strswab_loop m p q =
     (if m p \<noteq> 0 \<and> m q \<noteq> 0 then strswab_loop (m(p := m q, q := m p)) (p + 2) (q + 2) else Some m)"

definition strswab :: "mem \<Rightarrow> ptr \<Rightarrow> (mem \<times> ptr) option" where
  "strswab m s =
     (if s = NULL \<or> m s = 0 then Some (m, NULL)
      else map_option (\<lambda>m'. (m', s)) (strswab_loop m s (s + 1)))"

subsection \<open>Filling and scanning\<close>

text \<open>The 64-bit value stored at an address, little endian.\<close>

definition le64_bytes :: "u64 \<Rightarrow> u8 list" where
  "le64_bytes w = map (\<lambda>i. ucast (drop_bit (8 * i) w)) [0..<8]"

definition load_le64 :: "mem \<Rightarrow> ptr \<Rightarrow> u64" where
  "load_le64 m p = foldr (\<lambda>b w. push_bit 8 w OR ucast b) (mem_bytes m p 8) 0"

definition memset_word :: "u8 \<Rightarrow> u64" where
  "memset_word c = ((\<lambda>cl. push_bit 8 cl OR ucast c) ^^ 8) 0"

function fill_words :: "mem \<Rightarrow> ptr \<Rightarrow> u64 \<Rightarrow> nat \<Rightarrow> mem \<times> ptr \<times> nat" where
  "fill_words m sl cl count =
     (if count \<ge> 8 then fill_words (mem_store m sl (le64_bytes cl)) (sl + 8) cl (count - 8)
      else (m, sl, count))"
  by pat_completeness auto
termination
  by (relation "measure (\<lambda>(m, sl, cl, count). count)") auto

declare fill_words.simps [simp del]

fun fill_bytes :: "mem \<Rightarrow> ptr \<Rightarrow> u8 \<Rightarrow> nat \<Rightarrow> mem" where
  "fill_bytes m s8 c 0 = m"
| "fill_bytes m s8 c (Suc count) = fill_bytes (m(s8 := c)) (s8 + 1) c count"

definition memset :: "mem \<Rightarrow> ptr \<Rightarrow> int \<Rightarrow> nat \<Rightarrow> mem \<times> ptr" where
  "memset m s c count =
     (let (m', s8, count') =
            (if s AND (8 - 1) = 0 then fill_words m s (memset_word (to_char c)) count else (m, s, count))
      in (fill_bytes m' s8 (to_char c) count', s))"

fun memscan :: "mem \<Rightarrow> ptr \<Rightarrow> int \<Rightarrow> nat \<Rightarrow> ptr" where
  "memscan m p c 0 = p"
| "memscan m p c (Suc sz) = (if uint (m p) = c then p else memscan m (p + 1) c sz)"

fun memchr :: "mem \<Rightarrow> ptr \<Rightarrow> int \<Rightarrow> nat \<Rightarrow> ptr" where
  "memchr m p c 0 = NULL"
| "memchr m p c (Suc n) = (if to_char c = m p then p else memchr m (p + 1) c n)"

fun check_bytes8 :: "mem \<Rightarrow> ptr \<Rightarrow> u8 \<Rightarrow> nat \<Rightarrow> ptr" where
  "check_bytes8 m start v 0 = NULL"
| "check_bytes8 m start v (Suc bytes) =
     (if m start \<noteq> v then start else check_bytes8 m (start + 1) v bytes)"

fun inv_words :: "mem \<Rightarrow> ptr \<Rightarrow> u8 \<Rightarrow> u64 \<Rightarrow> nat \<Rightarrow> nat \<Rightarrow> ptr" where
  "inv_words m start v value64 bytes 0 = check_bytes8 m start v (bytes mod 8)"
| "inv_words m start v value64 bytes (Suc words) =
     (if load_le64 m start \<noteq> value64 then check_bytes8 m start v 8
      else inv_words m (start + 8) v value64 bytes words)"

text \<open>\<open>words\<close> is an \<open>unsigned int\<close>: the quotient is cut to 32 bits.\<close>

definition memchr_inv :: "mem \<Rightarrow> ptr \<Rightarrow> int \<Rightarrow> nat \<Rightarrow> ptr" where
  "memchr_inv m start c bytes =
     (let v = to_char c in
      if bytes \<le> 16 then check_bytes8 m start v bytes
      else
        let v0 = ucast v :: u64;
            v1 = v0 OR push_bit 8 v0;
            v2 = v1 OR push_bit 16 v1;
            value64 = v2 OR push_bit 32 v2;
            prefix = start mod 8
        in if prefix \<noteq> 0 then
             (let prefix' = 8 - prefix; r = check_bytes8 m start v prefix'
              in if r \<noteq> NULL then r
                 else inv_words m (start + prefix') v value64 (bytes - prefix')
                        ((bytes - prefix') div 8 mod 2 ^ 32))
           else inv_words m start v value64 bytes (bytes div 8 mod 2 ^ 32))"

section \<open>Block operations\<close>

lemma copy_bytes_eq:
  "d \<le> s \<or> s + n \<le> d \<Longrightarrow> copy_bytes m d s n = mem_store m d (mem_bytes m s n)"
proof (induction n arbitrary: m d s)
  case (Suc n)
  have "mem_bytes (m(d := m s)) (s + 1) n = mem_bytes m (s + 1) n"
    using Suc.prems by (intro mem_bytes_upd_other) auto
  then show ?case
    using Suc.IH [of "d + 1" "s + 1" "m(d := m s)"] Suc.prems
    by (simp add: mem_bytes_Suc mem_store_Cons del: fun_upd_apply) (auto simp del: fun_upd_apply)
qed simp

lemma copy_words_bytes:
  assumes "d \<le> s \<or> s + n \<le> d"
  shows "(case copy_words m d s n of (m', dl, sl, k) \<Rightarrow> copy_bytes m' dl sl k) = mem_store m d (mem_bytes m s n)"
  using assms
proof (induction m d s n rule: copy_words.induct)
  case (1 m d s n)
  show ?case
  proof (cases "8 \<le> n")
    case True
    let ?m = "mem_store m d (mem_bytes m s 8)"
    have "mem_bytes ?m (s + 8) (n - 8) = mem_bytes m (s + 8) (n - 8)"
      using "1.prems" True by (intro mem_store_disjoint) (auto simp: disjoint_range_def)
    moreover have "mem_bytes m s n = mem_bytes m s 8 @ mem_bytes m (s + 8) (n - 8)"
      using mem_bytes_add [of m s 8 "n - 8"] True by simp
    ultimately show ?thesis
      using "1.IH" [OF True] "1.prems" True
      by (subst copy_words.simps) (auto simp: mem_store_append)
  next
    case False
    then show ?thesis using copy_bytes_eq [OF "1.prems"] by (subst copy_words.simps) simp
  qed
qed

lemma mem_store_self: "mem_store m p (mem_bytes m p n) = m"
  by (rule ext) (auto simp: mem_store_def)

lemma memcpy_eq:
  "d \<le> s \<or> s + n \<le> d \<Longrightarrow> memcpy m d s n = (mem_store m d (mem_bytes m s n), d)"
  using copy_words_bytes [of d s n m] copy_bytes_eq [of d s n m]
  by (auto simp: memcpy_def mem_store_self split: prod.splits)

lemma mem_store_upd_above:
  "p + length bs \<le> a \<Longrightarrow> mem_store (m(a := x)) p bs = (mem_store m p bs)(a := x)"
  by (rule ext) (auto simp: mem_store_def)

lemma move_down_eq: "s \<le> d \<Longrightarrow> move_down m d s n = mem_store m d (mem_bytes m s n)"
proof (induction n arbitrary: m)
  case (Suc n)
  let ?m = "m(d + n := m (s + n))"
  have "mem_bytes ?m s n = mem_bytes m s n" using Suc.prems by (intro mem_bytes_upd_other) auto
  then have "move_down m d s (Suc n) = mem_store ?m d (mem_bytes m s n)"
    using Suc by (simp del: fun_upd_apply)
  also have "\<dots> = (mem_store m d (mem_bytes m s n))(d + n := m (s + n))"
    by (rule mem_store_upd_above) simp
  finally show ?case by (simp add: mem_bytes_Suc_last mem_store_snoc)
qed simp

lemma memmove_eq: "memmove m d s n = (mem_store m d (mem_bytes m s n), d)"
  by (simp add: memmove_def memcpy_eq move_down_eq)

lemma fill_bytes_eq: "fill_bytes m s c n = mem_store m s (replicate n c)"
  by (induction n arbitrary: m s) (simp_all add: mem_store_Cons del: fun_upd_apply)

lemma bit_u8_ge: "8 \<le> n \<Longrightarrow> \<not> bit (c :: u8) n"
  by (auto dest: bit_imp_le_length)

lemma bit_memset_iter:
  "bit (((\<lambda>cl. push_bit 8 cl OR ucast c) ^^ k) (0 :: u64)) n \<longleftrightarrow> n < 64 \<and> n < 8 * k \<and> bit (c :: u8) (n mod 8)"
proof (induction k arbitrary: n)
  case (Suc k)
  show ?case
  proof (cases "n < 8")
    case True
    then show ?thesis by (auto simp: bit_simps)
  next
    case False
    then show ?thesis using Suc.IH [of "n - 8"] bit_u8_ge [of n c]
      by (auto simp: bit_simps le_mod_geq)
  qed
qed simp

text \<open>The word \<open>w\<close> holds \<open>k\<close> copies of the byte \<open>v\<close>.\<close>

definition copies :: "u8 \<Rightarrow> nat \<Rightarrow> u64 \<Rightarrow> bool" where
  "copies v k w \<longleftrightarrow> (\<forall>n. bit w n \<longleftrightarrow> n < 64 \<and> n < 8 * k \<and> bit v (n mod 8))"

lemma copies_memset_word: "copies c 8 (memset_word c)"
  unfolding copies_def memset_word_def bit_memset_iter by simp

lemma copies_ucast: "copies v 1 (ucast v)"
  unfolding copies_def using bit_u8_ge [of _ v] by (auto simp: bit_simps) (metis mod_less not_le)+

lemma copies_double: "copies v k w \<Longrightarrow> copies v (k + k) (w OR push_bit (8 * k) w)"
  unfolding copies_def
proof (intro allI)
  fix n
  assume w: "\<forall>n. bit w n \<longleftrightarrow> n < 64 \<and> n < 8 * k \<and> bit v (n mod 8)"
  have eq: "bit (w OR push_bit (8 * k) w) n \<longleftrightarrow> bit w n \<or> 8 * k \<le> n \<and> n < 64 \<and> bit w (n - 8 * k)"
    by (simp add: bit_simps)
  show "bit (w OR push_bit (8 * k) w) n \<longleftrightarrow> n < 64 \<and> n < 8 * (k + k) \<and> bit v (n mod 8)"
  proof (cases "8 * k \<le> n")
    case True
    then have "(n - 8 * k) mod 8 = n mod 8" by (metis le_add_diff_inverse mod_mult_self4)
    moreover have "n - 8 * k < 8 * k \<longleftrightarrow> n < 8 * (k + k)" "n - 8 * k < 64 \<or> \<not> n < 64" using True by auto
    ultimately show ?thesis using w True unfolding eq by auto
  next
    case False
    then show ?thesis using w unfolding eq by auto
  qed
qed

lemma copies_unique: "copies v k w \<Longrightarrow> copies v k w' \<Longrightarrow> w = w'"
  by (simp add: copies_def bit_eq_iff)

lemma bit_load:
  "length bs \<le> 8 \<Longrightarrow> bit (foldr (\<lambda>b w. push_bit 8 w OR ucast b) bs (0 :: u64)) n \<longleftrightarrow>
   n < 8 * length bs \<and> bit (bs ! (n div 8) :: u8) (n mod 8)"
proof (induction bs arbitrary: n)
  case (Cons b bs)
  show ?case
  proof (cases "n < 8")
    case True
    then show ?thesis by (auto simp: bit_simps)
  next
    case False
    let ?w = "foldr (\<lambda>b w. push_bit 8 w OR ucast b) bs (0 :: u64)"
    have q: "n div 8 = Suc ((n - 8) div 8)" "n mod 8 = (n - 8) mod 8"
      using False by (simp_all add: le_div_geq le_mod_geq)
    have "bit (push_bit 8 ?w OR ucast b) n \<longleftrightarrow> n < 64 \<and> bit ?w (n - 8)"
      using False bit_u8_ge [of n b] by (simp add: bit_simps)
    also have "\<dots> \<longleftrightarrow> n < 64 \<and> n - 8 < 8 * length bs \<and> bit (bs ! ((n - 8) div 8)) ((n - 8) mod 8)"
      using Cons.IH [of "n - 8"] Cons.prems by simp
    also have "\<dots> \<longleftrightarrow> n < 8 * length (b # bs) \<and> bit ((b # bs) ! (n div 8)) (n mod 8)"
    proof -
      have "n < 64 \<and> n - 8 < 8 * length bs \<longleftrightarrow> n < 8 * length (b # bs)" using False Cons.prems by auto
      then show ?thesis unfolding q nth_Cons_Suc by blast
    qed
    finally show ?thesis by (simp only: foldr.simps o_def)
  qed
qed simp

lemma load_le64_copies:
  assumes "copies v 8 w"
  shows "load_le64 m p = w \<longleftrightarrow> mem_bytes m p 8 = replicate 8 v"
proof
  assume eq: "load_le64 m p = w"
  show "mem_bytes m p 8 = replicate 8 v"
  proof (rule nth_equalityI)
    fix i assume "i < length (mem_bytes m p 8)"
    then have i: "i < 8" by simp
    show "mem_bytes m p 8 ! i = replicate 8 v ! i"
    proof (rule bit_eqI)
      fix n assume "possible_bit TYPE(u8) n"
      then have n: "n < 8" by (simp add: possible_bit_word)
      have "bit (mem_bytes m p 8 ! i) n \<longleftrightarrow> bit (load_le64 m p) (8 * i + n)"
        using i n bit_load [of "mem_bytes m p 8" "8 * i + n"] by (simp add: load_le64_def)
      also have "\<dots> \<longleftrightarrow> bit v n" using assms i n by (simp add: eq copies_def)
      finally show "bit (mem_bytes m p 8 ! i) n \<longleftrightarrow> bit (replicate 8 v ! i) n" using i by simp
    qed
  qed simp
next
  assume eq: "mem_bytes m p 8 = replicate 8 v"
  have "copies v 8 (load_le64 m p)"
    unfolding copies_def load_le64_def eq
  proof (intro allI)
    fix n :: nat
    have len: "length (replicate 8 v) \<le> 8" by simp
    have "n div 8 < 8" if "n < 64" using that by simp
    then show "bit (foldr (\<lambda>b w. push_bit 8 w OR ucast b) (replicate 8 v) (0 :: u64)) n \<longleftrightarrow>
        n < 64 \<and> n < 8 * 8 \<and> bit v (n mod 8)"
      unfolding bit_load [OF len] length_replicate by (auto simp: nth_replicate)
  qed
  then show "load_le64 m p = w" using assms by (rule copies_unique)
qed

lemma le64_bytes_copies: "copies v 8 w \<Longrightarrow> le64_bytes w = replicate 8 v"
proof (rule nth_equalityI)
  fix i assume w: "copies v 8 w" and "i < length (le64_bytes w)"
  then have i: "i < 8" by (simp add: le64_bytes_def)
  have "(ucast (drop_bit (8 * i) w) :: u8) = v"
  proof (rule bit_eqI)
    fix n assume "possible_bit TYPE(u8) n"
    then have n: "n < 8" by (simp add: possible_bit_word)
    have "bit (ucast (drop_bit (8 * i) w) :: u8) n \<longleftrightarrow> bit w (8 * i + n)"
      using n by (simp add: bit_simps)
    then show "bit (ucast (drop_bit (8 * i) w) :: u8) n \<longleftrightarrow> bit v n"
      using w i n by (simp add: copies_def)
  qed
  then show "le64_bytes w ! i = replicate 8 v ! i" using i by (simp add: le64_bytes_def del: upt_Suc)
qed (simp add: le64_bytes_def)

lemma fill_words_bytes:
  "copies v 8 cl \<Longrightarrow>
   (case fill_words m s cl n of (m', s8, k) \<Rightarrow> fill_bytes m' s8 v k) = mem_store m s (replicate n v)"
proof (induction m s cl n rule: fill_words.induct)
  case (1 m s cl n)
  show ?case
  proof (cases "8 \<le> n")
    case True
    then have "replicate n v = replicate 8 v @ replicate (n - 8) v" by (simp flip: replicate_add)
    then show ?thesis
      using 1 True by (subst fill_words.simps) (simp add: le64_bytes_copies mem_store_append)
  next
    case False
    then show ?thesis by (subst fill_words.simps) (simp add: fill_bytes_eq)
  qed
qed

lemma memset_eq: "memset m s c n = (mem_store m s (replicate n (to_char c)), s)"
  using fill_words_bytes [OF copies_memset_word, of "to_char c" m s n]
  by (auto simp: memset_def fill_bytes_eq split: prod.splits)

section \<open>Scanning for a wrong byte\<close>

lemma check_bytes8_add:
  "start \<noteq> 0 \<Longrightarrow> check_bytes8 m start v (a + b) =
     (let r = check_bytes8 m start v a in if r \<noteq> NULL then r else check_bytes8 m (start + a) v b)"
  by (induction a arbitrary: start) (auto simp: Let_def)

lemma check_bytes8_replicate: "start \<noteq> 0 \<Longrightarrow> check_bytes8 m start v n = NULL \<longleftrightarrow> mem_bytes m start n = replicate n v"
  by (induction n arbitrary: start) (auto simp: mem_bytes_Suc)

lemma inv_words_eq:
  assumes "copies v 8 w" "start \<noteq> 0"
  shows "inv_words m start v w bytes words = check_bytes8 m start v (8 * words + bytes mod 8)"
  using assms(2)
proof (induction words arbitrary: start)
  case (Suc words)
  have split: "check_bytes8 m start v (8 * Suc words + bytes mod 8) =
      (let r = check_bytes8 m start v 8 in
       if r \<noteq> NULL then r else check_bytes8 m (start + 8) v (8 * words + bytes mod 8))"
    using check_bytes8_add [of start m v 8 "8 * words + bytes mod 8"] Suc.prems by (simp add: add.assoc)
  show ?case
    using Suc load_le64_copies [OF assms(1)] check_bytes8_replicate [of start m v 8]
    by (simp only: inv_words.simps split) (auto simp: Let_def)
qed simp

section \<open>Terminated strings\<close>

definition cstr :: "mem \<Rightarrow> ptr \<Rightarrow> u8 list \<Rightarrow> bool" where
  "cstr m p xs \<longleftrightarrow> mem_bytes m p (length xs) = xs \<and> m (p + length xs) = 0 \<and> 0 \<notin> set xs"

lemma cstr_Nil [simp]: "cstr m p [] \<longleftrightarrow> m p = 0"
  by (simp add: cstr_def)

lemma cstr_Cons [simp]: "cstr m p (x # xs) \<longleftrightarrow> m p = x \<and> x \<noteq> 0 \<and> cstr m (Suc p) xs"
  by (auto simp: cstr_def mem_bytes_Suc)

lemma cstr_nth: "cstr m p xs \<Longrightarrow> i < length xs \<Longrightarrow> m (p + i) = xs ! i \<and> xs ! i \<noteq> 0"
  by (metis cstr_def nth_mem nth_mem_bytes)

lemma strlen_loop_cstr: "cstr m p xs \<Longrightarrow> strlen_loop m p = Some (p + length xs)"
  by (induction xs arbitrary: p) (auto simp: strlen_loop.simps)

lemma strlen_cstr: "cstr m p xs \<Longrightarrow> strlen m p = Some (length xs)"
  by (simp add: strlen_def strlen_loop_cstr)

lemma in_set_at_cstr: "cstr m r ds \<Longrightarrow> in_set_at m b r = Some (b \<in> set ds)"
  by (induction ds arbitrary: r) (auto simp: in_set_at.simps)

text \<open>The comparison of two byte strings that \<open>strcmp\<close> computes.\<close>

fun lex_cmp :: "u8 list \<Rightarrow> u8 list \<Rightarrow> int" where
  "lex_cmp [] [] = 0"
| "lex_cmp [] (y # ys) = - uint y"
| "lex_cmp (x # xs) [] = uint x"
| "lex_cmp (x # xs) (y # ys) = (if x = y then lex_cmp xs ys else uint x - uint y)"

lemma strcmp_step:
  "strcmp m p q = (if m p \<noteq> m q \<or> m q = 0 then Some (uint (m p) - uint (m q)) else strcmp m (p + 1) (q + 1))"
  by (subst strcmp.simps) (auto simp: Let_def word_uint_eq_iff)

lemma strcmp_cstr: "cstr m p xs \<Longrightarrow> cstr m q ys \<Longrightarrow> strcmp m p q = Some (lex_cmp xs ys)"
proof (induction xs ys arbitrary: p q rule: lex_cmp.induct)
  case (4 x xs y ys)
  then show ?case by (subst strcmp_step) simp
qed (subst strcmp_step, simp)+

lemma uint_pos: "x \<noteq> 0 \<Longrightarrow> 0 < uint (x :: u8)"
  by (metis less_le uint_0_iff unsigned_greater_eq)

lemma uint_diff_zero: "uint x - uint y = 0 \<longleftrightarrow> x = (y :: u8)"
  by (simp add: word_uint_eq_iff)

lemma lex_cmp_zero: "0 \<notin> set xs \<Longrightarrow> 0 \<notin> set ys \<Longrightarrow> lex_cmp xs ys = 0 \<longleftrightarrow> xs = ys"
proof (induction xs ys rule: lex_cmp.induct)
  case (4 x xs y ys)
  then show ?case using uint_diff_zero [of x y] by simp
qed (simp_all add: uint_0_iff)

lemma lex_cmp_less:
  "0 \<notin> set xs \<Longrightarrow> 0 \<notin> set ys \<Longrightarrow> lex_cmp xs ys < 0 \<longleftrightarrow> (xs, ys) \<in> lexord {(a, b). a < b}"
  by (induction xs ys rule: lex_cmp.induct) (auto simp: uint_pos word_less_def not_less)

lemma memcmp_loop_zero: "memcmp_loop m p q 0 n = 0 \<longleftrightarrow> mem_bytes m p n = mem_bytes m q n"
proof (induction n arbitrary: p q)
  case (Suc n)
  then show ?case
    by (cases "m p = m q") (auto simp: mem_bytes_Suc Let_def word_uint_eq_iff)
qed simp

lemma memcmp_zero: "memcmp m p q n = 0 \<longleftrightarrow> mem_bytes m p n = mem_bytes m q n"
  by (simp add: memcmp_def memcmp_loop_zero)

lemma strstr_loop_spec:
  assumes "s1 \<noteq> 0"
  shows "if \<exists>i < n. mem_bytes m (s1 + i) l = mem_bytes m s2 l
    then \<exists>i < n. strstr_loop m s1 s2 l n = s1 + i \<and> mem_bytes m (s1 + i) l = mem_bytes m s2 l \<and>
           (\<forall>j < i. mem_bytes m (s1 + j) l \<noteq> mem_bytes m s2 l)
    else strstr_loop m s1 s2 l n = NULL"
  using assms
proof (induction n arbitrary: s1)
  case (Suc n)
  show ?case
  proof (cases "mem_bytes m s1 l = mem_bytes m s2 l")
    case True
    then show ?thesis by (auto simp: memcmp_zero intro!: exI [of _ 0])
  next
    case False
    have ex: "(\<exists>i < Suc n. mem_bytes m (s1 + i) l = mem_bytes m s2 l) \<longleftrightarrow>
        (\<exists>i < n. mem_bytes m (Suc s1 + i) l = mem_bytes m s2 l)"
      using False by (auto simp: less_Suc_eq_0_disj)
    show ?thesis
    proof (cases "\<exists>i < n. mem_bytes m (Suc s1 + i) l = mem_bytes m s2 l")
      case True
      then obtain i where i: "i < n" "strstr_loop m (Suc s1) s2 l n = Suc s1 + i"
        "mem_bytes m (Suc s1 + i) l = mem_bytes m s2 l" "\<forall>j < i. mem_bytes m (Suc s1 + j) l \<noteq> mem_bytes m s2 l"
        using Suc.IH [of "Suc s1"] by auto
      then show ?thesis
        unfolding ex using True False
        by (auto simp: memcmp_zero less_Suc_eq_0_disj intro!: exI [of _ "Suc i"])
    next
      case none: False
      then show ?thesis unfolding ex using False Suc.IH [of "Suc s1"] by (auto simp: memcmp_zero)
    qed
  qed
qed simp

lemma cstr_take_drop: "cstr m p xs \<Longrightarrow> i + l \<le> length xs \<Longrightarrow> mem_bytes m (p + i) l = take l (drop i xs)"
  by (rule nth_equalityI) (use cstr_nth [of m p xs] in \<open>auto simp: add.assoc\<close>)

lemma cstr_past_end:
  assumes "cstr m p xs" "cstr m q ys" "length xs < i + length ys" "i \<le> length xs"
  shows "mem_bytes m (p + i) (length ys) \<noteq> ys"
proof
  assume eq: "mem_bytes m (p + i) (length ys) = ys"
  have k: "length xs - i < length ys" using assms(3,4) by simp
  have "ys ! (length xs - i) = m (p + i + (length xs - i))" by (metis eq k nth_mem_bytes)
  also have "\<dots> = 0" using assms(1,4) by (simp add: cstr_def)
  finally show False using cstr_nth [OF assms(2) k] by simp
qed

lemma strpbrk_cstr:
  assumes "cstr m ct ds" "cstr m p xs" "p \<noteq> 0"
  shows "strpbrk m p ct =
    (let k = length (takeWhile (\<lambda>c. c \<notin> set ds) xs) in Some (if k < length xs then p + k else NULL))"
  using assms(2,3)
proof (induction xs arbitrary: p)
  case (Cons x xs)
  then show ?case by (auto simp: strpbrk.simps [of m p ct] in_set_at_cstr [OF assms(1)] Let_def)
qed (simp add: strpbrk.simps)

lemma cstr_drop:
  assumes "cstr m p xs" "k \<le> length xs"
  shows "cstr m (p + k) (drop k xs)"
  using cstr_take_drop [OF assms(1), of k "length xs - k"] assms
  by (auto simp: cstr_def dest: in_set_dropD)

lemma cstr_at_takeWhile:
  assumes "cstr m p xs"
  shows "m (p + length (takeWhile P xs)) = (if dropWhile P xs = [] then 0 else hd (dropWhile P xs))"
  using assms
proof (induction xs arbitrary: p)
  case (Cons x xs)
  show ?case using Cons.IH [of "Suc p"] Cons.prems by simp
qed simp

lemma cstr_cut:
  assumes "cstr m p xs" "k < length xs"
  shows "cstr (m(p + k := 0)) p (take k xs)" "cstr (m(p + k := 0)) (p + k + 1) (drop (k + 1) xs)"
proof -
  have "mem_bytes (m(p + k := 0)) p k = take k xs"
    using cstr_take_drop [OF assms(1), of 0 k] assms(2) by (simp add: mem_bytes_upd_other)
  moreover have "0 \<notin> set (take k xs)" using assms(1) by (auto simp: cstr_def dest: in_set_takeD)
  ultimately show "cstr (m(p + k := 0)) p (take k xs)" using assms(2) by (simp add: cstr_def)
  have "mem_bytes (m(p + k := 0)) (p + k + 1) (length xs - (k + 1)) = drop (k + 1) xs"
    using cstr_take_drop [OF assms(1), of "k + 1" "length xs - (k + 1)"] assms(2)
    by (simp add: mem_bytes_upd_other)
  moreover have "0 \<notin> set (drop (k + 1) xs)" using assms(1) by (auto simp: cstr_def dest: in_set_dropD)
  moreover have "p + k + 1 + (length xs - (k + 1)) = p + length xs" using assms(2) by simp
  moreover have "(m(p + k := 0)) (p + length xs) = 0" using assms by (simp add: cstr_def)
  ultimately show "cstr (m(p + k := 0)) (p + k + 1) (drop (k + 1) xs)"
    unfolding cstr_def by (simp only: length_drop) simp
qed

lemma inv_words_all:
  assumes "copies v 8 w" "start \<noteq> 0" "bytes < 2 ^ 35"
  shows "inv_words m start v w bytes (bytes div 8 mod 2 ^ 32) = check_bytes8 m start v bytes"
proof -
  have "bytes div 8 mod 2 ^ 32 = bytes div 8" using assms(3) by (intro mod_less) (simp add: less_mult_imp_div_less)
  then show ?thesis using inv_words_eq [OF assms(1,2)] by simp
qed

lemma to_int_small: "n < 2 ^ 31 \<Longrightarrow> to_int n = int n"
  by (simp add: to_int_def signed_take_bit_int_eq_self)

lemma unat_of_nat64: "n < 2 ^ 31 \<Longrightarrow> unat (word_of_nat n :: u64) = n"
  by (simp add: unsigned_of_nat take_bit_nat_eq_self)

lemma nat_diff_plus_one: "nat (int a - int b + 1) = a + 1 - b"
  by simp

text \<open>The bytes of \<open>ab:abc\<close> at 16 and of \<open>abc\<close> at 32, for the evaluated instances.\<close>

definition demo_mem :: mem where
  "demo_mem = mem_store (mem_store (\<lambda>_. 0) 16 [97, 98, 58, 97, 98, 99]) 32 [97, 98, 99]"

section \<open>Properties\<close>

text \<open>
  C25. \<open>memmove\<close> writes to the destination the bytes the source held when it was called, for every
  overlap of the two areas and every alignment, leaves every other byte as it was and returns the
  destination.\<close>
theorem memmove_correct:
  "memmove m dest src count =
     (\<lambda>a. if dest \<le> a \<and> a < dest + count then m (src + (a - dest)) else m a, dest)"
  unfolding memmove_eq prod.inject
  by (intro conjI ext refl) (auto simp: mem_store_def nth_mem_bytes less_diff_conv2)

text \<open>
  \<open>strlcpy\<close> on a terminated source that the destination does not overlap from above returns the
  source's full length, and for a nonzero size leaves the destination terminated, holding the
  source cut to \<open>sz - 1\<close> bytes; no byte outside the \<open>sz\<close> bytes of the destination changes.\<close>
theorem strlcpy_truncates:
  assumes "cstr m src xs" "dest \<le> src \<or> src + length xs \<le> dest"
  shows "\<exists>m'. strlcpy m dest src sz = Some (m', length xs) \<and>
           (0 < sz \<longrightarrow> cstr m' dest (take (sz - 1) xs)) \<and>
           (\<forall>a. a < dest \<or> dest + sz \<le> a \<longrightarrow> m' a = m a)"
proof (cases "sz = 0")
  case False
  define len where "len = (if length xs \<ge> sz then sz - 1 else length xs)"
  let ?m = "(mem_store m dest (take len xs))(dest + len := 0)"
  have len: "len \<le> length xs" "len < sz" "take (sz - 1) xs = take len xs"
    using False by (auto simp: len_def)
  have bytes: "mem_bytes m src len = take len xs" using cstr_take_drop [OF assms(1), of 0 len] len by simp
  have copy: "fst (memcpy m dest src len) = mem_store m dest (take len xs)"
    using assms(2) len by (subst memcpy_eq) (auto simp: bytes)
  have "strlcpy m dest src sz = Some (?m, length xs)"
    using False copy by (simp add: strlcpy_def strlen_cstr [OF assms(1)] len_def Let_def)
  moreover have "cstr ?m dest (take len xs)"
    using assms(1) len by (auto simp: cstr_def mem_simps dest: in_set_takeD)
  moreover have "\<forall>a. a < dest \<or> dest + sz \<le> a \<longrightarrow> ?m a = m a"
    using len by (auto simp: mem_store_def)
  ultimately show ?thesis using len by auto
qed (simp add: strlcpy_def strlen_cstr [OF assms(1)])

theorem strlcpy_truncates_witness:
  "\<exists>m'. strlcpy demo_mem 64 16 4 = Some (m', 6) \<and> cstr m' 64 [97, 98, 58] \<and> m' 68 = demo_mem 68"
  using strlcpy_truncates [of demo_mem 16 "[97, 98, 58, 97, 98, 99]" 64 4]
  by (auto simp: demo_mem_def mem_store_def)

text \<open>
  \<open>memchr_inv\<close>, which compares eight bytes at a time between an unaligned head and tail, finds
  the same byte as the plain scan \<open>check_bytes8\<close>: the first that differs from \<open>c\<close>, or \<open>NULL\<close> when
  all of them equal it. (Its word counter has 32 bits, hence the bound on the length.)\<close>
theorem memchr_inv_scan:
  assumes "start \<noteq> 0" "bytes < 2 ^ 35"
  shows "memchr_inv m start c bytes = check_bytes8 m start (to_char c) bytes"
proof -
  let ?v = "to_char c"
  define v1 :: u64 where "v1 = ucast ?v OR push_bit 8 (ucast ?v)"
  define v2 where "v2 = v1 OR push_bit 16 v1"
  have "copies ?v 2 v1"
    using copies_double [OF copies_ucast [of ?v]] by (simp add: v1_def numeral_2_eq_2)
  then have "copies ?v 4 v2" using copies_double [of ?v 2 v1] by (simp add: v2_def del: push_bit_or)
  then have "copies ?v 8 (v2 OR push_bit 32 v2)" using copies_double [of ?v 4 v2] by (simp del: push_bit_or)
  note all = inv_words_all [OF this]
  have head: "check_bytes8 m start ?v bytes =
      (let r = check_bytes8 m start ?v k in if r \<noteq> NULL then r else check_bytes8 m (start + k) ?v (bytes - k))"
    if "k \<le> bytes" for k
    using check_bytes8_add [OF assms(1), of m ?v k "bytes - k"] that by simp
  show ?thesis
    using assms all [of start bytes m] all [of "start + (8 - start mod 8)" "bytes - (8 - start mod 8)" m]
      head [of "8 - start mod 8"]
    by (simp add: memchr_inv_def Let_def v1_def v2_def del: push_bit_or)
qed

theorem memchr_inv_scan_witness:
  "memchr_inv (mem_store (\<lambda>_. 7) 42 [8]) 3 7 60 = 42 \<and> memchr_inv (\<lambda>_. 7) 3 7 60 = NULL"
proof -
  have "check_bytes8 (mem_store (\<lambda>_. 7) 42 [8]) 3 7 60 = 42" "check_bytes8 (\<lambda>_. 7) 3 7 60 = NULL"
    by code_simp+
  then show ?thesis
    using memchr_inv_scan [of 3 60 "mem_store (\<lambda>_. 7) 42 [8]" 7] memchr_inv_scan [of 3 60 "\<lambda>_. 7" 7] by simp
qed

text \<open>
  \<open>strcmp\<close> on two terminated strings returns, is zero exactly when they are equal, and is negative
  exactly when the first precedes the second in the lexicographic order of unsigned bytes.\<close>
theorem strcmp_correct:
  assumes "cstr m cs xs" "cstr m ct ys"
  shows "\<exists>r. strcmp m cs ct = Some r \<and> (r = 0 \<longleftrightarrow> xs = ys) \<and>
           (r < 0 \<longleftrightarrow> (xs, ys) \<in> lexord {(a, b). a < b})"
  using assms strcmp_cstr [OF assms] lex_cmp_zero lex_cmp_less by (auto simp: cstr_def)

theorem strcmp_correct_witness:
  "\<exists>r. strcmp demo_mem 32 16 = Some r \<and> r \<noteq> 0 \<and> \<not> r < 0"
proof -
  have "cstr demo_mem 32 [97, 98, 99]" "cstr demo_mem 16 [97, 98, 58, 97, 98, 99]"
    by code_simp+
  from strcmp_correct [OF this] show ?thesis by (auto simp: word_less_def)
qed

text \<open>
  \<open>strstr\<close> on two terminated strings of less than 2 GiB returns the first place of the haystack at which the needle
  occurs, or \<open>NULL\<close> when it occurs nowhere.\<close>
theorem strstr_first:
  assumes "cstr m s1 xs" "cstr m s2 ys" "s1 \<noteq> 0" "length xs < 2 ^ 31" "length ys < 2 ^ 31"
  shows "if \<exists>i. take (length ys) (drop i xs) = ys
    then \<exists>i. strstr m s1 s2 = Some (s1 + i) \<and> take (length ys) (drop i xs) = ys \<and>
           (\<forall>j < i. take (length ys) (drop j xs) \<noteq> ys)
    else strstr m s1 s2 = Some NULL"
proof (cases "ys = []")
  case True
  then show ?thesis using assms(3) strlen_cstr [OF assms(2)] by (simp add: strstr_def to_int_def exI [of _ 0])
next
  case False
  define n where "n = length xs + 1 - length ys"
  have run: "strstr m s1 s2 = Some (strstr_loop m s1 s2 (length ys) n)"
    using False assms
    by (simp add: strstr_def strlen_cstr [OF assms(1)] strlen_cstr [OF assms(2)] n_def to_int_small unat_of_nat64
        Let_def nat_diff_plus_one)
  have s2: "mem_bytes m s2 (length ys) = ys" using assms(2) by (simp add: cstr_def)
  have at: "mem_bytes m (s1 + i) (length ys) = take (length ys) (drop i xs)" if "i < n" for i
    using cstr_take_drop [OF assms(1), of i "length ys"] that by (simp add: n_def)
  have far: "take (length ys) (drop i xs) \<noteq> ys" if "\<not> i < n" for i
  proof
    assume "take (length ys) (drop i xs) = ys"
    then have "length ys \<le> length xs - i" by (metis length_drop length_take min.cobounded1 min.commute)
    then show False using that False by (cases ys) (auto simp: n_def)
  qed
  show ?thesis
  proof (cases "\<exists>i < n. mem_bytes m (s1 + i) (length ys) = ys")
    case True
    then obtain i where i: "i < n" "strstr_loop m s1 s2 (length ys) n = s1 + i"
      "mem_bytes m (s1 + i) (length ys) = ys" "\<forall>j < i. mem_bytes m (s1 + j) (length ys) \<noteq> ys"
      using strstr_loop_spec [OF assms(3), of n m "length ys" s2] s2 by auto
    then have "take (length ys) (drop i xs) = ys" "\<forall>j < i. take (length ys) (drop j xs) \<noteq> ys"
      using at i by (auto dest: less_trans)
    then show ?thesis using run i(2) by auto
  next
    case none: False
    then have "\<nexists>i. take (length ys) (drop i xs) = ys" using at far by metis
    then show ?thesis using none run strstr_loop_spec [OF assms(3), of n m "length ys" s2] s2 by simp
  qed
qed

theorem strstr_first_witness: "strstr demo_mem 16 32 = Some 19"
proof -
  have c: "cstr demo_mem 16 [97, 98, 58, 97, 98, 99]" "cstr demo_mem 32 [97, 98, 99]"
    by code_simp+
  have hit: "\<exists>i. take 3 (drop i [97, 98, 58, 97, 98, 99]) = [97, 98, 99 :: u8]"
    by (rule exI [of _ 3]) simp
  then obtain i where i: "strstr demo_mem 16 32 = Some (16 + i)"
    "take 3 (drop i [97, 98, 58, 97, 98, 99]) = [97, 98, 99 :: u8]"
    using strstr_first [OF c] by (auto simp: numeral_3_eq_3)
  have "i < 6" using i(2) by (cases "i < 6") auto
  then have "i \<in> {0, 1, 2, 3, 4, 5}" by auto
  then have "i = 3" using i(2) by auto
  then show ?thesis using i(1) by simp
qed

text \<open>
  \<open>strsep\<close> on a terminated string returns its start as the token and ends the token at the first
  delimiter, which it overwrites, leaving the pointer at the string that follows; with no delimiter
  the whole string is the token and the pointer becomes \<open>NULL\<close>.\<close>
theorem strsep_splits:
  assumes "cstr m p xs" "cstr m ct ds" "p \<noteq> 0"
  shows "let k = length (takeWhile (\<lambda>c. c \<notin> set ds) xs) in
    if k < length xs
    then \<exists>m'. strsep m p ct = Some (m', p + k + 1, p) \<and> cstr m' p (take k xs) \<and>
           cstr m' (p + k + 1) (drop (k + 1) xs) \<and> (\<forall>a. a \<noteq> p + k \<longrightarrow> m' a = m a)
    else strsep m p ct = Some (m, NULL, p)"
proof -
  define k where "k = length (takeWhile (\<lambda>c. c \<notin> set ds) xs)"
  note found = strpbrk_cstr [OF assms(2,1,3), folded k_def]
  show ?thesis
    unfolding k_def [symmetric]
  proof (cases "k < length xs")
    case True
    then have "strsep m p ct = Some (m(p + k := 0), p + k + 1, p)"
      using found assms(3) by (simp add: strsep_def)
    then show "let k = k in if k < length xs
      then \<exists>m'. strsep m p ct = Some (m', p + k + 1, p) \<and> cstr m' p (take k xs) \<and>
             cstr m' (p + k + 1) (drop (k + 1) xs) \<and> (\<forall>a. a \<noteq> p + k \<longrightarrow> m' a = m a)
      else strsep m p ct = Some (m, NULL, p)"
      using True cstr_cut [OF assms(1) True] by auto
  qed (use found assms(3) in \<open>simp add: strsep_def\<close>)
qed

theorem strsep_splits_witness:
  "\<exists>m'. strsep demo_mem 16 48 = Some (demo_mem, NULL, 16) \<and>
     strsep (demo_mem(48 := 58)) 16 48 = Some (m', 19, 16) \<and> cstr m' 16 [97, 98] \<and> cstr m' 19 [97, 98, 99]"
proof -
  have c: "cstr demo_mem 16 [97, 98, 58, 97, 98, 99]" "cstr demo_mem 48 []"
    "cstr (demo_mem(48 := 58)) 16 [97, 98, 58, 97, 98, 99]" "cstr (demo_mem(48 := 58)) 48 [58]"
    by code_simp+
  show ?thesis using strsep_splits [OF c(1,2)] strsep_splits [OF c(3,4)] by auto
qed

end
