(* ===== verification/Membuff.thy ===== *)
theory Membuff
  imports Strings Interfaces
begin

text \<open>
  The memory buffer of \<open>lib/membuff.c\<close>: a ring of bytes between \<open>start\<close> and \<open>end\<close>, written at
  \<open>head\<close> and read at \<open>tail\<close>, with one byte always unused so that \<open>head = tail\<close> means empty.
  Lengths are C \<open>int\<close>s, modelled as integers (a buffer is smaller than 2 GiB, and the doubling
  loop of \<open>membuff_extend_by\<close> is undefined in C where it would overflow). An operation that
  writes bytes takes and returns the store. \<open>mb_queue\<close> is the list of bytes the buffer holds, and
  every operation is shown to do what its comment promises of that list.
\<close>

section \<open>Model\<close>

record membuff =
  mb_start :: ptr
  mb_end :: ptr
  mb_head :: ptr
  mb_tail :: ptr

definition membuff_purge :: "membuff \<Rightarrow> membuff" where
  "membuff_purge mb = mb\<lparr>mb_head := mb_start mb, mb_tail := mb_start mb\<rparr>"

text \<open>The result is the buffer, the offset of the place to write to and its length.\<close>

definition membuff_putrawflex :: "membuff \<Rightarrow> int \<Rightarrow> bool \<Rightarrow> membuff \<times> int \<times> int" where
  "membuff_putrawflex mb maxlen update =
     (let offset = int (mb_head mb) - int (mb_start mb)
      in if mb_start mb = NULL then (mb, offset, 0)
         else if mb_head mb \<ge> mb_tail mb then
           let len0 = int (mb_end mb) - int (mb_head mb) - 1;
               len = (if maxlen \<ge> 0 \<and> len0 > maxlen then maxlen else len0);
               mb' = (if update then mb\<lparr>mb_head := nat (int (mb_head mb) + len)\<rparr> else mb)
           in if (maxlen < 0 \<or> len < maxlen) \<and> mb_tail mb \<noteq> mb_start mb
              then (if update then mb'\<lparr>mb_head := mb_start mb\<rparr> else mb', offset, len + 1)
              else (mb', offset, len)
         else
           let len0 = int (mb_tail mb) - int (mb_head mb) - 1;
               len = (if maxlen \<ge> 0 \<and> len0 > maxlen then maxlen else len0)
           in (if update then mb\<lparr>mb_head := nat (int (mb_head mb) + len)\<rparr> else mb, offset, len))"

definition membuff_putraw :: "membuff \<Rightarrow> int \<Rightarrow> bool \<Rightarrow> membuff \<times> ptr \<times> int" where
  "membuff_putraw mb maxlen update =
     (case membuff_putrawflex mb maxlen update of
        (mb', offset, sz) \<Rightarrow> (mb', nat (int (mb_start mb') + offset), sz))"

definition membuff_putbyte :: "mem \<Rightarrow> membuff \<Rightarrow> int \<Rightarrow> mem \<times> membuff \<times> bool" where
  "membuff_putbyte m mb ch =
     (case membuff_putraw mb 1 True of
        (mb', data, sz) \<Rightarrow> if sz \<noteq> 1 then (m, mb', False) else (m(data := to_char ch), mb', True))"

text \<open>\<open>data\<close> is the value of the caller's pointer, which is left alone when there is nothing to read.\<close>

definition membuff_getraw :: "membuff \<Rightarrow> int \<Rightarrow> bool \<Rightarrow> ptr \<Rightarrow> membuff \<times> ptr \<times> int" where
  "membuff_getraw mb maxlen update data =
     (if mb_head mb > mb_tail mb then
        let len0 = int (mb_head mb) - int (mb_tail mb);
            len = (if maxlen \<ge> 0 \<and> len0 > maxlen then maxlen else len0)
        in (if update then mb\<lparr>mb_tail := nat (int (mb_tail mb) + len)\<rparr> else mb, mb_tail mb, len)
      else if mb_head mb < mb_tail mb then
        let len0 = int (mb_end mb) - int (mb_tail mb);
            len = (if maxlen \<ge> 0 \<and> len0 > maxlen then maxlen else len0);
            tail' = nat (int (mb_tail mb) + len)
        in (if update then mb\<lparr>mb_tail := if tail' = mb_end mb then mb_start mb else tail'\<rparr> else mb,
            mb_tail mb, len)
      else (mb, data, 0))"

definition membuff_getbyte :: "mem \<Rightarrow> membuff \<Rightarrow> membuff \<times> int" where
  "membuff_getbyte m mb =
     (case membuff_getraw mb 1 True NULL of
        (mb', data, len) \<Rightarrow> (mb', if len \<noteq> 1 then - 1 else uint (m data)))"

definition membuff_peekbyte :: "mem \<Rightarrow> membuff \<Rightarrow> int" where
  "membuff_peekbyte m mb =
     (case membuff_getraw mb 1 False NULL of (mb', data, len) \<Rightarrow> if len \<noteq> 1 then - 1 else uint (m data))"

text \<open>The loop of \<open>membuff_get\<close>; the first argument is \<open>2 - i\<close>.\<close>

fun membuff_get_loop :: "nat \<Rightarrow> mem \<Rightarrow> membuff \<Rightarrow> ptr \<Rightarrow> ptr \<Rightarrow> int \<Rightarrow> int \<Rightarrow> mem \<times> membuff \<times> ptr" where
  "membuff_get_loop 0 m mb buffptr data len maxlen = (m, mb, buffptr)"
| "membuff_get_loop (Suc k) m mb buffptr data len maxlen =
     (if len = 0 then (m, mb, buffptr)
      else case membuff_getraw mb maxlen True data of (mb', data', len') \<Rightarrow>
        membuff_get_loop k (fst (memcpy m buffptr data' (nat len'))) mb'
          (nat (int buffptr + len')) data' len' (maxlen - len'))"

definition membuff_get :: "mem \<Rightarrow> membuff \<Rightarrow> ptr \<Rightarrow> int \<Rightarrow> mem \<times> membuff \<times> int" where
  "membuff_get m mb buff maxlen =
     (case membuff_get_loop 2 m mb buff NULL 1 maxlen of
        (m', mb', buffptr) \<Rightarrow> (m', mb', int buffptr - int buff))"

fun membuff_put_loop :: "nat \<Rightarrow> mem \<Rightarrow> membuff \<Rightarrow> ptr \<Rightarrow> int \<Rightarrow> int \<Rightarrow> mem \<times> membuff \<times> int" where
  "membuff_put_loop 0 m mb buff len written = (m, mb, written)"
| "membuff_put_loop (Suc k) m mb buff len written =
     (case membuff_putraw mb len True of (mb', data, towrite) \<Rightarrow>
        membuff_put_loop k (fst (memcpy m data buff (nat towrite))) mb'
          (nat (int buff + towrite)) (len - towrite) (written + towrite))"

definition membuff_put :: "mem \<Rightarrow> membuff \<Rightarrow> ptr \<Rightarrow> int \<Rightarrow> mem \<times> membuff \<times> int" where
  "membuff_put m mb buff len = membuff_put_loop 2 m mb buff len 0"

definition membuff_isempty :: "membuff \<Rightarrow> bool" where
  "membuff_isempty mb \<longleftrightarrow> mb_head mb = mb_tail mb"

definition membuff_avail :: "membuff \<Rightarrow> int" where
  "membuff_avail mb =
     (case membuff_getraw mb (- 1) True NULL of (copy, data, n1) \<Rightarrow>
        case membuff_getraw copy (- 1) True data of (copy', data', n2) \<Rightarrow> n1 + n2)"

definition membuff_size :: "membuff \<Rightarrow> int" where
  "membuff_size mb = int (mb_end mb) - int (mb_start mb)"

definition membuff_makecontig :: "mem \<Rightarrow> membuff \<Rightarrow> mem \<times> membuff \<times> bool" where
  "membuff_makecontig m mb =
     (let wrapped = mb_tail mb > mb_head mb;
          topsize = (if wrapped then mb_end mb - mb_tail mb else mb_head mb - mb_tail mb);
          botsize = (if wrapped then mb_head mb - mb_start mb else 0)
      in if wrapped \<and> mb_head mb + topsize \<ge> mb_tail mb then (m, mb, False)
         else
           let m1 = (if wrapped then fst (memmove m (mb_start mb + topsize) (mb_start mb) botsize) else m);
               m2 = fst (memcpy m1 (mb_start mb) (mb_tail mb) topsize)
           in (m2, mb\<lparr>mb_tail := mb_start mb, mb_head := mb_start mb + topsize + botsize\<rparr>, True))"

definition membuff_free :: "membuff \<Rightarrow> int" where
  "membuff_free mb =
     (if mb_end mb = mb_start mb then 0
      else (int (mb_end mb) - int (mb_start mb)) - 1 - membuff_avail mb)"

text \<open>
  The loop of \<open>membuff_readline\<close>: the store, \<open>str\<close>, \<open>s\<close>, \<open>len\<close> and \<open>ok\<close> when it stops. The
  comparison with \<open>minch\<close> is of a \<open>char\<close>, whose sign depends on the architecture: \<open>cval\<close> is the
  value of a \<open>char\<close> as an \<open>int\<close> (\<open>uint\<close> or \<open>sint\<close>).
\<close>

function readline_loop ::
  "(u8 \<Rightarrow> int) \<Rightarrow> membuff \<Rightarrow> int \<Rightarrow> int \<Rightarrow> mem \<Rightarrow> ptr \<Rightarrow> ptr \<Rightarrow> ptr \<Rightarrow> int \<Rightarrow> mem \<times> ptr \<times> ptr \<times> int \<times> bool"
  where
  "readline_loop cval mb maxlen minch m str s e len =
     (if s < e \<and> len < maxlen - 1 then
        if m s = 10 \<or> cval (m s) < minch then (m(str := m s), str, s + 1, len + 1, True)
        else if s + 1 = e \<and> mb_tail mb > mb_head mb
          then readline_loop cval mb maxlen minch (m(str := m s)) (str + 1) (mb_start mb) (mb_head mb) (len + 1)
          else readline_loop cval mb maxlen minch (m(str := m s)) (str + 1) (s + 1) e (len + 1)
      else (m, str, s, len, False))"
  by pat_completeness auto
termination
  by (relation "measure (\<lambda>(cval, mb, maxlen, minch, m, str, s, e, len). nat (maxlen - 1 - len))") auto

declare readline_loop.simps [simp del]

definition membuff_readline ::
  "(u8 \<Rightarrow> int) \<Rightarrow> mem \<Rightarrow> membuff \<Rightarrow> ptr \<Rightarrow> int \<Rightarrow> int \<Rightarrow> bool \<Rightarrow> mem \<times> membuff \<times> int" where
  "membuff_readline cval m mb str maxlen minch must_fit =
     (let e = (if mb_head mb \<ge> mb_tail mb then mb_head mb else mb_end mb)
      in case readline_loop cval mb maxlen minch m str (mb_tail mb) e 0 of (m', str', s, len, ok) \<Rightarrow>
           if \<not> ok \<and> must_fit then (if maxlen \<noteq> 0 then m'(str := 0) else m', mb, 0)
           else (m'(str' := 0), mb\<lparr>mb_tail := if s = mb_end mb then mb_start mb else s\<rparr>, len))"

text \<open>The doubling loop of \<open>membuff_extend_by\<close>, which does not end when the size is zero.\<close>

partial_function (option) double_size :: "int \<Rightarrow> int \<Rightarrow> int option" where
  "double_size sz goal = (if sz < goal then double_size (sz * 2) goal else Some sz)"

text \<open>\<open>realloc\<close> is the allocator's: from a store, a pointer and a size to the store and the new pointer.\<close>

definition membuff_extend_by ::
  "(mem \<Rightarrow> ptr \<Rightarrow> int \<Rightarrow> mem \<times> ptr) \<Rightarrow> mem \<Rightarrow> membuff \<Rightarrow> int \<Rightarrow> int \<Rightarrow> (mem \<times> membuff \<times> int) option" where
  "membuff_extend_by realloc m mb by0 max_size =
     (let orig = int (mb_end mb) - int (mb_start mb)
      in map_option (\<lambda>sz0.
           let sz = (if max_size \<noteq> - 1 then min sz0 max_size else sz0);
               by' = sz - orig
           in if by' \<le> 0 then (m, mb, - E2BIG)
              else
                let oldhead = mb_head mb - mb_start mb;
                    oldtail = mb_tail mb - mb_start mb;
                    (m1, p) = realloc m (mb_start mb) sz
                in if p = NULL then (m1, mb, - ENOMEM)
                   else
                     let head = p + oldhead; tail = p + oldtail;
                         m2 = (if head < tail then fst (memmove m1 (tail + nat by') tail (nat (orig - int oldtail)))
                               else m1);
                         tail' = (if head < tail then tail + nat by' else tail)
                     in (m2, \<lparr>mb_start = p, mb_end = p + nat sz, mb_head = head, mb_tail = tail'\<rparr>, 0))
         (double_size orig (orig + by0)))"

definition membuff_init :: "ptr \<Rightarrow> int \<Rightarrow> membuff" where
  "membuff_init buff sz =
     membuff_purge \<lparr>mb_start = buff, mb_end = nat (int buff + sz), mb_head = 0, mb_tail = 0\<rparr>"

text \<open>\<open>alloc\<close> is the pointer that \<open>malloc (size)\<close> returned.\<close>

definition membuff_new :: "ptr \<Rightarrow> membuff \<Rightarrow> int \<Rightarrow> membuff \<times> int" where
  "membuff_new alloc mb sz =
     (if alloc = NULL then (mb\<lparr>mb_start := alloc\<rparr>, - ENOMEM) else (membuff_init alloc sz, 0))"

definition membuff_uninit :: "membuff \<Rightarrow> membuff" where
  "membuff_uninit mb = membuff_purge (mb\<lparr>mb_end := NULL, mb_start := NULL\<rparr>)"

text \<open>The buffer structure is at \<open>mbp\<close>; the second component is the pointer given to \<open>free\<close>.\<close>

definition membuff_dispose :: "ptr \<Rightarrow> membuff \<Rightarrow> membuff \<times> ptr" where
  "membuff_dispose mbp mb = (membuff_uninit mb, mbp)"

section \<open>The queue a buffer holds\<close>

definition mb_wf :: "membuff \<Rightarrow> bool" where
  "mb_wf mb \<longleftrightarrow> mb_start mb \<noteq> 0 \<and> mb_start mb \<le> mb_head mb \<and> mb_head mb < mb_end mb \<and>
     mb_start mb \<le> mb_tail mb \<and> mb_tail mb < mb_end mb"

definition mb_queue :: "mem \<Rightarrow> membuff \<Rightarrow> u8 list" where
  "mb_queue m mb =
     (if mb_head mb \<ge> mb_tail mb then mem_bytes m (mb_tail mb) (mb_head mb - mb_tail mb)
      else mem_bytes m (mb_tail mb) (mb_end mb - mb_tail mb) @
        mem_bytes m (mb_start mb) (mb_head mb - mb_start mb))"

text \<open>The free bytes, all of them and those in one piece at \<open>head\<close>; the used bytes in one piece at \<open>tail\<close>.\<close>

definition mb_room :: "membuff \<Rightarrow> nat" where
  "mb_room mb = mb_end mb - mb_start mb - 1 - length (mb_queue (\<lambda>_. 0) mb)"

definition put_room :: "membuff \<Rightarrow> nat" where
  "put_room mb =
     (if mb_head mb \<ge> mb_tail mb then mb_end mb - mb_head mb - (if mb_tail mb = mb_start mb then 1 else 0)
      else mb_tail mb - mb_head mb - 1)"

definition get_room :: "membuff \<Rightarrow> nat" where
  "get_room mb = (if mb_head mb \<ge> mb_tail mb then mb_head mb - mb_tail mb else mb_end mb - mb_tail mb)"

definition advance_head :: "membuff \<Rightarrow> nat \<Rightarrow> membuff" where
  "advance_head mb n =
     mb\<lparr>mb_head := if mb_head mb + n = mb_end mb then mb_start mb else mb_head mb + n\<rparr>"

definition advance_tail :: "membuff \<Rightarrow> nat \<Rightarrow> membuff" where
  "advance_tail mb n =
     mb\<lparr>mb_tail := if mb_tail mb + n = mb_end mb then mb_start mb else mb_tail mb + n\<rparr>"

lemmas mb_defs = mb_wf_def mb_queue_def put_room_def get_room_def advance_head_def advance_tail_def

lemma length_mb_queue:
  "length (mb_queue m mb) =
     (if mb_head mb \<ge> mb_tail mb then mb_head mb - mb_tail mb
      else mb_end mb - mb_tail mb + (mb_head mb - mb_start mb))"
  by (simp add: mb_queue_def)

lemma advance_simps [simp]:
  "mb_start (advance_head mb n) = mb_start mb" "mb_end (advance_head mb n) = mb_end mb"
  "mb_start (advance_tail mb n) = mb_start mb" "mb_end (advance_tail mb n) = mb_end mb"
  "advance_head mb 0 = mb \<longleftrightarrow> mb_head mb \<noteq> mb_end mb \<or> mb_start mb = mb_head mb"
  by (cases mb; auto simp: advance_head_def advance_tail_def)+

lemma putraw_up:
  assumes "mb_wf mb" "mb_head mb \<ge> mb_tail mb"
  shows "membuff_putraw mb (int k) True =
    (let n = min k (put_room mb) in (advance_head mb n, mb_head mb, int n))"
proof -
  obtain r where r: "mb_end mb = Suc (mb_head mb + r)" using assms(1) less_imp_Suc_add by (auto simp: mb_wf_def)
  have room: "put_room mb = (if mb_tail mb = mb_start mb then r else Suc r)" using assms(2) r by (simp add: put_room_def)
  have wf: "mb_start mb \<noteq> 0" "mb_start mb \<le> mb_head mb" using assms(1) by (auto simp: mb_wf_def)
  consider "k \<le> r" | "r < k" "mb_tail mb = mb_start mb" | "r < k" "mb_tail mb \<noteq> mb_start mb" by linarith
  then show ?thesis
  proof cases
    case 1
    then have "membuff_putrawflex mb (int k) True = (mb\<lparr>mb_head := mb_head mb + k\<rparr>, int (mb_head mb) - int (mb_start mb), int k)"
      using assms(2) r wf by (auto simp: membuff_putrawflex_def Let_def nat_int_add)
    then show ?thesis using 1 r room by (simp add: membuff_putraw_def advance_head_def min_def)
  next
    case 2
    then have "membuff_putrawflex mb (int k) True = (mb\<lparr>mb_head := mb_head mb + r\<rparr>, int (mb_head mb) - int (mb_start mb), int r)"
      using assms(2) r wf by (simp add: membuff_putrawflex_def Let_def nat_int_add)
    then show ?thesis using 2 r room by (simp add: membuff_putraw_def advance_head_def min_def)
  next
    case 3
    then have "membuff_putrawflex mb (int k) True = (mb\<lparr>mb_head := mb_start mb\<rparr>, int (mb_head mb) - int (mb_start mb), int r + 1)"
      using assms(2) r wf by (simp add: membuff_putrawflex_def Let_def)
    then show ?thesis using 3 r room by (simp add: membuff_putraw_def advance_head_def min_def)
  qed
qed

lemma putraw_eq:
  assumes "mb_wf mb"
  shows "membuff_putraw mb (int k) True =
    (let n = min k (put_room mb) in (advance_head mb n, mb_head mb, int n))"
proof (cases "mb_head mb \<ge> mb_tail mb")
  case False
  then obtain r where r: "mb_tail mb = Suc (mb_head mb + r)" using less_imp_Suc_add by (metis not_le)
  have "membuff_putrawflex mb (int k) True =
      (mb\<lparr>mb_head := mb_head mb + min k r\<rparr>, int (mb_head mb) - int (mb_start mb), int (min k r))"
    using assms False r by (auto simp: membuff_putrawflex_def Let_def mb_wf_def nat_int_add min_def)
  moreover have "mb_head mb + min k r \<noteq> mb_end mb" using assms r by (auto simp: mb_wf_def)
  ultimately show ?thesis
    using assms False r by (simp add: membuff_putraw_def advance_head_def put_room_def mb_wf_def Let_def)
qed (rule putraw_up [OF assms])

lemma getraw_eq:
  assumes "mb_wf mb"
  shows "membuff_getraw mb (int k) True d =
    (let n = min k (get_room mb)
     in (advance_tail mb n, if mb_head mb = mb_tail mb then d else mb_tail mb, int n))"
  using assms
  by (cases mb) (auto simp: membuff_getraw_def mb_defs Let_def min_def nat_add_distrib of_nat_diff split: if_splits)

lemma mem_bytes_split: "i \<le> j \<Longrightarrow> j \<le> k \<Longrightarrow> mem_bytes m i (k - i) = mem_bytes m i (j - i) @ mem_bytes m j (k - j)"
  using mem_bytes_add [of m i "j - i" "k - j"] by simp

lemma mem_bytes_store_below:
  "p + n \<le> q \<Longrightarrow> mem_bytes (mem_store m q bs) p n = mem_bytes m p n"
  by (rule mem_store_disjoint) (simp add: disjoint_range_def)

lemma mem_bytes_store_above:
  "q + length bs \<le> p \<Longrightarrow> mem_bytes (mem_store m q bs) p n = mem_bytes m p n"
  by (rule mem_store_disjoint) (simp add: disjoint_range_def)

lemma advance_head_queue:
  assumes "mb_wf mb" "length bs \<le> put_room mb"
  shows "mb_queue (mem_store m (mb_head mb) bs) (advance_head mb (length bs)) = mb_queue m mb @ bs"
proof -
  let ?h = "mb_head mb" and ?t = "mb_tail mb" and ?n = "length bs" and ?M = "mem_store m (mb_head mb) bs"
  have wf: "mb_start mb \<le> ?h" "?h < mb_end mb" "mb_start mb \<le> ?t" "?t < mb_end mb"
    using assms(1) by (auto simp: mb_wf_def)
  have new: "mem_bytes ?M ?h (?h + ?n - ?h) = bs" by (simp add: mem_store_same)
  consider (up) "?t \<le> ?h" "?h + ?n \<noteq> mb_end mb" | (wrap) "?t \<le> ?h" "?h + ?n = mb_end mb" | (down) "?h < ?t"
    by linarith
  then show ?thesis
  proof cases
    case up
    then have "mb_queue ?M (advance_head mb ?n) = mem_bytes ?M ?t (?h + ?n - ?t)"
      by (simp add: mb_queue_def advance_head_def)
    also have "\<dots> = mem_bytes ?M ?t (?h - ?t) @ mem_bytes ?M ?h (?h + ?n - ?h)"
      using up by (intro mem_bytes_split) auto
    finally show ?thesis using up new by (simp add: mb_queue_def mem_bytes_store_below)
  next
    case wrap
    then have "mb_start mb < ?t" using assms(2) wf by (auto simp: put_room_def split: if_splits)
    then have "mb_queue ?M (advance_head mb ?n) = mem_bytes ?M ?t (?h + ?n - ?t)"
      using wrap by (simp add: mb_queue_def advance_head_def)
    also have "\<dots> = mem_bytes ?M ?t (?h - ?t) @ mem_bytes ?M ?h (?h + ?n - ?h)"
      using wrap by (intro mem_bytes_split) auto
    finally show ?thesis using wrap new by (simp add: mb_queue_def mem_bytes_store_below)
  next
    case down
    then have lt: "?h + ?n < ?t" using assms(2) by (auto simp: put_room_def)
    then have "mb_queue ?M (advance_head mb ?n) =
        mem_bytes ?M ?t (mb_end mb - ?t) @ mem_bytes ?M (mb_start mb) (?h + ?n - mb_start mb)"
      using wf by (simp add: mb_queue_def advance_head_def)
    also have "mem_bytes ?M (mb_start mb) (?h + ?n - mb_start mb) =
        mem_bytes ?M (mb_start mb) (?h - mb_start mb) @ mem_bytes ?M ?h (?h + ?n - ?h)"
      using wf by (intro mem_bytes_split) auto
    finally show ?thesis
      using down lt wf new by (simp add: mb_queue_def mem_bytes_store_below mem_bytes_store_above)
  qed
qed

lemma advance_head_wf: "mb_wf mb \<Longrightarrow> n \<le> put_room mb \<Longrightarrow> mb_wf (advance_head mb n)"
  by (auto simp: mb_defs split: if_splits)

lemma advance_tail_queue:
  assumes "mb_wf mb" "n \<le> get_room mb"
  shows "mb_queue m mb = mem_bytes m (mb_tail mb) n @ mb_queue m (advance_tail mb n)"
proof (cases "mb_tail mb \<le> mb_head mb")
  case True
  then have "mem_bytes m (mb_tail mb) (mb_head mb - mb_tail mb) =
      mem_bytes m (mb_tail mb) (mb_tail mb + n - mb_tail mb) @
      mem_bytes m (mb_tail mb + n) (mb_head mb - (mb_tail mb + n))"
    using assms(2) by (intro mem_bytes_split) (auto simp: get_room_def)
  moreover have "mb_tail mb + n \<noteq> mb_end mb" using assms True by (auto simp: mb_defs)
  ultimately show ?thesis using assms True by (simp add: mb_queue_def advance_tail_def get_room_def)
next
  case False
  then have "mem_bytes m (mb_tail mb) (mb_end mb - mb_tail mb) =
      mem_bytes m (mb_tail mb) (mb_tail mb + n - mb_tail mb) @
      mem_bytes m (mb_tail mb + n) (mb_end mb - (mb_tail mb + n))"
    using assms by (intro mem_bytes_split) (auto simp: mb_defs)
  then show ?thesis using assms(1) False by (simp add: mb_queue_def advance_tail_def mb_wf_def)
qed

lemma advance_tail_wf: "mb_wf mb \<Longrightarrow> n \<le> get_room mb \<Longrightarrow> mb_wf (advance_tail mb n)"
  by (auto simp: mb_defs split: if_splits)

lemma put_room_le: "mb_wf mb \<Longrightarrow> put_room mb \<le> mb_room mb"
  by (auto simp: put_room_def mb_room_def length_mb_queue mb_wf_def)

lemma put_room_second: "mb_wf mb \<Longrightarrow> put_room (advance_head mb (put_room mb)) = mb_room mb - put_room mb"
  by (auto simp: put_room_def mb_room_def length_mb_queue mb_wf_def advance_head_def)

lemma get_room_le: "mb_wf mb \<Longrightarrow> get_room mb \<le> length (mb_queue m mb)"
  by (auto simp: get_room_def length_mb_queue mb_wf_def)

lemma get_room_second:
  "mb_wf mb \<Longrightarrow> get_room (advance_tail mb (get_room mb)) = length (mb_queue m mb) - get_room mb"
  by (auto simp: get_room_def length_mb_queue mb_wf_def advance_tail_def)

section \<open>Put, get and the sizes\<close>

lemma putraw_advance_head_bounds: "mb_wf mb \<Longrightarrow> n \<le> put_room mb \<Longrightarrow> mb_head mb + n \<le> mb_end mb"
  by (auto simp: put_room_def mb_wf_def split: if_splits)

lemma get_advance_bounds: "mb_wf mb \<Longrightarrow> n \<le> get_room mb \<Longrightarrow> mb_tail mb + n \<le> mb_end mb"
  by (auto simp: get_room_def mb_wf_def split: if_splits)

text \<open>One iteration of \<open>membuff_put\<close>.\<close>

lemma put_step:
  assumes "mb_wf mb" "disjoint_range buff k (mb_start mb) (mb_end mb - mb_start mb)" "n = min k (put_room mb)"
  shows "fst (memcpy m (mb_head mb) buff n) = mem_store m (mb_head mb) (mem_bytes m buff n)"
proof -
  have "mb_start mb \<le> mb_head mb" "mb_head mb + n \<le> mb_end mb" "n \<le> k" "mb_start mb < mb_end mb"
    using assms(1,3) putraw_advance_head_bounds [OF assms(1), of n] by (auto simp: mb_wf_def)
  then show ?thesis using assms(2) by (subst memcpy_eq) (auto simp: disjoint_range_def)
qed

lemma put_loop_eq:
  assumes "mb_wf mb" "disjoint_range buff k (mb_start mb) (mb_end mb - mb_start mb)"
  shows "\<exists>m' mb'. membuff_put_loop 2 m mb buff (int k) w = (m', mb', w + int (min k (mb_room mb))) \<and>
    mb_wf mb' \<and> mb_start mb' = mb_start mb \<and> mb_end mb' = mb_end mb \<and>
    mb_queue m' mb' = mb_queue m mb @ mem_bytes m buff (min k (mb_room mb)) \<and>
    (\<forall>a. a < mb_start mb \<or> mb_end mb \<le> a \<longrightarrow> m' a = m a)"
proof -
  define n1 where "n1 = min k (put_room mb)"
  define mb1 where "mb1 = advance_head mb n1"
  define m1 where "m1 = mem_store m (mb_head mb) (mem_bytes m buff n1)"
  define n2 where "n2 = min (k - n1) (put_room mb1)"
  define m2 where "m2 = mem_store m1 (mb_head mb1) (mem_bytes m1 (buff + n1) n2)"
  have n1: "n1 \<le> k" "n1 \<le> put_room mb" and n2: "n2 \<le> put_room mb1" "n1 + n2 \<le> k"
    by (auto simp: n1_def n2_def)
  have wf1: "mb_wf mb1" and wf2: "mb_wf (advance_head mb1 n2)"
    using assms(1) advance_head_wf n1 n2 by (auto simp: mb1_def)
  have se: "mb_start mb1 = mb_start mb" "mb_end mb1 = mb_end mb" by (simp_all add: mb1_def)
  have dis: "disjoint_range (buff + n1) (k - n1) (mb_start mb1) (mb_end mb1 - mb_start mb1)"
    using assms(2) n1 by (auto simp: disjoint_range_def se)
  have total: "n1 + n2 = min k (mb_room mb)"
  proof (cases "k \<le> put_room mb")
    case True
    then show ?thesis using put_room_le [OF assms(1)] by (simp add: n1_def n2_def)
  next
    case False
    then have "n1 = put_room mb" by (simp add: n1_def)
    then have "put_room mb1 = mb_room mb - n1" using put_room_second [OF assms(1)] by (simp add: mb1_def)
    then show ?thesis using False put_room_le [OF assms(1)] \<open>n1 = put_room mb\<close> by (simp add: n2_def)
  qed
  have h: "mb_start mb \<le> mb_head mb" "mb_head mb + n1 \<le> mb_end mb" "mb_start mb \<le> mb_head mb1"
    "mb_head mb1 + n2 \<le> mb_end mb" "mb_start mb < mb_end mb"
    using assms(1) wf1 putraw_advance_head_bounds [OF assms(1) n1(2)] putraw_advance_head_bounds [OF wf1 n2(1)] se
    by (auto simp: mb_wf_def)
  have src: "mem_bytes m1 (buff + n1) n2 = mem_bytes m (buff + n1) n2"
    unfolding m1_def using assms(2) h n2 by (intro mem_store_disjoint) (auto simp: disjoint_range_def)
  have raw: "membuff_putraw mb (int k) True = (mb1, mb_head mb, int n1)"
    "membuff_putraw mb1 (int k - int n1) True = (advance_head mb1 n2, mb_head mb1, int n2)"
    using putraw_eq [OF assms(1), of k] putraw_eq [OF wf1, of "k - n1"] n1(1)
    by (simp_all add: Let_def n1_def mb1_def n2_def of_nat_diff)
  have copy: "fst (memcpy m (mb_head mb) buff n1) = m1" "fst (memcpy m1 (mb_head mb1) (buff + n1) n2) = m2"
    using put_step [OF assms n1_def, of m] put_step [OF wf1 dis n2_def, of m1] by (simp_all add: m1_def m2_def)
  have run: "membuff_put_loop 2 m mb buff (int k) w = (m2, advance_head mb1 n2, w + int n1 + int n2)"
    by (simp add: numeral_2_eq_2 raw copy nat_int_add)
  have "mb_queue m2 (advance_head mb1 n2) = mb_queue m1 mb1 @ mem_bytes m (buff + n1) n2"
    using advance_head_queue [OF wf1, of "mem_bytes m (buff + n1) n2" m1] n2 by (simp add: m2_def src)
  also have "mb_queue m1 mb1 = mb_queue m mb @ mem_bytes m buff n1"
    using advance_head_queue [OF assms(1), of "mem_bytes m buff n1" m] n1 by (simp add: m1_def mb1_def)
  finally have "mb_queue m2 (advance_head mb1 n2) = mb_queue m mb @ mem_bytes m buff (n1 + n2)"
    by (simp add: mem_bytes_add)
  moreover have "\<forall>a. a < mb_start mb \<or> mb_end mb \<le> a \<longrightarrow> m2 a = m a"
    using h by (auto simp: m2_def m1_def mem_store_other)
  ultimately show ?thesis using run wf2 se total by (simp add: add.assoc flip: of_nat_add)
qed

text \<open>One iteration of \<open>membuff_get\<close>, then both.\<close>

lemma get_step:
  assumes "mb_wf mb" "disjoint_range buff k (mb_start mb) (mb_end mb - mb_start mb)" "n = min k (get_room mb)"
  shows "fst (memcpy m buff (if mb_head mb = mb_tail mb then d else mb_tail mb) n) =
    mem_store m buff (mem_bytes m (mb_tail mb) n)"
proof (cases "n = 0")
  case True
  then show ?thesis by (subst memcpy_eq) auto
next
  case False
  then have "mb_head mb \<noteq> mb_tail mb" using assms(3) by (auto simp: get_room_def)
  moreover have "mb_start mb \<le> mb_tail mb" "mb_tail mb + n \<le> mb_end mb" "n \<le> k" "mb_start mb < mb_end mb"
    using assms(1,3) get_advance_bounds [OF assms(1), of n] by (auto simp: mb_wf_def)
  ultimately show ?thesis using assms(2) False by (subst memcpy_eq) (auto simp: disjoint_range_def)
qed

lemma mb_queue_store_outside:
  assumes "mb_wf mb" "disjoint_range p (length bs) (mb_start mb) (mb_end mb - mb_start mb)"
  shows "mb_queue (mem_store m p bs) mb = mb_queue m mb"
proof -
  have "mem_bytes (mem_store m p bs) q (r - q) = mem_bytes m q (r - q)" if "mb_start mb \<le> q" "r \<le> mb_end mb" for q r
    using assms that by (intro mem_store_disjoint) (auto simp: disjoint_range_def mb_wf_def)
  then show ?thesis using assms(1) by (simp add: mb_queue_def mb_wf_def)
qed

lemma get_loop_eq:
  assumes "mb_wf mb" "disjoint_range buff k (mb_start mb) (mb_end mb - mb_start mb)"
  shows "\<exists>m' mb'. membuff_get_loop 2 m mb buff NULL 1 (int k) =
      (m', mb', buff + min k (length (mb_queue m mb))) \<and>
    mb_wf mb' \<and> mb_start mb' = mb_start mb \<and> mb_end mb' = mb_end mb \<and>
    mem_bytes m' buff (min k (length (mb_queue m mb))) = take k (mb_queue m mb) \<and>
    mb_queue m' mb' = drop k (mb_queue m mb) \<and>
    (\<forall>a. a < buff \<or> buff + k \<le> a \<longrightarrow> m' a = m a)"
proof -
  define q where "q = mb_queue m mb"
  define n1 where "n1 = min k (get_room mb)"
  define mb1 where "mb1 = advance_tail mb n1"
  define m1 where "m1 = mem_store m buff (mem_bytes m (mb_tail mb) n1)"
  define n2 where "n2 = min (k - n1) (get_room mb1)"
  define m2 where "m2 = mem_store m1 (buff + n1) (mem_bytes m1 (mb_tail mb1) n2)"
  have n1: "n1 \<le> k" "n1 \<le> get_room mb" and n2: "n2 \<le> get_room mb1" "n1 + n2 \<le> k"
    by (auto simp: n1_def n2_def)
  have wf1: "mb_wf mb1" and wf2: "mb_wf (advance_tail mb1 n2)"
    using assms(1) advance_tail_wf n1 n2 by (auto simp: mb1_def)
  have se: "mb_start mb1 = mb_start mb" "mb_end mb1 = mb_end mb" by (simp_all add: mb1_def)
  have dis: "disjoint_range (buff + n1) (k - n1) (mb_start mb1) (mb_end mb1 - mb_start mb1)"
    using assms(2) n1 by (auto simp: disjoint_range_def se)
  have total: "n1 + n2 = min k (length q)"
  proof (cases "k \<le> get_room mb")
    case True
    then show ?thesis using get_room_le [OF assms(1), of m] by (simp add: n1_def n2_def q_def)
  next
    case False
    then have eq: "n1 = get_room mb" by (simp add: n1_def)
    then have "get_room mb1 = length q - n1" using get_room_second [OF assms(1)] by (simp add: mb1_def q_def)
    then show ?thesis using False get_room_le [OF assms(1), of m] eq by (simp add: n2_def q_def)
  qed
  have out: "disjoint_range buff n1 (mb_start mb) (mb_end mb - mb_start mb)"
    "disjoint_range (buff + n1) n2 (mb_start mb) (mb_end mb - mb_start mb)"
    using assms(2) n1 n2 by (auto simp: disjoint_range_def)
  have keep: "mb_queue m2 b = mb_queue m b" "mb_queue m1 b = mb_queue m b"
    if "mb_wf b" "mb_start b = mb_start mb" "mb_end b = mb_end mb" for b
    using that out mb_queue_store_outside [of b] by (simp_all add: m2_def m1_def)
  have q1: "q = mem_bytes m (mb_tail mb) n1 @ mb_queue m mb1"
    using advance_tail_queue [OF assms(1) n1(2)] by (simp add: q_def mb1_def)
  have q2: "mb_queue m mb1 = mem_bytes m1 (mb_tail mb1) n2 @ mb_queue m (advance_tail mb1 n2)"
    using advance_tail_queue [OF wf1 n2(1), of m1] keep(2) [OF wf1] keep(2) [OF wf2] se by simp
  have "k \<le> n1 + n2 \<or> mb_queue m (advance_tail mb1 n2) = []"
    using total arg_cong [OF q1, of length] arg_cong [OF q2, of length] by (auto simp: min_def split: if_splits)
  then have parts: "take k q = mem_bytes m (mb_tail mb) n1 @ mem_bytes m1 (mb_tail mb1) n2"
    "drop k q = mb_queue m (advance_tail mb1 n2)"
    using n2(2) q1 q2 by (auto simp: le_antisym)
  have raw: "membuff_getraw mb (int k) True NULL = (mb1, if mb_head mb = mb_tail mb then NULL else mb_tail mb, int n1)"
    "membuff_getraw mb1 (int k - int n1) True d = (advance_tail mb1 n2, if mb_head mb1 = mb_tail mb1 then d else mb_tail mb1, int n2)"
    for d
    using getraw_eq [OF assms(1), of k] getraw_eq [OF wf1, of "k - n1"] n1(1)
    by (simp_all add: Let_def n1_def mb1_def n2_def of_nat_diff)
  have copy: "fst (memcpy m buff (if mb_head mb = mb_tail mb then NULL else mb_tail mb) n1) = m1"
    "fst (memcpy m1 (buff + n1) (if mb_head mb1 = mb_tail mb1 then d else mb_tail mb1) n2) = m2" for d
    using get_step [OF assms n1_def, of m] get_step [OF wf1 dis n2_def, of m1] by (simp_all add: m1_def m2_def)
  have stop: "n1 = 0 \<Longrightarrow> n2 = 0" using total q1 q2 assms(1)
    by (auto simp: n1_def get_room_def mb1_def n2_def advance_tail_def mb_wf_def split: if_splits)
  have run: "membuff_get_loop 2 m mb buff NULL 1 (int k) = (m2, advance_tail mb1 n2, buff + (n1 + n2))"
  proof (cases "n1 = 0")
    case True
    then have "m2 = m1" "advance_tail mb1 n2 = mb1"
      using stop wf1 by (auto simp: m2_def advance_tail_def mb_wf_def)
    then show ?thesis using True stop raw(1) copy(1) by (simp add: numeral_2_eq_2)
  next
    case False
    then show ?thesis by (simp add: numeral_2_eq_2 raw copy nat_int_add)
  qed
  have "mem_bytes m2 buff (n1 + n2) = mem_bytes m (mb_tail mb) n1 @ mem_bytes m1 (mb_tail mb1) n2"
    by (simp add: mem_bytes_add m2_def m1_def mem_store_same mem_bytes_store_below)
  moreover have "\<forall>a. a < buff \<or> buff + k \<le> a \<longrightarrow> m2 a = m a"
    using n2 by (auto simp: m2_def m1_def mem_store_other)
  ultimately show ?thesis
    using run wf2 se parts total keep(1) [OF wf2] by (simp flip: q_def)
qed

lemma getraw_all: "mb_wf mb \<Longrightarrow> membuff_getraw mb (- 1) True d = membuff_getraw mb (int (get_room mb)) True d"
  by (auto simp: membuff_getraw_def get_room_def mb_wf_def Let_def of_nat_diff)

lemma avail_queue:
  assumes "mb_wf mb"
  shows "membuff_avail mb = int (length (mb_queue m mb))"
proof -
  let ?mb1 = "advance_tail mb (get_room mb)"
  have wf1: "mb_wf ?mb1" using advance_tail_wf [OF assms] by simp
  show ?thesis
    using getraw_all [OF assms] getraw_all [OF wf1] getraw_eq [OF assms, of "get_room mb"]
      getraw_eq [OF wf1, of "get_room ?mb1"] get_room_second [OF assms, of m] get_room_le [OF assms, of m]
    by (simp add: membuff_avail_def Let_def)
qed

lemma room_queue: "mb_room mb = mb_end mb - mb_start mb - 1 - length (mb_queue m mb)"
  by (simp add: mb_room_def length_mb_queue)

lemma queue_le_room: "mb_wf mb \<Longrightarrow> length (mb_queue m mb) + mb_room mb = mb_end mb - mb_start mb - 1"
  by (auto simp: room_queue [of mb m] length_mb_queue mb_wf_def)

lemma free_room: "mb_wf mb \<Longrightarrow> membuff_free mb = int (mb_room mb)"
  using avail_queue [of mb "\<lambda>_. 0"] queue_le_room [of mb "\<lambda>_. 0"] by (auto simp: membuff_free_def mb_wf_def)

section \<open>Single bytes\<close>

definition mb_cap :: "membuff \<Rightarrow> nat" where
  "mb_cap mb = mb_end mb - mb_start mb - 1"

lemma putbyte_law:
  assumes "mb_wf mb" "membuff_putbyte m mb (uint c) = (m', mb', ok)"
  shows "mb_wf mb' \<and> mb_cap mb' = mb_cap mb \<and> fifo_put (mb_cap mb) (mb_queue m mb) c = (mb_queue m' mb', ok)"
proof -
  have raw: "membuff_putraw mb 1 True = (let n = min 1 (put_room mb) in (advance_head mb n, mb_head mb, int n))"
    using putraw_eq [OF assms(1), of 1] by simp
  have pos: "put_room mb = 0 \<longleftrightarrow> mb_room mb = 0"
    using assms(1) by (auto simp: mb_room_def put_room_def length_mb_queue mb_wf_def split: if_splits)
  have cap: "length (mb_queue m mb) < mb_cap mb \<longleftrightarrow> mb_room mb \<noteq> 0"
    using queue_le_room [OF assms(1), of m] by (auto simp: mb_cap_def)
  show ?thesis
  proof (cases "put_room mb = 0")
    case True
    then show ?thesis
      using assms raw pos cap advance_head_queue [OF assms(1), of "[]" m] advance_head_wf [OF assms(1), of 0]
      by (auto simp: membuff_putbyte_def fifo_put_def mb_cap_def)
  next
    case False
    then have n: "min 1 (put_room mb) = 1" by simp
    then show ?thesis
      using assms raw pos cap False advance_head_queue [OF assms(1), of "[c]" m] advance_head_wf [OF assms(1), of 1]
      by (auto simp: membuff_putbyte_def fifo_put_def mb_cap_def mem_store_Cons)
  qed
qed

lemma getbyte_law:
  assumes "mb_wf mb" "membuff_getbyte m mb = (mb', r)"
  shows "mb_wf mb' \<and> mb_cap mb' = mb_cap mb \<and> fifo_get (mb_queue m mb) = (mb_queue m mb', r)"
proof -
  have raw: "membuff_getraw mb 1 True NULL = (let n = min 1 (get_room mb)
      in (advance_tail mb n, if mb_head mb = mb_tail mb then NULL else mb_tail mb, int n))"
    using getraw_eq [OF assms(1), of 1] by simp
  show ?thesis
  proof (cases "mb_head mb = mb_tail mb")
    case True
    then show ?thesis
      using assms raw by (auto simp: membuff_getbyte_def get_room_def mb_queue_def advance_tail_def mb_cap_def mb_wf_def)
  next
    case False
    then have n: "min 1 (get_room mb) = 1" using assms(1) by (auto simp: get_room_def mb_wf_def)
    then show ?thesis
      using assms raw False advance_tail_queue [OF assms(1), of 1 m] advance_tail_wf [OF assms(1), of 1]
      by (auto simp: membuff_getbyte_def mb_cap_def mem_bytes_Suc)
  qed
qed

interpretation mb_fifo: byte_fifo
  "\<lambda>(m, mb). mb_wf mb" "\<lambda>(m, mb). mb_queue m mb" "\<lambda>(m, mb). mb_cap mb"
  "\<lambda>(m, mb) c. case membuff_putbyte m mb (uint c) of (m', mb', ok) \<Rightarrow> ((m', mb'), ok)"
  "\<lambda>(m, mb). case membuff_getbyte m mb of (mb', r) \<Rightarrow> ((m, mb'), r)"
  by unfold_locales (auto split: prod.splits dest: putbyte_law getbyte_law)

section \<open>Making the data contiguous\<close>

lemma makecontig_false:
  "membuff_makecontig m mb = (m', mb', False) \<Longrightarrow> m' = m \<and> mb' = mb"
  by (auto simp: membuff_makecontig_def Let_def split: if_splits)

lemma makecontig_flat:
  assumes "mb_wf mb" "mb_tail mb \<le> mb_head mb" "membuff_makecontig m mb = (m', mb', ok)"
  shows "ok \<and> mb_wf mb' \<and> mb_tail mb' = mb_start mb' \<and> mb_start mb' = mb_start mb \<and> mb_end mb' = mb_end mb \<and>
    mb_queue m' mb' = mb_queue m mb"
proof -
  have wf: "mb_start mb \<le> mb_tail mb" using assms(1) by (simp add: mb_wf_def)
  have "m' = mem_store m (mb_start mb) (mem_bytes m (mb_tail mb) (mb_head mb - mb_tail mb))"
    "mb' = mb\<lparr>mb_tail := mb_start mb, mb_head := mb_start mb + (mb_head mb - mb_tail mb)\<rparr>" "ok"
    using assms(2,3) wf by (auto simp: membuff_makecontig_def Let_def memcpy_eq)
  then show ?thesis using assms(1,2) by (auto simp: mb_wf_def mb_queue_def mem_store_same)
qed

lemma makecontig_wrapped:
  assumes "mb_wf mb" "mb_head mb < mb_tail mb" "membuff_makecontig m mb = (m', mb', True)"
  shows "mb_wf mb' \<and> mb_tail mb' = mb_start mb' \<and> mb_start mb' = mb_start mb \<and> mb_end mb' = mb_end mb \<and>
    mb_queue m' mb' = mb_queue m mb"
proof -
  define st top bot where "st = mb_start mb" and "top = mb_end mb - mb_tail mb" and "bot = mb_head mb - mb_start mb"
  define m1 where "m1 = mem_store m (st + top) (mem_bytes m st bot)"
  have fit: "mb_head mb + top < mb_tail mb"
    using assms(2,3) by (auto simp: membuff_makecontig_def Let_def top_def split: if_splits)
  have wf: "mb_start mb \<le> mb_tail mb" "mb_start mb \<le> mb_head mb" using assms(1) by (auto simp: mb_wf_def)
  have eq: "m' = mem_store m1 st (mem_bytes m1 (mb_tail mb) top)"
    "mb' = mb\<lparr>mb_tail := st, mb_head := st + top + bot\<rparr>"
    using assms(2,3) fit wf
    by (auto simp: membuff_makecontig_def Let_def memcpy_eq memmove_eq m1_def st_def top_def bot_def)
  have "mem_bytes m1 (mb_tail mb) top = mem_bytes m (mb_tail mb) top"
    unfolding m1_def using fit wf by (intro mem_bytes_store_above) (simp add: st_def bot_def)
  then have "mem_bytes m' st (top + bot) = mem_bytes m (mb_tail mb) top @ mem_bytes m st bot"
    by (simp add: mem_bytes_add eq(1) mem_store_same mem_bytes_store_above m1_def)
  then show ?thesis
    using assms(1,2) fit wf eq by (auto simp: mb_wf_def mb_queue_def st_def top_def bot_def)
qed

section \<open>Growing\<close>

lemma double_size_total:
  assumes "0 < sz"
  shows "\<exists>n. double_size sz goal = Some n \<and> goal \<le> n \<and> sz \<le> n"
  using assms
proof (induction "nat (goal - sz)" arbitrary: sz rule: less_induct)
  case less
  show ?case
  proof (cases "sz < goal")
    case True
    then obtain n where "double_size (sz * 2) goal = Some n" "goal \<le> n" "sz * 2 \<le> n"
      using less.hyps [of "sz * 2"] less.prems by auto
    then show ?thesis using True less.prems by (subst double_size.simps) auto
  next
    case False
    then show ?thesis by (subst double_size.simps) simp
  qed
qed

lemma double_size_zeroD: "double_size sz goal = Some n \<Longrightarrow> sz = 0 \<longrightarrow> goal \<le> 0"
  by (erule double_size.raw_induct [where P = "\<lambda>sz goal n. sz = 0 \<longrightarrow> goal \<le> 0", rotated])
    (auto split: if_splits)

lemma double_size_zero: "0 < goal \<Longrightarrow> double_size 0 goal = None"
  using double_size_zeroD [of 0 goal] by (cases "double_size 0 goal") auto

lemma extend_queue:
  assumes "mb_wf mb" "mem_bytes m1 p (mb_end mb - mb_start mb) = mem_bytes m (mb_start mb) (mb_end mb - mb_start mb)"
    "p \<noteq> 0" "oldhead = mb_head mb - mb_start mb" "oldtail = mb_tail mb - mb_start mb" "0 < d"
    "orig = mb_end mb - mb_start mb"
    "m2 = (if oldhead < oldtail then mem_store m1 (p + oldtail + d) (mem_bytes m1 (p + oldtail) (orig - oldtail)) else m1)"
    "mb' = \<lparr>mb_start = p, mb_end = p + (orig + d), mb_head = p + oldhead,
       mb_tail = if oldhead < oldtail then p + oldtail + d else p + oldtail\<rparr>"
  shows "mb_wf mb' \<and> mb_queue m2 mb' = mb_queue m mb \<and> mb_room mb' = mb_room mb + d"
proof -
  have wf: "mb_start mb \<le> mb_head mb" "mb_head mb < mb_end mb" "mb_start mb \<le> mb_tail mb" "mb_tail mb < mb_end mb"
    using assms(1) by (auto simp: mb_wf_def)
  have cp: "mem_bytes m1 (p + i) n = mem_bytes m (mb_start mb + i) n" if "i + n \<le> orig" for i n
    using arg_cong [OF assms(2), of "\<lambda>xs. take n (drop i xs)"] that by (simp add: drop_mem_bytes take_mem_bytes assms(7))
  show ?thesis
  proof (cases "oldhead < oldtail")
    case True
    then have "mem_bytes m2 (p + oldtail + d) (orig - oldtail) = mem_bytes m1 (p + oldtail) (orig - oldtail)"
      "mem_bytes m2 p oldhead = mem_bytes m1 p oldhead"
      by (auto simp: assms(8) mem_store_same mem_bytes_store_below)
    then show ?thesis
      using True cp [of oldtail "orig - oldtail"] cp [of 0 oldhead] wf assms(3)
      by (auto simp: mb_wf_def mb_queue_def mb_room_def assms(4-7,9))
  next
    case False
    then show ?thesis
      using cp [of oldtail "oldhead - oldtail"] wf assms(3,6)
      by (auto simp: mb_wf_def mb_queue_def mb_room_def assms(4,5,7-9))
  qed
qed

section \<open>Reading a line\<close>

abbreviation line_end :: "(u8 \<Rightarrow> int) \<Rightarrow> int \<Rightarrow> u8 \<Rightarrow> bool" where
  "line_end cval minch c \<equiv> c = 10 \<or> cval c < minch"

text \<open>The loop copies \<open>n\<close> bytes that end no line; at the end of a wrapped buffer it goes on at \<open>start\<close>.\<close>

lemma readline_skip:
  assumes "\<forall>j < n. \<not> line_end cval minch (m (s + j))" "s + n \<le> e" "len + int n \<le> maxlen - 1"
    "disjoint_range str n s n"
  shows "readline_loop cval mb maxlen minch m str s e len =
    (let m' = mem_store m str (mem_bytes m s n)
     in if 0 < n \<and> s + n = e \<and> mb_tail mb > mb_head mb
        then readline_loop cval mb maxlen minch m' (str + n) (mb_start mb) (mb_head mb) (len + int n)
        else readline_loop cval mb maxlen minch m' (str + n) (s + n) e (len + int n))"
  using assms
proof (induction n arbitrary: m str s len)
  case (Suc n)
  let ?m = "m(str := m s)"
  have same: "?m (s + 1 + j) = m (s + 1 + j)" if "j < n" for j
    using Suc.prems(4) that by (auto simp: disjoint_range_def)
  have byte: "\<not> line_end cval minch (m s)" using Suc.prems(1) [rule_format, of 0] by simp
  have guard: "s < e \<and> len < maxlen - 1" using Suc.prems(2,3) by auto
  have bytes: "mem_store ?m (str + 1) (mem_bytes ?m (s + 1) n) = mem_store m str (mem_bytes m s (Suc n))"
    using mem_bytes_cong [of "s + 1" n ?m m] same
    by (simp add: mem_bytes_Suc mem_store_Cons del: fun_upd_apply) (metis add_Suc le_add_diff_inverse less_diff_conv2 nat_add_left_cancel_less)
  show ?case
  proof (cases "s + 1 = e")
    case True
    then have "n = 0" using Suc.prems(2) by simp
    then show ?thesis
      using True byte guard
      by (subst readline_loop.simps) (simp add: Let_def mem_bytes_Suc mem_store_Cons del: fun_upd_apply)
  next
    case False
    have "readline_loop cval mb maxlen minch m str s e len =
        readline_loop cval mb maxlen minch ?m (str + 1) (s + 1) e (len + 1)"
      using False byte guard by (subst readline_loop.simps) (simp del: fun_upd_apply)
    also have "\<dots> = (let m' = mem_store ?m (str + 1) (mem_bytes ?m (s + 1) n)
        in if 0 < n \<and> s + 1 + n = e \<and> mb_tail mb > mb_head mb
           then readline_loop cval mb maxlen minch m' (str + 1 + n) (mb_start mb) (mb_head mb) (len + 1 + int n)
           else readline_loop cval mb maxlen minch m' (str + 1 + n) (s + 1 + n) e (len + 1 + int n))"
    proof (rule Suc.IH)
      show "\<forall>j<n. \<not> line_end cval minch (?m (s + 1 + j))"
        using Suc.prems(1) same by (metis Suc_less_eq add_Suc_right add.assoc plus_1_eq_Suc)
    qed (use Suc.prems in \<open>auto simp: disjoint_range_def\<close>)
    finally show ?thesis
      unfolding bytes using False by (auto simp: Let_def ac_simps)
  qed
qed (simp add: Let_def)

lemma readline_stop:
  assumes "s < e" "len < maxlen - 1" "line_end cval minch (m s)"
  shows "readline_loop cval mb maxlen minch m str s e len = (m(str := m s), str, s + 1, len + 1, True)"
  using assms by (subst readline_loop.simps) simp

lemma nth_queue_first:
  "mb_wf mb \<Longrightarrow> j < get_room mb \<Longrightarrow> mb_queue m mb ! j = m (mb_tail mb + j)"
  by (auto simp: mb_queue_def get_room_def nth_append)

lemma nth_queue_second:
  "mb_wf mb \<Longrightarrow> mb_head mb < mb_tail mb \<Longrightarrow> j < mb_head mb - mb_start mb \<Longrightarrow>
    mb_queue m mb ! (get_room mb + j) = m (mb_start mb + j)"
  by (auto simp: mb_queue_def get_room_def nth_append)

text \<open>The state of the loop when it stops at the first line end, the \<open>i\<close>th byte of the queue.\<close>

lemma readline_found_first:
  assumes "mb_wf mb" "disjoint_range str (nat maxlen) (mb_start mb) (mb_end mb - mb_start mb)"
    "i < length (mb_queue m mb)" "line_end cval minch (mb_queue m mb ! i)"
    "\<forall>j < i. \<not> line_end cval minch (mb_queue m mb ! j)" "int i + 1 < maxlen"
    "i < get_room mb" "e = (if mb_head mb \<ge> mb_tail mb then mb_head mb else mb_end mb)"
  shows "\<exists>b t. readline_loop cval mb maxlen minch m str (mb_tail mb) e 0 =
      ((mem_store m str (take i (mb_queue m mb)))(str + i := b), str + i, t, int i + 1, True) \<and>
    (let mb' = mb\<lparr>mb_tail := if t = mb_end mb then mb_start mb else t\<rparr>
     in mb_wf mb' \<and> mb_queue m mb' = drop (i + 1) (mb_queue m mb))"
proof -
  let ?t = "mb_tail mb" and ?M = "mem_store m str (take i (mb_queue m mb))"
  have wf: "mb_start mb \<le> ?t" "?t < mb_end mb" "mb_head mb < mb_end mb" using assms(1) by (auto simp: mb_wf_def)
  have e: "e = ?t + get_room mb" using assms(8) wf by (auto simp: get_room_def)
  have q: "mb_queue m mb = mem_bytes m ?t (i + 1) @ mb_queue m (advance_tail mb (i + 1))"
    using advance_tail_queue [OF assms(1), of "i + 1" m] assms(7) by simp
  then have tk: "take i (mb_queue m mb) = mem_bytes m ?t i" by (simp add: mem_bytes_Suc_last)
  have dis: "disjoint_range str n ?t (i + 1)" if "n \<le> i" for n
    using assms(2,6) that get_advance_bounds [OF assms(1), of "i + 1"] assms(7) wf by (auto simp: disjoint_range_def)
  have keep: "?M (?t + i) = m (?t + i)"
    using dis [of i] tk by (cases "i = 0") (auto simp: mem_store_def disjoint_range_def)
  have "readline_loop cval mb maxlen minch m str ?t e 0 =
      readline_loop cval mb maxlen minch ?M (str + i) (?t + i) e (int i)"
    using readline_skip [where n = i and m = m and s = ?t and len = 0 and str = str and e = e and mb = mb] assms(5,6) assms(7) e dis [of i]
      nth_queue_first [OF assms(1)] tk by (auto simp: disjoint_range_def)
  also have "\<dots> = (?M(str + i := ?M (?t + i)), str + i, ?t + i + 1, int i + 1, True)"
    using assms(4,6) assms(7) e keep nth_queue_first [OF assms(1) assms(7), of m] by (intro readline_stop) auto
  moreover have "mb\<lparr>mb_tail := if ?t + i + 1 = mb_end mb then mb_start mb else ?t + i + 1\<rparr> = advance_tail mb (i + 1)"
    by (simp add: advance_tail_def)
  moreover have "mb_wf (advance_tail mb (i + 1))" "mb_queue m (advance_tail mb (i + 1)) = drop (i + 1) (mb_queue m mb)"
    using advance_tail_wf [OF assms(1), of "i + 1"] assms(7) q by auto
  ultimately show ?thesis unfolding Let_def by metis
qed

lemma readline_found_second:
  assumes "mb_wf mb" "disjoint_range str (nat maxlen) (mb_start mb) (mb_end mb - mb_start mb)"
    "i < length (mb_queue m mb)" "line_end cval minch (mb_queue m mb ! i)"
    "\<forall>j < i. \<not> line_end cval minch (mb_queue m mb ! j)" "int i + 1 < maxlen"
    "\<not> i < get_room mb" "e = (if mb_head mb \<ge> mb_tail mb then mb_head mb else mb_end mb)"
  shows "\<exists>b t. readline_loop cval mb maxlen minch m str (mb_tail mb) e 0 =
      ((mem_store m str (take i (mb_queue m mb)))(str + i := b), str + i, t, int i + 1, True) \<and>
    (let mb' = mb\<lparr>mb_tail := if t = mb_end mb then mb_start mb else t\<rparr>
     in mb_wf mb' \<and> mb_queue m mb' = drop (i + 1) (mb_queue m mb))"
proof -
  define g k where "g = get_room mb" and "k = i - get_room mb"
  have wrapped: "mb_head mb < mb_tail mb" and k: "i = g + k" "k < mb_head mb - mb_start mb"
    using assms(3,7) by (auto simp: length_mb_queue get_room_def g_def k_def split: if_splits)
  let ?t = "mb_tail mb" and ?s = "mb_start mb"
  have wf: "?s \<le> ?t" "?t < mb_end mb" "mb_head mb < mb_end mb" using assms(1) by (auto simp: mb_wf_def)
  have g: "0 < g" "?t + g = mb_end mb" and e: "e = ?t + g"
    using wrapped wf assms(8) by (auto simp: g_def get_room_def)
  have q: "mb_queue m mb = mem_bytes m ?t g @ mem_bytes m ?s (mb_head mb - ?s)"
    using wrapped g by (simp add: mb_queue_def g_def get_room_def)
  have tk: "take i (mb_queue m mb) = mem_bytes m ?t g @ mem_bytes m ?s k"
    using k by (simp add: q take_mem_bytes)
  define m1 where "m1 = mem_store m str (mem_bytes m ?t g)"
  have dis: "disjoint_range str (i + 1) ?s (mb_end mb - ?s)"
    using assms(2,6) by (auto simp: disjoint_range_def)
  have m1: "m1 (?s + j) = m (?s + j)" if "j < mb_head mb - ?s" for j
    unfolding m1_def using dis that k wf by (intro mem_store_other) (auto simp: disjoint_range_def)
  have st: "mem_store m str (take i (mb_queue m mb)) = mem_store m1 (str + g) (mem_bytes m1 ?s k)"
  proof -
    have "mem_bytes m1 ?s k = mem_bytes m ?s k" using m1 k(2) by (intro nth_equalityI) auto
    then show ?thesis by (simp add: tk mem_store_append m1_def)
  qed
  let ?M = "mem_store m str (take i (mb_queue m mb))"
  have keep: "?M (?s + k) = m (?s + k)"
    using dis k wf by (intro mem_store_other) (auto simp: disjoint_range_def)
  have "readline_loop cval mb maxlen minch m str ?t e 0 =
      readline_loop cval mb maxlen minch m1 (str + g) ?s (mb_head mb) (int g)"
  proof -
    have "\<forall>j < g. \<not> line_end cval minch (m (?t + j))"
      using assms(5) k(1) nth_queue_first [OF assms(1), of _ m] by (metis g_def trans_less_add1)
    moreover have "disjoint_range str g ?t g" using dis k(1) g wf by (auto simp: disjoint_range_def)
    ultimately show ?thesis
      using assms(6) k(1) e g wrapped by (subst readline_skip [where n = g]) (simp_all add: m1_def)
  qed
  also have "\<dots> = readline_loop cval mb maxlen minch ?M (str + i) (?s + k) (mb_head mb) (int i)"
  proof -
    have "\<not> line_end cval minch (m1 (?s + j))" if "j < k" for j
      using assms(5) [rule_format, of "g + j"] that k m1 [of j] nth_queue_second [OF assms(1) wrapped, of j m]
      by (simp add: g_def)
    moreover have "disjoint_range (str + g) k ?s k" using dis k wf by (auto simp: disjoint_range_def)
    ultimately show ?thesis
      using assms(6) k by (subst readline_skip [where n = k]) (auto simp: st [unfolded k(1)] add.assoc Let_def)
  qed
  also have "\<dots> = (?M(str + i := ?M (?s + k)), str + i, ?s + k + 1, int i + 1, True)"
    using assms(4,6) k keep nth_queue_second [OF assms(1) wrapped k(2), of m] by (intro readline_stop) (auto simp: g_def)
  moreover have "mb_wf (mb\<lparr>mb_tail := ?s + k + 1\<rparr>)" "?s + k + 1 \<noteq> mb_end mb" using assms(1) k by (auto simp: mb_wf_def)
  moreover have "mb_queue m (mb\<lparr>mb_tail := ?s + k + 1\<rparr>) = drop (i + 1) (mb_queue m mb)"
    using k by (simp add: q) (simp add: mb_queue_def drop_mem_bytes)
  ultimately show ?thesis
    by (intro exI [of _ "?M (?s + k)"] exI [of _ "?s + k + 1"]) (simp add: Let_def del: fun_upd_apply)
qed

lemma readline_found:
  assumes "mb_wf mb" "disjoint_range str (nat maxlen) (mb_start mb) (mb_end mb - mb_start mb)"
    "i < length (mb_queue m mb)" "line_end cval minch (mb_queue m mb ! i)"
    "\<forall>j < i. \<not> line_end cval minch (mb_queue m mb ! j)" "int i + 1 < maxlen"
    "e = (if mb_head mb \<ge> mb_tail mb then mb_head mb else mb_end mb)"
  shows "\<exists>b t. readline_loop cval mb maxlen minch m str (mb_tail mb) e 0 =
      ((mem_store m str (take i (mb_queue m mb)))(str + i := b), str + i, t, int i + 1, True) \<and>
    (let mb' = mb\<lparr>mb_tail := if t = mb_end mb then mb_start mb else t\<rparr>
     in mb_wf mb' \<and> mb_queue m mb' = drop (i + 1) (mb_queue m mb))"
  using assms readline_found_first [of mb] readline_found_second [of mb] by blast

section \<open>Properties\<close>

text \<open>A wrapped buffer of eight bytes that holds \<open>ab\<close>, a newline and \<open>c\<close>, for the evaluated instances.\<close>

definition demo_mb :: membuff where
  "demo_mb = \<lparr>mb_start = 16, mb_end = 24, mb_head = 18, mb_tail = 22\<rparr>"

definition demo_ring :: mem where
  "demo_ring = mem_store (mem_store (\<lambda>_. 0) 16 [10, 99, 0, 0, 0, 0, 97, 98]) 64 [1, 2, 3, 4, 5]"

text \<open>
  \<open>membuff_put\<close> of \<open>k\<close> bytes from outside the buffer appends as many of them as there is room for
  to the queue, in the at most two pieces the ring has free, returns that number, and writes
  nothing outside the buffer.\<close>
theorem membuff_put_appends:
  assumes "mb_wf mb" "disjoint_range buff k (mb_start mb) (mb_end mb - mb_start mb)"
  shows "\<exists>m' mb'. membuff_put m mb buff (int k) = (m', mb', min (int k) (membuff_free mb)) \<and> mb_wf mb' \<and>
    mb_queue m' mb' = mb_queue m mb @ take (nat (membuff_free mb)) (mem_bytes m buff k) \<and>
    (\<forall>a. a < mb_start mb \<or> mb_end mb \<le> a \<longrightarrow> m' a = m a)"
proof -
  have "take (mb_room mb) (mem_bytes m buff k) = mem_bytes m buff (min k (mb_room mb))"
    by (cases "k \<le> mb_room mb") (simp_all add: take_mem_bytes min_def)
  then show ?thesis
    using put_loop_eq [OF assms, of m 0] by (auto simp: membuff_put_def free_room [OF assms(1)])
qed

theorem membuff_put_appends_witness:
  "\<exists>m' mb'. membuff_put demo_ring demo_mb 64 5 = (m', mb', 3) \<and> mb_queue m' mb' = [97, 98, 10, 99, 1, 2, 3]"
proof -
  have "mb_wf demo_mb" "disjoint_range 64 5 (mb_start demo_mb) (mb_end demo_mb - mb_start demo_mb)" by code_simp+
  moreover have "membuff_free demo_mb = 3" "mb_queue demo_ring demo_mb = [97, 98, 10, 99]"
    "take 3 (mem_bytes demo_ring 64 5) = [1, 2, 3]" by code_simp+
  ultimately show ?thesis using membuff_put_appends [of demo_mb 64 5 demo_ring] by auto
qed

text \<open>
  \<open>membuff_get\<close> copies the oldest \<open>maxlen\<close> bytes, or all there are, to a destination outside the
  buffer, removes exactly these, returns their number, and writes nowhere else.\<close>
theorem membuff_get_takes:
  assumes "mb_wf mb" "disjoint_range buff k (mb_start mb) (mb_end mb - mb_start mb)"
  shows "\<exists>m' mb'. membuff_get m mb buff (int k) = (m', mb', min (int k) (membuff_avail mb)) \<and> mb_wf mb' \<and>
    mem_bytes m' buff (nat (min (int k) (membuff_avail mb))) = take k (mb_queue m mb) \<and>
    mb_queue m' mb' = drop k (mb_queue m mb) \<and>
    (\<forall>a. a < buff \<or> buff + k \<le> a \<longrightarrow> m' a = m a)"
  using get_loop_eq [OF assms, of m]
  by (auto simp: membuff_get_def avail_queue [OF assms(1), of m] simp flip: of_nat_min)

theorem membuff_get_takes_witness:
  "\<exists>m' mb'. membuff_get demo_ring demo_mb 96 3 = (m', mb', 3) \<and> mem_bytes m' 96 3 = [97, 98, 10] \<and>
     mb_queue m' mb' = [99]"
proof -
  have "mb_wf demo_mb" "disjoint_range 96 3 (mb_start demo_mb) (mb_end demo_mb - mb_start demo_mb)" by code_simp+
  moreover have "membuff_avail demo_mb = 4" "mb_queue demo_ring demo_mb = [97, 98, 10, 99]" by code_simp+
  ultimately show ?thesis using membuff_get_takes [of demo_mb 96 3 demo_ring] by auto
qed

text \<open>
  C26. Every sequence of \<open>membuff_putbyte\<close> and \<open>membuff_getbyte\<close> calls on a well-formed buffer returns
  what the same sequence returns on a list of bytes bounded by the size of the buffer less one, and
  leaves the buffer holding that list.\<close>
theorem membuff_bytes_fifo:
  assumes "mb_wf mb"
    "run_fifo (\<lambda>(m, mb) c. case membuff_putbyte m mb (uint c) of (m', mb', ok) \<Rightarrow> ((m', mb'), ok))
       (\<lambda>(m, mb). case membuff_getbyte m mb of (mb', r) \<Rightarrow> ((m, mb'), r)) (m, mb) ops = ((m', mb'), rs)"
  shows "mb_wf mb' \<and>
    run_fifo (fifo_put (mb_end mb - mb_start mb - 1)) fifo_get (mb_queue m mb) ops = (mb_queue m' mb', rs)"
  using mb_fifo.run_refines [of "(m, mb)" ops "(m', mb')" rs] assms by (simp add: mb_cap_def)

theorem membuff_bytes_fifo_witness:
  "\<exists>m' mb' rs. run_fifo (\<lambda>(m, mb) c. case membuff_putbyte m mb (uint c) of (m', mb', ok) \<Rightarrow> ((m', mb'), ok))
       (\<lambda>(m, mb). case membuff_getbyte m mb of (mb', r) \<Rightarrow> ((m, mb'), r)) (demo_ring, demo_mb)
       [Put 1, Get, Put 2, Put 3, Put 4, Put 5] = ((m', mb'), rs) \<and>
     mb_queue m' mb' = [98, 10, 99, 1, 2, 3, 4] \<and> rs = [Inl True, Inr 97, Inl True, Inl True, Inl True, Inl False]"
proof -
  let ?run = "run_fifo (\<lambda>(m, mb) c. case membuff_putbyte m mb (uint c) of (m', mb', ok) \<Rightarrow> ((m', mb'), ok))
       (\<lambda>(m, mb). case membuff_getbyte m mb of (mb', r) \<Rightarrow> ((m, mb'), r)) (demo_ring, demo_mb)
       [Put 1, Get, Put 2, Put 3, Put 4, Put 5]"
  have "\<exists>m' mb' rs. ?run = ((m', mb'), rs)" by (rule ex_pair3)
  then obtain m' mb' rs where run: "?run = ((m', mb'), rs)" by (elim exE)
  have wf: "mb_wf demo_mb" by code_simp
  have spec: "run_fifo (fifo_put (mb_end demo_mb - mb_start demo_mb - 1)) fifo_get (mb_queue demo_ring demo_mb)
      [Put 1, Get, Put 2, Put 3, Put 4, Put 5] =
    ([98, 10, 99, 1, 2, 3, 4], [Inl True, Inr 97, Inl True, Inl True, Inl True, Inl False])" by code_simp
  note eq = membuff_bytes_fifo [OF wf run, THEN conjunct2]
  have "(mb_queue m' mb', rs) =
    ([98, 10, 99, 1, 2, 3, 4], [Inl True, Inr 97, Inl True, Inl True, Inl True, Inl False])"
    by (rule trans [OF eq [symmetric] spec])
  then show ?thesis unfolding run by blast
qed

text \<open>
  \<open>membuff_makecontig\<close> either reports failure and changes nothing, or moves the data to the start
  of the buffer in one piece without changing the queue, whether or not it was wrapped.\<close>
theorem membuff_makecontig_keeps:
  assumes "mb_wf mb" "membuff_makecontig m mb = (m', mb', ok)"
  shows "if ok then mb_wf mb' \<and> mb_tail mb' = mb_start mb \<and> mb_queue m' mb' = mb_queue m mb
    else m' = m \<and> mb' = mb"
  using assms makecontig_flat [OF assms(1) _ assms(2)] makecontig_wrapped [OF assms(1), of m m' mb']
    makecontig_false [of m mb m' mb']
  by (cases ok; cases "mb_head mb < mb_tail mb") auto

theorem membuff_makecontig_keeps_witness:
  "\<exists>m' mb'. membuff_makecontig demo_ring demo_mb = (m', mb', True) \<and> mb_tail mb' = 16 \<and>
     mb_queue m' mb' = [97, 98, 10, 99]"
proof -
  obtain m' mb' ok where run: "membuff_makecontig demo_ring demo_mb = (m', mb', ok)" by (metis prod.exhaust)
  have "snd (snd (membuff_makecontig demo_ring demo_mb)) = True" "mb_wf demo_mb" "mb_start demo_mb = 16"
    "mb_queue demo_ring demo_mb = [97, 98, 10, 99]" by code_simp+
  then show ?thesis using run membuff_makecontig_keeps [OF _ run] by simp
qed

text \<open>
  When the first line end of the queue (a newline or a character below \<open>minch\<close>) is its \<open>i\<close>th byte
  and fits, \<open>membuff_readline\<close> returns \<open>i + 1\<close>, stores the line terminated by a null byte in place
  of the line end, and removes the line and its end from the queue, also across the wrap.\<close>
theorem membuff_readline_line:
  assumes "mb_wf mb" "disjoint_range str (nat maxlen) (mb_start mb) (mb_end mb - mb_start mb)"
    "i < length (mb_queue m mb)" "line_end cval minch (mb_queue m mb ! i)"
    "\<forall>j < i. \<not> line_end cval minch (mb_queue m mb ! j)" "int i + 1 < maxlen"
  shows "\<exists>m' mb'. membuff_readline cval m mb str maxlen minch must_fit = (m', mb', int i + 1) \<and> mb_wf mb' \<and>
    mem_bytes m' str (i + 1) = take i (mb_queue m mb) @ [0] \<and> mb_queue m' mb' = drop (i + 1) (mb_queue m mb)"
proof -
  let ?q = "mb_queue m mb"
  obtain b t where run: "readline_loop cval mb maxlen minch m str (mb_tail mb)
      (if mb_head mb \<ge> mb_tail mb then mb_head mb else mb_end mb) 0 =
      ((mem_store m str (take i ?q))(str + i := b), str + i, t, int i + 1, True)"
    and new: "mb_wf (mb\<lparr>mb_tail := if t = mb_end mb then mb_start mb else t\<rparr>)"
      "mb_queue m (mb\<lparr>mb_tail := if t = mb_end mb then mb_start mb else t\<rparr>) = drop (i + 1) ?q"
    using readline_found [OF assms refl] unfolding Let_def by blast
  let ?mb = "mb\<lparr>mb_tail := if t = mb_end mb then mb_start mb else t\<rparr>"
  have m': "(mem_store m str (take i ?q))(str + i := 0) = mem_store m str (take i ?q @ [0])"
    using assms(3) by (simp add: mem_store_snoc)
  have "mb_queue (mem_store m str (take i ?q @ [0])) ?mb = mb_queue m ?mb"
    using assms(2,3,6) by (intro mb_queue_store_outside [OF new(1)]) (auto simp: disjoint_range_def)
  moreover have "mem_bytes (mem_store m str (take i ?q @ [0])) str (i + 1) = take i ?q @ [0]"
    using assms(3) by (intro mem_store_same) simp
  moreover have "membuff_readline cval m mb str maxlen minch must_fit = (mem_store m str (take i ?q @ [0]), ?mb, int i + 1)"
    using run m' by (simp add: membuff_readline_def)
  ultimately show ?thesis using new by simp
qed

theorem membuff_readline_line_witness:
  "\<exists>m' mb'. membuff_readline uint demo_ring demo_mb 96 8 0 True = (m', mb', 3) \<and>
     mem_bytes m' 96 3 = [97, 98, 0] \<and> mb_queue m' mb' = [99]"
proof -
  have "mb_wf demo_mb" "disjoint_range 96 (nat 8) (mb_start demo_mb) (mb_end demo_mb - mb_start demo_mb)" by code_simp+
  moreover have q: "mb_queue demo_ring demo_mb = [97, 98, 10, 99]" by code_simp
  moreover have "\<forall>j < 2. \<not> line_end uint 0 ([97, 98, 10, 99] ! j)" by code_simp
  ultimately show ?thesis
    using membuff_readline_line [where mb = demo_mb and str = 96 and maxlen = 8 and i = 2 and m = demo_ring
        and cval = uint and minch = 0 and must_fit = True]
    by (auto simp: numeral_3_eq_3)
qed

text \<open>
  A wrapped buffer that holds no line end is read more than once: \<open>membuff_readline\<close> with
  \<open>must_fit\<close> false returns more bytes than the buffer held, goes round the part at its start
  again and again until the caller's limit, and leaves data in the buffer.\<close>
theorem membuff_readline_rereads:
  "let mb = \<lparr>mb_start = 16, mb_end = 20, mb_head = 18, mb_tail = 19\<rparr>;
       m = mem_store (\<lambda>_. 0) 16 [98, 99, 0, 97];
       (m', mb', n) = membuff_readline uint m mb 64 8 32 False
   in mb_wf mb \<and> mb_queue m mb = [97, 98, 99] \<and> n = 7 \<and>
      mem_bytes m' 64 8 = [97, 98, 99, 98, 99, 98, 99, 0] \<and> mb_queue m' mb' = [98, 99]"
  by code_simp

text \<open>
  \<open>membuff_extend_by\<close> on a well-formed buffer returns; when it succeeds, with \<open>realloc\<close> keeping
  the old contents as it promises, the queue is unchanged and the room has grown, by at least the
  amount asked for when there is no limit; otherwise it reports \<open>E2BIG\<close> or \<open>ENOMEM\<close> and the buffer is
  as before.\<close>
theorem membuff_extend_keeps:
  assumes "mb_wf mb"
    "\<And>sz m1 p. realloc m (mb_start mb) sz = (m1, p) \<Longrightarrow> p \<noteq> NULL \<Longrightarrow> int (mb_end mb - mb_start mb) \<le> sz \<Longrightarrow>
       mem_bytes m1 p (mb_end mb - mb_start mb) = mem_bytes m (mb_start mb) (mb_end mb - mb_start mb)"
  shows "\<exists>m' mb' r. membuff_extend_by realloc m mb k max_size = Some (m', mb', r) \<and>
    (if r = 0 then mb_wf mb' \<and> mb_queue m' mb' = mb_queue m mb \<and> mb_room mb < mb_room mb' \<and>
       (max_size = - 1 \<longrightarrow> int (mb_room mb) + k \<le> int (mb_room mb'))
     else mb' = mb \<and> (r = - E2BIG \<or> r = - ENOMEM))"
proof -
  define orig where "orig = mb_end mb - mb_start mb"
  have orig: "int (mb_end mb) - int (mb_start mb) = int orig" "0 < orig"
    using assms(1) by (auto simp: orig_def mb_wf_def)
  obtain n where n: "double_size (int orig) (int orig + k) = Some n" "int orig + k \<le> n"
    using double_size_total [of "int orig"] orig(2) by auto
  define sz where "sz = (if max_size \<noteq> - 1 then min n max_size else n)"
  obtain m1 p where ra: "realloc m (mb_start mb) sz = (m1, p)" by fastforce
  consider "sz \<le> int orig" | "int orig < sz" "p = NULL" | "int orig < sz" "p \<noteq> NULL" by linarith
  then show ?thesis
  proof cases
    case 3
    define d where "d = nat (sz - int orig)"
    let ?oh = "mb_head mb - mb_start mb" and ?ot = "mb_tail mb - mb_start mb"
    have d: "0 < d" "sz = int (orig + d)" "nat (sz - int orig) = d" "nat sz = orig + d" using 3 by (auto simp: d_def)
    have cp: "mem_bytes m1 p (mb_end mb - mb_start mb) = mem_bytes m (mb_start mb) (mb_end mb - mb_start mb)"
      using assms(2) [OF ra] 3 by (simp add: orig_def)
    have ot: "nat (int orig - int ?ot) = orig - ?ot" by simp
    define m2 where "m2 = (if ?oh < ?ot then mem_store m1 (p + ?ot + d) (mem_bytes m1 (p + ?ot) (orig - ?ot)) else m1)"
    define mb' where "mb' = \<lparr>mb_start = p, mb_end = p + (orig + d), mb_head = p + ?oh,
      mb_tail = if ?oh < ?ot then p + ?ot + d else p + ?ot\<rparr>"
    have "membuff_extend_by realloc m mb k max_size = Some (m2, mb', 0)"
      unfolding membuff_extend_by_def Let_def orig(1) n(1) option.map sz_def [symmetric] ra prod.case ot d(3,4)
      using 3 by (simp add: memmove_eq m2_def mb'_def)
    moreover have "mb_wf mb' \<and> mb_queue m2 mb' = mb_queue m mb \<and> mb_room mb' = mb_room mb + d"
      by (rule extend_queue [OF assms(1) cp 3(2) refl refl d(1) orig_def m2_def mb'_def])
    moreover have "max_size = - 1 \<longrightarrow> k \<le> int d" using n(2) d(2) by (auto simp: sz_def)
    ultimately show ?thesis using d(1) by auto
  next
    case 1
    then show ?thesis
      unfolding membuff_extend_by_def Let_def orig(1) n(1) option.map sz_def [symmetric] by simp
  next
    case 2
    then show ?thesis
      unfolding membuff_extend_by_def Let_def orig(1) n(1) option.map sz_def [symmetric] ra by simp
  qed
qed

theorem membuff_extend_keeps_witness:
  "\<exists>m' mb'. membuff_extend_by (\<lambda>m p sz. (mem_store m 128 (mem_bytes m p 8), 128)) demo_ring demo_mb 10 (- 1) =
     Some (m', mb', 0) \<and> mb_queue m' mb' = [97, 98, 10, 99] \<and> 13 \<le> mb_room mb'"
proof -
  let ?realloc = "\<lambda>m p sz. (mem_store m 128 (mem_bytes m p 8), 128) :: mem \<times> ptr"
  have "mb_wf demo_mb" "mb_room demo_mb = 3" "mb_queue demo_ring demo_mb = [97, 98, 10, 99]"
    and len: "mb_end demo_mb - mb_start demo_mb = 8" by code_simp+
  moreover have "snd (snd (the (membuff_extend_by ?realloc demo_ring demo_mb 10 (- 1)))) = 0"
    by (simp add: membuff_extend_by_def demo_mb_def Let_def double_size.simps)
  ultimately show ?thesis
    using membuff_extend_keeps [of demo_mb ?realloc demo_ring 10 "- 1"] by (auto simp: mem_store_same)
qed

end
