(* ===== verification/Hashtable.thy ===== *)
theory Hashtable
  imports Strings Interfaces
begin

text \<open>
  The hash table of \<open>lib/hashtable.c\<close> that holds the U-Boot environment: open addressing with double
  hashing over a table of prime size, whose slot 0 is never used. A C string is the list of its
  bytes (\<open>strcmp\<close> of two strings is zero exactly when these are equal, see \<open>strcmp_correct\<close>), a
  pointer that may be \<open>NULL\<close> is an option, a pointer to an entry is the index of its slot, and a
  table that is \<open>NULL\<close> is the empty list. Table sizes and indices are natural numbers, as the
  sizes the code creates are far below \<open>2^31\<close>; the hash value is a 32-bit word and wraps.

  The record \<open>henv\<close> collects what the code calls and this theory does not define: \<open>strdup\<close> (which
  returns \<open>NULL\<close> when there is no memory), the initialisation of a new entry by
  \<open>env_callback_init\<close> and \<open>env_flags_init\<close>, the callbacks of entries, the regular expressions of
  \<open>slre.c\<close>, and the value of a \<open>char\<close> as an integer. Callbacks are taken not to change the table
  themselves.

  The second half shows that the table implements a finite map: \<open>hmap\<close> is the map it stores,
  \<open>h_wf\<close> the invariant of its probe sequences, and \<open>string_map\<close> the interface a client relies on.
\<close>

section \<open>Model\<close>

type_synonym cstring = "u8 list"

datatype env_op = env_op_create | env_op_delete | env_op_overwrite

datatype env_action = ENV_FIND | ENV_ENTER

record env_entry =
  e_key :: "cstring option"
  e_data :: "cstring option"
  e_callback :: "nat option"
  e_flags :: int

record env_entry_node =
  used :: int
  entry :: env_entry

record hsearch_data =
  table :: "env_entry_node list"
  h_size :: nat
  filled :: nat
  change_ok :: "(env_entry \<Rightarrow> cstring option \<Rightarrow> env_op \<Rightarrow> int \<Rightarrow> int) option"

record henv =
  strdup_of :: "cstring \<Rightarrow> cstring option"
  entry_init :: "env_entry \<Rightarrow> env_entry"
  callback_fn :: "nat \<Rightarrow> cstring \<Rightarrow> cstring option \<Rightarrow> env_op \<Rightarrow> int \<Rightarrow> int"
  regex :: "(cstring \<Rightarrow> (cstring \<Rightarrow> bool) option) option"
  char_val :: "u8 \<Rightarrow> int"

abbreviation (input) ESRCH :: int where "ESRCH \<equiv> 3"
abbreviation (input) USED_FREE :: int where "USED_FREE \<equiv> 0"
abbreviation (input) USED_DELETED :: int where "USED_DELETED \<equiv> - 1"

text \<open>What an operation returns: the table, \<open>errno\<close>, the result and the slot \<open>*retval\<close> points to.\<close>

type_synonym hresult = "hsearch_data \<times> int \<times> int \<times> nat option"

subsection \<open>Creating and destroying\<close>

partial_function (option) isprime_loop :: "nat \<Rightarrow> nat \<Rightarrow> nat option" where
  "isprime_loop number d =
     (if d * d mod 2 ^ 32 < number \<and> number mod d \<noteq> 0 then isprime_loop number ((d + 2) mod 2 ^ 32) else Some d)"

definition isprime :: "nat \<Rightarrow> bool option" where
  "isprime number = map_option (\<lambda>d. number mod d \<noteq> 0) (isprime_loop number 3)"

partial_function (option) next_prime :: "nat \<Rightarrow> nat option" where
  "next_prime nel = Option.bind (isprime (nel mod 2 ^ 32)) (\<lambda>p. if \<not> p then next_prime (nel + 2) else Some nel)"

declare isprime_loop.simps [code] next_prime.simps [code]

definition empty_entry :: env_entry where
  "empty_entry = \<lparr>e_key = None, e_data = None, e_callback = None, e_flags = 0\<rparr>"

definition empty_node :: env_entry_node where
  "empty_node = \<lparr>used = USED_FREE, entry = empty_entry\<rparr>"

text \<open>\<open>calloc_ok\<close> says whether \<open>calloc\<close> returns memory.\<close>

definition hcreate_r :: "bool \<Rightarrow> nat \<Rightarrow> hsearch_data \<Rightarrow> int \<Rightarrow> (hsearch_data \<times> int \<times> int) option" where
  "hcreate_r calloc_ok nel htab errno =
     (if table htab \<noteq> [] then Some (htab, EINVAL, 0)
      else map_option (\<lambda>nel'.
        let htab' = htab\<lparr>h_size := nel', filled := 0\<rparr>
        in if \<not> calloc_ok then (htab', ENOMEM, 0)
           else (htab'\<lparr>table := replicate (nel' + 1) empty_node\<rparr>, errno, 1))
        (next_prime (nel OR 1)))"

definition hdestroy_r :: "hsearch_data \<Rightarrow> hsearch_data" where
  "hdestroy_r htab = htab\<lparr>table := []\<rparr>"

subsection \<open>Searching\<close>

fun hmatch_loop :: "cstring \<Rightarrow> hsearch_data \<Rightarrow> nat \<Rightarrow> nat \<Rightarrow> nat option" where
  "hmatch_loop match htab idx 0 = None"
| "hmatch_loop match htab idx (Suc n) =
     (let nd = table htab ! idx
      in if used nd \<le> 0 then hmatch_loop match htab (idx + 1) n
         else if take (length match) (the (e_key (entry nd))) = match then Some idx
         else hmatch_loop match htab (idx + 1) n)"

definition hmatch_r :: "cstring \<Rightarrow> nat \<Rightarrow> hsearch_data \<Rightarrow> int \<Rightarrow> int \<times> int \<times> nat option" where
  "hmatch_r match last_idx htab errno =
     (case hmatch_loop match htab (last_idx + 1) (h_size htab - (last_idx + 1)) of
        Some idx \<Rightarrow> (errno, int idx, Some idx)
      | None \<Rightarrow> (ESRCH, 0, None))"

definition do_callback :: "henv \<Rightarrow> env_entry \<Rightarrow> cstring \<Rightarrow> cstring option \<Rightarrow> env_op \<Rightarrow> int \<Rightarrow> int" where
  "do_callback env e name value op flags =
     (case e_callback e of Some cb \<Rightarrow> callback_fn env cb name value op flags | None \<Rightarrow> 0)"

definition change_denied :: "hsearch_data \<Rightarrow> env_entry \<Rightarrow> cstring option \<Rightarrow> env_op \<Rightarrow> int \<Rightarrow> bool" where
  "change_denied htab e value op flag = (case change_ok htab of Some ok \<Rightarrow> ok e value op flag \<noteq> 0 | None \<Rightarrow> False)"

abbreviation set_entry :: "hsearch_data \<Rightarrow> nat \<Rightarrow> env_entry \<Rightarrow> hsearch_data" where
  "set_entry htab idx e \<equiv> htab\<lparr>table := (table htab)[idx := (table htab ! idx)\<lparr>entry := e\<rparr>]\<rparr>"

definition compare_and_overwrite_entry ::
  "henv \<Rightarrow> cstring \<Rightarrow> cstring option \<Rightarrow> env_action \<Rightarrow> hsearch_data \<Rightarrow> int \<Rightarrow> int \<Rightarrow> nat \<Rightarrow> nat \<Rightarrow> hresult" where
  "compare_and_overwrite_entry env key data action htab errno flag hval idx =
     (let nd = table htab ! idx; e = entry nd
      in if used nd = int hval \<and> e_key e = Some key then
           if action = ENV_ENTER \<and> data \<noteq> None then
             if change_denied htab e data env_op_overwrite flag then (htab, EPERM, 0, None)
             else if do_callback env e key data env_op_overwrite flag \<noteq> 0 then (htab, EINVAL, 0, None)
             else
               let new = strdup_of env (the data); htab' = set_entry htab idx (e\<lparr>e_data := new\<rparr>)
               in if new = None then (htab', ENOMEM, 0, None) else (htab', errno, int idx, Some idx)
           else (htab, errno, int idx, Some idx)
         else (htab, errno, - 1, None))"

text \<open>The hash of a key: its length and then its characters from the last to the first.\<close>

definition hash_string :: "(u8 \<Rightarrow> int) \<Rightarrow> cstring \<Rightarrow> u32" where
  "hash_string cval key = foldr (\<lambda>c h. push_bit 4 h + word_of_int (cval c)) key (of_nat (length key))"

definition first_hash :: "(u8 \<Rightarrow> int) \<Rightarrow> nat \<Rightarrow> cstring \<Rightarrow> nat" where
  "first_hash cval sz key = (let h = unat (hash_string cval key) mod sz in if h = 0 then 1 else h)"

definition second_hash :: "nat \<Rightarrow> nat \<Rightarrow> nat" where
  "second_hash sz hval = 1 + hval mod (sz - 2)"

definition probe_step :: "nat \<Rightarrow> nat \<Rightarrow> nat \<Rightarrow> nat" where
  "probe_step sz hval2 idx = (if idx \<le> hval2 then sz + idx - hval2 else idx - hval2)"

text \<open>
  The \<open>do ... while\<close> loop of \<open>hsearch_r\<close>. \<open>Inl\<close> is a return from inside the loop, \<open>Inr\<close> the values of
  \<open>idx\<close> and \<open>first_deleted\<close> after it. The first argument bounds the iterations; \<open>hsearch_loop_total\<close>
  shows that the size of the table is enough for every table.
\<close>

fun hsearch_loop ::
  "nat \<Rightarrow> henv \<Rightarrow> cstring \<Rightarrow> cstring option \<Rightarrow> env_action \<Rightarrow> hsearch_data \<Rightarrow> int \<Rightarrow> int \<Rightarrow> nat \<Rightarrow> nat \<Rightarrow> nat \<Rightarrow>
   (hresult + nat \<times> nat) option" where
  "hsearch_loop 0 env key data action htab errno flag hval idx first_deleted = None"
| "hsearch_loop (Suc n) env key data action htab errno flag hval idx0 first_deleted0 =
     (let idx = probe_step (h_size htab) (second_hash (h_size htab) hval) idx0
      in if idx = hval then Some (Inr (idx, first_deleted0))
         else
           let first_deleted =
                 (if used (table htab ! idx) = USED_DELETED \<and> first_deleted0 = 0 then idx else first_deleted0);
               r = compare_and_overwrite_entry env key data action htab errno flag hval idx
           in if fst (snd (snd r)) \<noteq> - 1 then Some (Inl r)
              else if used (table htab ! idx) \<noteq> USED_FREE
                then hsearch_loop n env key data action htab errno flag hval idx first_deleted
                else Some (Inr (idx, first_deleted)))"

text \<open>The memory of the entry is freed; the slot keeps its dangling pointers, which nothing reads.\<close>

definition hdelete_slot :: "hsearch_data \<Rightarrow> nat \<Rightarrow> hsearch_data" where
  "hdelete_slot htab idx =
     htab\<lparr>table := (table htab)[idx := \<lparr>used = USED_DELETED, entry = (entry (table htab ! idx))\<lparr>e_flags := 0\<rparr>\<rparr>],
       filled := filled htab - 1\<rparr>"

text \<open>The part of \<open>hsearch_r\<close> after the search, entered when the key was not found.\<close>

definition hsearch_new ::
  "henv \<Rightarrow> cstring \<Rightarrow> cstring option \<Rightarrow> env_action \<Rightarrow> hsearch_data \<Rightarrow> int \<Rightarrow> int \<Rightarrow> nat \<Rightarrow> nat \<Rightarrow> nat \<Rightarrow> hresult" where
  "hsearch_new env key data action htab errno flag hval idx0 first_deleted =
     (if action = ENV_ENTER then
        if filled htab = h_size htab then (htab, ENOMEM, 0, None)
        else
          let idx = (if first_deleted \<noteq> 0 then first_deleted else idx0);
              newkey = strdup_of env key;
              newdata = Option.bind data (strdup_of env);
              e0 = (entry (table htab ! idx))\<lparr>e_key := newkey, e_data := newdata\<rparr>;
              htab0 = htab\<lparr>table := (table htab)[idx := \<lparr>used = int hval, entry = e0\<rparr>]\<rparr>
          in if newkey = None \<or> newdata = None then (htab0, ENOMEM, 0, None)
             else
               let e = entry_init env e0;
                   htab1 = (set_entry htab0 idx e)\<lparr>filled := filled htab + 1\<rparr>
               in if change_denied htab1 e data env_op_create flag then (hdelete_slot htab1 idx, EPERM, 0, None)
                  else if do_callback env e key data env_op_create flag \<noteq> 0
                    then (hdelete_slot htab1 idx, EINVAL, 0, None)
                  else (htab1, errno, 1, Some idx)
      else (htab, ESRCH, 0, None))"

definition hsearch_r ::
  "henv \<Rightarrow> cstring \<Rightarrow> cstring option \<Rightarrow> env_action \<Rightarrow> hsearch_data \<Rightarrow> int \<Rightarrow> int \<Rightarrow> hresult option" where
  "hsearch_r env key data action htab errno flag =
     (let hval = first_hash (char_val env) (h_size htab) key
      in if used (table htab ! hval) \<noteq> 0 then
           let first_deleted = (if used (table htab ! hval) = USED_DELETED then hval else 0);
               r = compare_and_overwrite_entry env key data action htab errno flag hval hval
           in if fst (snd (snd r)) \<noteq> - 1 then Some r
              else
                map_option (\<lambda>x. case x of
                    Inl r \<Rightarrow> r
                  | Inr (idx, first_deleted) \<Rightarrow>
                      hsearch_new env key data action htab errno flag hval idx first_deleted)
                  (hsearch_loop (h_size htab) env key data action htab errno flag hval hval first_deleted)
         else Some (hsearch_new env key data action htab errno flag hval hval 0))"

subsection \<open>Deleting and walking\<close>

definition hdelete_r :: "henv \<Rightarrow> cstring \<Rightarrow> hsearch_data \<Rightarrow> int \<Rightarrow> int \<Rightarrow> (hsearch_data \<times> int \<times> int) option" where
  "hdelete_r env key htab errno flag =
     map_option (\<lambda>(h, errno', idx, ep).
       if idx = 0 then (h, ESRCH, - ENOENT)
       else
         let e = entry (table h ! the ep)
         in if change_denied h e None env_op_delete flag then (h, EPERM, - EPERM)
            else if do_callback env e key None env_op_delete flag \<noteq> 0 then (h, EINVAL, - EINVAL)
            else (hdelete_slot h (the ep), errno', 0))
       (hsearch_r env key None ENV_FIND htab errno 0)"

text \<open>\<open>hwalk_r\<close>: the callback sees each used entry, and a nonzero result ends the walk.\<close>

fun hwalk_loop :: "(env_entry \<Rightarrow> int) \<Rightarrow> env_entry_node list \<Rightarrow> int" where
  "hwalk_loop callback [] = 0"
| "hwalk_loop callback (nd # nds) =
     (if used nd > 0 then
        let retval = callback (entry nd) in if retval \<noteq> 0 then retval else hwalk_loop callback nds
      else hwalk_loop callback nds)"

definition hwalk_r :: "(env_entry \<Rightarrow> int) \<Rightarrow> hsearch_data \<Rightarrow> int" where
  "hwalk_r callback htab = hwalk_loop callback (take (h_size htab) (tl (table htab)))"

section \<open>The probe sequence\<close>

definition prime_nat :: "nat \<Rightarrow> bool" where
  "prime_nat n \<longleftrightarrow> 1 < n \<and> (\<forall>d. d dvd n \<longrightarrow> d = 1 \<or> d = n)"

text \<open>The slot tried after \<open>j\<close> steps for a key whose first hash is \<open>hval\<close>.\<close>

definition probe_at :: "nat \<Rightarrow> nat \<Rightarrow> nat \<Rightarrow> nat" where
  "probe_at s hval j = (probe_step s (second_hash s hval) ^^ j) hval"

lemma probe_at_0 [simp]: "probe_at s h 0 = h"
  by (simp add: probe_at_def)

lemma probe_at_Suc: "probe_at s h (Suc j) = probe_step s (second_hash s h) (probe_at s h j)"
  by (simp add: probe_at_def)

lemma prime_coprime: "prime_nat s \<Longrightarrow> 0 < a \<Longrightarrow> a < s \<Longrightarrow> coprime s a"
  by (metis coprime_iff_gcd_eq_1 gcd_dvd1 gcd_dvd2 nat_dvd_not_less prime_nat_def)

lemma second_hash_range: "3 \<le> s \<Longrightarrow> 0 < second_hash s h \<and> second_hash s h < s"
proof -
  assume "3 \<le> s"
  then have "h mod (s - 2) < s - 2" by (intro mod_less_divisor) simp
  then show ?thesis by (simp add: second_hash_def)
qed

lemma probe_step_range: "1 \<le> i \<Longrightarrow> i \<le> s \<Longrightarrow> 0 < d \<Longrightarrow> d < s \<Longrightarrow> 1 \<le> probe_step s d i \<and> probe_step s d i \<le> s"
  by (auto simp: probe_step_def)

lemma probe_at_range: "3 \<le> s \<Longrightarrow> 1 \<le> h \<Longrightarrow> h \<le> s \<Longrightarrow> 1 \<le> probe_at s h j \<and> probe_at s h j \<le> s"
  by (induction j) (use probe_step_range second_hash_range in \<open>auto simp: probe_at_Suc\<close>)

lemma probe_step_mod: "d < s \<Longrightarrow> (probe_step s d i + d) mod s = i mod s"
  by (auto simp: probe_step_def)

lemma probe_at_mod: "3 \<le> s \<Longrightarrow> (probe_at s h j + j * second_hash s h) mod s = h mod s"
proof (induction j)
  case (Suc j)
  let ?d = "second_hash s h"
  have "(probe_at s h (Suc j) + Suc j * ?d) mod s = ((probe_step s ?d (probe_at s h j) + ?d) mod s + j * ?d) mod s"
    by (simp add: probe_at_Suc mod_add_left_eq add.assoc)
  also have "\<dots> = (probe_at s h j + j * ?d) mod s"
    using second_hash_range [OF Suc.prems, of h] by (simp add: probe_step_mod mod_add_left_eq)
  finally show ?case using Suc by simp
qed simp

lemma mod_range_inj: "1 \<le> x \<Longrightarrow> x \<le> s \<Longrightarrow> 1 \<le> y \<Longrightarrow> y \<le> s \<Longrightarrow> x mod s = y mod s \<Longrightarrow> x = (y :: nat)"
  by (metis le_neq_implies_less mod_less mod_self not_one_le_zero)

lemma probe_at_inj:
  assumes "prime_nat s" "3 \<le> s" "i \<le> j" "j < s" "probe_at s h i = probe_at s h j"
  shows "i = j"
proof -
  let ?d = "second_hash s h"
  have "(probe_at s h i + i * ?d) mod s = (probe_at s h i + j * ?d) mod s"
    using probe_at_mod [OF assms(2), of h i] probe_at_mod [OF assms(2), of h j] assms(5) by simp
  then have "s dvd (probe_at s h i + j * ?d) - (probe_at s h i + i * ?d)"
    using assms(3) by (metis add_le_mono1 mod_eq_dvd_iff_nat mult_le_mono1 nat_add_left_cancel_le)
  then have "s dvd (j - i) * ?d" by (simp add: diff_mult_distrib)
  then have "s dvd j - i"
    using prime_coprime [OF assms(1), of ?d] second_hash_range [OF assms(2), of h]
    by (simp add: coprime_dvd_mult_left_iff)
  then show ?thesis using assms(3,4) using dvd_imp_le [of s "j - i"] by (cases "i = j") auto
qed

lemma probe_at_period: "3 \<le> s \<Longrightarrow> 1 \<le> h \<Longrightarrow> h \<le> s \<Longrightarrow> probe_at s h s = h"
proof -
  assume a: "3 \<le> s" "1 \<le> h" "h \<le> s"
  have eq: "probe_at s h s mod s = h mod s" using probe_at_mod [OF a(1), of h s] by simp
  have range: "1 \<le> probe_at s h s" "probe_at s h s \<le> s" using probe_at_range [OF a, of s] by blast+
  show ?thesis by (rule mod_range_inj [OF range a(2,3) eq])
qed

lemma probe_at_surj:
  assumes "prime_nat s" "3 \<le> s" "1 \<le> h" "h \<le> s" "1 \<le> i" "i \<le> s"
  shows "\<exists>j < s. probe_at s h j = i"
proof -
  have "inj_on (probe_at s h) {..<s}"
    using probe_at_inj [OF assms(1,2)] by (intro inj_onI) (metis lessThan_iff nat_le_linear)
  then have "card (probe_at s h ` {..<s}) = card {1..s}" by (simp add: card_image)
  moreover have "probe_at s h ` {..<s} \<subseteq> {1..s}" using probe_at_range assms by auto
  ultimately have "probe_at s h ` {..<s} = {1..s}" by (intro card_subset_eq) auto
  then show ?thesis using assms(5,6) by (metis atLeastAtMost_iff imageE lessThan_iff)
qed

lemma probe_at_first: "prime_nat s \<Longrightarrow> 3 \<le> s \<Longrightarrow> 0 < j \<Longrightarrow> j < s \<Longrightarrow> probe_at s h j \<noteq> h"
  using probe_at_inj [of s 0 j h] by auto

section \<open>The invariant\<close>

text \<open>
  \<open>u\<close> and \<open>k\<close> give the \<open>used\<close> field and the key of each slot, \<open>H\<close> the first hash of a key. Every used
  slot stores the hash of its key, no slot before it on the probe sequence of its key was ever
  free since, and no key is stored twice.
\<close>

definition wf_slots :: "(cstring \<Rightarrow> nat) \<Rightarrow> nat \<Rightarrow> (nat \<Rightarrow> int) \<Rightarrow> (nat \<Rightarrow> cstring option) \<Rightarrow> bool" where
  "wf_slots H s u k \<longleftrightarrow>
     (\<forall>i \<in> {1..s}. - 1 \<le> u i) \<and>
     (\<forall>i \<in> {1..s}. 0 < u i \<longrightarrow>
        (\<exists>key j. k i = Some key \<and> u i = int (H key) \<and> j < s \<and> i = probe_at s (H key) j \<and>
           (\<forall>j' < j. u (probe_at s (H key) j') \<noteq> 0))) \<and>
     (\<forall>i \<in> {1..s}. \<forall>j \<in> {1..s}. 0 < u i \<longrightarrow> 0 < u j \<longrightarrow> k i = k j \<longrightarrow> i = j)"

lemma wf_slotsD:
  assumes "wf_slots H s u k" "i \<in> {1..s}" "0 < u i"
  obtains key j where "k i = Some key" "u i = int (H key)" "j < s" "i = probe_at s (H key) j"
    "\<forall>j' < j. u (probe_at s (H key) j') \<noteq> 0"
  using assms unfolding wf_slots_def by blast

lemma wf_slots_unique:
  "wf_slots H s u k \<Longrightarrow> i \<in> {1..s} \<Longrightarrow> j \<in> {1..s} \<Longrightarrow> 0 < u i \<Longrightarrow> 0 < u j \<Longrightarrow> k i = k j \<Longrightarrow> i = j"
  unfolding wf_slots_def by blast

lemma wf_slots_insert:
  assumes "wf_slots H s u k" "i = probe_at s (H key) j" "j < s" "\<forall>j' < j. u (probe_at s (H key) j') \<noteq> 0"
    "\<forall>i' \<in> {1..s}. 0 < u i' \<longrightarrow> k i' \<noteq> Some key" "u i \<le> 0" "0 < H key"
  shows "wf_slots H s (u(i := int (H key))) (k(i := Some key))"
  unfolding wf_slots_def
proof (intro conjI ballI impI)
  fix x assume x: "x \<in> {1..s}"
  then show "- 1 \<le> (u(i := int (H key))) x" using assms(1) by (auto simp: wf_slots_def)
  assume pos: "0 < (u(i := int (H key))) x"
  show "\<exists>y l. (k(i := Some key)) x = Some y \<and> (u(i := int (H key))) x = int (H y) \<and> l < s \<and>
      x = probe_at s (H y) l \<and> (\<forall>l' < l. (u(i := int (H key))) (probe_at s (H y) l') \<noteq> 0)"
  proof (cases "x = i")
    case True
    then show ?thesis using assms(2,3,4,7) by (intro exI [of _ key] exI [of _ j]) auto
  next
    case False
    then obtain y l where "k x = Some y" "u x = int (H y)" "l < s" "x = probe_at s (H y) l"
      "\<forall>l' < l. u (probe_at s (H y) l') \<noteq> 0"
      using wf_slotsD [OF assms(1) x] pos by auto
    then show ?thesis using False assms(7) by (intro exI [of _ y] exI [of _ l]) auto
  qed
next
  fix x y assume xy: "x \<in> {1..s}" "y \<in> {1..s}" "0 < (u(i := int (H key))) x" "0 < (u(i := int (H key))) y"
    "(k(i := Some key)) x = (k(i := Some key)) y"
  have "x = y" if "x \<noteq> i" "y \<noteq> i" using that xy wf_slots_unique [OF assms(1), of x y] by simp
  moreover have "k x \<noteq> Some key" if "x \<noteq> i" using that xy(1,3) assms(5) by auto
  moreover have "k y \<noteq> Some key" if "y \<noteq> i" using that xy(2,4) assms(5) by auto
  ultimately show "x = y" using xy(5) by (cases "x = i"; cases "y = i") auto
qed

lemma wf_slots_delete:
  assumes "wf_slots H s u k" shows "wf_slots H s (u(i := - 1)) (k(i := v))"
  unfolding wf_slots_def
proof (intro conjI ballI impI)
  fix x assume x: "x \<in> {1..s}"
  then show "- 1 \<le> (u(i := - 1)) x" using assms by (auto simp: wf_slots_def)
  assume pos: "0 < (u(i := - 1)) x"
  then have "x \<noteq> i" by auto
  then obtain y l where "k x = Some y" "u x = int (H y)" "l < s" "x = probe_at s (H y) l"
    "\<forall>l' < l. u (probe_at s (H y) l') \<noteq> 0"
    using wf_slotsD [OF assms x] pos by auto
  then show "\<exists>y l. (k(i := v)) x = Some y \<and> (u(i := - 1)) x = int (H y) \<and> l < s \<and>
      x = probe_at s (H y) l \<and> (\<forall>l' < l. (u(i := - 1)) (probe_at s (H y) l') \<noteq> 0)"
    using \<open>x \<noteq> i\<close> by (intro exI [of _ y] exI [of _ l]) auto
next
  fix x y assume xy: "x \<in> {1..s}" "y \<in> {1..s}" "0 < (u(i := - 1)) x" "0 < (u(i := - 1)) y" "(k(i := v)) x = (k(i := v)) y"
  then have "x \<noteq> i" "y \<noteq> i" by auto
  then show "x = y" using xy wf_slots_unique [OF assms, of x y] by simp
qed

section \<open>The search\<close>

abbreviation slot_used :: "hsearch_data \<Rightarrow> nat \<Rightarrow> int" where
  "slot_used htab i \<equiv> used (table htab ! i)"

abbreviation slot_key :: "hsearch_data \<Rightarrow> nat \<Rightarrow> cstring option" where
  "slot_key htab i \<equiv> e_key (entry (table htab ! i))"

abbreviation slot_data :: "hsearch_data \<Rightarrow> nat \<Rightarrow> cstring option" where
  "slot_data htab i \<equiv> e_data (entry (table htab ! i))"

text \<open>The slot holds the key that hashes to \<open>hval\<close>.\<close>

definition slot_matches :: "hsearch_data \<Rightarrow> nat \<Rightarrow> cstring \<Rightarrow> nat \<Rightarrow> bool" where
  "slot_matches htab hval key i \<longleftrightarrow> slot_used htab i = int hval \<and> slot_key htab i = Some key"

lemma compare_ret:
  "fst (snd (snd (compare_and_overwrite_entry env key data action htab errno flag hval i))) \<noteq> - 1 \<longleftrightarrow>
     slot_matches htab hval key i"
  by (auto simp: compare_and_overwrite_entry_def slot_matches_def Let_def)

lemma hsearch_loop_Suc:
  "hsearch_loop (Suc n) env key data action htab errno flag hval (probe_at (h_size htab) hval j) fd =
     (let idx = probe_at (h_size htab) hval (Suc j)
      in if idx = hval then Some (Inr (idx, fd))
         else if slot_matches htab hval key idx
           then Some (Inl (compare_and_overwrite_entry env key data action htab errno flag hval idx))
         else
           let fd' = (if slot_used htab idx = - 1 \<and> fd = 0 then idx else fd)
           in if slot_used htab idx \<noteq> 0 then hsearch_loop n env key data action htab errno flag hval idx fd'
              else Some (Inr (idx, fd')))"
  by (simp add: Let_def compare_ret flip: probe_at_Suc)

lemma hsearch_loop_total:
  assumes "3 \<le> h_size htab" "1 \<le> hval" "hval \<le> h_size htab" "n = h_size htab - j" "j < h_size htab"
  shows "hsearch_loop n env key data action htab errno flag hval (probe_at (h_size htab) hval j) fd \<noteq> None"
  using assms(4,5)
proof (induction n arbitrary: j fd)
  case (Suc n)
  show ?case
  proof (cases "Suc j = h_size htab")
    case True
    then show ?thesis using probe_at_period [OF assms(1-3)] by (simp only: hsearch_loop_Suc Let_def) simp
  next
    case False
    then have "n = h_size htab - Suc j" "Suc j < h_size htab" using Suc.prems by auto
    note ih = Suc.IH [OF this]
    then show ?thesis unfolding hsearch_loop_Suc Let_def by (simp del: not_None_eq)
  qed
qed auto

text \<open>
  After the loop, the slots passed since step \<open>j\<close> hold other keys or are deleted, and it ended at a
  free slot or after all slots. The second component is the first deleted slot that was passed.
\<close>

definition loop_left :: "hsearch_data \<Rightarrow> nat \<Rightarrow> cstring \<Rightarrow> nat \<Rightarrow> nat \<Rightarrow> nat \<Rightarrow> nat \<Rightarrow> bool" where
  "loop_left htab hval key j fd idx fd' \<longleftrightarrow>
     (\<exists>J. j < J \<and> J \<le> h_size htab \<and> idx = probe_at (h_size htab) hval J \<and>
        (\<forall>i. j < i \<and> i < J \<longrightarrow> \<not> slot_matches htab hval key (probe_at (h_size htab) hval i) \<and>
           slot_used htab (probe_at (h_size htab) hval i) \<noteq> 0) \<and>
        (J = h_size htab \<or> slot_used htab idx = 0) \<and>
        (if fd \<noteq> 0 then fd' = fd
         else fd' = 0 \<and> (\<forall>i. j < i \<and> i < J \<longrightarrow> slot_used htab (probe_at (h_size htab) hval i) \<noteq> - 1) \<or>
           (\<exists>i. j < i \<and> i < J \<and> fd' = probe_at (h_size htab) hval i \<and> slot_used htab fd' = - 1)))"

lemma loop_left_step:
  assumes "loop_left htab hval key (Suc j) fd1 idx fd'" "i = probe_at (h_size htab) hval (Suc j)"
    "\<not> slot_matches htab hval key i" "slot_used htab i \<noteq> 0"
    "fd1 = (if slot_used htab i = - 1 \<and> fd = 0 then i else fd)" "i \<noteq> 0"
  shows "loop_left htab hval key j fd idx fd'"
proof -
  obtain J where J: "Suc j < J" "J \<le> h_size htab" "idx = probe_at (h_size htab) hval J"
    "\<forall>i. Suc j < i \<and> i < J \<longrightarrow> \<not> slot_matches htab hval key (probe_at (h_size htab) hval i) \<and>
       slot_used htab (probe_at (h_size htab) hval i) \<noteq> 0"
    "J = h_size htab \<or> slot_used htab idx = 0"
    and fd: "if fd1 \<noteq> 0 then fd' = fd1
      else fd' = 0 \<and> (\<forall>i. Suc j < i \<and> i < J \<longrightarrow> slot_used htab (probe_at (h_size htab) hval i) \<noteq> - 1) \<or>
        (\<exists>i. Suc j < i \<and> i < J \<and> fd' = probe_at (h_size htab) hval i \<and> slot_used htab fd' = - 1)"
    using assms(1) unfolding loop_left_def by blast
  have split: "j < x \<and> x < J \<longleftrightarrow> x = Suc j \<or> Suc j < x \<and> x < J" for x using J(1) by auto
  have "\<forall>i. j < i \<and> i < J \<longrightarrow> \<not> slot_matches htab hval key (probe_at (h_size htab) hval i) \<and>
       slot_used htab (probe_at (h_size htab) hval i) \<noteq> 0"
    using J(4) assms(2-4) by (auto simp: split)
  moreover have "if fd \<noteq> 0 then fd' = fd
    else fd' = 0 \<and> (\<forall>i. j < i \<and> i < J \<longrightarrow> slot_used htab (probe_at (h_size htab) hval i) \<noteq> - 1) \<or>
      (\<exists>i. j < i \<and> i < J \<and> fd' = probe_at (h_size htab) hval i \<and> slot_used htab fd' = - 1)"
  proof (cases "fd \<noteq> 0 \<or> slot_used htab i \<noteq> - 1")
    case True
    then have "fd1 = fd" using assms(5) by auto
    then show ?thesis using fd True assms(2) unfolding split by (cases "fd = 0") (auto, (metis Suc_lessD)+)
  next
    case False
    then have "fd' = i" "fd = 0" using fd assms(5,6) by auto
    then show ?thesis using False assms(2) J(1) by auto
  qed
  ultimately show ?thesis
    unfolding loop_left_def using J by (intro exI [of _ J]) auto
qed

lemma hsearch_loop_spec:
  assumes "prime_nat (h_size htab)" "3 \<le> h_size htab" "1 \<le> hval" "hval \<le> h_size htab"
    "n = h_size htab - j" "j < h_size htab"
  shows "(\<exists>i. j < i \<and> i < h_size htab \<and> slot_matches htab hval key (probe_at (h_size htab) hval i) \<and>
      hsearch_loop n env key data action htab errno flag hval (probe_at (h_size htab) hval j) fd =
        Some (Inl (compare_and_overwrite_entry env key data action htab errno flag hval (probe_at (h_size htab) hval i)))) \<or>
    (\<exists>idx fd'. loop_left htab hval key j fd idx fd' \<and>
      hsearch_loop n env key data action htab errno flag hval (probe_at (h_size htab) hval j) fd = Some (Inr (idx, fd')))"
  using assms(5,6)
proof (induction n arbitrary: j fd)
  case (Suc n)
  let ?s = "h_size htab" and ?i = "probe_at (h_size htab) hval (Suc j)"
  let ?fd = "if slot_used htab ?i = - 1 \<and> fd = 0 then ?i else fd"
  have i0: "?i \<noteq> 0" using probe_at_range [OF assms(2-4), of "Suc j"] by linarith
  consider (all) "Suc j = ?s" | (found) "Suc j < ?s" "slot_matches htab hval key ?i"
    | (free) "Suc j < ?s" "\<not> slot_matches htab hval key ?i" "slot_used htab ?i = 0"
    | (more) "Suc j < ?s" "\<not> slot_matches htab hval key ?i" "slot_used htab ?i \<noteq> 0"
    using Suc.prems by linarith
  then show ?case
  proof cases
    case all
    then have "?i = hval" using probe_at_period [OF assms(2-4)] by simp
    moreover have "loop_left htab hval key j fd ?i fd"
      unfolding loop_left_def using all by (intro exI [of _ "Suc j"]) auto
    ultimately show ?thesis by (auto simp: hsearch_loop_Suc simp del: hsearch_loop.simps)
  next
    case found
    then have "?i \<noteq> hval" using probe_at_first [OF assms(1,2)] by blast
    then show ?thesis
      using found by (intro disjI1 exI [of _ "Suc j"]) (simp add: hsearch_loop_Suc Let_def del: hsearch_loop.simps)
  next
    case free
    then have "?i \<noteq> hval" using probe_at_first [OF assms(1,2)] by blast
    moreover have "loop_left htab hval key j fd ?i fd"
      unfolding loop_left_def using free by (intro exI [of _ "Suc j"]) auto
    ultimately show ?thesis using free by (auto simp: hsearch_loop_Suc Let_def simp del: hsearch_loop.simps)
  next
    case more
    then have ne: "?i \<noteq> hval" using probe_at_first [OF assms(1,2)] by blast
    have run: "hsearch_loop (Suc n) env key data action htab errno flag hval (probe_at ?s hval j) fd =
        hsearch_loop n env key data action htab errno flag hval ?i ?fd"
      unfolding hsearch_loop_Suc Let_def using ne more by simp
    have n: "n = ?s - Suc j" using Suc.prems by simp
    from Suc.IH [OF n more(1), of ?fd] show ?thesis
      unfolding run by (metis Suc_lessD loop_left_step [OF _ refl more(2,3) refl i0])
  qed
qed auto

section \<open>The map a table stores\<close>

definition h_wf :: "(u8 \<Rightarrow> int) \<Rightarrow> hsearch_data \<Rightarrow> bool" where
  "h_wf cval htab \<longleftrightarrow>
     prime_nat (h_size htab) \<and> 3 \<le> h_size htab \<and> length (table htab) = h_size htab + 1 \<and>
     filled htab = card {i \<in> {1..h_size htab}. 0 < slot_used htab i} \<and>
     wf_slots (first_hash cval (h_size htab)) (h_size htab) (slot_used htab) (slot_key htab) \<and>
     (\<forall>i \<in> {1..h_size htab}. 0 < slot_used htab i \<longrightarrow> slot_data htab i \<noteq> None)"

definition hmap :: "hsearch_data \<Rightarrow> cstring \<rightharpoonup> cstring" where
  "hmap htab =
     map_of (map (\<lambda>nd. (the (e_key (entry nd)), the (e_data (entry nd)))) (filter (\<lambda>nd. 0 < used nd) (tl (table htab))))"

text \<open>The map in terms of slots.\<close>

definition holds :: "hsearch_data \<Rightarrow> nat \<Rightarrow> cstring \<Rightarrow> cstring \<Rightarrow> bool" where
  "holds htab i k d \<longleftrightarrow> i \<in> {1..h_size htab} \<and> 0 < slot_used htab i \<and> slot_key htab i = Some k \<and> slot_data htab i = Some d"

lemma h_wfD:
  assumes "h_wf cval htab"
  shows "prime_nat (h_size htab)" "3 \<le> h_size htab" "length (table htab) = h_size htab + 1"
    "filled htab = card {i \<in> {1..h_size htab}. 0 < slot_used htab i}"
    "wf_slots (first_hash cval (h_size htab)) (h_size htab) (slot_used htab) (slot_key htab)"
    "i \<in> {1..h_size htab} \<Longrightarrow> 0 < slot_used htab i \<Longrightarrow> \<exists>k d. slot_key htab i = Some k \<and> slot_data htab i = Some d"
  using assms unfolding h_wf_def by (auto elim: wf_slotsD)

lemma first_hash_range: "2 \<le> s \<Longrightarrow> 1 \<le> first_hash cval s key \<and> first_hash cval s key \<le> s"
  by (auto simp: first_hash_def Let_def)

lemma holds_unique: "h_wf cval htab \<Longrightarrow> holds htab i k d \<Longrightarrow> holds htab j k d' \<Longrightarrow> i = j \<and> d = d'"
  using wf_slots_unique [OF h_wfD(5), of cval htab i j] by (auto simp: holds_def)

lemma holds_same: "holds htab i k d \<Longrightarrow> holds htab i k' d' \<Longrightarrow> k = k' \<and> d = d'"
  by (simp add: holds_def)

lemma hmap_holds:
  assumes "h_wf cval htab"
  shows "hmap htab k = Some d \<longleftrightarrow> (\<exists>i. holds htab i k d)"
proof -
  let ?f = "\<lambda>nd. (the (e_key (entry nd)), the (e_data (entry nd)))" and ?s = "h_size htab"
  let ?L = "filter (\<lambda>nd. 0 < used nd) (tl (table htab))"
  have nd: "nd \<in> set ?L \<longleftrightarrow> (\<exists>i \<in> {1..?s}. nd = table htab ! i \<and> 0 < slot_used htab i)" for nd
    using set_tl_nth [OF h_wfD(3) [OF assms]] by auto
  show ?thesis
  proof
    assume "hmap htab k = Some d"
    then obtain x where "x \<in> set ?L" "?f x = (k, d)" unfolding hmap_def using map_of_SomeD by fastforce
    then obtain i where "i \<in> {1..?s}" "x = table htab ! i" "0 < slot_used htab i" using nd by auto
    then show "\<exists>i. holds htab i k d" using h_wfD(6) [OF assms, of i] \<open>?f x = (k, d)\<close> by (auto simp: holds_def)
  next
    assume "\<exists>i. holds htab i k d"
    then obtain i where i: "holds htab i k d" by blast
    then have "table htab ! i \<in> set ?L" using nd [of "table htab ! i"] by (auto simp: holds_def)
    then have "k \<in> fst ` set (map ?f ?L)"
      unfolding set_map image_image using i by (intro image_eqI [of _ _ "table htab ! i"]) (auto simp: holds_def)
    then have "k \<in> dom (hmap htab)" unfolding hmap_def dom_map_of_conv_image_fst .
    then obtain d' where d': "hmap htab k = Some d'" by blast
    then obtain x where "x \<in> set ?L" "?f x = (k, d')" unfolding hmap_def using map_of_SomeD by fastforce
    then obtain j where "j \<in> {1..?s}" "x = table htab ! j" "0 < slot_used htab j" using nd by auto
    then have "holds htab j k d'" using h_wfD(6) [OF assms, of j] \<open>?f x = (k, d')\<close> by (auto simp: holds_def)
    then show "hmap htab k = Some d" using holds_unique [OF assms i] d' by blast
  qed
qed

lemma hmap_None: "h_wf cval htab \<Longrightarrow> hmap htab k = None \<longleftrightarrow> (\<forall>i d. \<not> holds htab i k d)"
  by (metis hmap_holds not_None_eq)

lemma hmap_eqI: "h_wf cval htab \<Longrightarrow> (\<And>k d. f k = Some d \<longleftrightarrow> (\<exists>i. holds htab i k d)) \<Longrightarrow> hmap htab = f"
  by (rule ext) (metis hmap_holds not_None_eq)

section \<open>Finding, entering and deleting\<close>

lemma matches_holds:
  "h_wf cval htab \<Longrightarrow> i \<in> {1..h_size htab} \<Longrightarrow> 1 \<le> hval \<Longrightarrow> slot_matches htab hval key i \<Longrightarrow> \<exists>d. holds htab i key d"
  using h_wfD(6) [of cval htab i] by (auto simp: slot_matches_def holds_def)

lemma probes_absent:
  fixes htab key cval
  defines "hval \<equiv> first_hash cval (h_size htab) key" and "s \<equiv> h_size htab"
  assumes "h_wf cval htab" "J \<le> s"
    "\<forall>i < J. \<not> slot_matches htab hval key (probe_at s hval i) \<and> slot_used htab (probe_at s hval i) \<noteq> 0"
    "J = s \<or> slot_used htab (probe_at s hval J) = 0"
  shows "\<not> holds htab i key d"
proof
  assume h: "holds htab i key d"
  then have i: "i \<in> {1..s}" "0 < slot_used htab i" by (auto simp: holds_def s_def)
  from wf_slotsD [OF h_wfD(5) [OF assms(3)], folded s_def, OF this] obtain key' j
    where k: "slot_key htab i = Some key'" "slot_used htab i = int (first_hash cval s key')" "j < s"
      "i = probe_at s (first_hash cval s key') j"
      "\<forall>j' < j. slot_used htab (probe_at s (first_hash cval s key') j') \<noteq> 0" by metis
  then have "key' = key" using h by (simp add: holds_def)
  then have m: "slot_matches htab hval key (probe_at s hval j)" and j: "\<forall>j' < j. slot_used htab (probe_at s hval j') \<noteq> 0"
    using k by (auto simp: slot_matches_def hval_def s_def)
  have "\<not> j < J" using m assms(5) by blast
  then show False using assms(6) j k(3) m i(2) k(4) \<open>key' = key\<close>
    by (metis hval_def le_neq_implies_less less_irrefl linorder_not_less s_def)
qed

lemma all_used_filled:
  "h_wf cval htab \<Longrightarrow> \<forall>i \<in> {1..h_size htab}. 0 < slot_used htab i \<Longrightarrow> filled htab = h_size htab"
proof -
  assume a: "h_wf cval htab" "\<forall>i \<in> {1..h_size htab}. 0 < slot_used htab i"
  then have "{i \<in> {1..h_size htab}. 0 < slot_used htab i} = {1..h_size htab}" by auto
  then show ?thesis using h_wfD(4) [OF a(1)] by simp
qed

lemma loop_left_absent:
  fixes htab key cval
  defines "hval \<equiv> first_hash cval (h_size htab) key"
  assumes "h_wf cval htab" "loop_left htab hval key 0 fd0 idx fd" "slot_used htab hval \<noteq> 0"
    "\<not> slot_matches htab hval key hval"
  shows "\<not> holds htab i key d"
proof -
  obtain J where J: "0 < J" "J \<le> h_size htab" "idx = probe_at (h_size htab) hval J"
    "\<forall>i. 0 < i \<and> i < J \<longrightarrow> \<not> slot_matches htab hval key (probe_at (h_size htab) hval i) \<and>
       slot_used htab (probe_at (h_size htab) hval i) \<noteq> 0"
    "J = h_size htab \<or> slot_used htab idx = 0"
    using assms(3) unfolding loop_left_def by blast
  have "\<forall>i < J. \<not> slot_matches htab hval key (probe_at (h_size htab) hval i) \<and>
       slot_used htab (probe_at (h_size htab) hval i) \<noteq> 0"
    using J(4) assms(4,5) by (metis gr0I probe_at_0)
  then show ?thesis
    using probes_absent [OF assms(2) J(2), of key i d] J(3,5) unfolding hval_def by blast
qed

lemma loop_left_slot:
  fixes htab key cval
  defines "hval \<equiv> first_hash cval (h_size htab) key" and "s \<equiv> h_size htab"
  assumes "h_wf cval htab" "loop_left htab hval key 0 fd0 idx fd" "slot_used htab hval \<noteq> 0"
    "fd0 = (if slot_used htab hval = - 1 then hval else 0)" "filled htab \<noteq> s"
  shows "\<exists>j < s. (if fd \<noteq> 0 then fd else idx) = probe_at s hval j \<and>
    slot_used htab (probe_at s hval j) \<le> 0 \<and> (\<forall>j' < j. slot_used htab (probe_at s hval j') \<noteq> 0)"
proof -
  have s3: "3 \<le> s" "prime_nat s" and h: "1 \<le> hval" "hval \<le> s"
    using h_wfD(1,2) [OF assms(3)] first_hash_range [of s] by (auto simp: hval_def s_def)
  obtain J where J: "0 < J" "J \<le> s" "idx = probe_at s hval J"
    "\<forall>i. 0 < i \<and> i < J \<longrightarrow> slot_used htab (probe_at s hval i) \<noteq> 0" "J = s \<or> slot_used htab idx = 0"
    and fd: "if fd0 \<noteq> 0 then fd = fd0
      else fd = 0 \<and> (\<forall>i. 0 < i \<and> i < J \<longrightarrow> slot_used htab (probe_at s hval i) \<noteq> - 1) \<or>
        (\<exists>i. 0 < i \<and> i < J \<and> fd = probe_at s hval i \<and> slot_used htab fd = - 1)"
    using assms(4) unfolding loop_left_def s_def by blast
  have busy: "\<forall>i < J. slot_used htab (probe_at s hval i) \<noteq> 0" using J(4) assms(5) by (metis gr0I probe_at_0)
  consider (first) "fd0 \<noteq> 0" | (later) i where "fd0 = 0" "0 < i" "i < J" "fd = probe_at s hval i" "slot_used htab fd = - 1"
    | (none) "fd0 = 0" "fd = 0" "\<forall>i. 0 < i \<and> i < J \<longrightarrow> slot_used htab (probe_at s hval i) \<noteq> - 1"
    using fd by (cases "fd0 = 0") auto
  then show ?thesis
  proof cases
    case first
    then have "slot_used htab hval = - 1" "fd = hval" using assms(6) fd by (auto split: if_splits)
    then show ?thesis using h s3 by (intro exI [of _ 0]) auto
  next
    case later
    then have "fd \<noteq> 0" using probe_at_range [OF s3(1) h, of i] by auto
    then show ?thesis using later J(2) busy by (intro exI [of _ i]) auto
  next
    case none
    then have ndel: "slot_used htab hval \<noteq> - 1" using assms(6) h by (auto split: if_splits)
    have "J \<noteq> s"
    proof
      assume "J = s"
      have "0 < slot_used htab x" if x: "x \<in> {1..s}" for x
      proof -
        obtain j where j: "j < s" "probe_at s hval j = x" using probe_at_surj [OF s3(2,1) h, of x] x by auto
        have "slot_used htab x \<noteq> 0" "slot_used htab x \<noteq> - 1" using busy none(3) ndel j \<open>J = s\<close> by (metis gr0I probe_at_0)+
        moreover have "- 1 \<le> slot_used htab x" using h_wfD(5) [OF assms(3)] x by (auto simp: wf_slots_def s_def)
        ultimately show ?thesis by linarith
      qed
      then show False using all_used_filled [OF assms(3)] assms(7) by (simp add: s_def)
    qed
    then show ?thesis using J none busy by (intro exI [of _ J]) auto
  qed
qed

text \<open>What a search finds: the slot that holds the key, or, if none does, where it may be entered.\<close>

lemma hsearch_outcome:
  fixes env htab key
  defines "hval \<equiv> first_hash (char_val env) (h_size htab) key" and "s \<equiv> h_size htab"
  assumes "h_wf (char_val env) htab"
  shows "(\<exists>i d. holds htab i key d \<and> slot_matches htab hval key i \<and>
      hsearch_r env key data action htab errno flag =
        Some (compare_and_overwrite_entry env key data action htab errno flag hval i)) \<or>
    (\<forall>i d. \<not> holds htab i key d) \<and>
    (\<exists>idx fd. hsearch_r env key data action htab errno flag =
        Some (hsearch_new env key data action htab errno flag hval idx fd) \<and>
      (filled htab \<noteq> s \<longrightarrow> (\<exists>j < s. (if fd \<noteq> 0 then fd else idx) = probe_at s hval j \<and>
         slot_used htab (probe_at s hval j) \<le> 0 \<and> (\<forall>j' < j. slot_used htab (probe_at s hval j') \<noteq> 0))))"
proof -
  have s3: "3 \<le> s" "prime_nat s" and h: "1 \<le> hval" "hval \<le> s"
    using h_wfD(1,2) [OF assms(3)] first_hash_range [of s] by (auto simp: hval_def s_def)
  note range = probe_at_range [OF s3(1) h]
  define fd0 where "fd0 = (if slot_used htab hval = - 1 then hval else 0)"
  let ?cmp = "\<lambda>i. compare_and_overwrite_entry env key data action htab errno flag hval i"
  have found: ?thesis if "i < s" "slot_matches htab hval key (probe_at s hval i)"
    "hsearch_r env key data action htab errno flag = Some (?cmp (probe_at s hval i))" for i
    using that matches_holds [OF assms(3) _ h(1) that(2)] range [of i] by (auto simp: s_def)
  consider (free) "slot_used htab hval = 0" | (hit) "slot_used htab hval \<noteq> 0" "slot_matches htab hval key hval"
    | (miss) "slot_used htab hval \<noteq> 0" "\<not> slot_matches htab hval key hval" by blast
  then show ?thesis
  proof cases
    case free
    then have "\<not> holds htab i key d" for i d
      using probes_absent [OF assms(3), of 0 key i d] by (simp add: hval_def)
    moreover have "hsearch_r env key data action htab errno flag = Some (hsearch_new env key data action htab errno flag hval hval 0)"
      using free by (simp add: hsearch_r_def hval_def Let_def)
    ultimately have "(\<forall>i d. \<not> holds htab i key d) \<and>
        hsearch_r env key data action htab errno flag = Some (hsearch_new env key data action htab errno flag hval hval 0) \<and>
        0 < s \<and> (if (0::nat) \<noteq> 0 then 0 else hval) = probe_at s hval 0 \<and> slot_used htab (probe_at s hval 0) \<le> 0"
      using free s3(1) by simp
    then show ?thesis by blast
  next
    case hit
    then have "hsearch_r env key data action htab errno flag = Some (?cmp hval)"
      unfolding hsearch_r_def Let_def hval_def [symmetric] compare_ret by simp
    then show ?thesis using found [of 0] hit(2) s3(1) by simp
  next
    case miss
    then have run: "hsearch_r env key data action htab errno flag = map_option (\<lambda>x. case x of Inl r \<Rightarrow> r
        | Inr (idx, fd) \<Rightarrow> hsearch_new env key data action htab errno flag hval idx fd)
      (hsearch_loop s env key data action htab errno flag hval (probe_at s hval 0) fd0)"
      unfolding hsearch_r_def Let_def hval_def [symmetric] compare_ret by (simp add: fd0_def s_def)
    have len: "s = h_size htab - 0" "0 < h_size htab" using s3(1) by (auto simp: s_def)
    from hsearch_loop_spec [OF s3(2) [unfolded s_def] s3(1) [unfolded s_def] h(1) h(2) [unfolded s_def] len,
        of key env data action errno flag fd0, folded s_def]
    show ?thesis
    proof (elim disjE exE conjE)
      fix i assume "i < s" "slot_matches htab hval key (probe_at s hval i)"
        "hsearch_loop s env key data action htab errno flag hval (probe_at s hval 0) fd0 = Some (Inl (?cmp (probe_at s hval i)))"
      then show ?thesis using found [of i] run by simp
    next
      fix idx fd assume left: "loop_left htab hval key 0 fd0 idx fd"
        and "hsearch_loop s env key data action htab errno flag hval (probe_at s hval 0) fd0 = Some (Inr (idx, fd))"
      then have "hsearch_r env key data action htab errno flag = Some (hsearch_new env key data action htab errno flag hval idx fd)"
        using run by simp
      moreover have "\<forall>i d. \<not> holds htab i key d"
        using loop_left_absent [OF assms(3), of key fd0 idx fd, folded hval_def] left miss by blast
      moreover note loop_left_slot [OF assms(3), of key fd0 idx fd, folded hval_def s_def, OF left miss(1) fd0_def]
      ultimately show ?thesis by blast
    qed
  qed
qed

text \<open>How the slots change when one is written.\<close>

lemma slot_upd:
  assumes "i < length (table htab)"
  shows "slot_used (htab\<lparr>table := (table htab)[i := nd], filled := n\<rparr>) = (slot_used htab)(i := used nd)"
    "slot_key (htab\<lparr>table := (table htab)[i := nd], filled := n\<rparr>) = (slot_key htab)(i := e_key (entry nd))"
    "slot_data (htab\<lparr>table := (table htab)[i := nd], filled := n\<rparr>) = (slot_data htab)(i := e_data (entry nd))"
  using assms by (auto simp: nth_list_update)

lemma used_upd:
  "i \<in> {1..s} \<Longrightarrow> {j \<in> {1..s}. 0 < (u(i := v)) j} =
     (if 0 < (v :: int) then insert i {j \<in> {1..s}. 0 < u j} else {j \<in> {1..s}. 0 < u j} - {i})"
  by auto

lemma insert_slot:
  fixes cval htab key i nd
  defines "hval \<equiv> first_hash cval (h_size htab) key" and "s \<equiv> h_size htab"
    and "htab' \<equiv> htab\<lparr>table := (table htab)[i := nd], filled := filled htab + 1\<rparr>"
  assumes wf: "h_wf cval htab" and "j < s" "i = probe_at s hval j" "slot_used htab i \<le> 0"
    "\<forall>j' < j. slot_used htab (probe_at s hval j') \<noteq> 0" "\<forall>i d. \<not> holds htab i key d"
    "used nd = int hval" "e_key (entry nd) = Some key" "e_data (entry nd) = Some d"
  shows "h_wf cval htab' \<and> hmap htab' = (hmap htab)(key \<mapsto> d)"
proof -
  have h: "1 \<le> hval" "hval \<le> s" "3 \<le> s"
    using h_wfD(2) [OF wf] first_hash_range [of s] by (auto simp: hval_def s_def)
  have i: "i \<in> {1..s}" "i < length (table htab)"
    using probe_at_range [OF h(3,1,2), of j] assms(6) h_wfD(3) [OF wf] by (auto simp: s_def)
  note upd = slot_upd [OF i(2), where nd = nd and n = "filled htab + 1", folded htab'_def]
  note at = upd [THEN fun_cong]
  have size: "h_size htab' = s" by (simp add: htab'_def s_def)
  have absent: "\<forall>x \<in> {1..s}. 0 < slot_used htab x \<longrightarrow> slot_key htab x \<noteq> Some key"
    using assms(9) h_wfD(6) [OF wf] by (fastforce simp: holds_def s_def)
  have slots: "wf_slots (first_hash cval s) s (slot_used htab') (slot_key htab')"
    unfolding upd assms(10,11) hval_def
    using wf_slots_insert [OF h_wfD(5) [OF wf], of i key j] assms(5-8) absent h(1) by (simp add: hval_def s_def)
  have "card {x \<in> {1..s}. 0 < slot_used htab' x} = filled htab + 1"
    unfolding at assms(10) used_upd [OF i(1)] using h(1) assms(7) h_wfD(4) [OF wf] by (simp add: s_def)
  moreover have "\<forall>x \<in> {1..s}. 0 < slot_used htab' x \<longrightarrow> slot_data htab' x \<noteq> None"
    unfolding at using h_wfD(6) [OF wf] assms(12) by (fastforce simp: s_def)
  ultimately have wf': "h_wf cval htab'"
    using slots h_wfD(1-3) [OF wf] by (simp add: h_wf_def htab'_def s_def)
  moreover have "((hmap htab)(key \<mapsto> d)) k = Some d' \<longleftrightarrow> (\<exists>x. holds htab' x k d')" for k d'
  proof -
    have "holds htab' x k d' \<longleftrightarrow> (if x = i then k = key \<and> d' = d else holds htab x k d')" for x
      unfolding holds_def at size using i h(1) assms(10-12) by (auto simp: s_def)
    moreover have "\<not> holds htab i k d'" using assms(7) by (simp add: holds_def)
    ultimately show ?thesis
      using hmap_holds [OF wf, of k d'] assms(9) by (cases "k = key") (simp, metis, simp, metis)
  qed
  ultimately show ?thesis using hmap_eqI by blast
qed

lemma delete_slot:
  assumes wf: "h_wf cval htab" and held: "holds htab i key d"
  shows "h_wf cval (hdelete_slot htab i) \<and> hmap (hdelete_slot htab i) = (hmap htab)(key := None)"
proof -
  define s where "s = h_size htab"
  define nd where "nd = \<lparr>used = - 1, entry = (entry (table htab ! i))\<lparr>e_flags := 0\<rparr>\<rparr>"
  define htab' where "htab' = htab\<lparr>table := (table htab)[i := nd], filled := filled htab - 1\<rparr>"
  have i: "i \<in> {1..s}" "i < length (table htab)" "0 < slot_used htab i" "slot_key htab i = Some key"
    using held h_wfD(3) [OF wf] by (auto simp: holds_def s_def)
  note upd = slot_upd [OF i(2), where nd = nd and n = "filled htab - 1", folded htab'_def]
  note at = upd [THEN fun_cong]
  have nd: "used nd = - 1" by (simp add: nd_def)
  have "wf_slots (first_hash cval s) s (slot_used htab') (slot_key htab')"
    unfolding upd nd using wf_slots_delete [OF h_wfD(5) [OF wf]] by (simp add: s_def)
  moreover have "card {x \<in> {1..s}. 0 < slot_used htab' x} = filled htab - 1"
    unfolding at nd used_upd [OF i(1)] using i h_wfD(4) [OF wf] by (simp add: s_def)
  moreover have "\<forall>x \<in> {1..s}. 0 < slot_used htab' x \<longrightarrow> slot_data htab' x \<noteq> None"
    unfolding at nd using h_wfD(6) [OF wf] by (fastforce simp: s_def)
  ultimately have wf': "h_wf cval htab'"
    using h_wfD(1-3) [OF wf] by (simp add: h_wf_def htab'_def s_def)
  moreover have "((hmap htab)(key := None)) k = Some d' \<longleftrightarrow> (\<exists>x. holds htab' x k d')" for k d'
  proof -
    have "holds htab' x k d' \<longleftrightarrow> x \<noteq> i \<and> holds htab x k d'" for x
      unfolding holds_def at nd by (auto simp: htab'_def)
    then show ?thesis
      using hmap_holds [OF wf, of k d'] holds_unique [OF wf held] holds_same [OF held]
      by (cases "k = key") (simp, metis, simp, metis)
  qed
  ultimately have "h_wf cval htab' \<and> hmap htab' = (hmap htab)(key := None)" using hmap_eqI by blast
  then show ?thesis by (simp add: hdelete_slot_def htab'_def nd_def)
qed

lemma overwrite_slot:
  assumes wf: "h_wf cval htab" and held: "holds htab i key d0"
  shows "h_wf cval (set_entry htab i ((entry (table htab ! i))\<lparr>e_data := Some d\<rparr>)) \<and>
    hmap (set_entry htab i ((entry (table htab ! i))\<lparr>e_data := Some d\<rparr>)) = (hmap htab)(key \<mapsto> d)"
proof -
  define s where "s = h_size htab"
  define nd where "nd = (table htab ! i)\<lparr>entry := (entry (table htab ! i))\<lparr>e_data := Some d\<rparr>\<rparr>"
  define htab' where "htab' = htab\<lparr>table := (table htab)[i := nd], filled := filled htab\<rparr>"
  have i: "i \<in> {1..s}" "i < length (table htab)" "0 < slot_used htab i" "slot_key htab i = Some key"
    using held h_wfD(3) [OF wf] by (auto simp: holds_def s_def)
  note upd = slot_upd [OF i(2), where nd = nd and n = "filled htab", folded htab'_def]
  note at = upd [THEN fun_cong]
  have same: "slot_used htab' = slot_used htab" "slot_key htab' = slot_key htab" unfolding upd by (auto simp: nd_def)
  have wf': "h_wf cval htab'"
    using wf unfolding h_wf_def same same [THEN fun_cong] at by (auto simp: htab'_def nd_def)
  moreover have "((hmap htab)(key \<mapsto> d)) k = Some d' \<longleftrightarrow> (\<exists>x. holds htab' x k d')" for k d'
  proof -
    have "holds htab' x k d' \<longleftrightarrow> (if x = i then k = key \<and> d' = d else holds htab x k d')" for x
      unfolding holds_def same [THEN fun_cong] at using i by (auto simp: htab'_def nd_def s_def)
    then show ?thesis
      using hmap_holds [OF wf, of k d'] holds_unique [OF wf held] holds_same [OF held]
      by (cases "k = key") (simp, metis, simp, metis)
  qed
  ultimately have "h_wf cval htab' \<and> hmap htab' = (hmap htab)(key \<mapsto> d)" using hmap_eqI by blast
  then show ?thesis by (simp add: htab'_def nd_def)
qed

text \<open>
  What the table relies on: \<open>strdup\<close> returns a copy and the initialisation of a new entry leaves
  its key and data; the change is approved by \<open>change_ok\<close> and the callbacks.
\<close>

definition env_ok :: "henv \<Rightarrow> bool" where
  "env_ok env \<longleftrightarrow> (\<forall>t. strdup_of env t = Some t) \<and>
     (\<forall>e. e_key (entry_init env e) = e_key e \<and> e_data (entry_init env e) = e_data e)"

definition accepts :: "henv \<Rightarrow> hsearch_data \<Rightarrow> bool" where
  "accepts env htab \<longleftrightarrow>
     (\<forall>e k v op flag. \<not> change_denied htab e v op flag \<and> do_callback env e k v op flag = 0)"

lemma acceptsD:
  "accepts env htab \<Longrightarrow> \<not> change_denied htab e v op flag"
  "accepts env htab \<Longrightarrow> do_callback env e k v op flag = 0"
  by (auto simp: accepts_def)

lemma find_spec:
  assumes "h_wf (char_val env) htab"
  shows "case hmap htab key of
      Some d \<Rightarrow> \<exists>i. holds htab i key d \<and>
        hsearch_r env key data ENV_FIND htab errno flag = Some (htab, errno, int i, Some i)
    | None \<Rightarrow> hsearch_r env key data ENV_FIND htab errno flag = Some (htab, ESRCH, 0, None)"
proof (cases "hmap htab key")
  case None
  then have "\<forall>i d. \<not> holds htab i key d" using hmap_None [OF assms] by blast
  then show ?thesis
    using hsearch_outcome [OF assms, of key data ENV_FIND errno flag] None by (auto simp: hsearch_new_def)
next
  case (Some d)
  then obtain i where i: "holds htab i key d" using hmap_holds [OF assms] by blast
  from hsearch_outcome [OF assms, of key data ENV_FIND errno flag] obtain i' d'
    where h: "holds htab i' key d'" "slot_matches htab (first_hash (char_val env) (h_size htab) key) key i'"
      "hsearch_r env key data ENV_FIND htab errno flag =
        Some (compare_and_overwrite_entry env key data ENV_FIND htab errno flag
          (first_hash (char_val env) (h_size htab) key) i')"
    using i by blast
  then have "hsearch_r env key data ENV_FIND htab errno flag = Some (htab, errno, int i', Some i')"
    by (simp add: compare_and_overwrite_entry_def slot_matches_def Let_def)
  then show ?thesis using Some i holds_unique [OF assms i h(1)] by auto
qed

lemma overwrite_spec:
  assumes "h_wf (char_val env) htab" "env_ok env" "holds htab i key d0" "slot_matches htab hval key i"
    "compare_and_overwrite_entry env key (Some d) ENV_ENTER htab errno flag hval i = (htab', errno', ret, rv)"
  shows "h_wf (char_val env) htab' \<and> h_size htab' = h_size htab \<and> change_ok htab' = change_ok htab \<and>
    (if rv = None then ret = 0 \<and> errno' \<in> {EPERM, EINVAL} \<and> hmap htab' = hmap htab
     else ret = int i \<and> errno' = errno \<and> hmap htab' = (hmap htab)(key \<mapsto> d)) \<and>
    (accepts env htab \<longrightarrow> rv \<noteq> None)"
proof -
  have m: "slot_used htab i = int hval" "slot_key htab i = Some key" using assms(4) by (auto simp: slot_matches_def)
  show ?thesis
    using assms(1,2,5) m overwrite_slot [OF assms(1,3), of d]
    by (auto simp: compare_and_overwrite_entry_def Let_def env_ok_def acceptsD split: if_splits)
qed

lemma create_spec:
  fixes env htab key
  defines "hval \<equiv> first_hash (char_val env) (h_size htab) key"
  assumes "h_wf (char_val env) htab" "env_ok env" "\<forall>i d. \<not> holds htab i key d"
    "filled htab \<noteq> h_size htab \<longrightarrow> (\<exists>j < h_size htab. (if fd \<noteq> 0 then fd else idx) = probe_at (h_size htab) hval j \<and>
       slot_used htab (probe_at (h_size htab) hval j) \<le> 0 \<and>
       (\<forall>j' < j. slot_used htab (probe_at (h_size htab) hval j') \<noteq> 0))"
    "hsearch_new env key (Some d) ENV_ENTER htab errno flag hval idx fd = (htab', errno', ret, rv)"
  shows "h_wf (char_val env) htab' \<and> h_size htab' = h_size htab \<and> change_ok htab' = change_ok htab \<and>
    (if rv = None then ret = 0 \<and> errno' \<in> {EPERM, EINVAL, ENOMEM} \<and> hmap htab' = hmap htab
     else ret = 1 \<and> errno' = errno \<and> hmap htab' = (hmap htab)(key \<mapsto> d)) \<and>
    (accepts env htab \<longrightarrow> filled htab \<noteq> h_size htab \<longrightarrow> rv \<noteq> None)"
proof (cases "filled htab = h_size htab")
  case True
  then show ?thesis using assms(2,6) by (auto simp: hsearch_new_def)
next
  case False
  define i where "i = (if fd \<noteq> 0 then fd else idx)"
  obtain j where j: "j < h_size htab" "i = probe_at (h_size htab) hval j" "slot_used htab i \<le> 0"
    "\<forall>j' < j. slot_used htab (probe_at (h_size htab) hval j') \<noteq> 0"
    using assms(5) False by (auto simp: i_def)
  have "1 \<le> hval" "hval \<le> h_size htab" using first_hash_range h_wfD(2) [OF assms(2)] by (auto simp: hval_def)
  then have i: "i \<in> {1..h_size htab}" "i < length (table htab)"
    using probe_at_range [of "h_size htab" hval j] j(2) h_wfD(2,3) [OF assms(2)] by auto
  define e where "e = entry_init env ((entry (table htab ! i))\<lparr>e_key := Some key, e_data := Some d\<rparr>)"
  define nd where "nd = \<lparr>used = int hval, entry = e\<rparr>"
  define h1 where "h1 = htab\<lparr>table := (table htab)[i := nd], filled := filled htab + 1\<rparr>"
  have nd: "used nd = int hval" "e_key (entry nd) = Some key" "e_data (entry nd) = Some d"
    using assms(3) by (auto simp: nd_def e_def env_ok_def)
  have h1: "h_wf (char_val env) h1 \<and> hmap h1 = (hmap htab)(key \<mapsto> d)"
    using insert_slot [OF assms(2) j(1), of i key nd d] j assms(4) nd by (simp add: h1_def hval_def)
  have "holds h1 i key d"
    using i nd \<open>1 \<le> hval\<close> by (simp add: holds_def h1_def)
  then have del: "h_wf (char_val env) (hdelete_slot h1 i) \<and> hmap (hdelete_slot h1 i) = hmap htab"
    using delete_slot [of "char_val env" h1 i key d] h1 hmap_None [OF assms(2), of key] assms(4) by auto
  have run: "hsearch_new env key (Some d) ENV_ENTER htab errno flag hval idx fd =
      (if change_denied h1 e (Some d) env_op_create flag then (hdelete_slot h1 i, EPERM, 0, None)
       else if do_callback env e key (Some d) env_op_create flag \<noteq> 0 then (hdelete_slot h1 i, EINVAL, 0, None)
       else (h1, errno, 1, Some i))"
    using False assms(3) i(2)
    unfolding hsearch_new_def Let_def i_def [symmetric]
    by (simp add: env_ok_def e_def h1_def nd_def Let_def)
  have denied: "change_denied h1 e (Some d) env_op_create flag = change_denied htab e (Some d) env_op_create flag"
    by (simp add: change_denied_def h1_def)
  show ?thesis
    using assms(6) h1 del denied unfolding run
    by (auto simp: h1_def hdelete_slot_def accepts_def split: if_splits)
qed

lemma enter_spec:
  assumes "h_wf (char_val env) htab" "env_ok env"
  shows "\<exists>htab' errno' ret rv. hsearch_r env key (Some d) ENV_ENTER htab errno flag = Some (htab', errno', ret, rv) \<and>
    h_wf (char_val env) htab' \<and> h_size htab' = h_size htab \<and> change_ok htab' = change_ok htab \<and>
    (if rv = None then ret = 0 \<and> errno' \<in> {EPERM, EINVAL, ENOMEM} \<and> hmap htab' = hmap htab
     else 0 < ret \<and> errno' = errno \<and> hmap htab' = (hmap htab)(key \<mapsto> d)) \<and>
    (accepts env htab \<longrightarrow> key \<in> dom (hmap htab) \<or> filled htab \<noteq> h_size htab \<longrightarrow> rv \<noteq> None)"
proof -
  let ?h = "first_hash (char_val env) (h_size htab) key"
  from hsearch_outcome [OF assms(1), of key "Some d" ENV_ENTER errno flag] show ?thesis
  proof (elim disjE exE conjE)
    fix i d0 assume h: "holds htab i key d0" "slot_matches htab ?h key i"
      and run: "hsearch_r env key (Some d) ENV_ENTER htab errno flag =
        Some (compare_and_overwrite_entry env key (Some d) ENV_ENTER htab errno flag ?h i)"
    obtain htab' errno' ret rv
      where c: "compare_and_overwrite_entry env key (Some d) ENV_ENTER htab errno flag ?h i = (htab', errno', ret, rv)"
      by (metis prod.exhaust)
    have "0 < int i" using h(1) by (simp add: holds_def)
    then show ?thesis using overwrite_spec [OF assms h c] run c by auto
  next
    fix idx fd assume h: "\<forall>i d. \<not> holds htab i key d"
      and slot: "filled htab \<noteq> h_size htab \<longrightarrow> (\<exists>j < h_size htab. (if fd \<noteq> 0 then fd else idx) = probe_at (h_size htab) ?h j \<and>
        slot_used htab (probe_at (h_size htab) ?h j) \<le> 0 \<and> (\<forall>j' < j. slot_used htab (probe_at (h_size htab) ?h j') \<noteq> 0))"
      and run: "hsearch_r env key (Some d) ENV_ENTER htab errno flag =
        Some (hsearch_new env key (Some d) ENV_ENTER htab errno flag ?h idx fd)"
    obtain htab' errno' ret rv
      where c: "hsearch_new env key (Some d) ENV_ENTER htab errno flag ?h idx fd = (htab', errno', ret, rv)"
      by (metis prod.exhaust)
    have "hmap htab key = None" using h hmap_None [OF assms(1)] by blast
    then show ?thesis using create_spec [OF assms h slot c] run c by (auto simp: dom_def)
  qed
qed

lemma delete_spec:
  assumes "h_wf (char_val env) htab"
  shows "\<exists>htab' errno' ret. hdelete_r env key htab errno flag = Some (htab', errno', ret) \<and>
    h_wf (char_val env) htab' \<and> h_size htab' = h_size htab \<and> change_ok htab' = change_ok htab \<and>
    (if ret = 0 then key \<in> dom (hmap htab) \<and> hmap htab' = (hmap htab)(key := None)
     else htab' = htab \<and> (ret = - ENOENT \<longleftrightarrow> key \<notin> dom (hmap htab)) \<and> ret \<in> {- ENOENT, - EPERM, - EINVAL}) \<and>
    (accepts env htab \<longrightarrow> key \<in> dom (hmap htab) \<longrightarrow> ret = 0)"
proof (cases "hmap htab key")
  case None
  then have "hsearch_r env key None ENV_FIND htab errno 0 = Some (htab, ESRCH, 0, None)"
    using find_spec [OF assms, of key None errno 0] by simp
  then show ?thesis using assms None by (auto simp: hdelete_r_def)
next
  case (Some d)
  then obtain i where i: "holds htab i key d"
    "hsearch_r env key None ENV_FIND htab errno 0 = Some (htab, errno, int i, Some i)"
    using find_spec [OF assms, of key None errno 0] by auto
  have "int i \<noteq> 0" using i(1) by (simp add: holds_def)
  then show ?thesis
    using assms i(2) Some delete_slot [OF assms i(1)]
    by (auto simp: hdelete_r_def Let_def hdelete_slot_def accepts_def)
qed

lemma finite_hmap: "finite (dom (hmap htab))"
  by (simp add: hmap_def finite_dom_map_of)

lemma filled_card:
  assumes "h_wf cval htab"
  shows "filled htab = card (dom (hmap htab))"
proof -
  let ?U = "{i \<in> {1..h_size htab}. 0 < slot_used htab i}"
  have inj: "inj_on (\<lambda>i. the (slot_key htab i)) ?U"
    using h_wfD(6) [OF assms] wf_slots_unique [OF h_wfD(5) [OF assms]]
    by (intro inj_onI) (metis (mono_tags, lifting) mem_Collect_eq option.sel)
  have img: "(\<lambda>i. the (slot_key htab i)) ` ?U = dom (hmap htab)"
  proof (intro equalityI subsetI)
    fix k assume "k \<in> (\<lambda>i. the (slot_key htab i)) ` ?U"
    then obtain i where "i \<in> ?U" "k = the (slot_key htab i)" by blast
    then show "k \<in> dom (hmap htab)"
      using h_wfD(6) [OF assms, of i] hmap_holds [OF assms, of k] by (auto simp: holds_def)
  next
    fix k assume "k \<in> dom (hmap htab)"
    then obtain d where "hmap htab k = Some d" by blast
    then obtain i where "holds htab i k d" using hmap_holds [OF assms] by blast
    then show "k \<in> (\<lambda>i. the (slot_key htab i)) ` ?U" by (intro image_eqI [of _ _ i]) (auto simp: holds_def)
  qed
  have "card (dom (hmap htab)) = card ?U" using card_image [OF inj] unfolding img .
  then show ?thesis using h_wfD(4) [OF assms] by simp
qed

text \<open>
  The table is a string map for its clients while the changes are approved: \<open>h_enter\<close> and \<open>h_del\<close>
  give the table after the call.
\<close>

definition h_enter :: "henv \<Rightarrow> int \<Rightarrow> int \<Rightarrow> hsearch_data \<Rightarrow> cstring \<Rightarrow> cstring \<Rightarrow> hsearch_data" where
  "h_enter env errno flag htab k d = fst (the (hsearch_r env k (Some d) ENV_ENTER htab errno flag))"

definition h_del :: "henv \<Rightarrow> int \<Rightarrow> int \<Rightarrow> hsearch_data \<Rightarrow> cstring \<Rightarrow> hsearch_data" where
  "h_del env errno flag htab k = fst (the (hdelete_r env k htab errno flag))"

definition h_ok :: "henv \<Rightarrow> hsearch_data \<Rightarrow> bool" where
  "h_ok env htab \<longleftrightarrow> h_wf (char_val env) htab \<and> env_ok env \<and> accepts env htab"

lemma accepts_cong: "change_ok htab' = change_ok htab \<Longrightarrow> accepts env htab' = accepts env htab"
  by (simp add: accepts_def change_denied_def)

lemma h_enter_law:
  assumes "h_ok env s" "k \<in> dom (hmap s) \<or> card (dom (hmap s)) < h_size s"
  shows "\<exists>ret rv. hsearch_r env k (Some d) ENV_ENTER s errno flag = Some (h_enter env errno flag s k d, errno, ret, rv) \<and>
    h_ok env (h_enter env errno flag s k d) \<and> h_size (h_enter env errno flag s k d) = h_size s \<and>
    hmap (h_enter env errno flag s k d) = (hmap s)(k \<mapsto> d)"
proof -
  have wf: "h_wf (char_val env) s" "env_ok env" "accepts env s" using assms(1) by (auto simp: h_ok_def)
  have room: "k \<in> dom (hmap s) \<or> filled s \<noteq> h_size s" using assms(2) filled_card [OF wf(1)] by auto
  obtain s' errno' ret rv where run: "hsearch_r env k (Some d) ENV_ENTER s errno flag = Some (s', errno', ret, rv)"
    and s': "h_wf (char_val env) s'" "h_size s' = h_size s" "change_ok s' = change_ok s" "rv \<noteq> None"
      "if rv = None then ret = 0 \<and> errno' \<in> {EPERM, EINVAL, ENOMEM} \<and> hmap s' = hmap s
       else 0 < ret \<and> errno' = errno \<and> hmap s' = (hmap s)(k \<mapsto> d)"
    using enter_spec [OF wf(1,2), of k d errno flag] wf(3) room by blast
  have "h_enter env errno flag s k d = s'" using run by (simp add: h_enter_def)
  then show ?thesis using run s' wf accepts_cong [OF s'(3)] by (simp add: h_ok_def)
qed

lemmas h_enter_run = h_enter_law

lemma h_del_law:
  assumes "h_ok env s"
  shows "h_ok env (h_del env errno flag s k) \<and> h_size (h_del env errno flag s k) = h_size s \<and>
    hmap (h_del env errno flag s k) = (hmap s)(k := None)"
proof -
  have wf: "h_wf (char_val env) s" "env_ok env" "accepts env s" using assms by (auto simp: h_ok_def)
  obtain s' errno' ret where run: "hdelete_r env k s errno flag = Some (s', errno', ret)"
    and s': "h_wf (char_val env) s'" "h_size s' = h_size s" "change_ok s' = change_ok s"
      "if ret = 0 then k \<in> dom (hmap s) \<and> hmap s' = (hmap s)(k := None)
       else s' = s \<and> (ret = - ENOENT \<longleftrightarrow> k \<notin> dom (hmap s)) \<and> ret \<in> {- ENOENT, - EPERM, - EINVAL}"
      "k \<in> dom (hmap s) \<longrightarrow> ret = 0"
    using delete_spec [OF wf(1), of k errno flag] wf(3) by blast
  have "hmap s' = (hmap s)(k := None)"
    using s'(4,5) by (cases "k \<in> dom (hmap s)") (auto simp: fun_upd_idem dom_def split: if_splits)
  moreover have "h_del env errno flag s k = s'" using run by (simp add: h_del_def)
  ultimately show ?thesis using s' wf accepts_cong [OF s'(3)] by (simp add: h_ok_def)
qed

interpretation htab_map: string_map "h_ok env" hmap h_size "h_enter env errno flag" "h_del env errno flag" for env errno flag
  by unfold_locales (use h_enter_law h_del_law finite_hmap in blast)+

section \<open>Creating a table of prime size\<close>

lemma prime_by_sqrt:
  assumes "1 < n" "n \<le> d * d" "\<forall>x. 1 < x \<and> x \<le> d \<longrightarrow> \<not> x dvd n"
  shows "prime_nat n"
  unfolding prime_nat_def
proof (intro conjI allI impI)
  fix x assume "x dvd n"
  then obtain y where n: "n = x * y" by blast
  show "x = 1 \<or> x = n"
  proof (rule ccontr)
    assume "\<not> (x = 1 \<or> x = n)"
    then have "1 < x" "1 < y" using n assms(1) by (auto simp: nat_neq_iff)
    then have "d < x" "d < y" using assms(3) n by (meson dvd_triv_left dvd_triv_right not_less)+
    then have "d * d < x * y" by (simp add: mult_strict_mono)
    then show False using assms(2) n by simp
  qed
qed (rule assms(1))

lemma odd_step:
  assumes "\<forall>x. 1 < x \<and> x < d \<longrightarrow> \<not> x dvd (n :: nat)" "n mod d \<noteq> 0" "odd n" "odd d"
  shows "\<forall>x. 1 < x \<and> x < d + 2 \<longrightarrow> \<not> x dvd n"
proof (intro allI impI notI)
  fix x assume x: "1 < x \<and> x < d + 2" "x dvd n"
  then have "\<not> x < d" using assms(1) by blast
  then consider "x = d" | "x = d + 1" using x(1) by linarith
  then show False
  proof cases
    case 1
    then show ?thesis using x(2) assms(2) by (simp add: dvd_eq_mod_eq_0)
  next
    case 2
    then have "even x" using assms(4) by simp
    then show ?thesis using x(2) assms(3) dvd_trans by blast
  qed
qed

lemma isprime_loop_spec:
  assumes "odd n" "5 \<le> n" "n < 2 ^ 31" "odd d" "3 \<le> d" "d < n" "d \<le> 65535"
    "\<forall>x. 1 < x \<and> x < d \<longrightarrow> \<not> x dvd n"
  shows "\<exists>d'. isprime_loop n d = Some d' \<and> (n mod d' \<noteq> 0 \<longleftrightarrow> prime_nat n)"
  using assms(4-8)
proof (induction "n - d" arbitrary: d rule: less_induct)
  case less
  have "d * d \<le> 65535 * 65535" using less.prems(4) by (intro mult_le_mono) auto
  then have sq: "d * d mod 2 ^ 32 = d * d" by simp
  show ?case
  proof (cases "d * d < n \<and> n mod d \<noteq> 0")
    case True
    have "d < 46341"
    proof (rule ccontr)
      assume "\<not> d < 46341"
      then have "46341 * 46341 \<le> d * d" by (intro mult_le_mono) auto
      then show False using True assms(3) by simp
    qed
    have "3 * d \<le> d * d" using less.prems(2) by simp
    then have lt: "d + 2 < n" using True less.prems(2) by linarith
    have "isprime_loop n d = isprime_loop n (d + 2)"
      using True sq \<open>d < 46341\<close> by (subst isprime_loop.simps) simp
    then show ?thesis
      using less.hyps [of "d + 2"] less.prems lt \<open>d < 46341\<close> True odd_step [OF less.prems(5) _ assms(1) less.prems(1)] by auto
  next
    case False
    then have run: "isprime_loop n d = Some d" using sq by (subst isprime_loop.simps) auto
    have "n mod d \<noteq> 0 \<longleftrightarrow> prime_nat n"
    proof
      assume nd: "n mod d \<noteq> 0"
      then have "\<forall>x. 1 < x \<and> x \<le> d \<longrightarrow> \<not> x dvd n" using less.prems(5) by (metis dvd_imp_mod_0 le_neq_implies_less)
      then show "prime_nat n" using prime_by_sqrt [of n d] False nd assms(2) by auto
    next
      assume "prime_nat n"
      then show "n mod d \<noteq> 0" using less.prems(2,3) by (auto simp: prime_nat_def mod_eq_0_iff_dvd)
    qed
    then show ?thesis using run by blast
  qed
qed

lemma isprime_spec: "odd n \<Longrightarrow> 5 \<le> n \<Longrightarrow> n < 2 ^ 31 \<Longrightarrow> isprime n = Some (prime_nat n)"
proof -
  assume n: "odd n" "5 \<le> n" "n < 2 ^ 31"
  have "\<forall>x. 1 < x \<and> x < 3 \<longrightarrow> \<not> x dvd n"
    using n(1) by (metis One_nat_def Suc_1 eval_nat_numeral(3) less_antisym less_trans_Suc nat_less_le not_less_eq)
  then show ?thesis using isprime_loop_spec [of n 3] n by (auto simp: isprime_def)
qed

lemma next_prime_spec:
  assumes "odd n" "5 \<le> n" "n \<le> p" "p < 2 ^ 31" "prime_nat p" "odd p"
  shows "\<exists>q. next_prime n = Some q \<and> prime_nat q \<and> n \<le> q \<and> q \<le> p"
  using assms(1-3)
proof (induction "p - n" arbitrary: n rule: less_induct)
  case less
  have m: "n mod 2 ^ 32 = n" using less.prems(3) assms(4) by simp
  show ?case
  proof (cases "prime_nat n")
    case True
    then show ?thesis
      using less.prems assms(4) isprime_spec [of n] by (subst next_prime.simps) (simp add: m)
  next
    case False
    then have "n \<noteq> p" using assms(5) by blast
    then have "n + 2 \<le> p" using less.prems assms(6) by (metis add_2_eq_Suc' even_Suc le_neq_implies_less less_eq_Suc_le)
    then obtain q where q: "next_prime (n + 2) = Some q" "prime_nat q" "n + 2 \<le> q" "q \<le> p"
      using less.hyps [of "n + 2"] less.prems by (auto simp: diff_less_mono2)
    have "next_prime n = Some q"
      using q(1) less.prems assms(4) isprime_spec [of n] False by (subst next_prime.simps) (simp add: m)
    then show ?thesis using q by auto
  qed
qed

lemma prime_521: "prime_nat 521"
proof -
  have "isprime 521 = Some True" by (simp add: isprime_def isprime_loop.simps)
  then show ?thesis using isprime_spec [of 521] by simp
qed

lemma next_prime_small:
  assumes "2 \<le> nel" "nel \<le> 521"
  shows "\<exists>q. next_prime (nel OR 1) = Some q \<and> prime_nat q \<and> nel \<le> q \<and> q \<le> 521 \<and> 3 \<le> q"
proof -
  define n where "n = nel OR 1"
  have eq: "n = nel + of_bool (even nel)" unfolding n_def by (rule or_one_eq)
  have n: "odd n" "nel \<le> n" "n \<le> nel + 1" "n = nel \<or> even nel"
    by (cases "even nel"; simp add: eq)+
  have start: "\<exists>q. next_prime n = Some q \<and> prime_nat q \<and> max 5 n \<le> q \<and> q \<le> 521"
  proof (cases "n = 3")
    case True
    have "isprime 3 = Some False" by (simp add: isprime_def isprime_loop.simps)
    then have "next_prime 3 = next_prime 5" by (subst next_prime.simps) simp
    then show ?thesis using True next_prime_spec [of 5 521] prime_521 by auto
  next
    case False
    then have "5 \<le> n" using n assms(1) by presburger
    moreover have "n \<le> 521" using n assms(2) by presburger
    ultimately show ?thesis using next_prime_spec [of n 521] prime_521 n by auto
  qed
  then show ?thesis using n unfolding n_def by auto
qed

lemma hcreate_spec:
  assumes "2 \<le> nel" "nel \<le> 521" "table htab = []"
  shows "\<exists>htab'. hcreate_r True nel htab errno = Some (htab', errno, 1) \<and> h_wf cval htab' \<and>
    hmap htab' = Map.empty \<and> nel \<le> h_size htab' \<and> change_ok htab' = change_ok htab"
proof -
  obtain q where q: "next_prime (nel OR 1) = Some q" "prime_nat q" "nel \<le> q" "3 \<le> q"
    using next_prime_small [OF assms(1,2)] by blast
  define htab' where "htab' = htab\<lparr>h_size := q, filled := 0, table := replicate (q + 1) empty_node\<rparr>"
  have free: "table htab' ! i = empty_node" if "i \<in> {1..q}" for i
    using that nth_replicate [of i "q + 1" empty_node] by (simp add: htab'_def)
  have "h_wf cval htab'"
    using q free by (auto simp: h_wf_def wf_slots_def htab'_def empty_node_def simp del: replicate.simps)
  moreover have "hmap htab' = Map.empty" by (simp add: hmap_def htab'_def empty_node_def)
  moreover have "hcreate_r True nel htab errno = Some (htab', errno, 1)"
    using assms(3) q(1) by (simp add: hcreate_r_def htab'_def Let_def)
  ultimately show ?thesis using q by (auto simp: htab'_def)
qed

section \<open>Properties\<close>

text \<open>An environment that accepts every change, for the evaluated instances.\<close>

definition demo_env :: henv where
  "demo_env = \<lparr>strdup_of = Some, entry_init = (\<lambda>e. e), callback_fn = (\<lambda>cb k v op flag. 0), regex = None, char_val = uint\<rparr>"

definition no_table :: hsearch_data where
  "no_table = \<lparr>table = [], h_size = 0, filled = 0, change_ok = None\<rparr>"

lemma demo_env_simps: "env_ok demo_env" "change_ok htab = None \<Longrightarrow> accepts demo_env htab" "char_val demo_env = uint"
  by (auto simp: env_ok_def accepts_def demo_env_def change_denied_def do_callback_def split: option.splits)

lemma demo_start:
  obtains htab where "h_ok demo_env htab" "hmap htab = Map.empty" "5 \<le> h_size htab"
proof -
  obtain htab where "hcreate_r True 5 no_table 0 = Some (htab, 0, 1)" "h_wf uint htab" "hmap htab = Map.empty"
    "5 \<le> h_size htab" "change_ok htab = change_ok no_table"
    using hcreate_spec [of 5 no_table 0 uint] by (auto simp: no_table_def)
  then show ?thesis using that [of htab] demo_env_simps by (simp add: h_ok_def no_table_def)
qed

lemma demo_table:
  obtains htab where "h_ok demo_env htab" "hmap htab = [k \<mapsto> d]" "5 \<le> h_size htab"
proof -
  obtain h0 where h0: "h_ok demo_env h0" "hmap h0 = Map.empty" "5 \<le> h_size h0" by (rule demo_start)
  then have "k \<in> dom (hmap h0) \<or> card (dom (hmap h0)) < h_size h0" by auto
  from h_enter_law [OF h0(1) this, of d 0 0] show ?thesis using that h0 by auto
qed

text \<open>
  On a well-formed table a search without entering leaves the table alone and returns the slot
  whose data the table's map gives for the key, or \<open>ESRCH\<close> when the map has no such key: entries that
  collide, and entries beyond deleted slots, are found.\<close>
theorem hsearch_find_correct:
  assumes "h_wf (char_val env) htab"
  shows "case hmap htab key of
      Some d \<Rightarrow> \<exists>i. 0 < i \<and> i \<le> h_size htab \<and> slot_key htab i = Some key \<and> slot_data htab i = Some d \<and>
        hsearch_r env key data ENV_FIND htab errno flag = Some (htab, errno, int i, Some i)
    | None \<Rightarrow> hsearch_r env key data ENV_FIND htab errno flag = Some (htab, ESRCH, 0, None)"
  using find_spec [OF assms, of key data errno flag] by (auto simp: holds_def split: option.splits)

theorem hsearch_find_correct_witness:
  "\<exists>htab i. hmap htab [97] = Some [49] \<and> hsearch_r demo_env [97] None ENV_FIND htab 0 0 = Some (htab, 0, int i, Some i) \<and>
     hsearch_r demo_env [98] None ENV_FIND htab 0 0 = Some (htab, ESRCH, 0, None)"
proof -
  obtain htab where h: "h_ok demo_env htab" "hmap htab = [[97] \<mapsto> [49]]" by (rule demo_table)
  then have "h_wf (char_val demo_env) htab" by (simp add: h_ok_def)
  from hsearch_find_correct [OF this, of "[97]" None 0 0] hsearch_find_correct [OF this, of "[98]" None 0 0] h(2)
  show ?thesis by (intro exI [of _ htab]) auto
qed



text \<open>
  C15. Deleting a key from a well-formed table keeps it well-formed and removes exactly this key from
  the map, or changes nothing and returns \<open>- ENOENT\<close> for a key that is not there, or \<open>- EPERM\<close> or
  \<open>- EINVAL\<close> for a deletion that is refused.\<close>
theorem hdelete_correct:
  assumes "h_wf (char_val env) htab"
  shows "\<exists>htab' errno' ret. hdelete_r env key htab errno flag = Some (htab', errno', ret) \<and>
    h_wf (char_val env) htab' \<and>
    (if ret = 0 then key \<in> dom (hmap htab) \<and> hmap htab' = (hmap htab)(key := None)
     else htab' = htab \<and> (ret = - ENOENT \<longleftrightarrow> key \<notin> dom (hmap htab)) \<and> ret \<in> {- ENOENT, - EPERM, - EINVAL}) \<and>
    (accepts env htab \<longrightarrow> key \<in> dom (hmap htab) \<longrightarrow> ret = 0)"
  using delete_spec [OF assms, of key errno flag] by blast

theorem hdelete_correct_witness:
  "\<exists>htab htab' errno'. hmap htab = [[97] \<mapsto> [49]] \<and> hdelete_r demo_env [97] htab 0 0 = Some (htab', errno', 0) \<and>
     hmap htab' = Map.empty"
proof -
  obtain htab where h: "h_ok demo_env htab" "hmap htab = [[97] \<mapsto> [49]]" by (rule demo_table)
  then have "h_wf (char_val demo_env) htab" "accepts demo_env htab" by (auto simp: h_ok_def)
  with hdelete_correct [of demo_env htab "[97]" 0 0] h(2) show ?thesis by (force split: if_splits)
qed

text \<open>
  C34. A search returns on every table of at least three slots, whatever the slots hold and whether or
  not the size is prime: the probe sequence comes back to its start after as many steps as there
  are slots.\<close>
theorem hsearch_returns:
  assumes "3 \<le> h_size htab"
  shows "\<exists>r. hsearch_r env key data action htab errno flag = Some r"
proof -
  let ?h = "first_hash (char_val env) (h_size htab) key"
  have h: "1 \<le> ?h" "?h \<le> h_size htab" using first_hash_range assms by auto
  have "hsearch_loop (h_size htab) env key data action htab errno flag ?h ?h fd \<noteq> None" for fd
    using hsearch_loop_total [OF assms h, of "h_size htab" 0] assms by (simp del: not_None_eq)
  then have "hsearch_r env key data action htab errno flag \<noteq> None"
    by (simp add: hsearch_r_def Let_def del: not_None_eq)
  then show ?thesis by (metis option.exhaust)
qed

theorem hsearch_returns_witness:
  "\<exists>r. hsearch_r demo_env [97] (Some [49]) ENV_ENTER
     \<lparr>table = replicate 10 \<lparr>used = - 1, entry = empty_entry\<rparr>, h_size = 9, filled = 0, change_ok = None\<rparr> 0 0 = Some r"
  by (rule hsearch_returns) simp

text \<open>
  \<open>hcreate_r\<close> for 2 to 521 entries creates an empty well-formed table whose size is a prime not
  below the number asked for.\<close>
theorem hcreate_prime:
  assumes "2 \<le> nel" "nel \<le> 521" "table htab = []"
  shows "\<exists>htab'. hcreate_r True nel htab errno = Some (htab', errno, 1) \<and> h_wf cval htab' \<and>
    prime_nat (h_size htab') \<and> nel \<le> h_size htab' \<and> hmap htab' = Map.empty"
  using hcreate_spec [OF assms, of errno cval] h_wfD(1) by blast

theorem hcreate_prime_witness:
  "\<exists>htab'. hcreate_r True 64 no_table 0 = Some (htab', 0, 1) \<and> prime_nat (h_size htab') \<and> 64 \<le> h_size htab'"
  using hcreate_prime [of 64 no_table 0 uint] by (auto simp: no_table_def)

text \<open>
  \<open>hmatch_r\<close>, which lists the variables whose names begin with a string, never looks at the last
  slot of the table: an entry stored there is in the map and is found by \<open>hsearch_r\<close> and missed by
  \<open>hmatch_r\<close>.\<close>
theorem hmatch_misses_last:
  "let nd = \<lparr>used = 1, entry = \<lparr>e_key = Some [99], e_data = Some [49], e_callback = None, e_flags = 0\<rparr>\<rparr>;
       htab = \<lparr>table = replicate 5 (empty_node\<lparr>used := - 1\<rparr>) @ [nd], h_size = 5, filled = 1, change_ok = None\<rparr>
   in hmap htab [99] = Some [49] \<and> hmatch_r [99] 0 htab 0 = (ESRCH, 0, None) \<and>
      map_option (\<lambda>(h, e, r, rv). rv) (hsearch_r demo_env [99] None ENV_FIND htab 0 0) = Some (Some 5)"
  by code_simp

end
