(* ===== verification/Qsort.thy ===== *)
theory Qsort
  imports Prelude "HOL-Library.Multiset"
begin

text \<open>
  The Shell sort of \<open>lib/qsort.c\<close>. The array is the list of its elements, so an index counts
  elements where the code counts bytes: the code's \<open>wgap\<close>, \<open>i\<close> and \<open>j\<close> are \<open>width\<close> times the model's
  (all of them are multiples of \<open>width\<close>, and the gaps 1, 4, 13, ... are one more than a multiple of
  three, so the division of \<open>wgap - width\<close> is exact). The loop over the bytes of two elements is
  their exchange.
\<close>

section \<open>Model\<close>

text \<open>The first gap: \<open>do { wgap = 3 * wgap + 1; } while (wgap < (nel-1)/3)\<close>.\<close>

function first_gap :: "nat \<Rightarrow> nat \<Rightarrow> nat" where
  "first_gap nel g = (let g' = 3 * g + 1 in if g' < (nel - 1) div 3 then first_gap nel g' else g')"
  by pat_completeness auto
termination
  by (relation "measure (\<lambda>(nel, g). nel - g)") auto

declare first_gap.simps [simp del]

text \<open>The innermost loop, entered with \<open>j \<ge> gap\<close>; the gap is never zero.\<close>

function sift :: "('a \<Rightarrow> 'a \<Rightarrow> int) \<Rightarrow> nat \<Rightarrow> 'a list \<Rightarrow> nat \<Rightarrow> 'a list" where
  "sift cmp gap xs j =
     (if gap = 0 then xs
      else
        let a = j - gap; b = a + gap
        in if cmp (xs ! a) (xs ! b) \<le> 0 then xs
           else
             let xs' = xs[a := xs ! b, b := xs ! a]
             in if a \<ge> gap then sift cmp gap xs' a else xs')"
  by pat_completeness auto
termination
  by (relation "measure (\<lambda>(cmp, gap, xs, j). j)") auto

declare sift.simps [simp del]

function gap_pass :: "('a \<Rightarrow> 'a \<Rightarrow> int) \<Rightarrow> nat \<Rightarrow> nat \<Rightarrow> 'a list \<Rightarrow> nat \<Rightarrow> 'a list" where
  "gap_pass cmp nel gap xs i =
     (let xs' = sift cmp gap xs i in if i + 1 < nel then gap_pass cmp nel gap xs' (i + 1) else xs')"
  by pat_completeness auto
termination
  by (relation "measure (\<lambda>(cmp, nel, gap, xs, i). nel - i)") auto

declare gap_pass.simps [simp del]

function gap_loop :: "('a \<Rightarrow> 'a \<Rightarrow> int) \<Rightarrow> nat \<Rightarrow> nat \<Rightarrow> 'a list \<Rightarrow> 'a list" where
  "gap_loop cmp nel gap xs =
     (let xs' = gap_pass cmp nel gap xs gap; gap' = (gap - 1) div 3
      in if gap' \<noteq> 0 then gap_loop cmp nel gap' xs' else xs')"
  by pat_completeness auto
termination
  by (relation "measure (\<lambda>(cmp, nel, gap, xs). gap)") auto

declare gap_loop.simps [simp del]

definition qsort :: "('a \<Rightarrow> 'a \<Rightarrow> int) \<Rightarrow> 'a list \<Rightarrow> 'a list" where
  "qsort cmp xs = (if length xs > 1 then gap_loop cmp (length xs) (first_gap (length xs) 0) xs else xs)"

section \<open>The array is permuted\<close>

lemma mset_swap_nth: "a < length xs \<Longrightarrow> b < length xs \<Longrightarrow> mset (xs[a := xs ! b, b := xs ! a]) = mset xs"
  by (rule mset_swap)

lemma sift_perm: "gap \<le> j \<Longrightarrow> j < length xs \<Longrightarrow> mset (sift cmp gap xs j) = mset xs"
proof (induction cmp gap xs j rule: sift.induct)
  case (1 cmp gap xs j)
  define xs' where "xs' = xs[j - gap := xs ! j, j := xs ! (j - gap)]"
  have "mset xs' = mset xs" "length xs' = length xs"
    unfolding xs'_def using mset_swap_nth [of "j - gap" xs j] "1.prems" by auto
  then show ?case
    using 1 by (subst sift.simps) (auto simp: Let_def xs'_def [symmetric])
qed

lemma sift_length: "gap \<le> j \<Longrightarrow> j < length xs \<Longrightarrow> length (sift cmp gap xs j) = length xs"
  by (rule mset_eq_length [OF sift_perm])

lemma gap_pass_perm:
  "gap \<le> i \<Longrightarrow> i < nel \<Longrightarrow> length xs = nel \<Longrightarrow>
    mset (gap_pass cmp nel gap xs i) = mset xs"
proof (induction cmp nel gap xs i rule: gap_pass.induct)
  case (1 cmp nel gap xs i)
  then show ?case using sift_perm [of gap i xs cmp] sift_length [of gap i xs cmp] by (subst gap_pass.simps) (auto simp: Let_def)
qed

lemma gap_loop_perm:
  "gap < nel \<Longrightarrow> length xs = nel \<Longrightarrow> mset (gap_loop cmp nel gap xs) = mset xs"
proof (induction cmp nel gap xs rule: gap_loop.induct)
  case (1 cmp nel gap xs)
  then show ?case using gap_pass_perm [of gap gap nel xs cmp] mset_eq_length [OF gap_pass_perm [of gap gap nel xs cmp]] by (subst gap_loop.simps) (auto simp: Let_def)
qed

text \<open>The gaps are one more than a multiple of three down to one, and smaller than the array.\<close>

inductive shell_gap :: "nat \<Rightarrow> bool" where
  shell_one: "shell_gap 1"
| shell_next: "shell_gap g \<Longrightarrow> shell_gap (3 * g + 1)"

inductive_cases shell_gapE: "shell_gap g"

lemma first_gap_spec: "1 < nel \<Longrightarrow> g = 0 \<or> shell_gap g \<and> g < (nel - 1) div 3 \<Longrightarrow> shell_gap (first_gap nel g) \<and> first_gap nel g < nel"
proof (induction nel g rule: first_gap.induct)
  case (1 nel g)
  have s: "shell_gap (3 * g + 1)" using "1.prems"(2) shell_one shell_next by auto
  have lt: "3 * g + 1 < nel" using "1.prems" by auto
  show ?case using 1 s lt by (subst (1 2) first_gap.simps) (auto simp: Let_def)
qed

lemma qsort_perm: "mset (qsort cmp xs) = mset xs"
  using first_gap_spec [of "length xs" 0] gap_loop_perm [of "first_gap (length xs) 0" "length xs" xs cmp]
  by (auto simp: qsort_def)

section \<open>The last pass sorts\<close>

text \<open>The element at \<open>j\<close> may still be too small for its place; all others up to \<open>i\<close> are in order.\<close>

definition sorted_but :: "('a \<Rightarrow> 'a \<Rightarrow> int) \<Rightarrow> 'a list \<Rightarrow> nat \<Rightarrow> nat \<Rightarrow> bool" where
  "sorted_but cmp xs i j \<longleftrightarrow>
     (\<forall>a b. a < b \<longrightarrow> b \<le> i \<longrightarrow> b \<noteq> j \<longrightarrow> cmp (xs ! a) (xs ! b) \<le> 0)"

definition sorted_to :: "('a \<Rightarrow> 'a \<Rightarrow> int) \<Rightarrow> 'a list \<Rightarrow> nat \<Rightarrow> bool" where
  "sorted_to cmp xs i \<longleftrightarrow> (\<forall>a b. a < b \<longrightarrow> b \<le> i \<longrightarrow> cmp (xs ! a) (xs ! b) \<le> 0)"

definition cmp_order :: "('a \<Rightarrow> 'a \<Rightarrow> int) \<Rightarrow> 'a set \<Rightarrow> bool" where
  "cmp_order cmp A \<longleftrightarrow>
     (\<forall>x \<in> A. \<forall>y \<in> A. cmp x y \<le> 0 \<or> cmp y x \<le> 0) \<and>
     (\<forall>x \<in> A. \<forall>y \<in> A. \<forall>z \<in> A. cmp x y \<le> 0 \<longrightarrow> cmp y z \<le> 0 \<longrightarrow> cmp x z \<le> 0)"

lemma swap_sorted_but:
  assumes "cmp_order cmp (set xs)" "sorted_but cmp xs i (Suc j)" "Suc j \<le> i" "i < length xs"
    "\<not> cmp (xs ! j) (xs ! Suc j) \<le> 0"
  shows "sorted_but cmp (xs[j := xs ! Suc j, Suc j := xs ! j]) i j"
  unfolding sorted_but_def
proof (intro allI impI)
  fix a b assume ab: "a < b" "b \<le> i" "b \<noteq> j"
  let ?xs = "xs[j := xs ! Suc j, Suc j := xs ! j]"
  have at: "?xs ! x = (if x = Suc j then xs ! j else if x = j then xs ! Suc j else xs ! x)" if "x \<le> i" for x
    using that assms(3,4) by (auto simp: nth_list_update)
  have but: "cmp (xs ! x) (xs ! y) \<le> 0" if "x < y" "y \<le> i" "y \<noteq> Suc j" for x y
    using assms(2) that by (auto simp: sorted_but_def)
  have "xs ! j \<in> set xs" "xs ! Suc j \<in> set xs" using assms(3,4) by auto
  then have rev: "cmp (xs ! Suc j) (xs ! j) \<le> 0" using assms(1,5) unfolding cmp_order_def by blast
  have b: "?xs ! b = (if b = Suc j then xs ! j else xs ! b)" using at [of b] ab by simp
  consider "a = Suc j" | "a = j" | "a \<noteq> Suc j" "a \<noteq> j" by blast
  then show "cmp (?xs ! a) (?xs ! b) \<le> 0"
  proof cases
    case 1
    then show ?thesis using but [of j b] ab at [of a] by (simp add: b)
  next
    case 2
    then show ?thesis using but [of "Suc j" b] rev ab at [of a] by (auto simp: b)
  next
    case 3
    then show ?thesis using but [of a b] but [of a j] ab at [of a] assms(3) by (auto simp: b)
  qed
qed

lemma sift_one_sorts:
  assumes "cmp_order cmp (set xs)" "sorted_but cmp xs i (Suc j)" "Suc j \<le> i" "i < length xs"
  shows "sorted_to cmp (sift cmp 1 xs (Suc j)) i"
  using assms
proof (induction j arbitrary: xs)
  case (0 xs)
  have "sorted_to cmp xs i" if "cmp (xs ! 0) (xs ! Suc 0) \<le> 0"
    using "0.prems"(2) that unfolding sorted_to_def sorted_but_def by (metis One_nat_def less_Suc0)
  moreover have "sorted_to cmp ys i" if "sorted_but cmp ys i 0" for ys
    using that by (auto simp: sorted_to_def sorted_but_def)
  ultimately show ?case
    using swap_sorted_but [OF "0.prems"] by (subst sift.simps) (auto simp: Let_def)
next
  case (Suc j xs)
  let ?xs = "xs[Suc j := xs ! Suc (Suc j), Suc (Suc j) := xs ! Suc j]"
  show ?case
  proof (cases "cmp (xs ! Suc j) (xs ! Suc (Suc j)) \<le> 0")
    case True
    have "cmp (xs ! a) (xs ! b) \<le> 0" if ab: "a < b" "b \<le> i" for a b
    proof (cases "b = Suc (Suc j) \<and> a \<noteq> Suc j")
      case True': True
      then have "cmp (xs ! a) (xs ! Suc j) \<le> 0" using Suc.prems(2,3) ab by (auto simp: sorted_but_def)
      moreover have "xs ! a \<in> set xs" "xs ! Suc j \<in> set xs" "xs ! Suc (Suc j) \<in> set xs" using Suc.prems(3,4) ab by auto
      ultimately show ?thesis using True True' Suc.prems(1) unfolding cmp_order_def by blast
    qed (use True Suc.prems(2) ab in \<open>auto simp: sorted_but_def\<close>)
    then show ?thesis using True by (subst sift.simps) (simp add: sorted_to_def)
  next
    case False
    have "set ?xs = set xs" using Suc.prems(3,4) by (simp add: set_swap)
    then have "sorted_to cmp (sift cmp 1 ?xs (Suc j)) i"
      using Suc.IH [of ?xs] Suc.prems swap_sorted_but [OF Suc.prems False] by simp
    then show ?thesis using False by (subst sift.simps) (simp add: Let_def)
  qed
qed

lemma gap_pass_one_sorts:
  assumes "cmp_order cmp (set xs)" "length xs = nel" "sorted_to cmp xs i" "Suc i < nel"
  shows "sorted_to cmp (gap_pass cmp nel 1 xs (Suc i)) (nel - 1)"
  using assms
proof (induction "nel - i" arbitrary: xs i rule: less_induct)
  case less
  let ?xs = "sift cmp 1 xs (Suc i)"
  have "sorted_but cmp xs (Suc i) (Suc i)" using less.prems(3) by (auto simp: sorted_but_def sorted_to_def)
  then have s: "sorted_to cmp ?xs (Suc i)" using less.prems by (intro sift_one_sorts) auto
  have p: "mset ?xs = mset xs" "length ?xs = nel"
    using sift_perm [of 1 "Suc i" xs cmp] sift_length [of 1 "Suc i" xs cmp] less.prems by auto
  show ?case
  proof (cases "Suc (Suc i) < nel")
    case True
    have "sorted_to cmp (gap_pass cmp nel 1 ?xs (Suc (Suc i))) (nel - 1)"
      using less.hyps [of "Suc i" ?xs] less.prems s p True mset_eq_setD [OF p(1)] by auto
    then show ?thesis using True by (subst gap_pass.simps) (simp add: Let_def)
  next
    case False
    then have "nel - 1 = Suc i" using less.prems(4) by simp
    then show ?thesis using s False by (subst gap_pass.simps) (simp add: Let_def)
  qed
qed

lemma gap_loop_sorts:
  "shell_gap gap \<Longrightarrow> gap < nel \<Longrightarrow> length xs = nel \<Longrightarrow> cmp_order cmp (set xs) \<Longrightarrow>
    sorted_to cmp (gap_loop cmp nel gap xs) (nel - 1)"
proof (induction arbitrary: xs rule: shell_gap.induct)
  case shell_one
  have "sorted_to cmp (gap_pass cmp nel 1 xs (Suc 0)) (nel - 1)"
    using shell_one by (intro gap_pass_one_sorts) (auto simp: sorted_to_def)
  then show ?case by (subst gap_loop.simps) (simp add: Let_def)
next
  case (shell_next g)
  let ?xs = "gap_pass cmp nel (3 * g + 1) xs (3 * g + 1)"
  have p: "mset ?xs = mset xs" "length ?xs = nel"
    using gap_pass_perm [of "3 * g + 1" "3 * g + 1" nel xs cmp] mset_eq_length [of ?xs xs] shell_next.prems by auto
  have "g \<noteq> 0" using shell_next.hyps by (auto elim: shell_gapE)
  moreover have "sorted_to cmp (gap_loop cmp nel g ?xs) (nel - 1)"
    using shell_next p mset_eq_setD [OF p(1)] by auto
  ultimately show ?case by (subst gap_loop.simps) (simp add: Let_def)
qed

lemma sorted_to_sorted_wrt: "sorted_to cmp xs (length xs - 1) \<Longrightarrow> sorted_wrt (\<lambda>x y. cmp x y \<le> 0) xs"
  unfolding sorted_wrt_iff_nth_less sorted_to_def by auto

section \<open>Property\<close>

text \<open>
  C29. \<open>qsort\<close> terminates on every array and every comparison function; with a comparison that is total
  and transitive on its elements the result is the same multiset of elements in ascending order.\<close>
theorem qsort_sorts:
  assumes "cmp_order cmp (set xs)"
  shows "mset (qsort cmp xs) = mset xs \<and> sorted_wrt (\<lambda>x y. cmp x y \<le> 0) (qsort cmp xs)"
proof (cases "length xs > 1")
  case True
  let ?g = "first_gap (length xs) 0"
  have "sorted_to cmp (gap_loop cmp (length xs) ?g xs) (length xs - 1)"
    using True first_gap_spec [of "length xs" 0] assms by (intro gap_loop_sorts) auto
  then have "sorted_to cmp (qsort cmp xs) (length (qsort cmp xs) - 1)"
    using True mset_eq_length [OF qsort_perm [of cmp xs]] by (simp add: qsort_def)
  then show ?thesis using sorted_to_sorted_wrt qsort_perm by blast
next
  case False
  then have "length xs \<le> 1" by simp
  then show ?thesis using False by (cases xs) (auto simp: qsort_def)
qed

theorem qsort_sorts_witness:
  "sorted_wrt (\<lambda>x y. x - y \<le> 0) (qsort (\<lambda>x y. x - y) [5, 3, 9, 1, 7, 2, 8, 4, 6, 0, 3, 11, 10, 12, 20 :: int])"
  using qsort_sorts [of "\<lambda>x y. x - y" "[5, 3, 9, 1, 7, 2, 8, 4, 6, 0, 3, 11, 10, 12, 20 :: int]"]
  by (auto simp: cmp_order_def)

end
