(* ===== verification/Envtext.thy ===== *)
theory Envtext
  imports Hashtable Qsort
begin

text \<open>
  The text form of the environment: \<open>hexport_r\<close> and \<open>himport_r\<close> of \<open>lib/hashtable.c\<close> over the table of
  \<open>Hashtable\<close>. The exported text is the list of bytes the second pass writes from \<open>res\<close> on. The
  import works on a private copy \<open>data\<close> of the text, one byte longer than its size and ended by a
  null byte; the bytes that it overwrites with terminators lie before the read position and are
  never read again, so a name or value is the list of the bytes up to its terminator and the copy
  itself stays as it is, except for the removal of carriage returns, which is done in place.

  The main result is the round trip: importing what was exported gives a table with the same map.
\<close>

section \<open>Model\<close>

subsection \<open>Export\<close>

abbreviation (input) H_NOCLEAR :: int where "H_NOCLEAR \<equiv> 1"
abbreviation (input) H_HIDE_DOT :: int where "H_HIDE_DOT \<equiv> 8"
abbreviation (input) H_MATCH_KEY :: int where "H_MATCH_KEY \<equiv> 16"
abbreviation (input) H_MATCH_DATA :: int where "H_MATCH_DATA \<equiv> 32"
abbreviation (input) H_MATCH_IDENT :: int where "H_MATCH_IDENT \<equiv> 64"
abbreviation (input) H_MATCH_SUBSTR :: int where "H_MATCH_SUBSTR \<equiv> 128"
abbreviation (input) H_MATCH_REGEX :: int where "H_MATCH_REGEX \<equiv> 256"
abbreviation (input) H_MATCH_METHOD :: int where "H_MATCH_METHOD \<equiv> 448"

definition cmpkey :: "env_entry \<Rightarrow> env_entry \<Rightarrow> int" where
  "cmpkey e1 e2 = lex_cmp (the (e_key e1)) (the (e_key e2))"

text \<open>\<open>strstr\<close> on lists of bytes: does the second occur in the first?\<close>

fun occurs :: "cstring \<Rightarrow> cstring \<Rightarrow> bool" where
  "occurs [] pat = (pat = [])"
| "occurs (c # str) pat = (take (length pat) (c # str) = pat \<or> occurs str pat)"

text \<open>\<open>priv\<close> is the compiled pattern, when regular expressions are configured.\<close>

definition match_string :: "int \<Rightarrow> cstring \<Rightarrow> cstring \<Rightarrow> (cstring \<Rightarrow> bool) option \<Rightarrow> bool" where
  "match_string flag str pat priv =
     (let method = flag AND H_MATCH_METHOD
      in if method = H_MATCH_IDENT then str = pat
         else if method = H_MATCH_SUBSTR then occurs str pat
         else if method = H_MATCH_REGEX then (case priv of Some matches \<Rightarrow> matches str | None \<Rightarrow> False)
         else False)"

fun match_entry :: "henv \<Rightarrow> env_entry \<Rightarrow> int \<Rightarrow> cstring list \<Rightarrow> bool" where
  "match_entry env ep flag [] = False"
| "match_entry env ep flag (arg # args) =
     (case regex env of
        Some compile \<Rightarrow>
          (case compile arg of
             None \<Rightarrow> False
           | Some priv \<Rightarrow>
               flag AND H_MATCH_KEY \<noteq> 0 \<and> match_string flag (the (e_key ep)) arg (Some priv) \<or>
               flag AND H_MATCH_DATA \<noteq> 0 \<and> match_string flag (the (e_data ep)) arg (Some priv) \<or>
               match_entry env ep flag args)
      | None \<Rightarrow>
          flag AND H_MATCH_KEY \<noteq> 0 \<and> match_string flag (the (e_key ep)) arg None \<or>
          flag AND H_MATCH_DATA \<noteq> 0 \<and> match_string flag (the (e_data ep)) arg None \<or>
          match_entry env ep flag args)"

text \<open>The entries that pass 1 lists, in the order of the slots.\<close>

definition export_wanted :: "henv \<Rightarrow> int \<Rightarrow> cstring list \<Rightarrow> env_entry \<Rightarrow> bool" where
  "export_wanted env flag args ep \<longleftrightarrow>
     \<not> (args \<noteq> [] \<and> \<not> match_entry env ep flag args) \<and>
     \<not> (flag AND H_HIDE_DOT \<noteq> 0 \<and> take 1 (the (e_key ep)) = [46])"

definition export_list :: "henv \<Rightarrow> hsearch_data \<Rightarrow> int \<Rightarrow> cstring list \<Rightarrow> env_entry list" where
  "export_list env htab flag args =
     filter (export_wanted env flag args)
       (map entry (filter (\<lambda>nd. used nd > 0) (take (h_size htab) (tl (table htab)))))"

text \<open>The length pass 1 computes for one entry, and what pass 2 writes for it.\<close>

definition entry_len :: "u8 \<Rightarrow> env_entry \<Rightarrow> nat" where
  "entry_len sep ep =
     length (the (e_key ep)) +
     (if sep = 0 then length (the (e_data ep))
      else sum_list (map (\<lambda>c. if c = sep \<or> c = 92 then 2 else 1) (the (e_data ep)))) + 2"

fun escape_value :: "u8 \<Rightarrow> cstring \<Rightarrow> u8 list" where
  "escape_value sep [] = []"
| "escape_value sep (c # s) = (if c = sep \<or> c = 92 then [92, c] else [c]) @ escape_value sep s"

definition entry_text :: "u8 \<Rightarrow> cstring \<Rightarrow> cstring \<Rightarrow> u8 list" where
  "entry_text sep key data = key @ [61] @ escape_value sep data @ [sep]"

definition export_text :: "u8 \<Rightarrow> env_entry list \<Rightarrow> u8 list" where
  "export_text sep eps = concat (map (\<lambda>ep. entry_text sep (the (e_key ep)) (the (e_data ep))) eps) @ [0]"

text \<open>
  \<open>hexport_r\<close>: \<open>errno\<close>, the result, and the bytes written. \<open>resp_given\<close> says whether the caller gave a
  buffer, \<open>calloc_ok\<close> whether \<open>calloc\<close> returns memory otherwise.
\<close>

definition hexport_r ::
  "henv \<Rightarrow> hsearch_data \<Rightarrow> u8 \<Rightarrow> int \<Rightarrow> bool \<Rightarrow> bool \<Rightarrow> nat \<Rightarrow> cstring list \<Rightarrow> int \<Rightarrow> int \<times> int \<times> u8 list option" where
  "hexport_r env htab sep flag resp_given calloc_ok sz args errno =
     (let eps = export_list env htab flag args;
          totlen = sum_list (map (entry_len sep) eps);
          sorted = qsort cmpkey eps
      in if sz \<noteq> 0 \<and> sz < totlen + 1 then (ENOMEM, - 1, None)
         else
           let sz' = (if sz \<noteq> 0 then sz else totlen + 1)
           in if \<not> resp_given \<and> \<not> calloc_ok then (ENOMEM, - 1, None)
              else (errno, int sz', Some (export_text sep sorted)))"

subsection \<open>Import\<close>

text \<open>The list of variables to import, in which a variable that was seen is set to \<open>NULL\<close>.\<close>

definition drop_var_from_set :: "cstring \<Rightarrow> cstring option list \<Rightarrow> bool \<times> cstring option list" where
  "drop_var_from_set name vars =
     (if vars = [] then (True, vars)
      else (Some name \<in> set vars, map (\<lambda>v. if v = Some name then None else v) vars))"

definition byte_at :: "u8 list \<Rightarrow> nat \<Rightarrow> u8" where
  "byte_at d i = (if i < length d then d ! i else 0)"

lemma byte_at_less: "byte_at d i \<noteq> 0 \<Longrightarrow> i < length d"
  by (auto simp: byte_at_def split: if_splits)

text \<open>The loop that removes each carriage return before a line feed, in place.\<close>

function crlf_loop :: "u8 list \<Rightarrow> nat \<Rightarrow> nat \<Rightarrow> nat \<Rightarrow> u8 list \<times> nat" where
  "crlf_loop d sz dp ignored_crs =
     (if dp < sz \<and> byte_at d dp \<noteq> 0 then
        if byte_at d dp = 13 \<and> dp < sz - 1 \<and> byte_at d (dp + 1) = 10
        then crlf_loop d sz (dp + 1) (ignored_crs + 1)
        else crlf_loop (d[dp - ignored_crs := byte_at d dp]) sz (dp + 1) ignored_crs
      else (d, ignored_crs))"
  by pat_completeness auto
termination
  by (relation "measure (\<lambda>(d, sz, dp, ignored). sz - dp)") auto

declare crlf_loop.simps [simp del]

function skip_blank :: "u8 list \<Rightarrow> nat \<Rightarrow> nat" where
  "skip_blank d dp = (if isblank (byte_at d dp) then skip_blank d (dp + 1) else dp)"
  by pat_completeness auto
termination
  by (relation "measure (\<lambda>(d, dp). length d - dp)") (auto simp: isblank_def byte_at_def split: if_splits)

declare skip_blank.simps [simp del]

text \<open>To the separator or the end: the comment loop, and with \<open>=\<close> as a further end the name loop.\<close>

function skip_line :: "u8 list \<Rightarrow> u8 \<Rightarrow> nat \<Rightarrow> nat" where
  "skip_line d sep dp = (if byte_at d dp \<noteq> 0 \<and> byte_at d dp \<noteq> sep then skip_line d sep (dp + 1) else dp)"
  by pat_completeness auto
termination
  by (relation "measure (\<lambda>(d, sep, dp). length d - dp)") (auto dest: byte_at_less)

declare skip_line.simps [simp del]

function skip_name :: "u8 list \<Rightarrow> u8 \<Rightarrow> nat \<Rightarrow> nat" where
  "skip_name d sep dp =
     (if byte_at d dp \<noteq> 61 \<and> byte_at d dp \<noteq> 0 \<and> byte_at d dp \<noteq> sep then skip_name d sep (dp + 1) else dp)"
  by pat_completeness auto
termination
  by (relation "measure (\<lambda>(d, sep, dp). length d - dp)") (auto dest: byte_at_less)

declare skip_name.simps [simp del]

text \<open>The value loop: the unescaped bytes and the position of the end.\<close>

function scan_value :: "u8 list \<Rightarrow> u8 \<Rightarrow> nat \<Rightarrow> u8 list \<times> nat" where
  "scan_value d sep dp =
     (if byte_at d dp \<noteq> 0 \<and> byte_at d dp \<noteq> sep then
        if byte_at d dp = 92 \<and> byte_at d (dp + 1) \<noteq> 0
        then (case scan_value d sep (dp + 2) of (v, e) \<Rightarrow> (byte_at d (dp + 1) # v, e))
        else (case scan_value d sep (dp + 1) of (v, e) \<Rightarrow> (byte_at d dp # v, e))
      else ([], dp))"
  by pat_completeness auto
termination
  by (relation "measure (\<lambda>(d, sep, dp). length d - dp)") (auto dest: byte_at_less)

declare scan_value.simps [simp del]

datatype import_act = Ignore | Delete cstring | Insert cstring cstring

text \<open>The parsing done by one iteration: the new read position and what the entry asks for.\<close>

definition import_entry :: "u8 list \<Rightarrow> u8 \<Rightarrow> nat \<Rightarrow> nat \<times> import_act" where
  "import_entry d sep dp0 =
     (let start = skip_blank d dp0
      in if byte_at d start = 35 then (skip_line d sep start + 1, Ignore)
         else
           let dp = skip_name d sep start; name = take (dp - start) (drop start d)
           in if byte_at d dp = 0 \<or> byte_at d (dp + 1) = 0 \<or> byte_at d dp = sep \<or> byte_at d (dp + 1) = sep
              then ((if byte_at d dp = 61 then dp + 1 else dp) + 1, Delete name)
              else case scan_value d sep (dp + 1) of (value, e) \<Rightarrow> (e + 1, Insert name value))"

lemma skip_blank_ge: "dp \<le> skip_blank d dp"
  by (induction d dp rule: skip_blank.induct) (subst skip_blank.simps, auto)

lemma skip_line_ge: "dp \<le> skip_line d sep dp"
  by (induction d sep dp rule: skip_line.induct) (subst skip_line.simps, auto)

lemma skip_name_ge: "dp \<le> skip_name d sep dp"
  by (induction d sep dp rule: skip_name.induct) (subst skip_name.simps, auto)

lemma scan_value_ge: "dp \<le> snd (scan_value d sep dp)"
  by (induction d sep dp rule: scan_value.induct) (subst scan_value.simps, auto split: prod.splits)

lemma import_entry_advances: "dp < fst (import_entry d sep dp)"
proof -
  have "dp \<le> skip_blank d dp" by (rule skip_blank_ge)
  moreover have "skip_blank d dp \<le> skip_line d sep (skip_blank d dp)" by (rule skip_line_ge)
  moreover have "skip_blank d dp \<le> skip_name d sep (skip_blank d dp)" by (rule skip_name_ge)
  moreover note scan_value_ge [of "skip_name d sep (skip_blank d dp) + 1" d sep]
  ultimately show ?thesis by (auto simp: import_entry_def Let_def split: prod.splits)
qed

lemma import_entry_less: "(dp', act) = import_entry d sep dp \<Longrightarrow> dp' < sz \<Longrightarrow> sz - dp' < sz - dp"
proof -
  assume e: "(dp', act) = import_entry d sep dp" "dp' < sz"
  then have "dp < dp'" using import_entry_advances [of dp d sep] by (metis fst_conv)
  then show ?thesis using e(2) by simp
qed

record import_state =
  im_htab :: hsearch_data
  im_vars :: "cstring option list"
  im_errno :: int

text \<open>
  What one iteration does with the entry: \<open>None\<close> when a search does not return, \<open>Inl\<close> the return on an
  empty key, else the new state.
\<close>

definition import_apply :: "henv \<Rightarrow> int \<Rightarrow> import_act \<Rightarrow> import_state \<Rightarrow> (import_state + import_state) option" where
  "import_apply env flag act st =
     (case act of
        Ignore \<Rightarrow> Some (Inr st)
      | Delete name \<Rightarrow>
          (case drop_var_from_set name (im_vars st) of (wanted, vars) \<Rightarrow>
             if \<not> wanted then Some (Inr (st\<lparr>im_vars := vars\<rparr>))
             else map_option (\<lambda>(h, e, ret). Inr \<lparr>im_htab = h, im_vars = vars, im_errno = e\<rparr>)
                    (hdelete_r env name (im_htab st) (im_errno st) flag))
      | Insert name value \<Rightarrow>
          if name = [] then Some (Inl (st\<lparr>im_errno := EINVAL\<rparr>))
          else
            (case drop_var_from_set name (im_vars st) of (wanted, vars) \<Rightarrow>
               if \<not> wanted then Some (Inr (st\<lparr>im_vars := vars\<rparr>))
               else map_option (\<lambda>(h, e, ret, rv). Inr \<lparr>im_htab = h, im_vars = vars, im_errno = e\<rparr>)
                      (hsearch_r env name (Some value) ENV_ENTER (im_htab st) (im_errno st) flag)))"

function import_loop ::
  "henv \<Rightarrow> u8 list \<Rightarrow> nat \<Rightarrow> u8 \<Rightarrow> int \<Rightarrow> nat \<Rightarrow> import_state \<Rightarrow> (import_state + import_state) option" where
  "import_loop env d sz sep flag dp st =
     (case import_entry d sep dp of (dp', act) \<Rightarrow>
        Option.bind (import_apply env flag act st) (\<lambda>r. case r of
          Inl st' \<Rightarrow> Some (Inl st')
        | Inr st' \<Rightarrow> if dp' < sz \<and> byte_at d dp' \<noteq> 0 then import_loop env d sz sep flag dp' st' else Some (Inr st')))"
  by pat_completeness auto
termination
  by (relation "measure (\<lambda>(env, d, sz, sep, flag, dp, st). sz - dp)")
    (auto intro: import_entry_less)

declare import_loop.simps [simp del]

text \<open>The variables that were asked for and not in the text are deleted.\<close>

fun delete_rest :: "henv \<Rightarrow> int \<Rightarrow> cstring option list \<Rightarrow> hsearch_data \<Rightarrow> int \<Rightarrow> (hsearch_data \<times> int) option" where
  "delete_rest env flag [] htab errno = Some (htab, errno)"
| "delete_rest env flag (None # vars) htab errno = delete_rest env flag vars htab errno"
| "delete_rest env flag (Some v # vars) htab errno =
     Option.bind (hdelete_r env v htab errno flag) (\<lambda>(h, e, ret). delete_rest env flag vars h e)"

text \<open>
  The configuration: \<open>CONFIG_ENV_MIN_ENTRIES\<close>, \<open>CONFIG_ENV_MAX_ENTRIES\<close>, \<open>ENV_APPEND\<close>, and whether
  \<open>malloc\<close> and \<open>calloc\<close> return memory.
\<close>

record import_config =
  min_entries :: nat
  max_entries :: nat
  env_append :: bool
  malloc_ok :: bool
  calloc_ok :: bool

definition himport_r ::
  "henv \<Rightarrow> import_config \<Rightarrow> hsearch_data \<Rightarrow> u8 list \<Rightarrow> nat \<Rightarrow> u8 \<Rightarrow> int \<Rightarrow> bool \<Rightarrow> cstring list \<Rightarrow> int \<Rightarrow>
   (hsearch_data \<times> int \<times> int) option" where
  "himport_r env cfg htab txt sz sep flag0 crlf_is_lf vars errno =
     (if \<not> malloc_ok cfg then Some (htab, ENOMEM, 0)
      else
        let data = take sz txt @ [0];
            flag = (if env_append cfg then flag0 OR H_NOCLEAR else flag0);
            htab1 = (if flag AND H_NOCLEAR = 0 \<and> vars = [] then hdestroy_r htab else htab);
            nent = min (min_entries cfg + sz div 8) (max_entries cfg)
        in Option.bind (if table htab1 = [] then hcreate_r (calloc_ok cfg) nent htab1 errno else Some (htab1, errno, 1))
             (\<lambda>(htab2, errno2, ok).
                if ok = 0 then Some (htab2, errno2, 0)
                else if sz = 0 then Some (htab2, errno2, 1)
                else
                  let (data', ignored) = (if crlf_is_lf then crlf_loop data sz 0 0 else (data, 0));
                      st = \<lparr>im_htab = htab2, im_vars = map Some vars, im_errno = errno2\<rparr>
                  in Option.bind (import_loop env data' (sz - ignored) sep flag 0 st) (\<lambda>r. case r of
                       Inl st' \<Rightarrow> Some (im_htab st', im_errno st', 0)
                     | Inr st' \<Rightarrow>
                         if flag AND H_NOCLEAR \<noteq> 0 then Some (im_htab st', im_errno st', 1)
                         else map_option (\<lambda>(h, e). (h, e, 1)) (delete_rest env flag (im_vars st') (im_htab st') (im_errno st')))))"

section \<open>Parsing what was exported\<close>

lemma byte_at_append: "byte_at (pre @ t) (length pre + i) = byte_at t i"
  by (simp add: byte_at_def nth_append)

lemma byte_at_append0: "byte_at (pre @ t) (length pre) = byte_at t 0"
  using byte_at_append [of pre t 0] by simp

lemma byte_at_Cons [simp]: "byte_at (c # t) 0 = c" "byte_at (c # t) (Suc i) = byte_at t i"
  by (simp_all add: byte_at_def)

lemma skip_name_text:
  "0 \<notin> set k \<Longrightarrow> 61 \<notin> set k \<Longrightarrow> sep \<notin> set k \<Longrightarrow>
    skip_name (pre @ k @ 61 # rest) sep (length pre) = length pre + length k"
proof (induction k arbitrary: pre)
  case Nil
  then show ?case by (subst skip_name.simps) (simp add: byte_at_append0)
next
  case (Cons c k)
  then show ?case using Cons.IH [of "pre @ [c]"] by (subst skip_name.simps) (auto simp: byte_at_append0)
qed

lemma scan_value_text:
  "0 \<notin> set v \<Longrightarrow> sep \<noteq> 92 \<Longrightarrow>
    scan_value (pre @ escape_value sep v @ sep # rest) sep (length pre) = (v, length pre + length (escape_value sep v))"
proof (induction v arbitrary: pre)
  case Nil
  then show ?case by (subst scan_value.simps) (simp add: byte_at_append0)
next
  case (Cons c v)
  show ?case
  proof (cases "c = sep \<or> c = 92")
    case True
    then have "scan_value (pre @ escape_value sep (c # v) @ sep # rest) sep (length pre) =
        (case scan_value ((pre @ [92, c]) @ escape_value sep v @ sep # rest) sep (length (pre @ [92, c])) of
           (v, e) \<Rightarrow> (c # v, e))"
      using Cons.prems byte_at_append [of pre "92 # c # escape_value sep v @ sep # rest" 1]
      by (subst scan_value.simps) (auto simp: byte_at_append0)
    then show ?thesis using Cons.IH [of "pre @ [92, c]"] Cons.prems True by simp
  next
    case False
    then have "scan_value (pre @ escape_value sep (c # v) @ sep # rest) sep (length pre) =
        (case scan_value ((pre @ [c]) @ escape_value sep v @ sep # rest) sep (length (pre @ [c])) of
           (v, e) \<Rightarrow> (c # v, e))"
      using Cons.prems by (subst scan_value.simps) (auto simp: byte_at_append0)
    then show ?thesis using Cons.IH [of "pre @ [c]"] Cons.prems False by simp
  qed
qed

text \<open>The keys and values that survive: what the export writes for them is read back.\<close>

definition name_ok :: "u8 \<Rightarrow> cstring \<Rightarrow> bool" where
  "name_ok sep k \<longleftrightarrow> k \<noteq> [] \<and> \<not> isblank (hd k) \<and> hd k \<noteq> 35 \<and> 0 \<notin> set k \<and> 61 \<notin> set k \<and> sep \<notin> set k"

definition value_ok :: "cstring \<Rightarrow> bool" where
  "value_ok v \<longleftrightarrow> v \<noteq> [] \<and> 0 \<notin> set v"

lemma hd_escape:
  assumes "value_ok v" "sep \<noteq> 92"
  shows "\<exists>c t. escape_value sep v = c # t \<and> c \<noteq> 0 \<and> c \<noteq> sep"
  using assms by (cases v) (auto simp: value_ok_def)

lemma import_entry_text:
  assumes "name_ok sep k" "value_ok v" "sep \<noteq> 92" "sep \<noteq> 61"
  shows "import_entry (pre @ entry_text sep k v @ rest) sep (length pre) =
    (length (pre @ entry_text sep k v), Insert k v)"
proof -
  let ?d = "pre @ entry_text sep k v @ rest"
  have d: "?d = pre @ k @ 61 # escape_value sep v @ sep # rest" by (simp add: entry_text_def)
  obtain c0 k' where k: "k = c0 # k'" "\<not> isblank c0" "c0 \<noteq> 35" using assms(1) by (cases k) (auto simp: name_ok_def)
  obtain c t where c: "escape_value sep v = c # t" "c \<noteq> 0" "c \<noteq> sep" using hd_escape [OF assms(2,3)] by blast
  have start: "byte_at ?d (length pre) = c0" unfolding d by (simp add: k byte_at_append0)
  have blank: "skip_blank ?d (length pre) = length pre" using start k by (subst skip_blank.simps) simp
  have name: "skip_name ?d sep (length pre) = length (pre @ k)"
    using skip_name_text [of k sep pre "escape_value sep v @ sep # rest"] assms(1) by (simp add: d name_ok_def)
  have eq: "byte_at ?d (length (pre @ k)) = 61" "byte_at ?d (length (pre @ k) + 1) = c"
    using byte_at_append [of "pre @ k" "61 # c # t @ sep # rest" 0] byte_at_append [of "pre @ k" "61 # c # t @ sep # rest" 1]
    by (simp_all add: d c)
  have val: "scan_value ?d sep (length (pre @ k) + 1) = (v, length (pre @ k) + 1 + length (escape_value sep v))"
    using scan_value_text [of v sep "pre @ k @ [61]" rest] assms(2,3) by (simp add: d value_ok_def)
  have slice: "take (length (pre @ k) - length pre) (drop (length pre) ?d) = k" by (simp add: d)
  show ?thesis
    unfolding import_entry_def Let_def blank start name slice eq val using k c assms(4) by (simp add: entry_text_def)
qed

section \<open>Importing a text of entries\<close>

definition text_of :: "u8 \<Rightarrow> (cstring \<times> cstring) list \<Rightarrow> u8 list" where
  "text_of sep kvs = concat (map (\<lambda>(k, v). entry_text sep k v) kvs)"

lemma text_of_simps [simp]:
  "text_of sep [] = []" "text_of sep ((k, v) # kvs) = entry_text sep k v @ text_of sep kvs"
  by (simp_all add: text_of_def)

definition enters :: "(cstring \<times> cstring) list \<Rightarrow> map_op list" where
  "enters kvs = map (\<lambda>(k, v). Enter k v) kvs"

lemma enters_simps [simp]: "enters [] = []" "enters ((k, v) # kvs) = Enter k v # enters kvs"
  by (simp_all add: enters_def)

lemma enters_keys: "op_key ` set (enters kvs) = fst ` set kvs"
  by (simp add: enters_def image_image case_prod_beta)

lemma fold_enters: "fold map_step (enters kvs) f = f ++ map_of (rev kvs)"
  by (induction kvs arbitrary: f) (auto simp: map_add_def fun_eq_iff split: option.splits)

lemma enter_apply:
  assumes "h_ok env (im_htab st)" "im_vars st = []" "k \<noteq> []"
    "k \<in> dom (hmap (im_htab st)) \<or> card (dom (hmap (im_htab st))) < h_size (im_htab st)"
  shows "import_apply env flag (Insert k v) st =
    Some (Inr (st\<lparr>im_htab := h_enter env (im_errno st) flag (im_htab st) k v\<rparr>))"
proof -
  obtain ret rv where "hsearch_r env k (Some v) ENV_ENTER (im_htab st) (im_errno st) flag =
      Some (h_enter env (im_errno st) flag (im_htab st) k v, im_errno st, ret, rv)"
    using h_enter_run [OF assms(1,4)] by blast
  then show ?thesis using assms(2,3) by (simp add: import_apply_def drop_var_from_set_def)
qed

lemma import_loop_text:
  assumes "\<forall>(k, v) \<in> set kvs. name_ok sep k \<and> value_ok v" "sep \<noteq> 92" "sep \<noteq> 61" "kvs \<noteq> []"
    "h_ok env (im_htab st)" "im_vars st = []"
    "card (dom (hmap (im_htab st)) \<union> fst ` set kvs) \<le> h_size (im_htab st)"
    "length pre + length (text_of sep kvs) \<le> sz"
  shows "import_loop env (pre @ text_of sep kvs @ 0 # rest) sz sep flag (length pre) st =
    Some (Inr (st\<lparr>im_htab := run_map (h_enter env (im_errno st) flag) (h_del env (im_errno st) flag) (enters kvs) (im_htab st)\<rparr>))"
  using assms
proof (induction kvs arbitrary: pre st)
  case (Cons kv kvs)
  obtain k v where kv: "kv = (k, v)" by fastforce
  let ?pre = "pre @ entry_text sep k v" and ?h = "im_htab st"
  let ?st = "st\<lparr>im_htab := h_enter env (im_errno st) flag ?h k v\<rparr>"
  have ok: "name_ok sep k" "value_ok v" using Cons.prems(1) kv by auto
  have room: "k \<in> dom (hmap ?h) \<or> card (dom (hmap ?h)) < h_size ?h"
    using htab_map.enter_room [of ?h k "fst ` set kvs"] Cons.prems(7) kv by simp
  have ent: "import_entry (pre @ text_of sep (kv # kvs) @ 0 # rest) sep (length pre) = (length ?pre, Insert k v)"
    using import_entry_text [OF ok Cons.prems(2,3), of pre "text_of sep kvs @ 0 # rest"] kv by simp
  have app: "import_apply env flag (Insert k v) st = Some (Inr ?st)"
    using enter_apply [OF Cons.prems(5,6) _ room] ok(1) by (simp add: name_ok_def)
  have byte: "byte_at (pre @ text_of sep (kv # kvs) @ 0 # rest) (length ?pre) = byte_at (text_of sep kvs @ 0 # rest) 0"
    using byte_at_append0 [of ?pre "text_of sep kvs @ 0 # rest"] kv by simp
  note h' = htab_map.enter_law [OF Cons.prems(5) room, of "im_errno st" flag v]
  show ?case
  proof (cases kvs)
    case Nil
    then show ?thesis using ent app byte kv by (subst import_loop.simps) simp
  next
    case (Cons kv' kvs')
    obtain k' v' where kv': "kv' = (k', v')" by fastforce
    have "name_ok sep k'" using Cons.prems(1) Cons kv' by auto
    then have more: "byte_at (text_of sep kvs @ 0 # rest) 0 \<noteq> 0" "0 < length (text_of sep kvs)"
      using Cons kv' by (cases k'; auto simp: name_ok_def entry_text_def)+
    have "import_loop env (?pre @ text_of sep kvs @ 0 # rest) sz sep flag (length ?pre) ?st =
        Some (Inr (?st\<lparr>im_htab := run_map (h_enter env (im_errno ?st) flag) (h_del env (im_errno ?st) flag) (enters kvs) (im_htab ?st)\<rparr>))"
    proof (rule Cons.IH)
      show "card (dom (hmap (im_htab ?st)) \<union> fst ` set kvs) \<le> h_size (im_htab ?st)"
        using Cons.prems(7) h' kv by simp
    qed (use Cons.prems Cons kv h' in auto)
    moreover have "length ?pre < sz" using Cons.prems(8) more(2) kv by (simp del: length_greater_0_conv)
    ultimately show ?thesis using ent app byte more(1) kv by (subst import_loop.simps) simp
  qed
qed simp

lemma import_loop_zeros:
  assumes "\<And>i. byte_at d i = 0" "h_wf (char_val env) (im_htab st)" "hmap (im_htab st) = Map.empty" "im_vars st = []"
  shows "\<exists>e. import_loop env d sz sep flag 0 st = Some (Inr (st\<lparr>im_errno := e\<rparr>))"
proof -
  have "skip_blank d 0 = 0" "skip_name d sep 0 = 0"
    unfolding skip_blank.simps [of d 0] skip_name.simps [of d sep 0] by (simp_all add: assms(1) isblank_def)
  then have ent: "import_entry d sep 0 = (1, Delete [])" by (simp add: import_entry_def assms(1))
  obtain e ret where "hdelete_r env [] (im_htab st) (im_errno st) flag = Some (im_htab st, e, ret)"
    using delete_spec [OF assms(2), of "[]" "im_errno st" flag] assms(3) by (auto split: if_splits)
  then show ?thesis
    using ent assms(1,4)
    by (cases st) (subst import_loop.simps, auto simp: import_apply_def drop_var_from_set_def)
qed

section \<open>What is exported\<close>

definition pairs :: "env_entry list \<Rightarrow> (cstring \<times> cstring) list" where
  "pairs eps = map (\<lambda>ep. (the (e_key ep), the (e_data ep))) eps"

lemma export_text_pairs: "export_text sep eps = text_of sep (pairs eps) @ [0]"
  by (simp add: export_text_def text_of_def pairs_def comp_def)

lemma export_list_all:
  assumes "h_wf cval htab" "flag AND H_HIDE_DOT = 0"
  shows "map_of (pairs (export_list env htab flag [])) = hmap htab"
    "(k, v) \<in> set (pairs (export_list env htab flag [])) \<longleftrightarrow> hmap htab k = Some v"
proof -
  have all: "export_list env htab flag [] = map entry (filter (\<lambda>nd. 0 < used nd) (tl (table htab)))"
    using assms h_wfD(3) [OF assms(1)] by (simp add: export_list_def export_wanted_def)
  show eq: "map_of (pairs (export_list env htab flag [])) = hmap htab"
    by (simp add: hmap_def pairs_def all comp_def)
  show "(k, v) \<in> set (pairs (export_list env htab flag [])) \<longleftrightarrow> hmap htab k = Some v"
  proof
    assume "(k, v) \<in> set (pairs (export_list env htab flag []))"
    then obtain nd where nd: "nd \<in> set (tl (table htab))" "0 < used nd" "k = the (e_key (entry nd))" "v = the (e_data (entry nd))"
      by (auto simp: all pairs_def)
    then obtain i where i: "i \<in> {1..h_size htab}" "nd = table htab ! i"
      using set_tl_nth [OF h_wfD(3) [OF assms(1)]] by auto
    then show "hmap htab k = Some v"
      using nd h_wfD(6) [OF assms(1) i(1)] hmap_holds [OF assms(1), of k v] by (auto simp: holds_def)
  next
    assume "hmap htab k = Some v"
    then show "(k, v) \<in> set (pairs (export_list env htab flag []))" by (metis eq map_of_SomeD)
  qed
qed

lemma set_pairs_qsort: "set (pairs (qsort c eps)) = set (pairs eps)"
  using mset_eq_setD [OF qsort_perm [of c eps]] by (simp add: pairs_def)

lemma map_of_rev_fun:
  assumes "\<And>k v. (k, v) \<in> set L \<longleftrightarrow> f k = Some v"
  shows "map_of (rev L) = f"
proof (rule ext)
  fix k
  show "map_of (rev L) k = f k"
  proof (cases "map_of (rev L) k")
    case None
    then have "\<nexists>v. (k, v) \<in> set L" by (simp add: map_of_eq_None_iff) force
    then show ?thesis using None assms by (cases "f k") auto
  next
    case (Some v)
    then show ?thesis using map_of_SomeD [OF Some] assms by simp
  qed
qed

lemma length_escape: "length (escape_value sep v) = length v + length (filter (\<lambda>c. c = sep \<or> c = 92) v)"
  by (induction v) auto

lemma sum_escape: "sum_list (map (\<lambda>c. if c = sep \<or> c = 92 then 2 else 1) v) = length (escape_value sep v)"
  by (induction v) auto

text \<open>The bytes that pass 1 of the export does not count: the escapes when the separator is null.\<close>

definition uncounted :: "u8 \<Rightarrow> env_entry list \<Rightarrow> nat" where
  "uncounted sep eps =
     (if sep = 0 then sum_list (map (\<lambda>ep. length (filter (\<lambda>c. c = 0 \<or> c = 92) (the (e_data ep)))) eps) else 0)"

lemma entry_text_length:
  "length (entry_text sep (the (e_key ep)) (the (e_data ep))) = entry_len sep ep + uncounted sep [ep]"
  by (simp add: entry_text_def entry_len_def uncounted_def length_escape sum_escape)

lemma uncounted_Cons: "uncounted sep (ep # eps) = uncounted sep [ep] + uncounted sep eps"
  by (simp add: uncounted_def)

lemma export_text_length: "length (export_text sep eps) = sum_list (map (entry_len sep) eps) + uncounted sep eps + 1"
proof (induction eps)
  case Nil
  then show ?case by (simp add: export_text_def uncounted_def)
next
  case (Cons ep eps)
  then show ?case
    using entry_text_length [of sep ep] by (simp add: export_text_def uncounted_Cons [of sep ep eps])
qed

lemma mset_sum_list_map: "mset xs = mset ys \<Longrightarrow> sum_list (map f xs) = sum_list (map f ys :: nat list)"
  by (metis mset_map sum_mset_sum_list)

lemma export_qsort_length:
  "length (export_text sep (qsort c eps)) = sum_list (map (entry_len sep) eps) + uncounted sep eps + 1"
  unfolding export_text_length uncounted_def
  using mset_sum_list_map [OF qsort_perm [of c eps]] by auto

section \<open>Properties\<close>

definition demo_config :: import_config where
  "demo_config = \<lparr>min_entries = 64, max_entries = 512, env_append = False, malloc_ok = True, calloc_ok = True\<rparr>"

text \<open>
  Importing the text of a list of pairs that is the graph of a finite map, padded with null bytes,
  gives a new table with that map.
\<close>

lemma import_pairs:
  assumes "env_ok env" "accepts env htab0" "sep \<noteq> 92" "sep \<noteq> 61"
    "\<And>k v. (k, v) \<in> set kvs \<longleftrightarrow> f k = Some v" "\<And>k v. f k = Some v \<Longrightarrow> name_ok sep k \<and> value_ok v"
    "txt = text_of sep kvs @ [0]" "length txt \<le> N" "malloc_ok cfg" "calloc_ok cfg" "\<not> env_append cfg"
    "nent = min (min_entries cfg + N div 8) (max_entries cfg)" "2 \<le> nent" "nent \<le> 521" "card (dom f) \<le> nent"
    "flag AND H_NOCLEAR = 0"
  shows "\<exists>htab' errno'. himport_r env cfg htab0 (txt @ replicate (N - length txt) 0) N sep flag False [] errno =
      Some (htab', errno', 1) \<and> h_ok env htab' \<and> hmap htab' = f"
proof -
  note kvs = assms(5) and out = assms(7)
  obtain h1 where h1: "hcreate_r True nent (hdestroy_r htab0) errno = Some (h1, errno, 1)" "h_wf (char_val env) h1"
    "hmap h1 = Map.empty" "nent \<le> h_size h1" "change_ok h1 = change_ok (hdestroy_r htab0)"
    using hcreate_spec [OF assms(13,14), of "hdestroy_r htab0" errno] by (auto simp: hdestroy_r_def)
  have ok1: "h_ok env h1"
    using h1 assms(1,2) accepts_cong [of h1 htab0 env] by (simp add: h_ok_def hdestroy_r_def)
  let ?st = "\<lparr>im_htab = h1, im_vars = [], im_errno = errno\<rparr>"
  let ?d = "take N (txt @ replicate (N - length txt) 0) @ [0]"
  have d: "?d = [] @ text_of sep kvs @ 0 # replicate (N - length txt) 0 @ [0]" using assms(8) by (simp add: out)
  have keys: "fst ` set kvs = dom f" using kvs by (force simp: dom_def)
  have N: "N \<noteq> 0" using assms(8) out by auto
  have run: "himport_r env cfg htab0 (txt @ replicate (N - length txt) 0) N sep flag False [] errno =
      Option.bind (import_loop env ?d N sep flag 0 ?st) (\<lambda>r. case r of
          Inl st' \<Rightarrow> Some (im_htab st', im_errno st', 0)
        | Inr st' \<Rightarrow> map_option (\<lambda>(h, e). (h, e, 1)) (delete_rest env flag (im_vars st') (im_htab st') (im_errno st')))"
    using assms(9-12,16) h1(1) N by (simp add: himport_r_def Let_def hdestroy_r_def)
  show ?thesis
  proof (cases "kvs = []")
    case True
    then have "byte_at ?d i = 0" for i unfolding d by (simp add: byte_at_def nth_append nth_Cons')
    then obtain e' where "import_loop env ?d N sep flag 0 ?st = Some (Inr (?st\<lparr>im_errno := e'\<rparr>))"
      using import_loop_zeros [where d = ?d and st = ?st and sep = sep and sz = N and flag = flag and env = env] h1(2,3) by auto
    moreover have "f = Map.empty" using kvs True by (intro ext) (metis list.set(1) empty_iff not_None_eq)
    ultimately show ?thesis using run ok1 h1(3) by simp
  next
    case False
    let ?h = "run_map (h_enter env errno flag) (h_del env errno flag) (enters kvs) h1"
    have "import_loop env ?d N sep flag (length ([] :: u8 list)) ?st = Some (Inr (?st\<lparr>im_htab := run_map (h_enter env (im_errno ?st) flag)
        (h_del env (im_errno ?st) flag) (enters kvs) (im_htab ?st)\<rparr>))"
      unfolding d
    proof (rule import_loop_text)
      show "\<forall>(k, v) \<in> set kvs. name_ok sep k \<and> value_ok v" using kvs assms(6) by auto
      show "card (dom (hmap (im_htab ?st)) \<union> fst ` set kvs) \<le> h_size (im_htab ?st)"
        using h1(3,4) keys assms(15) by simp
      show "length ([] :: u8 list) + length (text_of sep kvs) \<le> N" using assms(8) out by simp
    qed (use assms(3,4) False ok1 in auto)
    moreover have "h_ok env ?h \<and> h_size ?h = h_size h1 \<and> hmap ?h = fold map_step (enters kvs) (hmap h1)"
      using h1(3,4) keys assms(15) by (intro htab_map.run_map_spec [OF ok1]) (simp add: enters_keys)
    moreover have "fold map_step (enters kvs) (hmap h1) = f"
      using fold_enters [of kvs "hmap h1"] map_of_rev_fun [of kvs f] kvs h1(3) by simp
    ultimately show ?thesis using run by simp
  qed
qed

text \<open>
  Round trip: exporting a table with no filter and importing the text, padded with null bytes to
  the size of the buffer, gives a new table with the same map, for every separator other than the
  backslash and the equals sign, provided that names are not empty, do not begin with a blank or a
  hash sign and contain no null, equals or separator byte, values are not empty and contain no null
  byte, the text fits the buffer and the new table has room for the variables.\<close>
theorem export_import_roundtrip:
  assumes "h_ok env htab" "flag AND H_HIDE_DOT = 0" "sep \<noteq> 92" "sep \<noteq> 61"
    "\<And>k v. hmap htab k = Some v \<Longrightarrow> name_ok sep k \<and> value_ok v"
    "hexport_r env htab sep flag given True 0 [] errno = (errno1, r, Some txt)"
    "length txt \<le> N" "malloc_ok cfg" "calloc_ok cfg" "\<not> env_append cfg"
    "nent = min (min_entries cfg + N div 8) (max_entries cfg)" "2 \<le> nent" "nent \<le> 521"
    "card (dom (hmap htab)) \<le> nent" "accepts env htab0"
  shows "\<exists>htab' errno'. himport_r env cfg htab0 (txt @ replicate (N - length txt) 0) N sep 0 False [] errno =
      Some (htab', errno', 1) \<and> h_ok env htab' \<and> hmap htab' = hmap htab"
proof -
  have wf: "h_wf (char_val env) htab" "env_ok env" using assms(1) by (auto simp: h_ok_def)
  define kvs where "kvs = pairs (qsort cmpkey (export_list env htab flag []))"
  have kvs: "(k, v) \<in> set kvs \<longleftrightarrow> hmap htab k = Some v" for k v
    unfolding kvs_def set_pairs_qsort by (rule export_list_all [OF wf(1) assms(2)])
  have out: "txt = text_of sep kvs @ [0]"
    using assms(6) by (simp add: hexport_r_def Let_def export_text_pairs kvs_def split: if_splits)
  show ?thesis
    by (rule import_pairs [OF wf(2) assms(15,3,4) kvs assms(5) out assms(7-14)]) simp_all
qed

theorem export_import_roundtrip_witness:
  "\<exists>htab txt r htab' errno'. hmap htab = [[97] \<mapsto> [92, 10]] \<and>
     hexport_r demo_env htab 10 0 True True 0 [] 0 = (0, r, Some txt) \<and>
     himport_r demo_env demo_config no_table (txt @ [0]) (length txt + 1) 10 0 False [] 0 = Some (htab', errno', 1) \<and>
     hmap htab' = hmap htab"
proof -
  obtain htab where h: "h_ok demo_env htab" "hmap htab = [[97] \<mapsto> [92, 10]]" by (rule demo_table)
  obtain r out where run: "hexport_r demo_env htab 10 0 True True 0 [] 0 = (0, r, Some out)"
    by (simp add: hexport_r_def Let_def)
  have "\<exists>htab' errno'. himport_r demo_env demo_config no_table (out @ replicate (length out + 1 - length out) 0)
      (length out + 1) 10 0 False [] 0 = Some (htab', errno', 1) \<and> h_ok demo_env htab' \<and> hmap htab' = hmap htab"
  proof (rule export_import_roundtrip [OF h(1) _ _ _ _ run])
    show "hmap htab k = Some v \<Longrightarrow> name_ok 10 k \<and> value_ok v" for k v
      using h(2) by (auto simp: name_ok_def value_ok_def isblank_def split: if_splits)
  qed (use h(2) demo_env_simps in \<open>auto simp: demo_config_def no_table_def\<close>)
  then show ?thesis using h(2) run by auto
qed

text \<open>
  The export into a buffer it sizes itself writes exactly the number of bytes it returns when the
  separator is not null. With a null separator the first pass does not count the escapes that the
  second pass still writes, so it writes past the end of that buffer by one byte for each backslash
  in an exported value.\<close>
theorem export_length:
  assumes "hexport_r env htab sep flag given True 0 args errno = (errno1, r, Some txt)"
  shows "int (length txt) = r + int (uncounted sep (export_list env htab flag args))"
  using assms by (auto simp: hexport_r_def Let_def export_qsort_length split: if_splits)

definition backslash_table :: hsearch_data where
  "backslash_table = \<lparr>table = [empty_node, \<lparr>used = 1, entry = empty_entry\<lparr>e_key := Some [97], e_data := Some [92, 98]\<rparr>\<rparr>,
     empty_node, empty_node, empty_node, empty_node], h_size = 5, filled = 1, change_ok = None\<rparr>"

theorem export_length_witness:
  "\<exists>txt. hexport_r demo_env backslash_table 0 0 False True 0 [] 0 = (0, 6, Some txt) \<and> length txt = 7"
proof -
  have run: "hexport_r demo_env backslash_table 0 0 False True 0 [] 0 = (0, 6, Some [97, 61, 92, 92, 98, 0, 0])"
    and extra: "uncounted 0 (export_list demo_env backslash_table 0 []) = 1" by code_simp+
  show ?thesis using run export_length [OF run] extra by simp
qed

text \<open>
  The import that takes the carriage returns out of a text moves the rest down in place and leaves
  its old last bytes behind the new end, and the value parser reads on to the null byte: a last line
  without a line feed gets bytes that are not in the text, here the value 22 instead of 2.\<close>
theorem import_crlf_tail:
  "map_option (\<lambda>(h, e, r). (r, hmap h [97], hmap h [98]))
     (himport_r demo_env demo_config
        \<lparr>table = replicate 6 empty_node, h_size = 5, filled = 0, change_ok = None\<rparr>
        [97, 61, 49, 13, 10, 98, 61, 50] 8 10 1 True [] 0) = Some (1, Some [49], Some [50, 50])"
  by code_simp

end
