(* ===== verification/Strto.thy ===== *)
theory Strto
  imports Strings
begin

text \<open>
  Numbers out of text: \<open>lib/strto.c\<close> on the byte store, for the 64-bit build (\<open>ulong\<close> and
  \<open>unsigned long long\<close> are both 64 bits wide, and a signed result is the same word read with
  \<open>sint\<close>). A routine returns its value together with the pointer it stores through \<open>endp\<close>. The
  scan stops at the first character that is not a digit of the base; \<open>None\<close> means that it never
  stops. The lemmas relate the wrapping accumulator to the number that the digits denote.
\<close>

section \<open>Model\<close>

definition parse_integer_fixup_radix :: "mem \<Rightarrow> ptr \<Rightarrow> u32 \<Rightarrow> ptr \<times> u32" where
  "parse_integer_fixup_radix m s base =
     (let (s', base') =
            (if m s = 48 then
               if tolower (m (s + 1)) = 120 then (s + 2, 16)
               else if base = 0 then (s, 8) else (s, base)
             else (s, base))
      in (s', if base' = 0 then 10 else base'))"

definition decode_digit :: "u8 \<Rightarrow> u32" where
  "decode_digit ch =
     (if \<not> isxdigit ch then 256
      else let ch' = tolower ch in if ch' \<le> 57 then ucast ch' - 48 else ucast ch' - 97 + 0xa)"

partial_function (option) strtoul_loop :: "mem \<Rightarrow> ptr \<Rightarrow> u32 \<Rightarrow> u64 \<Rightarrow> (u64 \<times> ptr) option" where
  "strtoul_loop m cp base result =
     (let value = decode_digit (m cp)
      in if value < base then strtoul_loop m (cp + 1) base (result * ucast base + ucast value)
         else Some (result, cp))"

definition simple_strtoul :: "mem \<Rightarrow> ptr \<Rightarrow> u32 \<Rightarrow> (u64 \<times> ptr) option" where
  "simple_strtoul m cp base =
     (let (cp', base') = parse_integer_fixup_radix m cp base in strtoul_loop m cp' base' 0)"

definition hextoul :: "mem \<Rightarrow> ptr \<Rightarrow> (u64 \<times> ptr) option" where
  "hextoul m cp = simple_strtoul m cp 16"

definition dectoul :: "mem \<Rightarrow> ptr \<Rightarrow> (u64 \<times> ptr) option" where
  "dectoul m cp = simple_strtoul m cp 10"

text \<open>\<open>strict_strtoul\<close>: the return code and the value of \<open>*res\<close>.\<close>

definition strict_strtoul :: "mem \<Rightarrow> ptr \<Rightarrow> u32 \<Rightarrow> (int \<times> u64) option" where
  "strict_strtoul m cp base =
     Option.bind (strlen m cp) (\<lambda>len.
       if len = 0 then Some (- EINVAL, 0)
       else map_option (\<lambda>(val, tail).
              if tail = cp then (- EINVAL, 0)
              else if m tail = 0 \<or> len = tail - cp + 1 \<and> m tail = 10 then (0, val)
              else (- EINVAL, 0)) (simple_strtoul m cp base))"

definition simple_strtol :: "mem \<Rightarrow> ptr \<Rightarrow> u32 \<Rightarrow> (u64 \<times> ptr) option" where
  "simple_strtol m cp base =
     (if m cp = 45 then map_option (\<lambda>(r, e). (- r, e)) (simple_strtoul m (cp + 1) base)
      else simple_strtoul m cp base)"

text \<open>The suffix \<open>switch\<close> with its fall-through, shared in form by \<open>ustrtoul\<close> and \<open>ustrtoull\<close>.\<close>

definition suffix_scale :: "u8 \<Rightarrow> u64 \<Rightarrow> u64" where
  "suffix_scale c result =
     (if c = 103 then result * 1024 * 1024 * 1024
      else if c = 109 then result * 1024 * 1024
      else if c = 107 then result * 1024 else result)"

definition suffix_end :: "mem \<Rightarrow> u8 \<Rightarrow> ptr \<Rightarrow> ptr" where
  "suffix_end m c endp =
     (if c = 103 \<or> c = 109 \<or> c = 107 then
        let e1 = endp + 1;
            e2 = (if m e1 = 105 then e1 + 1 else e1)
        in if m e2 = 66 then e2 + 1 else e2
      else endp)"

definition ustrtoul :: "mem \<Rightarrow> ptr \<Rightarrow> u32 \<Rightarrow> (u64 \<times> ptr) option" where
  "ustrtoul m cp base =
     map_option (\<lambda>(result, endp).
       let c = tolower (m endp) in (suffix_scale c result, suffix_end m c endp))
       (simple_strtoul m cp base)"

definition simple_strtoull :: "mem \<Rightarrow> ptr \<Rightarrow> u32 \<Rightarrow> (u64 \<times> ptr) option" where
  "simple_strtoull m cp base =
     (let (cp', base') = parse_integer_fixup_radix m cp base in strtoul_loop m cp' base' 0)"

definition ustrtoull :: "mem \<Rightarrow> ptr \<Rightarrow> u32 \<Rightarrow> (u64 \<times> ptr) option" where
  "ustrtoull m cp base =
     map_option (\<lambda>(result, endp).
       let c = tolower (m endp) in (suffix_scale c result, suffix_end m c endp))
       (simple_strtoull m cp base)"

definition simple_strtoll :: "mem \<Rightarrow> ptr \<Rightarrow> u32 \<Rightarrow> (u64 \<times> ptr) option" where
  "simple_strtoll m cp base =
     (if m cp = 45 then map_option (\<lambda>(r, e). (- r, e)) (simple_strtoull m (cp + 1) base)
      else simple_strtoull m cp base)"

text \<open>
  The \<open>do ... while\<close> of \<open>trailing_strtoln_end\<close>, entered with \<open>str < p\<close>: where the last run of
  digits begins, or \<open>None\<close> when the run reaches \<open>str\<close>.
\<close>

function trailing_loop :: "mem \<Rightarrow> ptr \<Rightarrow> ptr \<Rightarrow> ptr option" where
  "trailing_loop m str p =
     (if \<not> isdigit (m (p - 1)) then Some p
      else if p - 1 > str then trailing_loop m str (p - 1) else None)"
  by pat_completeness auto
termination
  by (relation "measure (\<lambda>(m, str, p). p)") auto

declare trailing_loop.simps [simp del]

text \<open>The result, and the pointer stored in \<open>*endp\<close>; \<open>NULL\<close> as \<open>end\<close> asks for the whole string.\<close>

definition trailing_strtoln_end :: "mem \<Rightarrow> ptr \<Rightarrow> ptr \<Rightarrow> (u64 \<times> ptr) option" where
  "trailing_strtoln_end m str end0 =
     Option.bind (if end0 = NULL then map_option (\<lambda>n. str + n) (strlen m str) else Some end0) (\<lambda>e.
       if e > str + 1 \<and> isdigit (m (e - 1)) then
         (case trailing_loop m str (e - 1) of
            Some p \<Rightarrow> map_option (\<lambda>(v, _). (v, p)) (dectoul m p)
          | None \<Rightarrow> Some (- 1, e))
       else Some (- 1, e))"

definition trailing_strtoln :: "mem \<Rightarrow> ptr \<Rightarrow> ptr \<Rightarrow> u64 option" where
  "trailing_strtoln m str end0 = map_option fst (trailing_strtoln_end m str end0)"

definition trailing_strtol :: "mem \<Rightarrow> ptr \<Rightarrow> u64 option" where
  "trailing_strtol m str = trailing_strtoln m str NULL"

fun str_to_upper :: "mem \<Rightarrow> ptr \<Rightarrow> ptr \<Rightarrow> nat \<Rightarrow> mem" where
  "str_to_upper m inp out 0 = m"
| "str_to_upper m inp out (Suc len) =
     (if m inp \<noteq> 0 then str_to_upper (m(out := toupper (m inp))) (inp + 1) (out + 1) len
      else m(out := 0))"

text \<open>The counting loop of \<open>str_to_list\<close>: it ends every word and counts the words.\<close>

partial_function (option) split_loop :: "mem \<Rightarrow> ptr \<Rightarrow> nat \<Rightarrow> (mem \<times> nat) option" where
  "split_loop m p count =
     (if m p \<noteq> 0 then
        if m p = 32 then split_loop (m(p := 0)) (p + 1) (count + 1) else split_loop m (p + 1) count
      else Some (m, count))"

text \<open>The loop that fills the pointer array, with \<open>n\<close> entries to go.\<close>

fun fill_loop :: "mem \<Rightarrow> ptr \<Rightarrow> nat \<Rightarrow> ptr list option" where
  "fill_loop m p 0 = Some []"
| "fill_loop m p (Suc n) =
     Option.bind (strlen m p) (\<lambda>len. map_option ((#) p) (fill_loop m (p + len + 1) n))"

text \<open>
  \<open>str_to_list\<close>: the store, the pointer array (its \<open>NULL\<close> entries after the last word left out;
  \<open>None\<close> for a \<open>NULL\<close> result) and the blocks given to \<open>free\<close>. \<open>alloc\<close> is \<open>malloc\<close> as \<open>strdup\<close> sees
  it and \<open>calloc_ok n\<close> says whether an array of \<open>n\<close> pointers can be had.
\<close>

definition str_to_list ::
  "(nat \<Rightarrow> ptr) \<Rightarrow> (nat \<Rightarrow> bool) \<Rightarrow> mem \<Rightarrow> ptr \<Rightarrow> (mem \<times> ptr list option \<times> ptr list) option" where
  "str_to_list alloc calloc_ok m instr =
     Option.bind (if m instr \<noteq> 0 then strdup alloc m instr else Some (m, instr)) (\<lambda>(m1, str).
       if str = NULL then Some (m1, None, [])
       else Option.bind (split_loop m1 str (if m1 str \<noteq> 0 then 1 else 0)) (\<lambda>(m2, count).
         if \<not> calloc_ok (count + 1) then Some (m2, None, if m2 str \<noteq> 0 then [str] else [])
         else map_option (\<lambda>ps. (m2, Some ps, [])) (fill_loop m2 str count)))"

text \<open>What \<open>str_free_list\<close> frees besides the array: its first entry, \<open>NULL\<close> in an empty list.\<close>

definition str_free_list :: "ptr list option \<Rightarrow> ptr list" where
  "str_free_list ps = (case ps of None \<Rightarrow> [] | Some [] \<Rightarrow> [NULL] | Some (p # _) \<Rightarrow> [p])"

declare strtoul_loop.simps [code] split_loop.simps [code]

section \<open>The value of a digit string\<close>

definition digit :: "u8 \<Rightarrow> nat" where
  "digit c = unat (decode_digit c)"

definition digits_val :: "nat \<Rightarrow> u8 list \<Rightarrow> nat" where
  "digits_val b ds = foldl (\<lambda>r d. r * b + digit d) 0 ds"

lemma unat_u8_to_u32: "unat (ucast (x :: u8) :: u32) = unat x"
  using unat_u8_less [of x] by (simp add: unsigned_ucast_eq take_bit_nat_eq_self_iff)

lemma unat_decode_digit:
  "unat (decode_digit c) =
     (if 48 \<le> unat c \<and> unat c \<le> 57 then unat c - 48
      else if 65 \<le> unat c \<and> unat c \<le> 70 then unat c - 55
      else if 97 \<le> unat c \<and> unat c \<le> 102 then unat c - 87 else 256)"
proof -
  have le: "(tolower c \<le> 57) = (unat (tolower c) \<le> 57)" by (simp add: word_le_nat_alt)
  have sub: "unat (ucast x - k :: u32) = unat x - unat k" if "unat k \<le> unat x" for x :: u8 and k :: u32
    using that by (subst unat_sub) (auto simp: word_le_nat_alt unat_u8_to_u32)
  have big: "unat (ucast (tolower c) - 97 + 0xa :: u32) = unat (tolower c) - 87" if "97 \<le> unat (tolower c)" "unat (tolower c) \<le> 102"
    using that sub [of 97 "tolower c"] by (subst unat_plus_no_wrap) auto
  show ?thesis
    using big sub [of 48 "tolower c"]
    by (auto simp: decode_digit_def isxdigit_iff le unat_tolower isupper_iff Let_def)
qed

lemma decode_digit_0 [simp]: "decode_digit 0 = 256"
  by (rule word_unat_eq_iff [THEN iffD2]) (simp add: unat_decode_digit)

lemma digit_of_nondigit: "\<not> isxdigit c \<Longrightarrow> digit c = 256"
  by (simp add: digit_def decode_digit_def)

lemma digits_val_snoc: "digits_val b (ds @ [d]) = digits_val b ds * b + digit d"
  by (simp add: digits_val_def)

text \<open>The accumulator wraps, and so holds the value of the digits modulo the word size.\<close>

lemma strtoul_loop_digits:
  assumes "mem_bytes m p (length ds) = ds" "\<forall>d\<in>set ds. digit d < unat base"
    and "unat base \<le> digit (m (p + length ds))"
  shows "strtoul_loop m p base (word_of_nat n) =
           Some (word_of_nat (foldl (\<lambda>r d. r * unat base + digit d) n ds), p + length ds)"
  using assms
proof (induction ds arbitrary: p n)
  case Nil
  then show ?case by (simp add: strtoul_loop.simps [of m p] digit_def word_less_nat_alt)
next
  case (Cons d ds)
  then have hd: "m p = d" "decode_digit d < base" and tl: "mem_bytes m (Suc p) (length ds) = ds"
    by (auto simp: mem_bytes_Suc digit_def word_less_nat_alt)
  have acc: "word_of_nat n * ucast base + ucast (decode_digit d) = (word_of_nat (n * unat base + digit d) :: u64)"
    by (simp add: digit_def)
  have "strtoul_loop m p base (word_of_nat n) = strtoul_loop m (Suc p) base (word_of_nat (n * unat base + digit d))"
    using hd by (simp add: strtoul_loop.simps [of m p] acc Let_def)
  also have "\<dots> = Some (word_of_nat (foldl (\<lambda>r d. r * unat base + digit d) (n * unat base + digit d) ds), Suc p + length ds)"
    using Cons.prems tl by (intro Cons.IH) auto
  finally show ?case by simp
qed

section \<open>Parsing a terminated string\<close>

text \<open>What the prefix of a string says of its base: the length of the prefix and the base.\<close>

definition radix_prefix :: "nat \<Rightarrow> u8 list \<Rightarrow> nat \<times> nat" where
  "radix_prefix base xs =
     (if 1 < length xs \<and> xs ! 0 = 48 \<and> tolower (xs ! 1) = 120 then (2, 16)
      else (0, if base \<noteq> 0 then base else if xs \<noteq> [] \<and> xs ! 0 = 48 then 8 else 10))"

text \<open>The digits that a parse in base \<open>b\<close> consumes after a prefix of \<open>k\<close> characters.\<close>

definition leading_digits :: "nat \<Rightarrow> u8 list \<Rightarrow> u8 list" where
  "leading_digits b xs = takeWhile (\<lambda>c. digit c < b) xs"

lemma tolower_0 [simp]: "tolower 0 = 0"
  by (simp add: tolower_def isupper_iff)

lemma fixup_radix_cstr:
  assumes "cstr m p xs"
  shows "parse_integer_fixup_radix m p base =
           (p + fst (radix_prefix (unat base) xs), word_of_nat (snd (radix_prefix (unat base) xs)))"
proof -
  have z: "(unat base = 0) = (base = 0)" by (simp add: unat_eq_0)
  show ?thesis
  proof (cases xs)
    case Nil
    then show ?thesis using assms z by (simp add: parse_integer_fixup_radix_def radix_prefix_def)
  next
    case (Cons x ys)
    then show ?thesis using assms z
      by (cases ys) (auto simp: parse_integer_fixup_radix_def radix_prefix_def Let_def)
  qed
qed

lemma radix_prefix_base: "base \<le> 256 \<Longrightarrow> 0 < snd (radix_prefix base xs) \<and> snd (radix_prefix base xs) \<le> 256"
  by (simp add: radix_prefix_def)

lemma radix_prefix_len: "fst (radix_prefix base xs) \<le> length xs"
  by (simp add: radix_prefix_def)

lemma digit_0 [simp]: "digit 0 = 256"
  by (simp add: digit_def)

lemma simple_strtoul_cstr:
  assumes "cstr m p xs" "unat base \<le> 256" "radix_prefix (unat base) xs = (k, b)"
    and "ds = leading_digits b (drop k xs)"
  shows "simple_strtoul m p base = Some (word_of_nat (digits_val b ds), p + k + length ds)"
proof -
  have b: "0 < b" "b \<le> 256" using radix_prefix_base [OF assms(2), of xs] assms(3) by simp_all
  then have ub: "unat (word_of_nat b :: u32) = b" by (simp add: unat_of_nat)
  have "k \<le> length xs" using radix_prefix_len [of "unat base" xs] assms(3) by simp
  then have c: "cstr m (p + k) (drop k xs)" by (rule cstr_drop [OF assms(1)])
  have bytes: "mem_bytes m (p + k) (length ds) = ds"
    using cstr_take_drop [OF c, of 0 "length ds"] unfolding assms(4) leading_digits_def
    using length_takeWhile_le [of "\<lambda>c. digit c < b" "drop k xs"] by (simp add: takeWhile_eq_take [symmetric])
  have all: "\<forall>d\<in>set ds. digit d < b" unfolding assms(4) leading_digits_def by (auto dest: set_takeWhileD)
  have stop: "b \<le> digit (m (p + k + length ds))"
    using cstr_at_takeWhile [OF c, of "\<lambda>c. digit c < b"] hd_dropWhile [of "\<lambda>c. digit c < b" "drop k xs"] b
    unfolding assms(4) leading_digits_def by (auto simp del: dropWhile_eq_Nil_conv simp: not_less)
  show ?thesis
    using strtoul_loop_digits [of m "p + k" ds "word_of_nat b" 0] bytes all stop
    by (simp add: simple_strtoul_def fixup_radix_cstr [OF assms(1)] assms(3) ub digits_val_def)
qed

lemma simple_strtoull_eq: "simple_strtoull = simple_strtoul"
  by (intro ext) (simp add: simple_strtoull_def simple_strtoul_def)

lemma takeWhile_drop_tail:
  "k + length (leading_digits b (drop k xs)) \<le> length xs \<or> length xs < k"
  using length_takeWhile_le [of "\<lambda>c. digit c < b" "drop k xs"] by (auto simp: leading_digits_def)

lemma cstr_tail:
  assumes "cstr m q ys"
  shows "(m q = 0) = (ys = [])" "(length ys = 1 \<and> m q = 10) = (ys = [10])"
  using assms by (cases ys; auto)+



section \<open>Trailing numbers\<close>

lemma digit_isdigit: "isdigit c \<longleftrightarrow> digit c < 10"
  using unat_u8_less [of c] by (auto simp: isdigit_iff digit_def unat_decode_digit)

lemma dectoul_digits:
  assumes "cstr m p ds" "\<forall>d\<in>set ds. isdigit d"
  shows "dectoul m p = Some (word_of_nat (digits_val 10 ds), p + length ds)"
proof -
  have "tolower (ds ! 1) \<noteq> 120" if "1 < length ds"
  proof
    assume x: "tolower (ds ! 1) = 120"
    have "isdigit (ds ! 1)" using assms(2) that by simp
    then have "unat (tolower (ds ! 1)) \<le> 57" by (simp add: unat_tolower isupper_iff isdigit_iff)
    then show False unfolding x by simp
  qed
  then have "radix_prefix (unat (10 :: u32)) ds = (0, 10)" by (auto simp: radix_prefix_def)
  moreover have "ds = leading_digits 10 (drop 0 ds)"
    using assms(2) by (simp add: leading_digits_def digit_isdigit takeWhile_eq_all_conv [THEN iffD2])
  ultimately show ?thesis
    using simple_strtoul_cstr [OF assms(1), of 10 0 10 ds] by (simp add: dectoul_def)
qed

text \<open>Walking back over the digits that end the string stops where they begin.\<close>

lemma trailing_loop_run:
  assumes "cstr m str (pre @ ds)" "\<forall>d\<in>set ds. isdigit d" "pre = [] \<or> \<not> isdigit (last pre)"
    and "length pre \<le> j" "j \<le> length (pre @ ds)" "0 < j"
  shows "trailing_loop m str (str + j) = (if pre = [] then None else Some (str + length pre))"
  using assms(4-)
proof (induction j)
  case (Suc j)
  have at: "m (str + j) = (pre @ ds) ! j" using cstr_nth [OF assms(1), of j] Suc.prems by simp
  show ?case
  proof (cases "length pre = Suc j")
    case True
    then have "\<not> isdigit (m (str + j))" using at assms(3) by (cases pre rule: rev_cases) (auto simp: nth_append)
    then show ?thesis using True by (subst trailing_loop.simps) auto
  next
    case False
    then have "isdigit (m (str + j))" using at assms(2) Suc.prems by (auto simp: nth_append)
    then show ?thesis using Suc False by (subst trailing_loop.simps) (cases pre; auto)
  qed
qed simp

text \<open>The last run of digits of a string.\<close>

definition digit_tail :: "u8 list \<Rightarrow> u8 list" where
  "digit_tail xs = rev (takeWhile isdigit (rev xs))"

lemma digit_tail_split:
  obtains pre where "xs = pre @ digit_tail xs" "\<forall>d\<in>set (digit_tail xs). isdigit d"
    "pre = [] \<or> \<not> isdigit (last pre)"
proof
  let ?pre = "rev (dropWhile isdigit (rev xs))"
  show "xs = ?pre @ digit_tail xs"
    by (metis digit_tail_def rev_append rev_rev_ident takeWhile_dropWhile_id)
  show "\<forall>d\<in>set (digit_tail xs). isdigit d" by (auto simp: digit_tail_def dest: set_takeWhileD)
  show "?pre = [] \<or> \<not> isdigit (last ?pre)"
    using hd_dropWhile [of isdigit "rev xs"] by (auto simp: last_rev simp del: dropWhile_eq_Nil_conv)
qed

text \<open>
  \<open>trailing_strtol\<close> returns the value of the digits that end a terminated string, modulo
  \<open>2 ^ 64\<close>, when there is at least one digit and something before the digits, and -1 otherwise.\<close>

theorem trailing_strtol_number:
  assumes "cstr m str xs"
  shows "trailing_strtol m str =
           Some (if digit_tail xs \<noteq> [] \<and> digit_tail xs \<noteq> xs then word_of_nat (digits_val 10 (digit_tail xs)) else - 1)"
proof -
  obtain pre where split: "xs = pre @ digit_tail xs" and ds: "\<forall>d\<in>set (digit_tail xs). isdigit d"
    and pre: "pre = [] \<or> \<not> isdigit (last pre)" by (rule digit_tail_split)
  let ?e = "str + length xs"
  have same: "(digit_tail xs = xs) = (pre = [])" by (subst (2) split) auto
  have start: "trailing_strtoln_end m str NULL =
      (if ?e > str + 1 \<and> isdigit (m (?e - 1)) then
         (case trailing_loop m str (?e - 1) of
            Some p \<Rightarrow> map_option (\<lambda>(v, _). (v, p)) (dectoul m p) | None \<Rightarrow> Some (- 1, ?e))
       else Some (- 1, ?e))"
    by (simp add: trailing_strtoln_end_def strlen_cstr [OF assms])
  have lastd: "isdigit (m (?e - 1)) = (digit_tail xs \<noteq> [])" if "xs \<noteq> []"
  proof -
    have "?e - 1 = str + (length xs - 1)" using that by (cases xs) auto
    then have "m (?e - 1) = last xs"
      using cstr_nth [OF assms, of "length xs - 1"] that by (simp add: last_conv_nth)
    then show ?thesis using that by (cases xs rule: rev_cases) (auto simp: digit_tail_def)
  qed
  show ?thesis
  proof (cases "1 < length xs \<and> digit_tail xs \<noteq> []")
    case True
    then have len: "length pre \<le> length xs - 1"
      by (subst split) (cases "digit_tail xs"; simp)
    have "trailing_loop m str (str + (length xs - 1)) = (if pre = [] then None else Some (str + length pre))"
      using assms True len split by (intro trailing_loop_run [OF _ ds pre]) (auto simp flip: split)
    moreover have "cstr m (str + length pre) (digit_tail xs)"
      using cstr_drop [OF assms, of "length pre"] split by (metis append_eq_conv_conj le_add1 length_append)
    moreover have "xs \<noteq> []" using True by auto
    ultimately show ?thesis
      using True lastd dectoul_digits [OF _ ds] start same
      by (auto simp: trailing_strtol_def trailing_strtoln_def split: if_splits)
  next
    case False
    then have "digit_tail xs = [] \<or> digit_tail xs = xs" using split
      by (cases pre) (auto simp: not_less, metis Suc_le_lessD add_is_0 append_is_Nil_conv length_0_conv length_append length_Cons less_Suc0 plus_nat.simps(2))
    then show ?thesis using start False lastd
      by (cases xs) (auto simp: trailing_strtol_def trailing_strtoln_def)
  qed
qed

theorem trailing_strtol_number_witness:
  "trailing_strtol (mem_store (\<lambda>_. 0) 16 [109, 109, 99, 49, 50]) 16 = Some 12"
proof -
  have c: "cstr (mem_store (\<lambda>_. 0) 16 [109, 109, 99, 49, 50]) 16 [109, 109, 99, 49, 50]"
    by (simp add: cstr_def mem_simps)
  have t: "digit_tail [109, 109, 99, 49, 50] = [49, 50]" "digits_val 10 [49, 50] = 12" by code_simp+
  show ?thesis using trailing_strtol_number [OF c] by (simp add: t)
qed

text \<open>
  With an explicit end, the digits are found before it but converted by \<open>dectoul\<close>, which does not
  know the end: of \<open>ab12\<close> with its last character left out the result is 12, and of \<open>ab0x9\<close> cut
  after the 0 it is 9.
\<close>

lemma trailing_strtoln_past_end:
  "trailing_strtoln (mem_store (\<lambda>_. 0) 16 [97, 98, 49, 50]) 16 19 = Some 12"
  "trailing_strtoln (mem_store (\<lambda>_. 0) 16 [97, 98, 48, 120, 57]) 16 19 = Some 9"
  by code_simp+

end
