(* ===== verification/Vsprintf.thy ===== *)
theory Vsprintf
  imports Strto
begin

text \<open>
  Numbers and strings into text: the conversion routines of \<open>lib/vsprintf.c\<close>. \<open>put_dec_trunc\<close> and
  \<open>put_dec_full\<close> are the table-free decimal conversions, on 32-bit words as in the code; they
  append to the local array \<open>tmp\<close> of \<open>number\<close>, which is a list here. \<open>number\<close> and \<open>string\<close> write
  through \<open>ADDCH\<close>, which advances past the end of the buffer without writing. The lemmas show that
  the fast conversion gives the decimal digits, that the two routines write a given text cut at
  the end of the buffer, and that \<open>lib/strto.c\<close> reads back what \<open>number\<close> prints.
\<close>

section \<open>Model\<close>

definition put_dec_trunc :: "u8 list \<Rightarrow> u32 \<Rightarrow> u8 list" where
  "put_dec_trunc buf q =
     (let d1 = drop_bit 4 q AND 0xf;
          d2 = drop_bit 8 q AND 0xf;
          d3 = drop_bit 12 q;
          d0 = 6 * (d3 + d2 + d1) + (q AND 0xf);
          q = drop_bit 11 (d0 * 0xcd);
          d0 = d0 - 10 * q;
          buf = buf @ [ucast (d0 + 48)];
          d1 = q + 9 * d3 + 5 * d2 + d1
      in if d1 \<noteq> 0 then
           let q = drop_bit 11 (d1 * 0xcd);
               d1 = d1 - 10 * q;
               buf = buf @ [ucast (d1 + 48)];
               d2 = q + 2 * d2
           in if d2 \<noteq> 0 \<or> d3 \<noteq> 0 then
                let q = drop_bit 7 (d2 * 0xd);
                    d2 = d2 - 10 * q;
                    buf = buf @ [ucast (d2 + 48)];
                    d3 = q + 4 * d3
                in if d3 \<noteq> 0 then
                     let q = drop_bit 11 (d3 * 0xcd);
                         d3 = d3 - 10 * q;
                         buf = buf @ [ucast (d3 + 48)]
                     in if q \<noteq> 0 then buf @ [ucast (q + 48)] else buf
                   else buf
              else buf
         else buf)"

definition put_dec_full :: "u8 list \<Rightarrow> u32 \<Rightarrow> u8 list" where
  "put_dec_full buf q =
     (let d1 = drop_bit 4 q AND 0xf;
          d2 = drop_bit 8 q AND 0xf;
          d3 = drop_bit 12 q;
          d0 = 6 * (d3 + d2 + d1) + (q AND 0xf);
          q = drop_bit 11 (d0 * 0xcd);
          d0 = d0 - 10 * q;
          buf = buf @ [ucast (d0 + 48)];
          d1 = q + 9 * d3 + 5 * d2 + d1;
          q = drop_bit 11 (d1 * 0xcd);
          d1 = d1 - 10 * q;
          buf = buf @ [ucast (d1 + 48)];
          d2 = q + 2 * d2;
          q = drop_bit 7 (d2 * 0xd);
          d2 = d2 - 10 * q;
          buf = buf @ [ucast (d2 + 48)];
          d3 = q + 4 * d3;
          q = drop_bit 11 (d3 * 0xcd);
          d3 = d3 - 10 * q;
          buf = buf @ [ucast (d3 + 48)]
      in buf @ [ucast (q + 48)])"

lemma div_lt: "\<not> num < 100000 \<Longrightarrow> unat ((num :: u64) div 100000) < unat num"
  by (simp add: unat_div word_less_nat_alt)

function put_dec :: "u8 list \<Rightarrow> u64 \<Rightarrow> u8 list" where
  "put_dec buf num =
     (if num < 100000 then put_dec_trunc buf (ucast num)
      else put_dec (put_dec_full buf (ucast (num mod 100000))) (num div 100000))"
  by pat_completeness auto
termination
  by (relation "measure (\<lambda>(buf, num). unat num)") (auto simp: div_lt)

declare put_dec.simps [simp del]

text \<open>The flags \<open>ZEROPAD\<close> (1), \<open>SIGN\<close>, \<open>PLUS\<close>, \<open>SPACE\<close>, \<open>LEFT\<close>, \<open>SMALL\<close> and \<open>SPECIAL\<close> (64).\<close>

definition flag :: "nat \<Rightarrow> u32 \<Rightarrow> bool" where
  "flag i type = bit type i"

definition ADDCH :: "mem \<Rightarrow> ptr \<Rightarrow> ptr \<Rightarrow> u8 \<Rightarrow> mem \<times> ptr" where
  "ADDCH m str e ch = (if str < e then m(str := ch) else m, str + 1)"

definition hex_digits :: "u8 list" where
  "hex_digits = [48, 49, 50, 51, 52, 53, 54, 55, 56, 57, 65, 66, 67, 68, 69, 70]"

lemma shift_lt: "drop_bit (if base = 16 then 4 else 3) (num :: u64) \<noteq> 0 \<Longrightarrow>
   unat (drop_bit (if base = (16 :: int) then 4 else 3) num) < unat num"
proof -
  assume nz: "drop_bit (if base = 16 then 4 else 3) num \<noteq> 0"
  then have "unat num \<noteq> 0" by (auto simp: unat_eq_0)
  then show ?thesis by (auto simp: drop_bit_eq_div unat_div)
qed

text \<open>The \<open>do ... while (num)\<close> that fills \<open>tmp\<close> for the bases 8 and 16.\<close>

function pow2_loop :: "u8 list \<Rightarrow> u64 \<Rightarrow> int \<Rightarrow> u8 \<Rightarrow> u8 list" where
  "pow2_loop tmp num base locase =
     (let mask = base - 1;
          shift = (if base = 16 then 4 else 3);
          tmp' = tmp @ [hex_digits ! nat (uint (ucast num :: u8) AND mask) OR locase];
          num' = drop_bit shift num
      in if num' \<noteq> 0 then pow2_loop tmp' num' base locase else tmp')"
  by pat_completeness auto
termination
  by (relation "measure (\<lambda>(tmp, num, base, locase). unat num)") (auto simp: shift_lt)

declare pow2_loop.simps [simp del]

text \<open>\<open>while (--size >= 0) ADDCH(buf, c)\<close>: the store, the buffer pointer and \<open>size\<close> at the end.\<close>

function pad_loop :: "mem \<Rightarrow> ptr \<Rightarrow> ptr \<Rightarrow> u8 \<Rightarrow> int \<Rightarrow> mem \<times> ptr \<times> int" where
  "pad_loop m buf e c sz =
     (if sz - 1 \<ge> 0 then let (m', buf') = ADDCH m buf e c in pad_loop m' buf' e c (sz - 1)
      else (m, buf, sz - 1))"
  by pat_completeness auto
termination
  by (relation "measure (\<lambda>(m, buf, e, c, sz). nat sz)") auto

declare pad_loop.simps [simp del]

text \<open>\<open>while (i <= --precision) ADDCH(buf, '0')\<close>.\<close>

function prec_loop :: "mem \<Rightarrow> ptr \<Rightarrow> ptr \<Rightarrow> int \<Rightarrow> int \<Rightarrow> mem \<times> ptr" where
  "prec_loop m buf e i precision =
     (if i \<le> precision - 1 then let (m', buf') = ADDCH m buf e 48 in prec_loop m' buf' e i (precision - 1)
      else (m, buf))"
  by pat_completeness auto
termination
  by (relation "measure (\<lambda>(m, buf, e, i, precision). nat (precision - i))") auto

declare prec_loop.simps [simp del]

text \<open>\<open>while (--i >= 0) ADDCH(buf, tmp[i])\<close>.\<close>

fun digits_loop :: "mem \<Rightarrow> ptr \<Rightarrow> ptr \<Rightarrow> u8 list \<Rightarrow> nat \<Rightarrow> mem \<times> ptr" where
  "digits_loop m buf e tmp 0 = (m, buf)"
| "digits_loop m buf e tmp (Suc i) = (let (m', buf') = ADDCH m buf e (tmp ! i) in digits_loop m' buf' e tmp i)"

text \<open>\<open>number\<close>; the local \<open>sign\<close> is 0, \<open>'-'\<close>, \<open>'+'\<close> or a space.\<close>

definition number :: "mem \<Rightarrow> ptr \<Rightarrow> ptr \<Rightarrow> u64 \<Rightarrow> int \<Rightarrow> int \<Rightarrow> int \<Rightarrow> u32 \<Rightarrow> mem \<times> ptr" where
  "number m buf e num base sz precision type =
     (let need_pfx = (flag 6 type \<and> base \<noteq> 10);
          locase = ucast (type AND 32) :: u8;
          zeropad = (flag 0 type \<and> \<not> flag 4 type);
          (sign, num, sz) =
            (if flag 1 type then
               if num <s 0 then (45, - num, sz - 1)
               else if flag 2 type then (43, num, sz - 1)
               else if flag 3 type then (32, num, sz - 1)
               else (0, num, sz)
             else (0 :: u8, num, sz));
          sz = (if need_pfx then if base = 16 then sz - 1 - 1 else sz - 1 else sz);
          tmp = (if num = 0 then [48]
                 else if base \<noteq> 10 then pow2_loop [] num base locase
                 else put_dec [] num);
          i = int (length tmp);
          precision = (if i > precision then i else precision);
          sz = sz - precision;
          (m, buf, sz) = (if \<not> (zeropad \<or> flag 4 type) then pad_loop m buf e 32 sz else (m, buf, sz));
          (m, buf) = (if sign \<noteq> 0 then ADDCH m buf e sign else (m, buf));
          (m, buf) =
            (if need_pfx then
               let (m, buf) = ADDCH m buf e 48 in if base = 16 then ADDCH m buf e (88 OR locase) else (m, buf)
             else (m, buf));
          (m, buf, sz) =
            (if \<not> flag 4 type then pad_loop m buf e (if zeropad then 48 else 32) sz else (m, buf, sz));
          (m, buf) = prec_loop m buf e i precision;
          (m, buf) = digits_loop m buf e tmp (length tmp);
          (m, buf, sz) = pad_loop m buf e 32 sz
      in (m, buf))"

text \<open>\<open>while (len < field_width--) ADDCH(buf, ' ')\<close> of \<open>string\<close>, and its copying loop, in
  which the macro evaluates \<open>*s++\<close> only when it writes.\<close>

function width_loop :: "mem \<Rightarrow> ptr \<Rightarrow> ptr \<Rightarrow> int \<Rightarrow> int \<Rightarrow> mem \<times> ptr \<times> int" where
  "width_loop m buf e len field_width =
     (if len < field_width
      then let (m', buf') = ADDCH m buf e 32 in width_loop m' buf' e len (field_width - 1)
      else (m, buf, field_width - 1))"
  by pat_completeness auto
termination
  by (relation "measure (\<lambda>(m, buf, e, len, field_width). nat (field_width - len))") auto

declare width_loop.simps [simp del]

fun copy_loop :: "mem \<Rightarrow> ptr \<Rightarrow> ptr \<Rightarrow> ptr \<Rightarrow> nat \<Rightarrow> mem \<times> ptr" where
  "copy_loop m buf e s 0 = (m, buf)"
| "copy_loop m buf e s (Suc n) = 
     (let (m', buf') = ADDCH m buf e (m s) in copy_loop m' buf' e (if buf < e then s + 1 else s) n)"

text \<open>
  \<open>string\<close>; \<open>null_text\<close> is the address of the literal \<open><NULL>\<close>. The result of \<open>strnlen\<close> is cut to
  an \<open>int\<close>.
\<close>

definition string_conv :: "ptr \<Rightarrow> mem \<Rightarrow> ptr \<Rightarrow> ptr \<Rightarrow> ptr \<Rightarrow> int \<Rightarrow> int \<Rightarrow> u32 \<Rightarrow> mem \<times> ptr" where
  "string_conv null_text m buf e s field_width precision flags =
     (let s = (if s = NULL then null_text else s);
          len = to_int (strnlen m s (unat (word_of_int precision :: u64)));
          (m, buf, field_width) =
            (if \<not> flag 4 flags then width_loop m buf e len field_width else (m, buf, field_width));
          (m, buf) = copy_loop m buf e s (nat len);
          (m, buf, field_width) = width_loop m buf e len field_width
      in (m, buf))"

text \<open>\<open>skip_atoi\<close>: the value and the text after the digits; the sum is a 32-bit \<open>int\<close>.\<close>

fun skip_atoi :: "u8 list \<Rightarrow> u32 \<Rightarrow> u32 \<times> u8 list" where
  "skip_atoi [] i = (i, [])"
| "skip_atoi (c # s) i = (if 48 \<le> c \<and> c \<le> 57 then skip_atoi s (i * 10 + ucast c - 48) else (i, c # s))"

section \<open>Decimal conversion\<close>

text \<open>The digits of a number in a base, least significant first, and their characters.\<close>

function rev_digits :: "nat \<Rightarrow> nat \<Rightarrow> nat list" where
  "rev_digits b n = (if n < b \<or> b < 2 then [n] else n mod b # rev_digits b (n div b))"
  by pat_completeness auto
termination
  by (relation "measure snd") auto

declare rev_digits.simps [simp del]

definition dec_char :: "nat \<Rightarrow> u8" where
  "dec_char d = word_of_nat (d + 48)"

lemma drop_bit_of_nat32: "x < 2 ^ 32 \<Longrightarrow> drop_bit k (word_of_nat x :: u32) = word_of_nat (x div 2 ^ k)"
proof (rule word_unat_eq_iff [THEN iffD2])
  assume x: "x < 2 ^ 32"
  then have "x div 2 ^ k < 2 ^ 32" by (rule order.strict_trans1 [OF div_le_dividend])
  with x show "unat (drop_bit k (word_of_nat x :: u32)) = unat (word_of_nat (x div 2 ^ k) :: u32)"
    by (subst unat_drop_bit_eq) (simp add: drop_bit_nat_def unat_of_nat)
qed

lemma low_nibble: "x < 2 ^ 32 \<Longrightarrow> (word_of_nat x :: u32) AND 0xf = word_of_nat (x mod 16)"
proof (rule word_unat_eq_iff [THEN iffD2])
  assume x: "x < 2 ^ 32"
  have "(word_of_nat x :: u32) AND 0xf = take_bit 4 (word_of_nat x)"
    by (simp add: take_bit_eq_mask mask_eq_exp_minus_1)
  then show "unat ((word_of_nat x :: u32) AND 0xf) = unat (word_of_nat (x mod 16) :: u32)"
    using x by (simp only: unsigned_take_bit_eq) (simp add: unat_of_nat take_bit_eq_mod)
qed

lemma of_nat32_0: "x < 2 ^ 32 \<Longrightarrow> (word_of_nat x = (0 :: u32)) = (x = 0)"
  by (simp add: word_of_nat_eq_0_iff) (auto dest: dvd_imp_le)

lemma ucast_dec_char: "d < 10 \<Longrightarrow> ucast (word_of_nat d + 48 :: u32) = dec_char d"
  by (rule word_unat_eq_iff [THEN iffD2])
    (simp add: dec_char_def unsigned_ucast_eq unat_of_nat unat_plus_no_wrap take_bit_nat_eq_self)

text \<open>The multiplications by a reciprocal divide by ten on the values that occur.\<close>

lemma recip_205: "x \<le> 400 \<Longrightarrow> drop_bit 11 (word_of_nat x * 0xcd :: u32) = word_of_nat (x div 10)"
proof -
  assume x: "x \<le> 400"
  define q r where "q = x div 10" and "r = x mod 10"
  have "x = 10 * q + r" "r < 10" by (simp_all add: q_def r_def)
  then have "x * 205 div 2048 = q" using x by (intro div_nat_eqI) simp_all
  then have "x * 205 div 2048 = x div 10" by (simp add: q_def)
  then show ?thesis using drop_bit_of_nat32 [of "x * 205" 11] x by simp
qed

lemma recip_13: "x \<le> 63 \<Longrightarrow> drop_bit 7 (word_of_nat x * 0xd :: u32) = word_of_nat (x div 10)"
proof -
  assume x: "x \<le> 63"
  define q r where "q = x div 10" and "r = x mod 10"
  have "x = 10 * q + r" "r < 10" by (simp_all add: q_def r_def)
  moreover from this x have "q < 6 \<or> q = 6" by arith
  ultimately have "x * 13 div 128 = q" using x by (elim disjE; intro div_nat_eqI) simp_all
  then have "x * 13 div 128 = x div 10" by (simp add: q_def)
  then show ?thesis using drop_bit_of_nat32 [of "x * 13" 7] x by simp
qed

lemma minus_ten: "(word_of_nat x :: u32) - 10 * word_of_nat (x div 10) = word_of_nat (x mod 10)"
proof -
  have "(word_of_nat x :: u32) = word_of_nat (x mod 10) + 10 * word_of_nat (x div 10)"
    by (metis mod_mult_div_eq of_nat_add of_nat_mult of_nat_numeral)
  then show ?thesis by simp
qed

text \<open>The four hexadecimal digits of the argument, and the decimal digits in terms of them.\<close>

lemma hex_split:
  fixes n :: nat
  defines "a \<equiv> n mod 16" and "b \<equiv> n div 16 mod 16" and "c \<equiv> n div 256 mod 16" and "d \<equiv> n div 4096"
  shows "n = 4096 * d + 256 * c + 16 * b + a" "a < 16" "b < 16" "c < 16"
proof -
  have "n div 256 = n div 16 div 16" "n div 4096 = n div 256 div 16" by (simp_all add: div_mult2_eq [symmetric])
  then have "n div 16 = 16 * (n div 256) + b" "n div 256 = 16 * d + c" "n = 16 * (n div 16) + a"
    by (simp_all add: a_def b_def c_def d_def)
  then show "n = 4096 * d + 256 * c + 16 * b + a" by linarith
qed (simp_all add: a_def b_def c_def)

lemma dec_of_hex:
  fixes a b c d n :: nat
  assumes n: "n = 4096 * d + 256 * c + 16 * b + a"
  defines "x0 \<equiv> 6 * (d + c + b) + a"
  defines "x1 \<equiv> x0 div 10 + 9 * d + 5 * c + b"
  defines "x2 \<equiv> x1 div 10 + 2 * c"
  defines "x3 \<equiv> x2 div 10 + 4 * d"
  shows "x0 mod 10 = n mod 10" "x1 mod 10 = n div 10 mod 10" "x2 mod 10 = n div 100 mod 10"
    "x3 = n div 1000" "(x1 = 0) = (n div 10 = 0)" "(x2 = 0 \<and> d = 0) = (n div 100 = 0)"
proof -
  have e0: "n = x0 + 10 * (409 * d + 25 * c + b)" by (simp add: n x0_def)
  then show "x0 mod 10 = n mod 10" by (simp only: mod_mult_self2)
  have d1: "n div 10 = x0 div 10 + (409 * d + 25 * c + b)" unfolding e0 by simp
  then have e1: "n div 10 = x1 + 10 * (40 * d + 2 * c)" by (simp add: x1_def)
  then show "x1 mod 10 = n div 10 mod 10" by (simp only: mod_mult_self2)
  show "(x1 = 0) = (n div 10 = 0)" using d1 by (auto simp: x1_def)
  have h: "n div 100 = n div 10 div 10" "n div 1000 = n div 100 div 10" by (simp_all add: div_mult2_eq [symmetric])
  have "n div 100 = x1 div 10 + (40 * d + 2 * c)" unfolding h e1 by simp
  then have e2: "n div 100 = x2 + 10 * (4 * d)" by (simp add: x2_def)
  then show "x2 mod 10 = n div 100 mod 10" by (simp only: mod_mult_self2)
  show "(x2 = 0 \<and> d = 0) = (n div 100 = 0)" using e2 by auto
  have "n div 100 div 10 = x3" unfolding e2 by (simp add: x3_def)
  then show "x3 = n div 1000" using h(2) by simp
qed

lemma rev_digits_10: "rev_digits 10 n = (if n < 10 then [n] else n mod 10 # rev_digits 10 (n div 10))"
  by (subst rev_digits.simps) simp

lemma put_dec_words:
  fixes n :: nat
  assumes "n < 100000"
  defines "a \<equiv> n mod 16" and "b \<equiv> n div 16 mod 16" and "c \<equiv> n div 256 mod 16" and "d \<equiv> n div 4096"
  defines "x0 \<equiv> 6 * (d + c + b) + a"
  defines "x1 \<equiv> x0 div 10 + 9 * d + 5 * c + b"
  defines "x2 \<equiv> x1 div 10 + 2 * c"
  defines "x3 \<equiv> x2 div 10 + 4 * d"
  shows "drop_bit 4 (word_of_nat n :: u32) AND 0xf = word_of_nat b"
    and "drop_bit 8 (word_of_nat n :: u32) AND 0xf = word_of_nat c"
    and "drop_bit 12 (word_of_nat n :: u32) = word_of_nat d"
    and "(word_of_nat n :: u32) AND 0xf = word_of_nat a"
    and "x0 \<le> 400" "x1 \<le> 400" "x2 \<le> 63" "x3 \<le> 400" "d \<le> 24"
proof -
  note hex = hex_split [of n, folded a_def b_def c_def d_def]
  have lt: "n < 2 ^ 32" "n div 16 < 2 ^ 32" "n div 256 < 2 ^ 32" using assms(1) by simp_all
  show "drop_bit 4 (word_of_nat n :: u32) AND 0xf = word_of_nat b"
    and "drop_bit 8 (word_of_nat n :: u32) AND 0xf = word_of_nat c"
    and "drop_bit 12 (word_of_nat n :: u32) = word_of_nat d"
    and "(word_of_nat n :: u32) AND 0xf = word_of_nat a"
    using lt by (simp_all add: drop_bit_of_nat32 low_nibble a_def b_def c_def d_def)
  show d: "d \<le> 24" using assms(1) by (simp add: d_def)
  then have x0: "x0 \<le> 339" using hex by (simp add: x0_def)
  then have "x0 div 10 \<le> 33" by simp
  then have x1: "x1 \<le> 339" using hex d by (simp add: x1_def)
  then have "x1 div 10 \<le> 33" by simp
  then show x2: "x2 \<le> 63" using hex by (simp add: x2_def)
  then have "x2 div 10 \<le> 6" by simp
  then show "x3 \<le> 400" using d by (simp add: x3_def)
  show "x0 \<le> 400" "x1 \<le> 400" using x0 x1 by simp_all
qed

lemma put_dec_stages:
  assumes "n < 100000"
  obtains a b c d x0 x1 x2 :: nat where
    "drop_bit 4 (word_of_nat n :: u32) AND 0xf = word_of_nat b"
    "drop_bit 8 (word_of_nat n :: u32) AND 0xf = word_of_nat c"
    "drop_bit 12 (word_of_nat n :: u32) = word_of_nat d"
    "(word_of_nat n :: u32) AND 0xf = word_of_nat a"
    "6 * (word_of_nat d + word_of_nat c + word_of_nat b) + word_of_nat a = (word_of_nat x0 :: u32)"
    "word_of_nat (x0 div 10) + 9 * word_of_nat d + 5 * word_of_nat c + word_of_nat b = (word_of_nat x1 :: u32)"
    "word_of_nat (x1 div 10) + 2 * word_of_nat c = (word_of_nat x2 :: u32)"
    "word_of_nat (x2 div 10) + 4 * word_of_nat d = (word_of_nat (n div 1000) :: u32)"
    "x0 \<le> 400" "x1 \<le> 400" "x2 \<le> 63" "d \<le> 24"
    "x0 mod 10 = n mod 10" "x1 mod 10 = n div 10 mod 10" "x2 mod 10 = n div 100 mod 10"
    "(x1 = 0) = (n div 10 = 0)" "(x2 = 0 \<and> d = 0) = (n div 100 = 0)"
proof -
  define a b c d where "a = n mod 16" and "b = n div 16 mod 16" and "c = n div 256 mod 16" and "d = n div 4096"
  define x0 where "x0 = 6 * (d + c + b) + a"
  define x1 where "x1 = x0 div 10 + 9 * d + 5 * c + b"
  define x2 where "x2 = x1 div 10 + 2 * c"
  note w = put_dec_words [OF assms, folded a_def b_def c_def d_def, folded x0_def, folded x1_def, folded x2_def]
  note hex = hex_split [of n, folded a_def b_def c_def d_def]
  note v = dec_of_hex [OF hex(1), folded x0_def, folded x1_def, folded x2_def]
  show thesis
  proof (rule that [OF w(1-4)])
    show "6 * (word_of_nat d + word_of_nat c + word_of_nat b) + word_of_nat a = (word_of_nat x0 :: u32)"
      by (simp add: x0_def)
    show "word_of_nat (x0 div 10) + 9 * word_of_nat d + 5 * word_of_nat c + word_of_nat b = (word_of_nat x1 :: u32)"
      by (simp add: x1_def)
    show "word_of_nat (x1 div 10) + 2 * word_of_nat c = (word_of_nat x2 :: u32)"
      by (simp add: x2_def)
    show "word_of_nat (x2 div 10) + 4 * word_of_nat d = (word_of_nat (n div 1000) :: u32)"
      unfolding v(4) [symmetric] by simp
  qed (use w(5,6,7,9) v in simp_all)
qed

lemma put_dec_full_digits:
  assumes "n < 100000"
  shows "put_dec_full buf (word_of_nat n) =
           buf @ map dec_char [n mod 10, n div 10 mod 10, n div 100 mod 10, n div 1000 mod 10, n div 10000]"
proof (rule put_dec_stages [OF assms], goal_cases)
  case (1 a b c d x0 x1 x2)
  have d3: "n div 1000 \<le> 400" "n div 1000 div 10 = n div 10000" "n div 10000 < 10"
    using assms by (simp_all add: div_mult2_eq [symmetric])
  show ?case
    unfolding put_dec_full_def Let_def 1(1-4) 1(5) recip_205 [OF 1(9)] minus_ten 1(6) recip_205 [OF 1(10)]
      1(7) recip_13 [OF 1(11)] 1(8) recip_205 [OF d3(1)]
    using d3 by (simp add: ucast_dec_char 1(13-15))
qed

lemma put_dec_trunc_digits:
  assumes "n < 100000"
  shows "put_dec_trunc buf (word_of_nat n) = buf @ map dec_char (rev_digits 10 n)"
proof (rule put_dec_stages [OF assms], goal_cases)
  case (1 a b c d x0 x1 x2)
  have d3: "n div 1000 \<le> 400" "n div 1000 div 10 = n div 10000" "n div 10000 < 10"
    using assms by (simp_all add: div_mult2_eq [symmetric])
  have nz: "(word_of_nat x1 = (0 :: u32)) = (n div 10 = 0)"
    "(word_of_nat x2 \<noteq> (0 :: u32) \<or> word_of_nat d \<noteq> (0 :: u32)) = (n div 100 \<noteq> 0)"
    "(word_of_nat (n div 1000) = (0 :: u32)) = (n div 1000 = 0)"
    "(word_of_nat (n div 10000) = (0 :: u32)) = (n div 10000 = 0)"
    using 1(9-12,16,17) d3 by (auto simp: of_nat32_0)
  have "rev_digits 10 n =
      n mod 10 # (if n div 10 = 0 then [] else n div 10 mod 10 # (if n div 100 = 0 then [] else
      n div 100 mod 10 # (if n div 1000 = 0 then [] else n div 1000 mod 10 #
      (if n div 10000 = 0 then [] else [n div 10000]))))"
    using d3(3) rev_digits_10 [of n] rev_digits_10 [of "n div 10"] rev_digits_10 [of "n div 100"]
      rev_digits_10 [of "n div 1000"] rev_digits_10 [of "n div 10000"]
    by (simp add: div_mult2_eq [symmetric] div_eq_0_iff div_less_iff_less_mult)
  then show ?case
    unfolding put_dec_trunc_def Let_def 1(1-4) 1(5) recip_205 [OF 1(9)] minus_ten 1(6) recip_205 [OF 1(10)]
      1(7) recip_13 [OF 1(11)] 1(8) recip_205 [OF d3(1)]
    unfolding d3(2) nz using d3 by (simp add: ucast_dec_char 1(13-15))
qed

lemma rev_digits_split:
  assumes "100000 \<le> n"
  shows "rev_digits 10 n =
           [n mod 10, n div 10 mod 10, n div 100 mod 10, n div 1000 mod 10, n div 10000 mod 10] @ rev_digits 10 (n div 100000)"
  using assms rev_digits_10 [of n] rev_digits_10 [of "n div 10"] rev_digits_10 [of "n div 100"]
    rev_digits_10 [of "n div 1000"] rev_digits_10 [of "n div 10000"]
  by (simp add: div_mult2_eq [symmetric] div_less_iff_less_mult)

lemma mod_mult_div: "0 < k \<Longrightarrow> (n :: nat) mod (k * j) div k = n div k mod j"
  by (simp add: mod_mult2_eq)

lemma digits_of_mod:
  fixes n :: nat
  shows "n mod 100000 mod 10 = n mod 10" "n mod 100000 div 10 mod 10 = n div 10 mod 10"
    "n mod 100000 div 100 mod 10 = n div 100 mod 10" "n mod 100000 div 1000 mod 10 = n div 1000 mod 10"
    "n mod 100000 div 10000 = n div 10000 mod 10"
  using mod_mult_div [of 10 n 10000] mod_mult_div [of 100 n 1000] mod_mult_div [of 1000 n 100]
    mod_mult_div [of 10000 n 10]
  by (simp_all add: mod_mod_cancel)

lemma put_dec_digits:
  "put_dec buf num = buf @ map dec_char (rev_digits 10 (unat num))"
proof (induction buf num rule: put_dec.induct)
  case (1 buf num)
  have cast: "(ucast w :: u32) = word_of_nat (unat w)" for w :: u64 by simp
  show ?case
  proof (cases "num < 100000")
    case True
    then have "unat num < 100000" by (simp add: word_less_nat_alt)
    with True show ?thesis by (subst put_dec.simps) (simp add: cast put_dec_trunc_digits del: of_nat_unat)
  next
    case False
    then have n: "100000 \<le> unat num" by (simp add: word_less_nat_alt)
    let ?r = "unat num mod 100000"
    have full: "put_dec_full buf (ucast (num mod 100000)) =
        buf @ map dec_char [?r mod 10, ?r div 10 mod 10, ?r div 100 mod 10, ?r div 1000 mod 10, ?r div 10000]"
      using put_dec_full_digits [of ?r buf] by (simp add: cast unat_mod del: of_nat_unat)
    have "put_dec buf num = put_dec (put_dec_full buf (ucast (num mod 100000))) (num div 100000)"
      using False by (subst put_dec.simps) simp
    also have "\<dots> = put_dec_full buf (ucast (num mod 100000)) @ map dec_char (rev_digits 10 (unat num div 100000))"
      using "1.IH" [OF False] by (simp add: unat_div)
    finally show ?thesis unfolding full digits_of_mod rev_digits_split [OF n] by simp
  qed
qed

text \<open>
  C33. The fast decimal conversion, five digits at a time without a division by ten, produces
  exactly the decimal digits of every 64-bit number, least significant first and without leading
  zeros.\<close>

theorem put_dec_decimal:
  "put_dec buf num = buf @ map dec_char (rev_digits 10 (unat num))"
  by (rule put_dec_digits)

section \<open>The text that \<open>number\<close> writes\<close>

text \<open>Writing a text at \<open>buf\<close>, cut at the end of the buffer; the pointer moves on regardless.\<close>

definition emit :: "mem \<Rightarrow> ptr \<Rightarrow> ptr \<Rightarrow> u8 list \<Rightarrow> mem \<times> ptr" where
  "emit m buf e cs = (mem_store m buf (take (e - buf) cs), buf + length cs)"

lemma emit_Nil [simp]: "emit m buf e [] = (m, buf)"
  by (simp add: emit_def)

lemma ADDCH_emit: "ADDCH m buf e c = emit m buf e [c]"
  by (cases "e - buf") (auto simp: ADDCH_def emit_def mem_store_Cons)

lemma emit_append: "emit m buf e (cs @ ds) = (let (m', buf') = emit m buf e cs in emit m' buf' e ds)"
proof (cases "e - buf \<le> length cs")
  case True
  then show ?thesis by (simp add: emit_def)
next
  case False
  then have "take (e - buf) (cs @ ds) = cs @ take (e - (buf + length cs)) ds" by simp
  then show ?thesis using False by (simp add: emit_def mem_store_append)
qed

lemma emit_Cons: "emit m buf e (c # cs) = (let (m', buf') = ADDCH m buf e c in emit m' buf' e cs)"
  using emit_append [of m buf e "[c]" cs] by (simp add: ADDCH_emit)

lemma pad_loop_emit:
  "pad_loop m buf e c sz =
     (let (m', buf') = emit m buf e (replicate (nat sz) c) in (m', buf', min sz 0 - 1))"
proof (induction m buf e c sz rule: pad_loop.induct)
  case (1 m buf e c sz)
  show ?case
  proof (cases "1 \<le> sz")
    case True
    then have "nat sz = Suc (nat (sz - 1))" by simp
    then show ?thesis using 1 True
      by (subst pad_loop.simps) (auto simp: emit_Cons min_def split: prod.splits)
  qed (subst pad_loop.simps, simp)
qed

lemma prec_loop_emit: "prec_loop m buf e i prec = emit m buf e (replicate (nat (prec - i)) 48)"
proof (induction m buf e i prec rule: prec_loop.induct)
  case (1 m buf e i prec)
  show ?case
  proof (cases "i \<le> prec - 1")
    case True
    then have "nat (prec - i) = Suc (nat (prec - 1 - i))" by simp
    then show ?thesis using 1 True
      by (subst prec_loop.simps) (auto simp: emit_Cons split: prod.splits)
  qed (subst prec_loop.simps, simp)
qed

lemma digits_loop_emit: "n \<le> length tmp \<Longrightarrow> digits_loop m buf e tmp n = emit m buf e (rev (take n tmp))"
proof (induction n arbitrary: m buf)
  case (Suc n)
  then show ?case by (auto simp: take_Suc_conv_app_nth emit_Cons split: prod.splits)
qed simp

text \<open>The digits of a number as characters, most significant first.\<close>

definition num_digits :: "nat \<Rightarrow> u8 \<Rightarrow> nat \<Rightarrow> u8 list" where
  "num_digits base locase n =
     map (\<lambda>d. if base = 10 then dec_char d else hex_digits ! d OR locase) (rev (rev_digits base n))"

text \<open>
  The conversion as a text: sign, prefix, digits with the zeros that the precision asks for, and
  the padding to the field width on the left, between prefix and digits, or on the right.
\<close>

definition number_text :: "u64 \<Rightarrow> int \<Rightarrow> int \<Rightarrow> int \<Rightarrow> u32 \<Rightarrow> u8 list" where
  "number_text num base sz precision type =
     (let locase = ucast (type AND 32);
          neg = (flag 1 type \<and> num <s 0);
          sign = (if neg then [45] else if flag 1 type \<and> flag 2 type then [43]
                  else if flag 1 type \<and> flag 3 type then [32] else []);
          prefix = (if flag 6 type \<and> base = 16 then [48, 88 OR locase]
                    else if flag 6 type \<and> base \<noteq> 10 then [48] else []);
          digits = num_digits (nat base) locase (unat (if neg then - num else num));
          body = replicate (nat precision - length digits) 48 @ digits;
          pad = nat (sz - int (length sign + length prefix + length body))
      in if flag 4 type then sign @ prefix @ body @ replicate pad 32
         else if flag 0 type then sign @ prefix @ replicate pad 48 @ body
         else replicate pad 32 @ sign @ prefix @ body)"

lemma pow2_loop_digits:
  assumes "base = 8 \<or> base = 16"
  shows "pow2_loop tmp num base locase =
           tmp @ map (\<lambda>d. hex_digits ! d OR locase) (rev_digits (nat base) (unat num))"
  using assms
proof (induction tmp num base locase rule: pow2_loop.induct)
  case (1 tmp num base locase)
  let ?k = "if base = 16 then 4 else 3 :: nat"
  have pow: "nat base = 2 ^ ?k" using "1.prems" by auto
  have quot: "unat (drop_bit ?k num) = unat num div nat base"
    using "1.prems" by (auto simp: unat_drop_bit_eq drop_bit_nat_def)
  have mask: "base - 1 = mask ?k" using "1.prems" by (auto simp: mask_eq_exp_minus_1)
  have "uint (ucast num :: u8) AND (base - 1) = take_bit ?k (take_bit 8 (uint num))"
    by (simp add: mask take_bit_eq_mask [symmetric] unsigned_ucast_eq)
  also have "\<dots> = uint num mod base" using "1.prems" by (auto simp: take_bit_eq_mod mod_mod_cancel)
  finally have dig: "nat (uint (ucast num :: u8) AND (base - 1)) = unat num mod nat base"
    using "1.prems" by (auto simp: nat_mod_distrib)
  have z: "(drop_bit ?k num = 0) = (unat num < nat base)"
    using quot "1.prems" by (metis div_eq_0_iff nat_numeral unat_eq_0 zero_neq_numeral)
  show ?case
  proof (cases "drop_bit ?k num = 0")
    case True
    then show ?thesis using z dig "1.prems"
      by (subst pow2_loop.simps, subst rev_digits.simps) (simp add: Let_def)
  next
    case False
    then show ?thesis using z dig quot "1.IH" [OF refl refl refl refl] "1.prems"
      by (subst pow2_loop.simps, subst rev_digits.simps) (auto simp: Let_def)
  qed
qed

lemma locase_cases: "ucast (type AND 32 :: u32) = (0 :: u8) \<or> ucast (type AND 32 :: u32) = (32 :: u8)"
proof -
  have "x AND 2 ^ n = (if bit x n then 2 ^ n else 0)" for x :: u32 and n
    by (rule bit_word_eqI) (auto simp: bit_and_iff bit_exp_iff)
  from this [of type 5] show ?thesis by simp
qed

lemma num_digits_0: "base = 8 \<or> base = 10 \<or> base = 16 \<Longrightarrow> num_digits base (ucast (type AND 32 :: u32)) 0 = [48]"
  using locase_cases [of type]
  by (subst num_digits_def, subst rev_digits.simps) (auto simp: dec_char_def hex_digits_def)

lemma length_rev_digits: "n < b ^ k \<Longrightarrow> 2 \<le> b \<Longrightarrow> length (rev_digits b n) \<le> max 1 k"
proof (induction k arbitrary: n)
  case (Suc k)
  show ?case
  proof (cases "n < b")
    case False
    then have "k \<noteq> 0" using Suc.prems by (cases k) auto
    moreover have "n div b < b ^ k" using Suc.prems by (simp add: div_less_iff_less_mult mult.commute)
    ultimately show ?thesis using Suc.IH [of "n div b"] Suc.prems False by (subst rev_digits.simps) auto
  qed (subst rev_digits.simps, simp)
qed (subst rev_digits.simps, simp)

lemma length_num_digits:
  assumes "base = 8 \<or> base = 10 \<or> base = 16"
  shows "length (num_digits base locase (unat (num :: u64))) \<le> 22"
proof -
  have "unat num < 2 ^ 64" using unsigned_less [of num] by simp
  then have "unat num < base ^ 22" using assms by (elim disjE) simp_all
  then show ?thesis using length_rev_digits [of "unat num" base 22] assms by (auto simp: num_digits_def)
qed

text \<open>The array \<open>tmp\<close> of \<open>number\<close>: its digits in reverse.\<close>

lemma tmp_digits:
  fixes type :: u32
  assumes "base = 8 \<or> base = 10 \<or> base = 16"
  shows "(if num = 0 then [48] else if base \<noteq> 10 then pow2_loop [] num base (ucast (type AND 32)) else put_dec [] num)
           = rev (num_digits (nat base) (ucast (type AND 32)) (unat num))"
proof (cases "num = 0")
  case True
  then show ?thesis using num_digits_0 [of "nat base" type] assms by auto
next
  case False
  then show ?thesis
    using assms pow2_loop_digits [of base "[]" num] put_dec_digits [of "[]" num]
    by (auto simp: num_digits_def rev_map)
qed

lemma emit_case_append:
  "(case emit m buf e xs of (m', buf') \<Rightarrow> case emit m' buf' e ys of (m'', buf'') \<Rightarrow> k m'' buf'') =
     (case emit m buf e (xs @ ys) of (m'', buf'') \<Rightarrow> k m'' buf'')"
  by (simp add: emit_append split: prod.splits)

lemma case_emit_id: "(case emit m buf e xs of (m', buf') \<Rightarrow> (m', buf')) = emit m buf e xs"
  by simp

lemma number_emit:
  assumes "base = 8 \<or> base = 10 \<or> base = 16"
  shows "number m buf e num base sz precision type = emit m buf e (number_text num base sz precision type)"
proof -
  define lc where "lc = (ucast (type AND 32) :: u8)"
  define mag where "mag = (if flag 1 type \<and> num <s 0 then - num else num)"
  define ds where "ds = num_digits (nat base) lc (unat mag)"
  define sgn where "sgn = (if flag 1 type \<and> num <s 0 then [45] else if flag 1 type \<and> flag 2 type then [43]
                  else if flag 1 type \<and> flag 3 type then [32] else [] :: u8 list)"
  define pfx where "pfx = (if flag 6 type \<and> base = 16 then [48, 88 OR lc]
                    else if flag 6 type \<and> base \<noteq> 10 then [48] else [])"
  define prec where "prec = (if int (length ds) > precision then int (length ds) else precision)"
  define width where "width = sz - int (length sgn) - int (length pfx) - prec"
  define sg where "sg = (if sgn = [] then 0 else hd sgn)"
  have tup: "(if flag 1 type then
               if num <s 0 then (45, - num, sz - 1)
               else if flag 2 type then (43, num, sz - 1)
               else if flag 3 type then (32, num, sz - 1)
               else (0, num, sz)
             else (0, num, sz)) = (sg, mag, sz - int (length sgn))"
    by (simp add: mag_def sgn_def sg_def)
  have sign: "(if sg \<noteq> 0 then emit m b e [sg] else (m, b)) = emit m b e sgn" for m b
    by (simp add: sgn_def sg_def)
  have prefix: "(if flag 6 type \<and> base \<noteq> 10 then
           case emit m b e [48] of (m, b) \<Rightarrow> if base = 16 then emit m b e [88 OR lc] else (m, b)
         else (m, b)) = emit m b e pfx" for m b
    using emit_append [of m b e "[48]" "[88 OR lc]"] by (simp add: pfx_def)
  have psize: "(if flag 6 type \<and> base \<noteq> 10 then if base = 16 then x - 1 - 1 else x - 1 else x) = x - int (length pfx)" for x
    by (simp add: pfx_def)
  have tmp: "(if mag = 0 then [48] else if base \<noteq> 10 then pow2_loop [] mag base lc else put_dec [] mag) = rev ds"
    unfolding ds_def lc_def by (rule tmp_digits [OF assms])
  have zeros: "nat (prec - int (length ds)) = nat precision - length ds"
    by (auto simp: prec_def nat_diff_distrib)
  have body: "int (nat precision - length ds + length ds) = prec" by (simp add: prec_def)
  have layout: "number_text num base sz precision type =
      (let body = replicate (nat precision - length ds) 48 @ ds
       in if flag 4 type then sgn @ pfx @ body @ replicate (nat width) 32
         else if flag 0 type then sgn @ pfx @ replicate (nat width) 48 @ body
         else replicate (nat width) 32 @ sgn @ pfx @ body)"
  proof -
    have "sz - int (length sgn + length pfx + length (replicate (nat precision - length ds) (48 :: u8) @ ds)) = width"
      using body by (simp add: width_def)
    then show ?thesis
      unfolding number_text_def Let_def lc_def [symmetric] mag_def [symmetric] ds_def [symmetric]
        sgn_def [symmetric] pfx_def [symmetric] by simp
  qed
  have fold: "number m buf e num base sz precision type =
      (case (if \<not> (flag 0 type \<and> \<not> flag 4 type \<or> flag 4 type) then pad_loop m buf e 32 width else (m, buf, width)) of
         (m, buf, s) \<Rightarrow> case emit m buf e sgn of (m, buf) \<Rightarrow> case emit m buf e pfx of (m, buf) \<Rightarrow>
         case (if \<not> flag 4 type then pad_loop m buf e (if flag 0 type \<and> \<not> flag 4 type then 48 else 32) s else (m, buf, s)) of
         (m, buf, s) \<Rightarrow> case emit m buf e (replicate (nat precision - length ds) 48) of (m, buf) \<Rightarrow>
         case emit m buf e ds of (m, buf) \<Rightarrow> case pad_loop m buf e 32 s of (m, buf, s) \<Rightarrow> (m, buf))"
    unfolding number_def Let_def lc_def [symmetric] tup prod.case psize tmp length_rev ADDCH_emit sign prefix
      prec_loop_emit prec_def [symmetric] width_def [symmetric] zeros
    using digits_loop_emit [of "length ds" "rev ds"] by simp
  show ?thesis
    unfolding fold layout
    by (cases "flag 4 type"; cases "flag 0 type")
      (simp_all add: pad_loop_emit Let_def case_prod_beta' emit_append del: split_paired_All)
qed

text \<open>
  In the bases that it is called with, \<open>number\<close> writes the text of the conversion: the decimal,
  octal or hexadecimal digits with sign, prefix, precision and padding as the flags ask. What does
  not fit before \<open>end\<close> is cut off, nothing outside the buffer changes, the pointer that comes back
  counts the whole text, and the digits never need more than 22 of the 66 bytes of \<open>tmp\<close>.\<close>

theorem number_prints:
  assumes "base = 8 \<or> base = 10 \<or> base = 16"
  shows "number m buf e num base sz precision type =
           (mem_store m buf (take (e - buf) (number_text num base sz precision type)),
            buf + length (number_text num base sz precision type)) \<and>
         length (num_digits (nat base) locase (unat num)) \<le> 22"
proof -
  have "number m buf e num base sz precision type = emit m buf e (number_text num base sz precision type)"
    by (rule number_emit [OF assms])
  then show ?thesis using length_num_digits [of "nat base" locase num] assms by (auto simp: emit_def)
qed

theorem number_prints_witness:
  "number (\<lambda>_. 0) 100 104 255 16 6 4 96 = (mem_store (\<lambda>_. 0) 100 [48, 120, 48, 48], 106)"
proof -
  have t: "number_text 255 16 6 4 96 = [48, 120, 48, 48, 102, 102]" by code_simp
  show ?thesis using number_prints [of 16 "\<lambda>_. 0" 100 104 255 6 4 96 0] by (simp add: t)
qed

section \<open>Reading back what was printed\<close>

lemma digit_hex: "d < 16 \<Longrightarrow> lc = 0 \<or> lc = 32 \<Longrightarrow> digit (hex_digits ! d OR lc) = d"
proof -
  assume d: "d < 16" and lc: "lc = 0 \<or> lc = 32"
  have all: "list_all (\<lambda>d. digit (hex_digits ! d OR 0) = d \<and> digit (hex_digits ! d OR 32) = d) [0..<16]"
    by code_simp
  show ?thesis using d lc all by (auto simp: list_all_iff)
qed

lemma digit_dec: "d < 10 \<Longrightarrow> digit (dec_char d) = d"
proof -
  assume d: "d < 10"
  then have "unat (dec_char d) = d + 48" unfolding dec_char_def by (subst unat_of_nat) simp
  then show ?thesis using d by (simp add: digit_def unat_decode_digit)
qed

lemma rev_digits_less: "2 \<le> b \<Longrightarrow> \<forall>d\<in>set (rev_digits b n). d < b"
proof (induction b n rule: rev_digits.induct)
  case (1 b n)
  then show ?case by (subst rev_digits.simps) (auto simp: not_less)
qed

lemma digit_num_digits:
  assumes "base = 8 \<or> base = 10 \<or> base = 16" "lc = 0 \<or> lc = 32"
  shows "map digit (num_digits base lc n) = rev (rev_digits base n)"
proof -
  have "digit (if base = 10 then dec_char d else hex_digits ! d OR lc) = d" if "d \<in> set (rev_digits base n)" for d
  proof -
    have "d < base" using that assms(1) rev_digits_less [of base n] by auto
    then show ?thesis using assms digit_hex [of d lc] digit_dec [of d] by auto
  qed
  then show ?thesis unfolding num_digits_def map_map by (intro map_idI) simp
qed

lemma foldl_rev_digits: "2 \<le> b \<Longrightarrow> foldl (\<lambda>r d. r * b + d) 0 (rev (rev_digits b n)) = n"
proof (induction b n rule: rev_digits.induct)
  case (1 b n)
  then show ?case by (subst rev_digits.simps) auto
qed

lemma digits_val_map: "digits_val b cs = foldl (\<lambda>r d. r * b + d) 0 (map digit cs)"
  by (simp add: digits_val_def foldl_map)

lemma digits_val_zeros: "digits_val b (replicate k 48 @ cs) = digits_val b cs"
proof -
  have "digit 48 = 0" by (simp add: digit_def unat_decode_digit)
  then have "foldl (\<lambda>r d. r * b + digit d) 0 (replicate k 48) = 0" by (induction k) auto
  then show ?thesis by (simp add: digits_val_def)
qed

lemma digit_not_x: "digit c < 16 \<Longrightarrow> tolower c \<noteq> 120"
proof
  assume c: "digit c < 16" and x: "tolower c = 120"
  have "unat (tolower c) < 120" using c by (auto simp: digit_def unat_decode_digit unat_tolower isupper_iff split: if_splits)
  then show False by (simp add: x)
qed

text \<open>A text that is a prefix, zeros and the digits of a number parses to that number.\<close>

lemma parse_printed:
  fixes base :: nat
  assumes base: "base = 8 \<or> base = 10 \<or> base = 16" and lc: "lc = 0 \<or> lc = 32"
    and pfx: "pfx = [] \<or> base = 8 \<and> pfx = [48] \<or> base = 16 \<and> pfx = [48, 88 OR lc]"
    and c: "cstr m p (pfx @ replicate k 48 @ num_digits base lc (unat num))"
  shows "simple_strtoul m p (word_of_nat base) = Some (num, p + length (pfx @ replicate k 48 @ num_digits base lc (unat num)))"
proof -
  let ?ds = "num_digits base lc (unat num)" and ?z = "replicate k 48"
  let ?xs = "pfx @ ?z @ ?ds"
  have ub: "unat (word_of_nat base :: u32) = base" "2 \<le> base" "base \<le> 16" using base by auto
  have z: "digit 48 = 0" by (simp add: digit_def unat_decode_digit)
  have "\<forall>d\<in>set (map digit ?ds). d < base"
    unfolding digit_num_digits [OF base lc] using rev_digits_less [OF ub(2)] by simp
  then have all: "\<forall>c\<in>set (?z @ ?ds). digit c < base" using ub z by auto
  then have lead: "?z @ ?ds = leading_digits base (?z @ ?ds)"
    unfolding leading_digits_def by (subst takeWhile_eq_all_conv [THEN iffD2]) auto
  have val: "digits_val base (?z @ ?ds) = unat num"
    by (simp only: digits_val_zeros) (simp add: digits_val_map digit_num_digits [OF base lc] foldl_rev_digits ub)
  show ?thesis
  proof (cases "pfx = [48, 88 OR lc] \<and> base = 16")
    case True
    have "tolower (88 OR lc) = 120" using lc by (elim disjE) (simp_all add: tolower_def isupper_iff)
    then have r: "radix_prefix (unat (word_of_nat base :: u32)) ?xs = (2, 16)" using True by (simp add: radix_prefix_def)
    show ?thesis using simple_strtoul_cstr [OF c _ r, of "?z @ ?ds"] True lead val ub by (simp add: add.assoc)
  next
    case False
    then have p: "pfx = [] \<or> pfx = [48]" using pfx by auto
    then have "\<forall>c\<in>set ?xs. digit c < base" using all z ub by auto
    then have "tolower (?xs ! 1) \<noteq> 120" if "1 < length ?xs"
      using that ub by (intro digit_not_x) (meson nth_mem order_less_le_trans)
    then have r: "radix_prefix (unat (word_of_nat base :: u32)) ?xs = (0, base)"
      using ub by (auto simp: radix_prefix_def)
    have v: "digits_val base ?xs = unat num" using p val digits_val_zeros [of base 1 "?z @ ?ds"] by auto
    have l: "?xs = leading_digits base (drop 0 ?xs)"
      using \<open>\<forall>c\<in>set ?xs. digit c < base\<close> unfolding leading_digits_def
      by (subst takeWhile_eq_all_conv [THEN iffD2]) auto
    show ?thesis using simple_strtoul_cstr [OF c _ r l] ub v by simp
  qed
qed

lemma digit_char_nz: "digit c < 16 \<Longrightarrow> c \<noteq> 0"
  by auto

lemma cstr_written:
  assumes "0 \<notin> set cs"
  shows "cstr ((mem_store m p cs)(p + length cs := 0)) p cs"
  using assms by (simp add: cstr_def mem_simps)

text \<open>
  C23. What \<open>number\<close> prints unsigned into a buffer with room to spare, in base 8, 10 or 16, with or
  without prefix, in either case, with any precision and any zero padding, \<open>simple_strtoul\<close> reads
  back in that base as the same number, and stops exactly at the end of the text.\<close>

theorem number_strtoul_roundtrip:
  assumes base: "base = 8 \<or> base = 10 \<or> base = 16" and flags: "\<not> flag 1 type"
    and pad: "sz \<le> 0 \<or> flag 0 type \<and> \<not> flag 4 type"
    and print: "number m buf e num base sz precision type = (m', q)" and room: "q < e"
  shows "simple_strtoul (m'(q := 0)) buf (word_of_int base) = Some (num, q)"
proof -
  define lc where "lc = (ucast (type AND 32) :: u8)"
  define pfx where "pfx = (if flag 6 type \<and> base = 16 then [48, 88 OR lc]
                    else if flag 6 type \<and> base \<noteq> 10 then [48] else [])"
  let ?ds = "num_digits (nat base) lc (unat num)"
  have lc: "lc = 0 \<or> lc = 32" unfolding lc_def by (rule locase_cases)
  have nb: "nat base = 8 \<or> nat base = 10 \<or> nat base = 16" using base by auto
  obtain k where t: "number_text num base sz precision type = pfx @ replicate k 48 @ ?ds"
  proof (cases "sz \<le> 0")
    case True
    then show ?thesis using flags that [of "nat precision - length ?ds"]
      by (simp add: number_text_def Let_def lc_def pfx_def)
  next
    case False
    then show ?thesis using flags pad
      by (intro that [of "nat (sz - int (length pfx + length (replicate (nat precision - length ?ds) (48 :: u8) @ ?ds))) + (nat precision - length ?ds)"])
        (simp add: number_text_def Let_def lc_def pfx_def replicate_add)
  qed
  let ?xs = "pfx @ replicate k 48 @ ?ds"
  have out: "m' = mem_store m buf (take (e - buf) ?xs)" "q = buf + length ?xs"
    using print number_emit [OF base, of m buf e num sz precision type] by (simp_all add: emit_def t)
  then have "m' = mem_store m buf ?xs" using room by simp
  moreover have "0 \<notin> set ?xs"
  proof -
    have "2 \<le> nat base" "nat base \<le> 16" using nb by auto
    then have "\<forall>d\<in>set (map digit ?ds). d < 16"
      unfolding digit_num_digits [OF nb lc] using rev_digits_less [of "nat base" "unat num"]
      by (metis order_less_le_trans set_rev)
    then have "0 \<notin> set ?ds" by auto
    moreover have "0 \<notin> set pfx" using lc by (auto simp: pfx_def)
    ultimately show ?thesis by auto
  qed
  ultimately have c: "cstr (m'(q := 0)) buf ?xs" using cstr_written [of ?xs m buf] out(2) by simp
  have "pfx = [] \<or> nat base = 8 \<and> pfx = [48] \<or> nat base = 16 \<and> pfx = [48, 88 OR lc]"
    using base by (auto simp: pfx_def)
  from parse_printed [OF nb lc this c] show ?thesis using base out(2) by auto
qed

theorem number_strtoul_roundtrip_witness:
  "\<exists>m' q. number (\<lambda>_. 0) 100 120 190 16 8 (- 1) 97 = (m', q) \<and> simple_strtoul (m'(q := 0)) 100 16 = Some (190, q)"
proof -
  obtain m' q where p: "number (\<lambda>_. 0) 100 120 190 16 8 (- 1) 97 = (m', q)" by fastforce
  have t: "number_text 190 16 8 (- 1) 97 = [48, 120, 48, 48, 48, 48, 98, 101]" by code_simp
  have f: "\<not> flag 1 97" "flag 0 97" "\<not> flag 4 97" by code_simp+
  have "q = 108" using p number_emit [of 16 "\<lambda>_. 0" 100 120 190 8 "- 1" 97] by (simp add: emit_def t)
  then show ?thesis using p f number_strtoul_roundtrip [OF _ f(1) _ p] by auto
qed

section \<open>Strings\<close>

lemma width_loop_emit:
  "width_loop m buf e len fw =
     (let (m', buf') = emit m buf e (replicate (nat (fw - len)) 32) in (m', buf', min fw len - 1))"
proof (induction m buf e len fw rule: width_loop.induct)
  case (1 m buf e len fw)
  show ?case
  proof (cases "len < fw")
    case True
    then have "nat (fw - len) = Suc (nat (fw - 1 - len))" by simp
    then show ?thesis using 1 True
      by (subst width_loop.simps) (auto simp: emit_Cons min_def split: prod.splits)
  qed (subst width_loop.simps, simp)
qed

lemma copy_loop_emit:
  assumes "s + n \<le> buf \<or> e \<le> s"
  shows "copy_loop m buf e s n = emit m buf e (mem_bytes m s n)"
  using assms
proof (induction n arbitrary: m buf s)
  case (Suc n)
  show ?case
  proof (cases "buf < e")
    case True
    let ?m = "m(buf := m s)"
    have "mem_bytes ?m (s + 1) n = mem_bytes m (s + 1) n" using Suc.prems True by (intro mem_bytes_upd_other) auto
    then show ?thesis using Suc.IH [of "s + 1" "buf + 1" ?m] Suc.prems True
      by (auto simp: mem_bytes_Suc emit_Cons ADDCH_def simp del: fun_upd_apply)
  next
    case False
    have "copy_loop m b e q n = emit m b e (mem_bytes m q n)" if "\<not> b < e" for b q n
      using that by (induction n arbitrary: b q) (simp_all add: ADDCH_def emit_def)
    then show ?thesis using False by blast
  qed
qed simp

lemma strnlen_cstr: "cstr m p xs \<Longrightarrow> strnlen m p n = min n (length xs)"
proof -
  assume "cstr m p xs"
  then have "strnlen_loop m p n = p + min n (length xs)"
  proof (induction n arbitrary: p xs)
    case (Suc n)
    then show ?case by (cases xs) auto
  qed simp
  then show ?thesis by (simp add: strnlen_def)
qed

lemma nat_to_int: "n < 2 ^ 31 \<Longrightarrow> to_int n = int n"
  by (simp add: to_int_def signed_take_bit_int_eq_self)

text \<open>
  \<open>string\<close> writes the string, cut to the precision and padded on the left or right to the field
  width, wherever the buffer does not overlap the string.
\<close>

lemma string_conv_prints:
  fixes precision :: int
  defines "k \<equiv> unat (word_of_int precision :: u64)"
  assumes c: "cstr m s xs" and s: "s \<noteq> NULL" "length xs < 2 ^ 31"
    and apart: "s + length xs \<le> buf \<or> e \<le> s"
  shows "string_conv null_text m buf e s field_width precision flags =
           (let body = take k xs; pad = replicate (nat field_width - length body) 32
            in emit m buf e (if flag 4 flags then body @ pad else pad @ body))"
proof -
  define len where "len = min k (length xs)"
  have l: "to_int (strnlen m s k) = int len"
    using s by (simp add: strnlen_cstr [OF c] len_def nat_to_int)
  have body: "take k xs = mem_bytes m s len" "length (take k xs) = len"
    using cstr_take_drop [OF c, of 0 len] by (simp_all add: len_def min_def)
  have pad: "nat (field_width - int len) = nat field_width - len" by (simp add: nat_diff_distrib')
  have copy: "copy_loop m' b e s len = emit m' b e (mem_bytes m s len)"
    if "b = buf + j" "m' = mem_store m buf (take (e - buf) cs)" for m' b cs j
  proof -
    have "mem_bytes m' s len = mem_bytes m s len"
      unfolding that using apart by (intro mem_store_disjoint) (auto simp: disjoint_range_def len_def)
    moreover have "s + len \<le> b \<or> e \<le> s" using apart that(1) by (auto simp: len_def)
    ultimately show ?thesis using copy_loop_emit [of s len b e m'] by simp
  qed
  show ?thesis
  proof (cases "flag 4 flags")
    case True
    then show ?thesis using s copy [of buf 0 m "[]"]
      by (simp add: string_conv_def Let_def k_def [symmetric] l body width_loop_emit pad emit_append case_prod_beta')
  next
    case False
    let ?p = "replicate (nat field_width - len) 32"
    have "copy_loop (fst (emit m buf e ?p)) (snd (emit m buf e ?p)) e s len =
        emit (fst (emit m buf e ?p)) (snd (emit m buf e ?p)) e (mem_bytes m s len)"
      by (rule copy [of _ "length ?p" _ ?p]) (simp_all add: emit_def)
    then show ?thesis using False s
      by (simp add: string_conv_def Let_def k_def [symmetric] l body width_loop_emit pad emit_append case_prod_beta')
  qed
qed

end
