(* ===== verification/CliGetch.thy ===== *)
theory CliGetch
  imports Prelude
begin

text \<open>
  The escape-sequence machine of the command line, \<open>common/cli_getch.c\<close>. \<open>cli_ch_process\<close> takes one
  input character, 0 to fetch characters of a rejected sequence, or \<open>-ETIMEDOUT\<close>; its result is
  \<open>None\<close> when it would read or write outside \<open>esc_save\<close>. A \<open>char\<close> may be signed or not, so the
  conversion of a saved character back to \<open>int\<close> takes that as a parameter. The second half states
  what the machine is for: a table of keys and a decoder over whole sequences, which the machine
  refines when it is driven as \<open>include/cli.h\<close> says.
\<close>

section \<open>Model\<close>

record cli_ch_state =
  esc_len :: int
  esc_save :: "u8 list"
  emit_upto :: int
  emitting :: bool

datatype cli_esc_state_t = ESC_REJECT | ESC_SAVE | ESC_CONVERTED

definition CTL_CH :: "int \<Rightarrow> int" where
  "CTL_CH c = c - 97 + 1"

abbreviation (input) ETIMEDOUT :: int where "ETIMEDOUT \<equiv> 110"

text \<open>Reading a \<open>char\<close> as an \<open>int\<close>.\<close>

definition char_int :: "bool \<Rightarrow> u8 \<Rightarrow> int" where
  "char_int signed_char c = (if signed_char then sint c else uint c)"

definition cli_ch_init :: cli_ch_state where
  "cli_ch_init = \<lparr>esc_len = 0, esc_save = replicate 8 0, emit_upto = 0, emitting = False\<rparr>"

text \<open>The action and the output character; the indices 1 and 2 are inside the array.\<close>

definition cli_ch_esc :: "cli_ch_state \<Rightarrow> int \<Rightarrow> cli_esc_state_t \<times> int" where
  "cli_ch_esc cch ichar =
     (if esc_len cch = 1 then
        if ichar = 91 \<or> ichar = 79 then (ESC_SAVE, ichar) else (ESC_CONVERTED, ichar)
      else if esc_len cch = 2 then
        if ichar = 68 then (ESC_CONVERTED, CTL_CH 98)
        else if ichar = 67 then (ESC_CONVERTED, CTL_CH 102)
        else if ichar = 72 then (ESC_CONVERTED, CTL_CH 97)
        else if ichar = 70 then (ESC_CONVERTED, CTL_CH 101)
        else if ichar = 65 then (ESC_CONVERTED, CTL_CH 112)
        else if ichar = 66 then (ESC_CONVERTED, CTL_CH 110)
        else if ichar \<in> {49, 50, 51, 52, 55, 56} then
          if esc_save cch ! 1 = 91 then (ESC_SAVE, ichar) else (ESC_REJECT, ichar)
        else (ESC_REJECT, ichar)
      else if esc_len cch = 3 then
        if ichar = 126 then
          if esc_save cch ! 2 = 51 then (ESC_CONVERTED, CTL_CH 100)
          else if esc_save cch ! 2 = 49 \<or> esc_save cch ! 2 = 55 then (ESC_CONVERTED, CTL_CH 97)
          else if esc_save cch ! 2 = 52 \<or> esc_save cch ! 2 = 56 then (ESC_CONVERTED, CTL_CH 101)
          else (ESC_REJECT, ichar)
        else if ichar = 48 then
          if esc_save cch ! 2 = 50 then (ESC_SAVE, ichar) else (ESC_REJECT, ichar)
        else (ESC_REJECT, ichar)
      else if esc_len cch = 4 then
        if ichar = 48 \<or> ichar = 49 then (ESC_SAVE, ichar) else (ESC_REJECT, ichar)
      else if esc_len cch = 5 then
        if ichar = 126 then (ESC_CONVERTED, 0) else (ESC_REJECT, ichar)
      else (ESC_REJECT, ichar))"

text \<open>\<open>esc_save[i]\<close> and \<open>esc_save[i] = c\<close>, which are defined for the indices 0 to 7 only.\<close>

definition save_get :: "cli_ch_state \<Rightarrow> int \<Rightarrow> u8 option" where
  "save_get cch i = (if 0 \<le> i \<and> i < 8 then Some (esc_save cch ! nat i) else None)"

definition save_put :: "cli_ch_state \<Rightarrow> int \<Rightarrow> int \<Rightarrow> cli_ch_state option" where
  "save_put cch i c =
     (if 0 \<le> i \<and> i < 8 then Some (cch\<lparr>esc_save := (esc_save cch)[nat i := word_of_int c]\<rparr>) else None)"

text \<open>What follows the \<open>switch (act)\<close>: an escape character starts a sequence.\<close>

definition cli_ch_finish :: "cli_ch_state \<Rightarrow> int \<Rightarrow> (cli_ch_state \<times> int) option" where
  "cli_ch_finish cch ichar =
     (if ichar = 27 then
        if esc_len cch = 0 then
          map_option (\<lambda>cch'. (cch'\<lparr>esc_len := 1\<rparr>, 0)) (save_put cch (esc_len cch) ichar)
        else Some (cch\<lparr>esc_len := 0\<rparr>, 0)
      else Some (cch, ichar))"

definition cli_ch_process :: "bool \<Rightarrow> cli_ch_state \<Rightarrow> int \<Rightarrow> (cli_ch_state \<times> int) option" where
  "cli_ch_process signed_char cch ichar =
     (if ichar = 0 then
        if emitting cch then
          if emit_upto cch < esc_len cch then
            map_option (\<lambda>c. (cch\<lparr>emit_upto := emit_upto cch + 1\<rparr>, char_int signed_char c))
              (save_get cch (emit_upto cch))
          else Some (cch\<lparr>emit_upto := 0, emitting := False, esc_len := 0\<rparr>, 0)
        else Some (cch, 0)
      else if ichar = - ETIMEDOUT then
        if esc_len cch \<noteq> 0 then Some (cch\<lparr>esc_len := 0\<rparr>, 27) else Some (cch, 0)
      else if ichar = 10 \<or> ichar = 13 then Some (cch, 10)
      else if esc_len cch \<noteq> 0 then
        (case cli_ch_esc cch ichar of
           (ESC_SAVE, ichar') \<Rightarrow>
             Option.bind (save_put cch (esc_len cch) ichar') (\<lambda>cch'.
               cli_ch_finish (cch'\<lparr>esc_len := esc_len cch + 1\<rparr>) 0)
         | (ESC_REJECT, ichar') \<Rightarrow>
             Option.bind (save_put cch (esc_len cch) ichar') (\<lambda>cch'.
               map_option (\<lambda>c. (cch'\<lparr>esc_len := esc_len cch + 1, emit_upto := emit_upto cch + 1, emitting := True\<rparr>,
                                char_int signed_char c))
                 (save_get cch' (emit_upto cch)))
         | (ESC_CONVERTED, ichar') \<Rightarrow> cli_ch_finish (cch\<lparr>esc_len := 0\<rparr>) ichar')
      else cli_ch_finish cch ichar)"

section \<open>The decoder that the machine implements\<close>

text \<open>The sequences that stand for a key, and the control character of the key; 0 for none.\<close>

definition esc_keys :: "(u8 list \<times> int) list" where
  "esc_keys =
     [([27, 91, 68], 2), ([27, 91, 67], 6), ([27, 91, 72], 1), ([27, 91, 70], 5), ([27, 91, 65], 16), ([27, 91, 66], 14),
      ([27, 79, 68], 2), ([27, 79, 67], 6), ([27, 79, 72], 1), ([27, 79, 70], 5), ([27, 79, 65], 16), ([27, 79, 66], 14),
      ([27, 91, 49, 126], 1), ([27, 91, 55, 126], 1), ([27, 91, 52, 126], 5), ([27, 91, 56, 126], 5), ([27, 91, 51, 126], 4),
      ([27, 91, 50, 48, 48, 126], 0), ([27, 91, 50, 48, 49, 126], 0)]"

definition key_prefix :: "u8 list \<Rightarrow> bool" where
  "key_prefix p = list_ex (\<lambda>(s, k). length p < length s \<and> take (length p) s = p) esc_keys"

text \<open>
  One input character against the pending part of a sequence: the new pending part and the
  characters delivered. A line end always goes through. An escape followed by anything that cannot
  continue a key is dropped; a longer sequence that is no key is delivered as it came.
\<close>

definition decode_step :: "bool \<Rightarrow> u8 list \<Rightarrow> u8 \<Rightarrow> u8 list \<times> int list" where
  "decode_step signed_char p c =
     (if c = 10 \<or> c = 13 then (p, [10])
      else if p = [] then if c = 27 then ([27], []) else ([], [uint c])
      else if key_prefix (p @ [c]) then (p @ [c], [])
      else if p = [27] then if c = 27 then ([27], []) else ([], [uint c])
      else case map_of esc_keys (p @ [c]) of
             Some k \<Rightarrow> ([], if k = 0 then [] else [k])
           | None \<Rightarrow> ([], map (char_int signed_char) (p @ [c])))"

fun decode :: "bool \<Rightarrow> u8 list \<Rightarrow> u8 list \<Rightarrow> u8 list \<times> int list" where
  "decode signed_char p [] = (p, [])"
| "decode signed_char p (c # cs) =
     (let (p', out) = decode_step signed_char p c; (p'', out') = decode signed_char p' cs in (p'', out @ out'))"

section \<open>Driving the machine\<close>

text \<open>
  The loop that \<open>include/cli.h\<close> prescribes: saved characters are fetched with 0 until there are
  none, and then a character is read. \<open>drain n\<close> fetches at most \<open>n\<close> characters.
\<close>

fun drain :: "bool \<Rightarrow> nat \<Rightarrow> cli_ch_state \<Rightarrow> (cli_ch_state \<times> int list) option" where
  "drain signed_char 0 cch = None"
| "drain signed_char (Suc n) cch =
     Option.bind (cli_ch_process signed_char cch 0) (\<lambda>(cch', r).
       if r = 0 then Some (cch', [])
       else map_option (\<lambda>(cch'', rs). (cch'', r # rs)) (drain signed_char n cch'))"

definition feed :: "bool \<Rightarrow> cli_ch_state \<Rightarrow> u8 \<Rightarrow> (cli_ch_state \<times> int list) option" where
  "feed signed_char cch c =
     Option.bind (cli_ch_process signed_char cch (uint c)) (\<lambda>(cch', r).
       map_option (\<lambda>(cch'', rs). (cch'', if r = 0 then rs else r # rs)) (drain signed_char 9 cch'))"

fun feed_all :: "bool \<Rightarrow> cli_ch_state \<Rightarrow> u8 list \<Rightarrow> (cli_ch_state \<times> int list) option" where
  "feed_all signed_char cch [] = Some (cch, [])"
| "feed_all signed_char cch (c # cs) =
     Option.bind (feed signed_char cch c) (\<lambda>(cch', out).
       map_option (\<lambda>(cch'', out'). (cch'', out @ out')) (feed_all signed_char cch' cs))"

text \<open>Between two characters the machine holds a pending prefix of a key and emits nothing.\<close>

definition pending :: "cli_ch_state \<Rightarrow> u8 list \<Rightarrow> bool" where
  "pending cch p \<longleftrightarrow>
     length (esc_save cch) = 8 \<and> esc_len cch = int (length p) \<and> take (length p) (esc_save cch) = p \<and>
     emit_upto cch = 0 \<and> \<not> emitting cch \<and> key_prefix p"

section \<open>Refinement\<close>

lemma prefix_take: "(length p < length s \<and> take (length p) s = p) = (p \<in> set (map (\<lambda>n. take n s) [0..<length s]))"
  by (auto intro: rev_image_eqI)

lemma key_prefix_iff:
  "key_prefix p \<longleftrightarrow> p \<in> set [[], [27], [27, 91], [27, 79], [27, 91, 49], [27, 91, 55], [27, 91, 52], [27, 91, 56],
     [27, 91, 51], [27, 91, 50], [27, 91, 50, 48], [27, 91, 50, 48, 48], [27, 91, 50, 48, 49]]"
proof -
  have "key_prefix p \<longleftrightarrow> p \<in> set (concat (map (\<lambda>(s, k). map (\<lambda>n. take n s) [0..<length s]) esc_keys))"
    by (simp only: key_prefix_def list_ex_iff prefix_take case_prod_unfold) auto
  also have "set (concat (map (\<lambda>(s, k). map (\<lambda>n. take n s) [0..<length s]) esc_keys)) =
     set [[], [27], [27, 91], [27, 79], [27, 91, 49], [27, 91, 55], [27, 91, 52], [27, 91, 56],
     [27, 91, 51], [27, 91, 50], [27, 91, 50, 48], [27, 91, 50, 48, 48], [27, 91, 50, 48, 49]]"
    by code_simp
  finally show ?thesis .
qed

lemma uint_byte_less: "uint (c :: u8) < 256"
  using unsigned_less [of c] by (simp add: unat_eq_nat_uint nat_less_iff)

lemma uint_byte_eq: "uint (c :: u8) = numeral k \<longleftrightarrow> numeral k < (256 :: int) \<and> c = numeral k"
proof
  assume c: "uint c = numeral k"
  then have "c = numeral k" by (metis word_of_int_numeral word_of_int_uint)
  then show "numeral k < (256 :: int) \<and> c = numeral k" using c uint_byte_less [of c] by simp
next
  assume k: "numeral k < (256 :: int) \<and> c = numeral k"
  have "uint (word_of_int (numeral k) :: u8) = numeral k mod 2 ^ 8" by (subst uint_word_of_int) simp
  moreover have "numeral k mod 2 ^ 8 = (numeral k :: int)" using k by (intro mod_pos_pos_trivial) simp_all
  ultimately show "uint c = numeral k" using k by (metis word_of_int_numeral)
qed

lemma cli_ch_esc_pending:
  assumes "pending cch p" "p \<noteq> []"
  shows "cli_ch_esc cch (uint c) =
           (if key_prefix (p @ [c]) then (ESC_SAVE, uint c)
            else if p = [27] then (ESC_CONVERTED, uint c)
            else case map_of esc_keys (p @ [c]) of Some k \<Rightarrow> (ESC_CONVERTED, k) | None \<Rightarrow> (ESC_REJECT, uint c))"
proof -
  have len: "esc_len cch = int (length p)" and p: "p = take (length p) (esc_save cch)" and k: "key_prefix p"
    and l8: "length (esc_save cch) = 8"
    using assms(1) by (simp_all add: pending_def)
  have nth: "esc_save cch ! i = p ! i" if "i < length p" for i using p that by (metis nth_take)
  from k assms(2) consider "p = [27]" | "p = [27, 91]" | "p = [27, 79]" | "p = [27, 91, 49]" | "p = [27, 91, 55]"
    | "p = [27, 91, 52]" | "p = [27, 91, 56]" | "p = [27, 91, 51]" | "p = [27, 91, 50]" | "p = [27, 91, 50, 48]"
    | "p = [27, 91, 50, 48, 48]" | "p = [27, 91, 50, 48, 49]"
    unfolding key_prefix_iff by (auto simp del: append.simps)
  then show ?thesis
  by cases (use nth in \<open>simp_all add: cli_ch_esc_def len key_prefix_iff esc_keys_def CTL_CH_def uint_byte_eq\<close>)
qed

lemma char_int_nz: "c \<noteq> 0 \<Longrightarrow> char_int sg c \<noteq> 0"
  by (simp add: char_int_def unsigned_eq_0_iff signed_eq_0_iff)

lemma drain_emitting:
  assumes "emitting cch" "0 \<le> emit_upto cch" "emit_upto cch \<le> esc_len cch" "esc_len cch \<le> 8"
    and "length (esc_save cch) = 8" "0 \<notin> set (take (nat (esc_len cch)) (esc_save cch))"
    and "nat (esc_len cch - emit_upto cch) < n"
  shows "drain sg n cch =
           Some (cch\<lparr>emit_upto := 0, emitting := False, esc_len := 0\<rparr>,
                 map (char_int sg) (drop (nat (emit_upto cch)) (take (nat (esc_len cch)) (esc_save cch))))"
  using assms
proof (induction n arbitrary: cch)
  case (Suc n)
  show ?case
  proof (cases "emit_upto cch < esc_len cch")
    case True
    define i where "i = nat (emit_upto cch)"
    let ?xs = "take (nat (esc_len cch)) (esc_save cch)"
    have i: "i < length ?xs" "emit_upto cch = int i" using Suc.prems True by (simp_all add: i_def)
    then have x: "esc_save cch ! i = ?xs ! i" by simp
    then have nz: "esc_save cch ! i \<noteq> 0" using Suc.prems(6) i(1) by (metis nth_mem)
    let ?c = "cch\<lparr>emit_upto := emit_upto cch + 1\<rparr>"
    have "drain sg n ?c = Some (?c\<lparr>emit_upto := 0, emitting := False, esc_len := 0\<rparr>,
                 map (char_int sg) (drop (nat (emit_upto ?c)) ?xs))"
      using Suc.IH [of ?c] Suc.prems True by simp
    moreover have "drop i ?xs = esc_save cch ! i # drop (Suc i) ?xs" using Cons_nth_drop_Suc [OF i(1)] x by simp
    moreover have "nat (int i + 1) = Suc i" by simp
    ultimately show ?thesis
      using Suc.prems True nz i(2) char_int_nz [OF nz, of sg]
      by (simp add: cli_ch_process_def save_get_def)
  next
    case False
    then show ?thesis using Suc.prems by (simp add: cli_ch_process_def)
  qed
qed simp

lemma drain_quiet: "\<not> emitting cch \<Longrightarrow> drain sg (Suc n) cch = Some (cch, [])"
  by (simp add: cli_ch_process_def)

lemma pending_bounds:
  assumes "pending cch p"
  shows "length p \<le> 5" "0 \<notin> set p"
  using assms by (auto simp: pending_def key_prefix_iff)

lemma pending_save:
  assumes "pending cch p" "key_prefix (p @ [c])"
  shows "pending (cch\<lparr>esc_save := (esc_save cch)[length p := c], esc_len := int (length p) + 1\<rparr>) (p @ [c])"
  using assms pending_bounds [OF assms(1)] by (simp add: pending_def take_Suc_conv_app_nth)

lemma key_prefix_Nil: "key_prefix []"
  by (simp add: key_prefix_iff)

lemma esc_keys_codes: "map_of esc_keys s = Some k \<Longrightarrow> k \<noteq> 27"
  by (auto simp: esc_keys_def split: if_splits)

lemma process_char:
  fixes c :: u8
  assumes "c \<noteq> 0" "c \<noteq> 10" "c \<noteq> 13"
  shows "cli_ch_process sg cch (uint c) =
     (if esc_len cch \<noteq> 0 then
        (case cli_ch_esc cch (uint c) of
           (ESC_SAVE, ichar') \<Rightarrow>
             Option.bind (save_put cch (esc_len cch) ichar') (\<lambda>cch'.
               cli_ch_finish (cch'\<lparr>esc_len := esc_len cch + 1\<rparr>) 0)
         | (ESC_REJECT, ichar') \<Rightarrow>
             Option.bind (save_put cch (esc_len cch) ichar') (\<lambda>cch'.
               map_option (\<lambda>c. (cch'\<lparr>esc_len := esc_len cch + 1, emit_upto := emit_upto cch + 1, emitting := True\<rparr>,
                                char_int sg c))
                 (save_get cch' (emit_upto cch)))
         | (ESC_CONVERTED, ichar') \<Rightarrow> cli_ch_finish (cch\<lparr>esc_len := 0\<rparr>) ichar')
      else cli_ch_finish cch (uint c))"
proof -
  have "uint c \<noteq> 0" "uint c \<noteq> 10" "uint c \<noteq> 13"
    using assms by (auto simp: unsigned_eq_0_iff uint_byte_eq)
  moreover have "0 \<le> uint c" by simp
  then have "uint c \<noteq> - ETIMEDOUT" by linarith
  ultimately show ?thesis by (simp add: cli_ch_process_def)
qed

lemma pending_idle: "pending cch p \<Longrightarrow> pending (cch\<lparr>esc_len := 0\<rparr>) []"
  by (simp add: pending_def key_prefix_Nil)

lemma finish_idle:
  fixes c :: u8
  assumes "pending cch []"
  shows "\<exists>cch'. cli_ch_finish cch (uint c) = Some (cch', if c = 27 then 0 else uint c) \<and>
           pending cch' (if c = 27 then [27] else [])"
  using assms
  by (auto simp: cli_ch_finish_def save_put_def uint_byte_eq pending_def key_prefix_iff take_Suc_conv_app_nth)

lemma feed_reject:
  assumes p: "pending cch p" "p \<noteq> []" and c: "c \<noteq> 0" "c \<noteq> 10" "c \<noteq> 13" and act: "cli_ch_esc cch (uint c) = (ESC_REJECT, uint c)"
  shows "\<exists>cch'. feed sg cch c = Some (cch', map (char_int sg) (p @ [c])) \<and> pending cch' []"
proof -
  note b = pending_bounds [OF p(1)]
  let ?s = "(esc_save cch)[length p := c]"
  let ?c = "cch\<lparr>esc_save := ?s, esc_len := int (length p) + 1, emit_upto := 1, emitting := True\<rparr>"
  have len: "esc_len cch = int (length p)" "length (esc_save cch) = 8" "emit_upto cch = 0" "take (length p) (esc_save cch) = p"
    using p(1) by (simp_all add: pending_def)
  have s: "take (Suc (length p)) ?s = p @ [c]" using len b by (simp add: take_Suc_conv_app_nth)
  have n: "nat (int (length p) + 1) = Suc (length p)" by simp
  have h: "?s ! 0 = hd p" using arg_cong [OF s, of "\<lambda>x. x ! 0"] p(2) by (simp add: nth_append hd_conv_nth)
  have "drain sg 9 ?c = Some (?c\<lparr>emit_upto := 0, emitting := False, esc_len := 0\<rparr>, map (char_int sg) (tl (p @ [c])))"
    using drain_emitting [of ?c 9 sg] len b c p(2) s n by (cases p) simp_all
  moreover have "cli_ch_process sg cch (uint c) = Some (?c, char_int sg (hd p))"
    using p(2) len b h by (simp add: process_char [OF c] act save_put_def save_get_def)
  moreover have "hd p \<noteq> 0" using b(2) p(2) by (metis hd_in_set)
  ultimately have "feed sg cch c = Some (?c\<lparr>emit_upto := 0, emitting := False, esc_len := 0\<rparr>, map (char_int sg) (hd p # tl (p @ [c])))"
    by (simp add: feed_def char_int_nz)
  moreover have "hd p # tl (p @ [c]) = p @ [c]" using p(2) by simp
  moreover have "pending (?c\<lparr>emit_upto := 0, emitting := False, esc_len := 0\<rparr>) []"
    using len by (simp add: pending_def key_prefix_Nil)
  ultimately show ?thesis by metis
qed

lemma feed_refines:
  assumes "pending cch p" "c \<noteq> 0"
  shows "\<exists>cch'. feed sg cch c = Some (cch', snd (decode_step sg p c)) \<and> pending cch' (fst (decode_step sg p c))"
proof -
  have quiet: "drain sg 9 cch' = Some (cch', [])" if "pending cch' q" for cch' q
    using that drain_quiet [of cch' sg 8] by (simp add: pending_def)
  have len: "esc_len cch = int (length p)" using assms(1) by (simp add: pending_def)
  consider "c = 10 \<or> c = 13" | "c \<noteq> 10" "c \<noteq> 13" "p = []" | "c \<noteq> 10" "c \<noteq> 13" "p \<noteq> []" by blast
  then show ?thesis
  proof cases
    case 1
    then have "cli_ch_process sg cch (uint c) = Some (cch, 10)" by (auto simp: cli_ch_process_def)
    then show ?thesis using 1 assms quiet [OF assms(1)] by (auto simp: feed_def decode_step_def)
  next
    case 2
    then obtain cch' where f: "cli_ch_finish cch (uint c) = Some (cch', if c = 27 then 0 else uint c)"
      and q: "pending cch' (if c = 27 then [27] else [])"
      using finish_idle [of cch c] assms(1) by auto
    have "uint c \<noteq> 0" using assms(2) by (simp add: unsigned_eq_0_iff)
    then show ?thesis using 2 f q quiet [OF q] process_char [OF assms(2) 2(1,2), of sg cch] len
      by (auto simp: feed_def decode_step_def)
  next
    case 3
    note esc = cli_ch_esc_pending [OF assms(1) 3(3), of c]
    note step = process_char [OF assms(2) 3(1,2), of sg cch]
    have d: "decode_step sg p c =
       (if key_prefix (p @ [c]) then (p @ [c], [])
        else if p = [27] then if c = 27 then ([27], []) else ([], [uint c])
        else case map_of esc_keys (p @ [c]) of
               Some k \<Rightarrow> ([], if k = 0 then [] else [k]) | None \<Rightarrow> ([], map (char_int sg) (p @ [c])))"
      using 3 by (simp add: decode_step_def)
    show ?thesis
    proof (cases "key_prefix (p @ [c])")
      case True
      note q = pending_save [OF assms(1) True]
      show ?thesis using True 3(3) esc step len q quiet [OF q] pending_bounds [OF assms(1)] d
        by (simp add: feed_def save_put_def cli_ch_finish_def)
    next
      case noprefix: False
      note idle = pending_idle [OF assms(1)]
      show ?thesis
      proof (cases "p = [27]")
        case True
        obtain cch' where f: "cli_ch_finish (cch\<lparr>esc_len := 0\<rparr>) (uint c) = Some (cch', if c = 27 then 0 else uint c)"
          and q: "pending cch' (if c = 27 then [27] else [])"
          using finish_idle [OF idle, of c] by auto
        have "uint c \<noteq> 0" using assms(2) by (simp add: unsigned_eq_0_iff)
        then show ?thesis using True noprefix esc step len f q quiet [OF q] d by (auto simp: feed_def)
      next
        case other: False
        show ?thesis
        proof (cases "map_of esc_keys (p @ [c])")
          case None
          then have "cli_ch_esc cch (uint c) = (ESC_REJECT, uint c)" using esc noprefix other by simp
          from feed_reject [OF assms(1) 3(3) assms(2) 3(1,2) this] show ?thesis
            using d None noprefix other by auto
        next
          case (Some k)
          then have "k \<noteq> 27" by (rule esc_keys_codes)
          then show ?thesis using Some noprefix other esc step len idle quiet [OF idle] 3(3) d
            by (auto simp: feed_def cli_ch_finish_def)
        qed
      qed
    qed
  qed
qed

text \<open>
  C22. Driven as \<open>include/cli.h\<close> prescribes, from \<open>cli_ch_init\<close> and on any characters other than NUL,
  the machine never touches \<open>esc_save\<close> outside its bounds and delivers exactly what the decoder
  says: every cursor, Home, End and Delete sequence as its control character, bracketed-paste
  marks as nothing, every other longer sequence character by character as it came, and everything
  else unchanged.\<close>

theorem cli_ch_decodes:
  assumes "0 \<notin> set cs"
  shows "\<exists>cch. feed_all sg cli_ch_init cs = Some (cch, snd (decode sg [] cs)) \<and> esc_len cch \<le> 5"
proof -
  have run: "\<exists>cch'. feed_all sg cch cs = Some (cch', snd (decode sg p cs)) \<and> pending cch' (fst (decode sg p cs))"
    if "pending cch p" "0 \<notin> set cs" for cch p
    using that
  proof (induction cs arbitrary: cch p)
    case (Cons c cs)
    obtain cch1 where f: "feed sg cch c = Some (cch1, snd (decode_step sg p c))"
      and q: "pending cch1 (fst (decode_step sg p c))"
      using feed_refines [OF Cons.prems(1), of c sg] Cons.prems(2) by auto
    obtain cch2 where "feed_all sg cch1 cs = Some (cch2, snd (decode sg (fst (decode_step sg p c)) cs))"
      "pending cch2 (fst (decode sg (fst (decode_step sg p c)) cs))"
      using Cons.IH [OF q] Cons.prems(2) by auto
    then show ?case using f by (simp add: Let_def case_prod_unfold)
  qed simp
  have "pending cli_ch_init []" by (simp add: pending_def cli_ch_init_def key_prefix_Nil)
  from run [OF this assms] obtain cch where f: "feed_all sg cli_ch_init cs = Some (cch, snd (decode sg [] cs))"
    and q: "pending cch (fst (decode sg [] cs))" by blast
  from pending_bounds(1) [OF q] q have "esc_len cch \<le> 5" by (simp add: pending_def)
  with f show ?thesis by blast
qed

theorem cli_ch_decodes_witness:
  "\<exists>cch. feed_all True cli_ch_init [108, 27, 91, 65, 27, 91, 51, 126, 27, 91, 50, 126] =
           Some (cch, [108, 16, 4, 27, 91, 50, 126])"
proof -
  have d: "snd (decode True [] [108, 27, 91, 65, 27, 91, 51, 126, 27, 91, 50, 126]) = [108, 16, 4, 27, 91, 50, 126]"
    by code_simp
  show ?thesis
    using cli_ch_decodes [of "[108, 27, 91, 65, 27, 91, 51, 126, 27, 91, 50, 126]" True] unfolding d by auto
qed

section \<open>Timeouts, and a caller that does not fetch\<close>

text \<open>A timeout delivers the escape character alone and drops the rest of the pending part.\<close>

lemma timeout_cancels:
  assumes "pending cch p"
  shows "\<exists>cch'. cli_ch_process sg cch (- ETIMEDOUT) = Some (cch', if p = [] then 0 else 27) \<and> pending cch' []"
  using assms pending_idle [OF assms] by (auto simp: cli_ch_process_def pending_def)

text \<open>
  The bounds of \<open>esc_save\<close> rest on the protocol: a caller that passes on six more characters after
  a rejected sequence without fetching the saved ones makes the machine write past the array.
\<close>

fun process_all :: "bool \<Rightarrow> cli_ch_state \<Rightarrow> int list \<Rightarrow> cli_ch_state option" where
  "process_all signed_char cch [] = Some cch"
| "process_all signed_char cch (c # cs) =
     Option.bind (cli_ch_process signed_char cch c) (\<lambda>(cch', r). process_all signed_char cch' cs)"

lemma unfetched_overflow:
  "process_all True cli_ch_init [27, 91, 120, 120, 120, 120, 120, 120] \<noteq> None"
  "process_all True cli_ch_init [27, 91, 120, 120, 120, 120, 120, 120, 120] = None"
  by code_simp+

end
