(* ===== verification/CliSimple.thy ===== *)
theory CliSimple
  imports Strings
begin

text \<open>
  The simple command parser, \<open>common/cli_simple.c\<close>: macro expansion, splitting a line into
  arguments, and running the commands of a line or of a script.

  \<^item> \<open>cli_simple_process_macros\<close> reads its input and writes its output from left to right, so both
    are lists here, with the counters of the code; \<open>None\<close> means a write outside \<open>envname\<close>, or in
    front of an output buffer of size 0.
  \<^item> \<open>cli_simple_parse_line\<close> works in place on the byte store and returns the argument array, whose
    last entry is the \<open>NULL\<close> that the code stores, where it stores one.
  \<^item> \<open>CONFIG_SYS_CBSIZE\<close> and \<open>CONFIG_SYS_MAXARGS\<close> are the parameters \<open>cbsize\<close> and \<open>maxargs\<close>;
    \<open>env_get\<close>, \<open>cmd_process\<close>, \<open>clear_ctrlc\<close> and \<open>had_ctrlc\<close> are functions of a state \<open>'s\<close>, which
    the commands may change.
\<close>

section \<open>Model\<close>

subsection \<open>Macro expansion\<close>

text \<open>
  One turn of the \<open>switch\<close>: the character \<open>c\<close> with the position \<open>i\<close> after it. The state is 0
  waiting for \<open>$\<close>, 1 for an opening bracket, 2 for a closing one, 3 for a quote.
\<close>

record macro_state =
  mst :: nat
  varname_start :: nat
  outbuf :: "u8 list"
  outputcnt :: nat

definition put_out :: "macro_state \<Rightarrow> u8 \<Rightarrow> macro_state" where
  "put_out s c = s\<lparr>outbuf := outbuf s @ [c], outputcnt := outputcnt s - 1\<rparr>"

fun put_env :: "macro_state \<Rightarrow> u8 list \<Rightarrow> macro_state" where
  "put_env s [] = s"
| "put_env s (c # cs) = (if outputcnt s \<noteq> 0 then put_env (put_out s c) cs else s)"

definition macro_step ::
  "(u8 list \<Rightarrow> u8 list option) \<Rightarrow> nat \<Rightarrow> u8 list \<Rightarrow> nat \<Rightarrow> u8 \<Rightarrow> u8 \<Rightarrow> macro_state \<Rightarrow> macro_state option" where
  "macro_step env_get cbsize input i prev c s =
     (if mst s = 0 then
        if c = 39 \<and> prev \<noteq> 92 then Some (s\<lparr>mst := 3\<rparr>)
        else if c = 36 \<and> prev \<noteq> 92 then Some (s\<lparr>mst := 1\<rparr>)
        else Some (put_out s c)
      else if mst s = 1 then
        if c = 40 \<or> c = 123 then Some (s\<lparr>mst := 2, varname_start := i\<rparr>)
        else
          let s1 = put_out (s\<lparr>mst := 0\<rparr>) 36
          in Some (if outputcnt s1 \<noteq> 0 then put_out s1 c else s1)
      else if mst s = 2 then
        if c = 41 \<or> c = 125 then
          let envcnt = i - varname_start s - 1;
              envname = take envcnt (drop (varname_start s) input)
          in if envcnt \<ge> cbsize then None
             else Some ((case env_get envname of None \<Rightarrow> s | Some envval \<Rightarrow> put_env s envval)\<lparr>mst := 0\<rparr>)
        else Some s
      else
        if c = 39 \<and> prev \<noteq> 92 then Some (s\<lparr>mst := 0\<rparr>) else Some (put_out s c))"

text \<open>The loop, with the number of input characters left at its end; -1 after the \<open>break\<close>.\<close>

function macro_loop ::
  "(u8 list \<Rightarrow> u8 list option) \<Rightarrow> nat \<Rightarrow> u8 list \<Rightarrow> nat \<Rightarrow> u8 \<Rightarrow> macro_state \<Rightarrow> (int \<times> macro_state) option" where
  "macro_loop env_get cbsize input i prev s =
     (if i < length input \<and> outputcnt s \<noteq> 0 then
        let c = input ! i in
        if mst s \<noteq> 3 \<and> c = 92 \<and> prev \<noteq> 92 then
          if i + 1 = length input then Some (- 1, s)
          else
            let c' = input ! (i + 1)
            in Option.bind (macro_step env_get cbsize input (i + 2) 92 c' s)
                 (\<lambda>s'. macro_loop env_get cbsize input (i + 2) c' s')
        else
          Option.bind (macro_step env_get cbsize input (i + 1) prev c s)
            (\<lambda>s'. macro_loop env_get cbsize input (i + 1) c s')
      else Some (int (length input - i), s))"
  by pat_completeness auto
termination
  by (relation "measure (\<lambda>(env_get, cbsize, input, i, prev, s). length input - i)") auto

declare macro_loop.simps [simp del]

text \<open>The return code and the bytes of the output buffer that were written.\<close>

definition cli_simple_process_macros ::
  "(u8 list \<Rightarrow> u8 list option) \<Rightarrow> nat \<Rightarrow> u8 list \<Rightarrow> nat \<Rightarrow> (int \<times> u8 list) option" where
  "cli_simple_process_macros env_get cbsize input max_size =
     Option.bind (macro_loop env_get cbsize input 0 0
                    \<lparr>mst = 0, varname_start = 0, outbuf = [], outputcnt = max_size\<rparr>)
       (\<lambda>(inputcnt, s).
          let ret = (if inputcnt \<noteq> 0 then - ENOSPC else 0)
          in if outputcnt s \<noteq> 0 then Some (ret, outbuf s @ [0])
             else if outbuf s = [] then None
             else Some (- ENOSPC, butlast (outbuf s) @ [0]))"

subsection \<open>Arguments\<close>

partial_function (option) skip_blanks :: "mem \<Rightarrow> ptr \<Rightarrow> ptr option" where
  "skip_blanks m line = (if isblank (m line) then skip_blanks m (line + 1) else Some line)"

partial_function (option) arg_end :: "mem \<Rightarrow> ptr \<Rightarrow> ptr option" where
  "arg_end m line = (if m line \<noteq> 0 \<and> \<not> isblank (m line) then arg_end m (line + 1) else Some line)"

text \<open>The loop from \<open>nargs\<close> arguments on: the store, \<open>argv\<close> as far as it is set, and \<open>nargs\<close>.\<close>

function parse_loop :: "nat \<Rightarrow> mem \<Rightarrow> ptr \<Rightarrow> ptr list \<Rightarrow> nat \<Rightarrow> (mem \<times> ptr list \<times> nat) option" where
  "parse_loop maxargs m line argv nargs =
     (if nargs < maxargs then
        Option.bind (skip_blanks m line) (\<lambda>start.
          if m start = 0 then Some (m, argv @ [NULL], nargs)
          else Option.bind (arg_end m start) (\<lambda>e.
            if m e = 0 then Some (m, argv @ [start, NULL], nargs + 1)
            else parse_loop maxargs (m(e := 0)) (e + 1) (argv @ [start]) (nargs + 1)))
      else Some (m, argv, nargs))"
  by pat_completeness auto
termination
  by (relation "measure (\<lambda>(maxargs, m, line, argv, nargs). maxargs - nargs)") auto

declare parse_loop.simps [simp del]

definition cli_simple_parse_line :: "nat \<Rightarrow> mem \<Rightarrow> ptr \<Rightarrow> (mem \<times> ptr list \<times> nat) option" where
  "cli_simple_parse_line maxargs m line = parse_loop maxargs m line [] 0"

subsection \<open>Running a line\<close>

text \<open>
  The search for a separator from \<open>str\<close> on: the length of the token before it. \<open>prev\<close> is the byte
  in front; for the first character of the first token that is the byte before \<open>cmdbuf\<close>.
\<close>

fun find_sep :: "u8 \<Rightarrow> bool \<Rightarrow> bool \<Rightarrow> u8 list \<Rightarrow> nat" where
  "find_sep prev inquotes at_str [] = 0"
| "find_sep prev inquotes at_str (c # cs) =
     (let inquotes' = (if c = 39 \<and> prev \<noteq> 92 then \<not> inquotes else inquotes)
      in if \<not> inquotes' \<and> c = 59 \<and> \<not> at_str \<and> prev \<noteq> 92 then 0
         else Suc (find_sep c inquotes' False cs))"

record 's cmd_env =
  ce_env_get :: "'s \<Rightarrow> u8 list \<Rightarrow> u8 list option"
  ce_cmd_process :: "'s \<Rightarrow> int \<Rightarrow> nat \<Rightarrow> mem \<Rightarrow> ptr list \<Rightarrow> 's \<times> int \<times> int"
  ce_clear_ctrlc :: "'s \<Rightarrow> 's"
  ce_had_ctrlc :: "'s \<Rightarrow> bool"

text \<open>
  The loop over the tokens of \<open>cmdbuf\<close>: the state and the return value. \<open>finaltoken\<close> is a buffer
  at address \<open>fin\<close>; \<open>cmd_process\<close> returns its code and the new value of \<open>repeatable\<close>.
\<close>

function run_loop ::
  "'s cmd_env \<Rightarrow> nat \<Rightarrow> nat \<Rightarrow> mem \<Rightarrow> ptr \<Rightarrow> int \<Rightarrow> u8 \<Rightarrow> u8 list \<Rightarrow> 's \<Rightarrow> int \<Rightarrow> int \<Rightarrow> ('s \<times> int) option" where
  "run_loop ce cbsize maxargs m fin flag prev str st rc repeatable =
     (if str = [] then Some (st, if rc \<noteq> 0 then rc else repeatable)
      else
        let n = find_sep prev False True str;
            token = take n str;
            str' = drop (Suc n) str
        in Option.bind (cli_simple_process_macros (ce_env_get ce st) cbsize token cbsize) (\<lambda>(r, text).
             Option.bind (cli_simple_parse_line maxargs (mem_store m fin text) fin) (\<lambda>(m', argv, argc).
               if argc = 0 then run_loop ce cbsize maxargs m' fin flag 0 str' st (- 1) repeatable
               else
                 case ce_cmd_process ce st flag argc m' argv of (st', code, repeatable') \<Rightarrow>
                   let rc' = (if code \<noteq> 0 then - 1 else rc)
                   in if ce_had_ctrlc ce st' then Some (st', - 1)
                      else run_loop ce cbsize maxargs m' fin flag 0 str' st' rc' repeatable')))"
  by pat_completeness auto
termination
  by (relation "measure (\<lambda>(ce, cbsize, maxargs, m, fin, flag, prev, str, st, rc, rep). length str)")
    (auto simp: length_greater_0_conv [symmetric] simp del: length_greater_0_conv)

declare run_loop.simps [simp del]

text \<open>\<open>cmd\<close> is \<open>None\<close> for a \<open>NULL\<close> pointer; \<open>before\<close> is the byte in front of \<open>cmdbuf\<close>.\<close>

definition cli_simple_run_command ::
  "'s cmd_env \<Rightarrow> nat \<Rightarrow> nat \<Rightarrow> mem \<Rightarrow> ptr \<Rightarrow> u8 \<Rightarrow> 's \<Rightarrow> u8 list option \<Rightarrow> int \<Rightarrow> ('s \<times> int) option" where
  "cli_simple_run_command ce cbsize maxargs m fin before st cmd flag =
     (let st = ce_clear_ctrlc ce st
      in case cmd of
           None \<Rightarrow> Some (st, - 1)
         | Some cmd \<Rightarrow>
             if cmd = [] then Some (st, - 1)
             else if length cmd \<ge> cbsize then Some (st, - 1)
             else run_loop ce cbsize maxargs m fin flag before cmd st 0 1)"

text \<open>
  \<open>cli_simple_run_command_list\<close> from a line start on: \<open>line\<close> is what was scanned of the current
  line, the list the rest. The result is the state and \<open>rcode\<close>.
\<close>

fun list_loop ::
  "('s \<Rightarrow> u8 list \<Rightarrow> ('s \<times> int) option) \<Rightarrow> u8 list \<Rightarrow> u8 list \<Rightarrow> 's \<Rightarrow> ('s \<times> int) option" where
  "list_loop run line [] st =
     (if line \<noteq> [] then map_option (\<lambda>(st', r). (st', if r < 0 then 1 else 0)) (run st line) else Some (st, 0))"
| "list_loop run line (c # cs) st =
     (if c = 10 then
        if line \<noteq> [] then
          Option.bind (run st line) (\<lambda>(st', r). if r < 0 then Some (st', 1) else list_loop run [] cs st')
        else list_loop run [] cs st
      else list_loop run (line @ [c]) cs st)"

definition cli_simple_run_command_list ::
  "'s cmd_env \<Rightarrow> nat \<Rightarrow> nat \<Rightarrow> mem \<Rightarrow> ptr \<Rightarrow> u8 \<Rightarrow> 's \<Rightarrow> u8 list \<Rightarrow> ('s \<times> int) option" where
  "cli_simple_run_command_list ce cbsize maxargs m fin before st cmd =
     list_loop (\<lambda>st line. cli_simple_run_command ce cbsize maxargs m fin before st (Some line) 0) [] cmd st"

text \<open>
  One turn of the endless loop of \<open>cli_simple_loop\<close> in a build without \<open>CONFIG_BOOT_RETRY_TIME\<close>:
  \<open>len\<close> and \<open>console_buffer\<close> are what \<open>cli_readline\<close> returned, \<open>run\<close> is \<open>run_command_repeatable\<close>. The
  result holds the new \<open>lastcommand\<close> and \<open>rc\<close>; \<open>CMD_FLAG_REPEAT\<close> is 1.
\<close>

definition cli_simple_loop_turn ::
  "('s \<Rightarrow> u8 list \<Rightarrow> int \<Rightarrow> ('s \<times> int) option) \<Rightarrow> nat \<Rightarrow> 's \<Rightarrow> u8 list \<Rightarrow> int \<Rightarrow> int \<Rightarrow> u8 list \<Rightarrow>
     ('s \<times> u8 list \<times> int) option" where
  "cli_simple_loop_turn run cbsize st lastcommand rc len console_buffer =
     (let lastcommand = (if len > 0 then take cbsize console_buffer else lastcommand);
          flag = (if len > 0 then 0 else if len = 0 then 1 else 0)
      in map_option (\<lambda>(st', rc'). (st', if rc' \<le> 0 then [] else lastcommand, rc'))
           (if len = - 1 then Some (st, rc) else run st lastcommand flag))"

declare skip_blanks.simps [code] arg_end.simps [code]

section \<open>Macro expansion stays in its buffers\<close>

lemma put_out_sel [simp]:
  "outbuf (put_out s c) = outbuf s @ [c]" "outputcnt (put_out s c) = outputcnt s - 1"
  "mst (put_out s c) = mst s" "varname_start (put_out s c) = varname_start s"
  by (simp_all add: put_out_def)

definition room :: "macro_state \<Rightarrow> nat" where
  "room s = length (outbuf s) + outputcnt s"

lemma room_mst [simp]: "room (s\<lparr>mst := k\<rparr>) = room s" "room (s\<lparr>mst := k, varname_start := v\<rparr>) = room s"
  by (simp_all add: room_def)

lemma room_put_out [simp]: "outputcnt s \<noteq> 0 \<Longrightarrow> room (put_out s c) = room s"
  by (simp add: room_def)

lemma room_put_env [simp]: "room (put_env s cs) = room s"
  by (induction s cs rule: put_env.induct) (auto simp del: put_out_sel)

lemma macro_step_room:
  assumes "outputcnt s \<noteq> 0" "i \<le> cbsize" "0 < i"
  shows "\<exists>s'. macro_step env_get cbsize input i prev c s = Some s' \<and> room s' = room s"
proof -
  have "\<not> cbsize \<le> i - varname_start s - 1" using assms by linarith
  then show ?thesis
    using assms by (cases "env_get (take (i - varname_start s - 1) (drop (varname_start s) input))")
      (simp_all add: macro_step_def Let_def)
qed

lemma macro_loop_char:
  assumes "i < length input" "outputcnt s \<noteq> 0" "\<not> (mst s \<noteq> 3 \<and> input ! i = 92 \<and> prev \<noteq> 92)"
  shows "macro_loop env_get cbsize input i prev s =
           Option.bind (macro_step env_get cbsize input (i + 1) prev (input ! i) s)
             (macro_loop env_get cbsize input (i + 1) (input ! i))"
  using assms by (subst macro_loop.simps) (simp only: Let_def simp_thms if_False if_True)

lemma macro_loop_esc:
  assumes "i + 1 < length input" "outputcnt s \<noteq> 0" "mst s \<noteq> 3" "input ! i = 92" "prev \<noteq> 92"
  shows "macro_loop env_get cbsize input i prev s =
           Option.bind (macro_step env_get cbsize input (i + 2) 92 (input ! (i + 1)) s)
             (macro_loop env_get cbsize input (i + 2) (input ! (i + 1)))"
  using assms by (subst macro_loop.simps) (simp add: Let_def)

lemma macro_loop_done:
  assumes "\<not> (i < length input \<and> outputcnt s \<noteq> 0)"
  shows "macro_loop env_get cbsize input i prev s = Some (int (length input - i), s)"
  using assms by (subst macro_loop.simps) (simp only: if_False)

lemma macro_loop_room:
  assumes "length input \<le> cbsize"
  shows "\<exists>n s'. macro_loop env_get cbsize input i prev s = Some (n, s') \<and> room s' = room s"
  using assms
proof (induction env_get cbsize input i prev s rule: macro_loop.induct)
  case (1 env_get cbsize input i prev s)
  let ?c = "input ! i"
  show ?case
  proof (cases "i < length input \<and> outputcnt s \<noteq> 0")
    case go: True
    show ?thesis
    proof (cases "mst s \<noteq> 3 \<and> ?c = 92 \<and> prev \<noteq> 92")
      case esc: True
      show ?thesis
      proof (cases "i + 1 = length input")
        case True
        then show ?thesis using go esc by (subst macro_loop.simps) simp
      next
        case False
        then obtain s1 where s1: "macro_step env_get cbsize input (i + 2) 92 (input ! (i + 1)) s = Some s1" "room s1 = room s"
          using macro_step_room [of s "i + 2" cbsize env_get input 92 "input ! (i + 1)"] go "1.prems" by auto
        then show ?thesis using "1.IH"(1) [OF go refl esc False refl, of s1] go esc False "1.prems"
          by (subst macro_loop.simps) simp
      qed
    next
      case noesc: False
      obtain s1 where s1: "macro_step env_get cbsize input (i + 1) prev ?c s = Some s1" "room s1 = room s"
        using macro_step_room [of s "i + 1" cbsize env_get input prev ?c] go "1.prems" by auto
      then show ?thesis using "1.IH"(2) [OF go refl noesc, of s1] go noesc "1.prems"
        by (simp add: macro_loop_char)
    qed
  qed (simp add: macro_loop_done)
qed

lemma process_macros_bounds_lemma:
  assumes "length input \<le> cbsize" "0 < max_size"
  shows "\<exists>ret out. cli_simple_process_macros env_get cbsize input max_size = Some (ret, out) \<and>
           (ret = 0 \<or> ret = - ENOSPC) \<and> length out \<le> max_size \<and> out \<noteq> [] \<and> last out = 0"
proof -
  let ?s = "\<lparr>mst = 0, varname_start = 0, outbuf = [], outputcnt = max_size\<rparr>"
  obtain n s where loop: "macro_loop env_get cbsize input 0 0 ?s = Some (n, s)" and r: "room s = room ?s"
    using macro_loop_room [OF assms(1)] by blast
  have len: "length (outbuf s) + outputcnt s = max_size" using r by (simp add: room_def)
  then have "outputcnt s = 0 \<Longrightarrow> outbuf s \<noteq> []" using assms(2) by auto
  then show ?thesis using loop len assms(2) by (auto simp: cli_simple_process_macros_def Let_def)
qed

text \<open>
  For an input no longer than the name buffer and a non-empty output buffer, macro expansion
  returns, never leaves the name buffer or the output buffer, and always leaves a terminator as
  the last byte it wrote; with the output buffer full it returns \<open>-ENOSPC\<close>.\<close>

theorem process_macros_bounds:
  assumes "length input \<le> cbsize" "0 < max_size"
  shows "\<exists>ret out. cli_simple_process_macros env_get cbsize input max_size = Some (ret, out) \<and>
           (ret = 0 \<or> ret = - ENOSPC) \<and> length out \<le> max_size \<and> out \<noteq> [] \<and> last out = 0"
  using assms by (rule process_macros_bounds_lemma)

theorem process_macros_bounds_witness:
  "\<exists>ret out. cli_simple_process_macros (\<lambda>_. Some [97, 98, 99]) 16 [36, 40, 120, 41, 100] 3 = Some (ret, out) \<and>
     length out \<le> 3 \<and> last out = 0"
  using process_macros_bounds [of "[36, 40, 120, 41, 100]" 16 3 "\<lambda>_. Some [97, 98, 99]"] by auto

section \<open>What macro expansion computes\<close>

text \<open>
  A command text as a sequence of pieces: a plain character, an escaped character, a quoted text
  and a variable; how a piece is written, and what it stands for.
\<close>

datatype piece = Lit u8 | Esc u8 | Quote "u8 list" | Var "u8 list"

fun render :: "piece \<Rightarrow> u8 list" where
  "render (Lit c) = [c]"
| "render (Esc c) = [92, c]"
| "render (Quote cs) = [39] @ cs @ [39]"
| "render (Var n) = [36, 123] @ n @ [125]"

fun piece_ok :: "piece \<Rightarrow> bool" where
  "piece_ok (Lit c) = (c \<notin> {92, 36, 39})"
| "piece_ok (Esc c) = (c \<noteq> 92)"
| "piece_ok (Quote cs) = (39 \<notin> set cs \<and> 92 \<notin> set cs)"
| "piece_ok (Var n) = (41 \<notin> set n \<and> 125 \<notin> set n \<and> 92 \<notin> set n)"

fun expand :: "(u8 list \<Rightarrow> u8 list option) \<Rightarrow> piece \<Rightarrow> u8 list" where
  "expand env_get (Lit c) = [c]"
| "expand env_get (Esc c) = [c]"
| "expand env_get (Quote cs) = cs"
| "expand env_get (Var n) = (case env_get n of None \<Rightarrow> [] | Some v \<Rightarrow> v)"

text \<open>The state between two pieces, with \<open>out\<close> written and \<open>left\<close> bytes of room.\<close>

definition between :: "macro_state \<Rightarrow> u8 list \<Rightarrow> nat \<Rightarrow> bool" where
  "between s out left \<longleftrightarrow> mst s = 0 \<and> outbuf s = out \<and> outputcnt s = left"

lemma put_env_all:
  "length cs < outputcnt s \<Longrightarrow>
     outbuf (put_env s cs) = outbuf s @ cs \<and> outputcnt (put_env s cs) = outputcnt s - length cs"
  by (induction s cs rule: put_env.induct) auto

lemma quoted_loop:
  assumes "mst s = 3" "39 \<notin> set cs" "92 \<notin> set cs" "prev \<noteq> 92" "length cs < outputcnt s"
    and "input = pre @ cs @ post" "i = length pre"
  shows "\<exists>s' prev'. macro_loop env_get cbsize input i prev s = macro_loop env_get cbsize input (i + length cs) prev' s' \<and>
           mst s' = 3 \<and> outbuf s' = outbuf s @ cs \<and> outputcnt s' = outputcnt s - length cs \<and> prev' \<noteq> 92"
  using assms
proof (induction cs arbitrary: s prev pre i)
  case (Cons c cs)
  have "macro_loop env_get cbsize input i prev s = macro_loop env_get cbsize input (i + 1) c (put_out s c)"
    using Cons.prems by (subst macro_loop_char) (auto simp: macro_step_def nth_append)
  moreover have "length cs < outputcnt (put_out s c)" using Cons.prems(5) by simp
  then obtain s' prev' where
    "macro_loop env_get cbsize input (i + 1) c (put_out s c) = macro_loop env_get cbsize input (i + 1 + length cs) prev' s'"
    "mst s' = 3" "outbuf s' = outbuf (put_out s c) @ cs" "outputcnt s' = outputcnt (put_out s c) - length cs" "prev' \<noteq> 92"
    using Cons.IH [of "put_out s c" c "pre @ [c]" "i + 1"] Cons.prems by auto
  ultimately show ?case by (intro exI [of _ s'] exI [of _ prev']) simp
qed auto

lemma varname_loop:
  assumes "mst s = 2" "41 \<notin> set n" "125 \<notin> set n" "92 \<notin> set n" "prev \<noteq> 92" "outputcnt s \<noteq> 0"
    and "input = pre @ n @ post" "i = length pre"
  shows "\<exists>prev'. macro_loop env_get cbsize input i prev s = macro_loop env_get cbsize input (i + length n) prev' s \<and>
           prev' \<noteq> 92"
  using assms
proof (induction n arbitrary: prev pre i)
  case (Cons c n)
  have "macro_loop env_get cbsize input i prev s = macro_loop env_get cbsize input (i + 1) c s"
    using Cons.prems by (subst macro_loop_char) (auto simp: macro_step_def nth_append)
  moreover obtain prev' where
    "macro_loop env_get cbsize input (i + 1) c s = macro_loop env_get cbsize input (i + 1 + length n) prev' s" "prev' \<noteq> 92"
    using Cons.IH [of c "pre @ [c]" "i + 1"] Cons.prems by auto
  ultimately show ?case by (intro exI [of _ prev']) simp
qed auto

lemma piece_loop:
  assumes "piece_ok q" "between s out left" "prev \<noteq> 92" "length (expand env_get q) < left"
    and "input = pre @ render q @ post" "i = length pre" "length input \<le> cbsize"
  shows "\<exists>s' prev'. macro_loop env_get cbsize input i prev s =
             macro_loop env_get cbsize input (i + length (render q)) prev' s' \<and>
           between s' (out @ expand env_get q) (left - length (expand env_get q)) \<and> prev' \<noteq> 92"
proof (cases q)
  case (Lit c)
  then have "macro_loop env_get cbsize input i prev s = macro_loop env_get cbsize input (i + 1) c (put_out s c)"
    using assms by (subst macro_loop_char) (auto simp: between_def macro_step_def nth_append)
  then show ?thesis using Lit assms by (intro exI [of _ "put_out s c"] exI [of _ c]) (auto simp: between_def)
next
  case (Esc c)
  then have "macro_loop env_get cbsize input i prev s = macro_loop env_get cbsize input (i + 2) c (put_out s c)"
    using assms by (subst macro_loop_esc) (auto simp: between_def macro_step_def nth_append)
  then show ?thesis using Esc assms by (intro exI [of _ "put_out s c"] exI [of _ c]) (auto simp: between_def)
next
  case (Quote cs)
  have one: "macro_loop env_get cbsize input i prev s = macro_loop env_get cbsize input (i + 1) 39 (s\<lparr>mst := 3\<rparr>)"
    using assms Quote by (subst macro_loop_char) (auto simp: between_def macro_step_def nth_append)
  obtain s1 p1 where two: "macro_loop env_get cbsize input (i + 1) 39 (s\<lparr>mst := 3\<rparr>) =
      macro_loop env_get cbsize input (i + 1 + length cs) p1 s1"
    and s1: "mst s1 = 3" "outbuf s1 = out @ cs" "outputcnt s1 = left - length cs" "p1 \<noteq> 92"
    using quoted_loop [of "s\<lparr>mst := 3\<rparr>" cs 39 input "pre @ [39]" "[39] @ post" "i + 1" env_get cbsize] assms Quote
    by (auto simp: between_def)
  have "macro_loop env_get cbsize input (i + 1 + length cs) p1 s1 =
      macro_loop env_get cbsize input (i + 1 + length cs + 1) 39 (s1\<lparr>mst := 0\<rparr>)"
    using assms Quote s1 by (subst macro_loop_char) (auto simp: macro_step_def nth_append)
  then show ?thesis using one two s1 Quote by (intro exI [of _ "s1\<lparr>mst := 0\<rparr>"] exI [of _ 39]) (auto simp: between_def)
next
  case (Var n)
  let ?s = "s\<lparr>mst := 2, varname_start := Suc (Suc i)\<rparr>"
  have one: "macro_loop env_get cbsize input i prev s = macro_loop env_get cbsize input (i + 1) 36 (s\<lparr>mst := 1\<rparr>)"
    using assms Var by (subst macro_loop_char) (auto simp: between_def macro_step_def nth_append)
  have two: "macro_loop env_get cbsize input (i + 1) 36 (s\<lparr>mst := 1\<rparr>) = macro_loop env_get cbsize input (i + 2) 123 ?s"
    using assms Var by (subst macro_loop_char) (auto simp: between_def macro_step_def nth_append)
  obtain p1 where three: "macro_loop env_get cbsize input (i + 2) 123 ?s =
      macro_loop env_get cbsize input (i + 2 + length n) p1 ?s" "p1 \<noteq> 92"
    using varname_loop [of ?s n 123 input "pre @ [36, 123]" "[125] @ post" "i + 2" env_get cbsize] assms Var
    by (auto simp: between_def)
  let ?v = "case env_get n of None \<Rightarrow> ?s | Some v \<Rightarrow> put_env ?s v"
  have "macro_loop env_get cbsize input (i + 2 + length n) p1 ?s =
      macro_loop env_get cbsize input (i + 2 + length n + 1) 125 (?v\<lparr>mst := 0\<rparr>)"
    using assms Var three(2)
    by (subst macro_loop_char) (auto simp: between_def macro_step_def nth_append)
  moreover have "between (?v\<lparr>mst := 0\<rparr>) (out @ expand env_get q) (left - length (expand env_get q))"
    using put_env_all [of _ ?s] assms Var by (auto simp: between_def split: option.splits)
  ultimately show ?thesis
    using one two three(1) Var by (intro exI [of _ "?v\<lparr>mst := 0\<rparr>"] exI [of _ 125]) (simp add: add.assoc)
qed

lemma pieces_loop:
  assumes "\<forall>q\<in>set qs. piece_ok q" "between s out left" "prev \<noteq> 92"
    and "length (concat (map (expand env_get) qs)) < left"
    and "input = pre @ concat (map render qs)" "i = length pre" "length input \<le> cbsize"
  shows "\<exists>s'. macro_loop env_get cbsize input i prev s = Some (0, s') \<and>
           between s' (out @ concat (map (expand env_get) qs)) (left - length (concat (map (expand env_get) qs)))"
  using assms
proof (induction qs arbitrary: s out left prev pre i)
  case Nil
  then show ?case by (simp add: macro_loop_done)
next
  case (Cons q qs)
  let ?r = "concat (map (expand env_get) qs)"
  obtain s1 p1 where one: "macro_loop env_get cbsize input i prev s =
             macro_loop env_get cbsize input (i + length (render q)) p1 s1"
    and s1: "between s1 (out @ expand env_get q) (left - length (expand env_get q))" "p1 \<noteq> 92"
    using piece_loop [of q s out left prev env_get input pre "concat (map render qs)" i cbsize] Cons.prems by auto
  have "length ?r < left - length (expand env_get q)" using Cons.prems(4) by simp
  from Cons.IH [OF _ s1 this, of "pre @ render q" "i + length (render q)"] Cons.prems one show ?case by auto
qed



section \<open>Splitting into arguments\<close>

abbreviation nonblank :: "u8 \<Rightarrow> bool" where "nonblank c \<equiv> \<not> isblank c"

text \<open>The blank-separated words of a line.\<close>

function words :: "u8 list \<Rightarrow> u8 list list" where
  "words xs =
     (let ys = dropWhile isblank xs
      in if ys = [] then [] else takeWhile nonblank ys # words (dropWhile nonblank ys))"
  by pat_completeness auto
termination
proof (relation "measure length", simp)
  fix xs ys
  assume ys: "ys = dropWhile isblank xs" "ys \<noteq> []"
  then have "nonblank (hd ys)" using hd_dropWhile by blast
  then have "length (dropWhile nonblank ys) < length ys"
    using ys(2) by (cases ys) (auto simp: le_imp_less_Suc length_dropWhile_le)
  also have "\<dots> \<le> length xs" using ys(1) by (simp add: length_dropWhile_le)
  finally show "(dropWhile nonblank ys, xs) \<in> measure length" by simp
qed

declare words.simps [simp del]

lemma words_blank: "isblank z \<Longrightarrow> words (z # zs) = words zs"
  by (subst (1 2) words.simps) simp

lemma words_Nil [simp]: "words [] = []"
  by (subst words.simps) simp

lemma isblank_0 [simp]: "\<not> isblank 0"
  by (simp add: isblank_def)

lemma skip_blanks_cstr: "cstr m p xs \<Longrightarrow> skip_blanks m p = Some (p + length (takeWhile isblank xs))"
proof (induction xs arbitrary: p)
  case Nil
  then show ?case by (subst skip_blanks.simps) simp
next
  case (Cons x xs)
  then show ?case by (subst skip_blanks.simps) auto
qed

lemma arg_end_cstr: "cstr m p xs \<Longrightarrow> arg_end m p = Some (p + length (takeWhile nonblank xs))"
proof (induction xs arbitrary: p)
  case Nil
  then show ?case by (subst arg_end.simps) simp
next
  case (Cons x xs)
  then show ?case by (subst arg_end.simps) auto
qed

lemma cstr_take:
  assumes "cstr m p xs" "k \<le> length xs" "\<And>a. a < p + k \<Longrightarrow> m' a = m a" "m' (p + k) = 0"
  shows "cstr m' p (take k xs)"
proof -
  have "mem_bytes m' p k = mem_bytes m p k" using assms(3) by (intro mem_bytes_cong) auto
  then show ?thesis using assms cstr_take_drop [OF assms(1), of 0 k]
    by (auto simp: cstr_def min_def dest: in_set_takeD)
qed

lemma parse_loop_words:
  assumes "cstr m line xs"
  shows "\<exists>m' ps trm. parse_loop maxargs m line argv nargs = Some (m', argv @ ps @ trm, nargs + length ps) \<and>
           list_all2 (cstr m') ps (take (maxargs - nargs) (words xs)) \<and> (\<forall>a<line. m' a = m a) \<and>
           (trm = [] \<or> trm = [NULL]) \<and> (length (words xs) < maxargs - nargs \<longrightarrow> trm = [NULL])"
  using assms
proof (induction maxargs m line argv nargs arbitrary: xs rule: parse_loop.induct)
  case (1 maxargs m line argv nargs)
  let ?b = "length (takeWhile isblank xs)" and ?ys = "dropWhile isblank xs"
  let ?w = "takeWhile nonblank ?ys" and ?zs = "dropWhile nonblank ?ys"
  let ?start = "line + ?b" and ?e = "line + ?b + length ?w"
  have ys: "cstr m ?start ?ys"
    using cstr_drop [OF "1.prems", of ?b] by (simp add: dropWhile_eq_drop length_takeWhile_le)
  have skip: "skip_blanks m line = Some ?start" by (rule skip_blanks_cstr [OF "1.prems"])
  have arg: "arg_end m ?start = Some ?e" by (rule arg_end_cstr [OF ys])
  have at: "m ?e = (if ?zs = [] then 0 else hd ?zs)" using cstr_at_takeWhile [OF ys, of nonblank] by simp
  show ?case
  proof (cases "nargs < maxargs")
    case False
    then show ?thesis by (subst parse_loop.simps) simp
  next
    case n: True
    show ?thesis
    proof (cases "?ys = []")
      case True
      then have "words xs = []" by (subst words.simps) simp
      moreover have "m ?start = 0" using ys True by simp
      ultimately show ?thesis using n skip by (subst parse_loop.simps) auto
    next
      case ne: False
      then have w: "words xs = ?w # words ?zs" by (subst words.simps) (simp add: Let_def)
      have st: "m ?start \<noteq> 0" using ys ne by (cases ?ys) auto
      have take_w: "take (length ?w) ?ys = ?w" by (simp add: takeWhile_eq_take [symmetric])
      have Sn: "maxargs - nargs = Suc (maxargs - (nargs + 1))" using n by simp
      show ?thesis
      proof (cases "?zs = []")
        case True
        have "cstr m ?start ?w" using ys True by (metis append_Nil2 takeWhile_dropWhile_id)
        moreover have "parse_loop maxargs m line argv nargs = Some (m, argv @ [?start] @ [NULL], nargs + length [?start])"
          using n skip st arg at True by (subst parse_loop.simps) simp
        ultimately show ?thesis
          using w True Sn by - (rule exI [of _ m], rule exI [of _ "[?start]"], rule exI [of _ "[NULL]"], simp)
      next
        case False
        let ?m = "m(?e := 0)"
        have zs: "cstr m ?e ?zs"
          using cstr_drop [OF ys, of "length ?w"] by (simp add: dropWhile_eq_drop [symmetric] length_takeWhile_le)
        then have rest: "cstr ?m (?e + 1) (tl ?zs)"
          using False cstr_cut(2) [OF zs, of 0] by (simp add: drop_Suc)
        have me: "m ?e \<noteq> 0" using zs False by (cases ?zs) auto
        have "isblank (hd ?zs)" using hd_dropWhile [OF False] by simp
        then have wt: "words (tl ?zs) = words ?zs" using False words_blank [of "hd ?zs" "tl ?zs"] by simp
        have step: "parse_loop maxargs m line argv nargs = parse_loop maxargs ?m (?e + 1) (argv @ [?start]) (nargs + 1)"
          using n skip st arg me by (subst parse_loop.simps) simp
        obtain m' ps trm where ih:
          "parse_loop maxargs ?m (?e + 1) (argv @ [?start]) (nargs + 1) = Some (m', (argv @ [?start]) @ ps @ trm, nargs + 1 + length ps)"
          "list_all2 (cstr m') ps (take (maxargs - (nargs + 1)) (words ?zs))" "\<forall>a<?e + 1. m' a = ?m a"
          "trm = [] \<or> trm = [NULL]" "length (words ?zs) < maxargs - (nargs + 1) \<longrightarrow> trm = [NULL]"
          using "1.IH" [OF n skip st arg me rest] unfolding wt by blast
        have "cstr m' ?start (take (length ?w) ?ys)"
          using ih(3) by (intro cstr_take [OF ys]) (auto simp: length_takeWhile_le)
        then have first: "cstr m' ?start ?w" by (simp only: take_w)
        show ?thesis
        proof (rule exI [of _ m'], rule exI [of _ "?start # ps"], rule exI [of _ trm], intro conjI)
          show "parse_loop maxargs m line argv nargs = Some (m', argv @ (?start # ps) @ trm, nargs + length (?start # ps))"
            using step ih(1) by simp
          show "list_all2 (cstr m') (?start # ps) (take (maxargs - nargs) (words xs))"
            unfolding w Sn using first ih(2) by simp
          show "\<forall>a<line. m' a = m a" using ih(3) by simp
          show "length (words xs) < maxargs - nargs \<longrightarrow> trm = [NULL]" unfolding w Sn using ih(5) by simp
        qed (rule ih(4))
      qed
    qed
  qed
qed

text \<open>
  C21. On a terminated line, \<open>cli_simple_parse_line\<close> returns the number of its blank-separated words,
  at most the maximum, and sets the argument pointers to terminated copies of exactly those words,
  in order, cut out of the line in place. With fewer words than the maximum, the array ends in \<open>NULL\<close>.\<close>

theorem parse_line_words:
  assumes "cstr m line xs"
  shows "\<exists>m' ps trm. cli_simple_parse_line maxargs m line = Some (m', ps @ trm, min maxargs (length (words xs))) \<and>
           list_all2 (cstr m') ps (take maxargs (words xs)) \<and>
           (length (words xs) < maxargs \<longrightarrow> trm = [NULL]) \<and> (\<forall>a<line. m' a = m a)"
proof -
  obtain m' ps trm where p: "parse_loop maxargs m line [] 0 = Some (m', [] @ ps @ trm, 0 + length ps)"
    "list_all2 (cstr m') ps (take (maxargs - 0) (words xs))" "\<forall>a<line. m' a = m a"
    "length (words xs) < maxargs - 0 \<longrightarrow> trm = [NULL]"
    using parse_loop_words [OF assms, of maxargs "[]" 0] by blast
  have "length ps = min maxargs (length (words xs))" using list_all2_lengthD [OF p(2)] by (simp add: min.commute)
  then show ?thesis using p by (auto simp: cli_simple_parse_line_def)
qed

theorem parse_line_words_witness:
  "\<exists>m' ps trm. cli_simple_parse_line 4 (mem_store (\<lambda>_. 0) 16 [32, 97, 98, 32, 9, 99]) 16 = Some (m', ps @ trm, 2) \<and>
     list_all2 (cstr m') ps [[97, 98], [99]] \<and> trm = [NULL]"
proof -
  have c: "cstr (mem_store (\<lambda>_. 0) 16 [32, 97, 98, 32, 9, 99]) 16 [32, 97, 98, 32, 9, 99]"
    by (simp add: cstr_def mem_simps)
  have w: "words [32, 97, 98, 32, 9, 99] = [[97, 98], [99]]" by code_simp
  show ?thesis using parse_line_words [OF c, of 4] by (auto simp: w)
qed

text \<open>
  With exactly the maximum of words and a blank after the last one, the loop ends by its count: the
  array is left without its \<open>NULL\<close>, and the code prints the complaint about too many arguments.
\<close>

lemma parse_line_unterminated:
  "map_option snd (cli_simple_parse_line 2 (mem_store (\<lambda>_. 0) 16 [97, 32, 98]) 16) = Some ([16, 18, NULL], 2)"
  "map_option snd (cli_simple_parse_line 2 (mem_store (\<lambda>_. 0) 16 [97, 32, 98, 32]) 16) = Some ([16, 18], 2)"
  by code_simp+

section \<open>Running commands\<close>

lemma find_sep_le: "find_sep prev inq at_str cs \<le> length cs"
  by (induction prev inq at_str cs rule: find_sep.induct) (auto simp: Let_def)

text \<open>A token without quotes, backslashes and separators ends at the next separator.\<close>

lemma find_sep_token:
  assumes "tok \<noteq> []" "59 \<notin> set tok" "39 \<notin> set tok" "92 \<notin> set tok"
  shows "find_sep prev False True (tok @ 59 # rest) = length tok" "find_sep prev False True tok = length tok"
proof -
  have later: "find_sep prev False False (tok @ 59 # rest) = length tok \<and> find_sep prev False False tok = length tok"
    if "59 \<notin> set tok" "39 \<notin> set tok" "92 \<notin> set tok" "prev \<noteq> 92" for prev tok
    using that by (induction tok arbitrary: prev) auto
  show "find_sep prev False True (tok @ 59 # rest) = length tok" "find_sep prev False True tok = length tok"
    using assms later by (cases tok; simp)+
qed

lemma cstr_stored:
  assumes "0 \<in> set bs"
  shows "cstr (mem_store m p bs) p (takeWhile (\<lambda>b. b \<noteq> 0) bs)"
proof -
  obtain ys zs where bs: "bs = ys @ 0 # zs" "0 \<notin> set ys" using split_list_first [OF assms] by blast
  have xs: "takeWhile (\<lambda>b. b \<noteq> 0) bs = ys"
    unfolding bs(1) using bs(2) by (subst takeWhile_append2) auto
  have "mem_bytes (mem_store m p bs) p (length ys) = ys"
    by (intro nth_equalityI) (auto simp: mem_store_def bs(1) nth_append)
  then show ?thesis unfolding xs using bs by (simp add: cstr_def mem_store_def)
qed

lemma run_loop_returns:
  assumes "length str \<le> cbsize" "0 < cbsize"
  shows "\<exists>st' r. run_loop ce cbsize maxargs m fin flag prev str st rc rep = Some (st', r)"
  using assms
proof (induction ce cbsize maxargs m fin flag prev str st rc rep rule: run_loop.induct)
  case (1 ce cbsize maxargs m fin flag prev str st rc rep)
  show ?case
  proof (cases "str = []")
    case True
    then show ?thesis by (subst run_loop.simps) simp
  next
    case False
    let ?n = "find_sep prev False True str"
    have "length (take ?n str) \<le> cbsize" using "1.prems" by simp
    from process_macros_bounds_lemma [OF this "1.prems"(2), of "ce_env_get ce st"] obtain ret bs where
      mac: "cli_simple_process_macros (ce_env_get ce st) cbsize (take ?n str) cbsize = Some (ret, bs)"
      and t: "bs \<noteq> []" "last bs = 0" by blast
    have "0 \<in> set bs" using t last_in_set by metis
    from parse_loop_words [where maxargs = maxargs and argv = "[]" and nargs = 0, OF cstr_stored [OF this, of m fin]]
    obtain m' argv argc where
      args: "cli_simple_parse_line maxargs (mem_store m fin bs) fin = Some (m', argv, argc)"
      unfolding cli_simple_parse_line_def by blast
    obtain st' code rep' where cmd: "ce_cmd_process ce st flag argc m' argv = (st', code, rep')"
      by (metis prod_cases3)
    have less: "length (drop (Suc ?n) str) \<le> cbsize" using "1.prems" by simp
    show ?thesis
    proof (cases "argc = 0")
      case True
      then show ?thesis
        using "1.IH"(1) [OF False refl refl refl mac refl args refl refl True less "1.prems"(2)] mac args False
        by (subst run_loop.simps) simp
    next
      case some: False
      show ?thesis
        using "1.IH"(2) [OF False refl refl refl mac refl args refl refl some cmd [symmetric] refl refl _ less "1.prems"(2)] mac args False some cmd
        by (subst run_loop.simps) simp
    qed
  qed
qed


definition count_cmds :: "nat cmd_env" where
  "count_cmds =
     \<lparr>ce_env_get = (\<lambda>_ _. None), ce_cmd_process = (\<lambda>st _ argc _ _. (st + argc, 0, 1)),
      ce_clear_ctrlc = (\<lambda>st. st), ce_had_ctrlc = (\<lambda>_. False)\<rparr>"


text \<open>A script runs line by line, skips empty lines and stops at the first line that fails.\<close>

lemma list_loop_prefix:
  "10 \<notin> set l \<Longrightarrow> list_loop run pre (l @ cs) st = list_loop run (pre @ l) cs st"
  by (induction l arbitrary: pre) auto

lemma list_loop_line:
  assumes "10 \<notin> set l"
  shows "list_loop run [] (l @ 10 # cs) st =
           (if l = [] then list_loop run [] cs st
            else Option.bind (run st l) (\<lambda>(st', r). if r < 0 then Some (st', 1) else list_loop run [] cs st'))"
  using list_loop_prefix [OF assms, of run "[]" "10 # cs" st] by simp

lemma run_command_list_line:
  assumes "10 \<notin> set l" "l \<noteq> []"
    and "cli_simple_run_command ce cbsize maxargs m fin before st (Some l) 0 = Some (st', r)"
  shows "cli_simple_run_command_list ce cbsize maxargs m fin before st (l @ 10 # cs) =
           (if r < 0 then Some (st', 1) else cli_simple_run_command_list ce cbsize maxargs m fin before st' cs)"
  using assms by (simp add: cli_simple_run_command_list_def list_loop_line)

text \<open>An empty line at the prompt runs the last command again, if that was repeatable.\<close>

lemma empty_line_repeats:
  assumes "run st cmd 0 = Some (st1, r)" "r > 0" "length cmd \<le> cbsize"
  shows "cli_simple_loop_turn run cbsize st last0 rc 1 cmd = Some (st1, cmd, r)"
    and "cli_simple_loop_turn run cbsize st1 cmd r 0 [] =
           map_option (\<lambda>(st2, r2). (st2, if r2 \<le> 0 then [] else cmd, r2)) (run st1 cmd 1)"
  using assms by (simp_all add: cli_simple_loop_turn_def)

end
