(* ===== verification/Charset.thy ===== *)
theory Charset
  imports Strings
begin

text \<open>
  Character sets: \<open>lib/charset.c\<close>. A UTF-8 text lives in the byte store; a \<open>u16\<close> text lives in a
  store of 16-bit cells (\<open>mem16\<close>), whose addresses count cells. \<open>s32\<close> values are integers: every
  value that occurs is between -1 and \<open>2 ^ 21\<close>. A stream reader is a function from its state to a
  byte and the new state. The capitalization table and the code page are parameters, as they are
  chosen by the configuration. The lemmas describe the encodings as lists and show where the two
  directions are inverse to each other, and where they are not.
\<close>

section \<open>Model\<close>

type_synonym mem16 = "nat \<Rightarrow> u16"

subsection \<open>UTF-8\<close>

definition get_code :: "('s \<Rightarrow> u8 \<times> 's) \<Rightarrow> 's \<Rightarrow> int \<times> 's" where
  "get_code read_u8 data =
     (let (b0, data) = read_u8 data; ch = uint b0
      in if ch = 0 then (0, data)
         else if 0xc2 \<le> ch \<and> ch \<le> 0xf4 then
           let last = (\<lambda>code ch data.
                 let ch = ch AND 0x3f;
                     code = code + push_bit 6 ch;
                     (b, data) = read_u8 data;
                     ch = uint b
                 in if ch < 0x80 \<or> ch > 0xbf then (- 1, data) else ((ch AND 0x3f) + code, data));
               middle = (\<lambda>code ch data.
                 let code = code + push_bit 12 ch
                 in if 0xD800 \<le> code \<and> code \<le> 0xDFFF \<or> code \<ge> 0x110000 then (- 1, data)
                    else
                      let (b, data) = read_u8 data; ch = uint b
                      in if ch < 0x80 \<or> ch > 0xbf then (- 1, data) else last code ch data)
           in if ch \<ge> 0xe0 then
                if ch \<ge> 0xf0 then
                  let code = push_bit 18 (ch AND 0x07);
                      (b, data) = read_u8 data;
                      ch = uint b
                  in if ch < 0x80 \<or> ch > 0xbf then (- 1, data) else middle code (ch AND 0x3f) data
                else middle 0 (ch AND 0x0f) data
              else last 0 ch data
         else if ch \<ge> 0x80 then (- 1, data)
         else (ch, data))"

definition read_string :: "mem \<Rightarrow> ptr \<Rightarrow> u8 \<times> ptr" where
  "read_string m src = (if src = NULL \<or> m src = 0 then (0, src) else (m src, src + 1))"

text \<open>\<open>getchar\<close> is a stream of \<open>int\<close> results; the reader maps an error to 0.\<close>

definition read_console :: "('s \<Rightarrow> int \<times> 's) \<Rightarrow> 's \<Rightarrow> u8 \<times> 's" where
  "read_console getchar st = (let (ch, st') = getchar st in (if ch < 0 then 0 else word_of_int ch, st'))"

partial_function (option) console_read_unicode ::
  "('s \<Rightarrow> bool) \<Rightarrow> ('s \<Rightarrow> int \<times> 's) \<Rightarrow> 's \<Rightarrow> (int \<times> int \<times> 's) option" where
  "console_read_unicode tstc getchar st =
     (if \<not> tstc st then Some (1, 0, st)
      else
        let r = get_code (read_console getchar) st
        in if fst r > 0 then Some (0, r) else console_read_unicode tstc getchar (snd r))"

definition utf8_get :: "mem \<Rightarrow> ptr \<Rightarrow> int \<times> ptr" where
  "utf8_get m src = get_code (read_string m) src"

text \<open>The store, the new \<open>*dst\<close> and the return value.\<close>

definition utf8_put :: "mem \<Rightarrow> int \<Rightarrow> ptr \<Rightarrow> mem \<times> ptr \<times> int" where
  "utf8_put m code dst =
     (if dst = NULL then (m, dst, - 1)
      else if 0xD800 \<le> code \<and> code \<le> 0xDFFF \<or> code \<ge> 0x110000 then (m, dst, - 1)
      else if code \<le> 0x7F then (m(dst := word_of_int code), dst + 1, 0)
      else
        let (m, dst) =
              (if code \<le> 0x7FF then (m(dst := word_of_int (drop_bit 6 code OR 0xC0)), dst)
               else
                 let (m, dst) =
                       (if code < 0x10000 then (m(dst := word_of_int (drop_bit 12 code OR 0xE0)), dst)
                        else
                          let m = m(dst := word_of_int (drop_bit 18 code OR 0xF0));
                              dst = dst + 1
                          in (m(dst := word_of_int ((drop_bit 12 code AND 0x3F) OR 0x80)), dst));
                     dst = dst + 1
                 in (m(dst := word_of_int ((drop_bit 6 code AND 0x3F) OR 0x80)), dst));
            dst = dst + 1
        in (m(dst := word_of_int ((code AND 0x3F) OR 0x80)), dst + 1, 0))"

subsection \<open>UTF-16\<close>

definition utf16_get :: "mem16 \<Rightarrow> ptr \<Rightarrow> int \<times> ptr" where
  "utf16_get m src =
     (if src = NULL then (- 1, src)
      else if m src = 0 then (0, src)
      else
        let code = uint (m src); src = src + 1
        in if 0xDC00 \<le> code \<and> code \<le> 0xDFFF then (- 1, src)
           else if 0xD800 \<le> code \<and> code \<le> 0xDBFF then
             if m src = 0 then (- 1, src)
             else
               let code = push_bit 10 (code AND 0x3ff) + 0x10000;
                   code2 = uint (m src);
                   src = src + 1
               in if code2 \<le> 0xDC00 \<or> code2 \<ge> 0xDFFF then (- 1, src)
                  else (code + (code2 AND 0x3ff), src)
           else (code, src))"

definition utf16_put :: "mem16 \<Rightarrow> int \<Rightarrow> ptr \<Rightarrow> mem16 \<times> ptr \<times> int" where
  "utf16_put m code dst =
     (if dst = NULL then (m, dst, - 1)
      else if 0xD800 \<le> code \<and> code \<le> 0xDFFF \<or> code \<ge> 0x110000 then (m, dst, - 1)
      else if code < 0x10000 then (m(dst := word_of_int code), dst + 1, 0)
      else
        let code = code - 0x10000;
            m = m(dst := word_of_int (drop_bit 10 code OR 0xD800));
            dst = dst + 1
        in (m(dst := word_of_int ((code AND 0x3ff) OR 0xDC00)), dst + 1, 0))"

subsection \<open>Converting strings\<close>

fun utf8_utf16_strnlen_loop :: "mem \<Rightarrow> ptr \<Rightarrow> nat \<Rightarrow> nat \<Rightarrow> nat" where
  "utf8_utf16_strnlen_loop m src 0 len = len"
| "utf8_utf16_strnlen_loop m src (Suc count) len =
     (if m src = 0 then len
      else case utf8_get m src of (code, src') \<Rightarrow>
        if code = 0 then len
        else utf8_utf16_strnlen_loop m src' count
               (if code < 0 then len + 1 else if code < 0x10000 then len + 1 else len + 2))"

definition utf8_utf16_strnlen :: "mem \<Rightarrow> ptr \<Rightarrow> nat \<Rightarrow> nat" where
  "utf8_utf16_strnlen m src count = utf8_utf16_strnlen_loop m src count 0"

text \<open>The source bytes are not in the destination array, so they are read from a store of their own.\<close>

fun utf8_utf16_copy_loop :: "mem \<Rightarrow> ptr \<Rightarrow> nat \<Rightarrow> mem16 \<Rightarrow> ptr \<Rightarrow> mem16 \<times> ptr" where
  "utf8_utf16_copy_loop ms src 0 md dst = (md, dst)"
| "utf8_utf16_copy_loop ms src (Suc count) md dst =
     (if ms src = 0 then (md, dst)
      else case utf8_get ms src of (code, src') \<Rightarrow>
        case utf16_put md (if code < 0 then 63 else code) dst of (md', dst', r) \<Rightarrow>
          utf8_utf16_copy_loop ms src' count md' dst')"

definition utf8_utf16_strncpy :: "mem \<Rightarrow> mem16 \<Rightarrow> ptr \<Rightarrow> ptr \<Rightarrow> nat \<Rightarrow> mem16 \<times> ptr \<times> int" where
  "utf8_utf16_strncpy ms md dst src count =
     (if src = NULL \<or> dst = NULL then (md, dst, - 1)
      else case utf8_utf16_copy_loop ms src count md dst of (md', dst') \<Rightarrow> (md'(dst' := 0), dst', 0))"

fun utf16_strnlen_loop :: "mem16 \<Rightarrow> ptr \<Rightarrow> nat \<Rightarrow> nat \<Rightarrow> nat" where
  "utf16_strnlen_loop m src 0 len = len"
| "utf16_strnlen_loop m src (Suc count) len =
     (if m src = 0 then len
      else case utf16_get m src of (code, src') \<Rightarrow>
        if code = 0 then len else utf16_strnlen_loop m src' count (len + 1))"

definition utf16_strnlen :: "mem16 \<Rightarrow> ptr \<Rightarrow> nat \<Rightarrow> nat" where
  "utf16_strnlen m src count = utf16_strnlen_loop m src count 0"

fun utf16_utf8_strnlen_loop :: "mem16 \<Rightarrow> ptr \<Rightarrow> nat \<Rightarrow> nat \<Rightarrow> nat" where
  "utf16_utf8_strnlen_loop m src 0 len = len"
| "utf16_utf8_strnlen_loop m src (Suc count) len =
     (if m src = 0 then len
      else case utf16_get m src of (code, src') \<Rightarrow>
        if code = 0 then len
        else utf16_utf8_strnlen_loop m src' count
               (if code < 0 then len + 1 else if code < 0x80 then len + 1
                else if code < 0x800 then len + 2 else if code < 0x10000 then len + 3 else len + 4))"

definition utf16_utf8_strnlen :: "mem16 \<Rightarrow> ptr \<Rightarrow> nat \<Rightarrow> nat" where
  "utf16_utf8_strnlen m src count = utf16_utf8_strnlen_loop m src count 0"

fun utf16_utf8_copy_loop :: "mem16 \<Rightarrow> ptr \<Rightarrow> nat \<Rightarrow> mem \<Rightarrow> ptr \<Rightarrow> mem \<times> ptr" where
  "utf16_utf8_copy_loop ms src 0 md dst = (md, dst)"
| "utf16_utf8_copy_loop ms src (Suc count) md dst =
     (if ms src = 0 then (md, dst)
      else case utf16_get ms src of (code, src') \<Rightarrow>
        case utf8_put md (if code < 0 then 63 else code) dst of (md', dst', r) \<Rightarrow>
          utf16_utf8_copy_loop ms src' count md' dst')"

definition utf16_utf8_strncpy :: "mem16 \<Rightarrow> mem \<Rightarrow> ptr \<Rightarrow> ptr \<Rightarrow> nat \<Rightarrow> mem \<times> ptr \<times> int" where
  "utf16_utf8_strncpy ms md dst src count =
     (if src = NULL \<or> dst = NULL then (md, dst, - 1)
      else case utf16_utf8_copy_loop ms src count md dst of (md', dst') \<Rightarrow> (md'(dst' := 0), dst', 0))"

subsection \<open>Case\<close>

record capitalization =
  upper :: u16
  lower :: u16

text \<open>The tables end at the first entry whose search column is 0.\<close>

fun cap_find :: "(capitalization \<Rightarrow> u16) \<Rightarrow> (capitalization \<Rightarrow> u16) \<Rightarrow> capitalization list \<Rightarrow> int \<Rightarrow> int" where
  "cap_find key val [] code = code"
| "cap_find key val (pos # tab) code =
     (if key pos = 0 then code else if uint (key pos) = code then uint (val pos) else cap_find key val tab code)"

definition utf_to_lower :: "capitalization list \<Rightarrow> int \<Rightarrow> int" where
  "utf_to_lower tab code =
     (if code \<le> 0x7f then if 65 \<le> code \<and> code \<le> 90 then code + 0x20 else code
      else cap_find upper lower tab code)"

definition utf_to_upper :: "capitalization list \<Rightarrow> int \<Rightarrow> int" where
  "utf_to_upper tab code =
     (if code \<le> 0x7f then if 97 \<le> code \<and> code \<le> 122 then code - 0x20 else code
      else cap_find lower upper tab code)"

partial_function (option) u16_strcasecmp :: "capitalization list \<Rightarrow> mem16 \<Rightarrow> ptr \<Rightarrow> ptr \<Rightarrow> int option" where
  "u16_strcasecmp tab m s1 s2 =
     (let (g1, s1') = utf16_get m s1;
          (g2, s2') = utf16_get m s2;
          c1 = utf_to_upper tab g1;
          c2 = utf_to_upper tab g2;
          ret = c1 - c2
      in if ret \<noteq> 0 \<or> c1 = 0 \<or> c1 = - 1 \<or> c2 = - 1 then Some ret else u16_strcasecmp tab m s1' s2')"

subsection \<open>Strings of 16-bit words\<close>

fun u16_strncmp_loop :: "mem16 \<Rightarrow> ptr \<Rightarrow> ptr \<Rightarrow> int \<Rightarrow> nat \<Rightarrow> int" where
  "u16_strncmp_loop m s1 s2 ret 0 = ret"
| "u16_strncmp_loop m s1 s2 ret (Suc n) =
     (let ret = uint (m s1) - uint (m s2)
      in if ret \<noteq> 0 \<or> m s1 = 0 then ret else u16_strncmp_loop m (s1 + 1) (s2 + 1) ret n)"

definition u16_strncmp :: "mem16 \<Rightarrow> ptr \<Rightarrow> ptr \<Rightarrow> nat \<Rightarrow> int" where
  "u16_strncmp m s1 s2 n = u16_strncmp_loop m s1 s2 0 n"

fun u16_strnlen_loop :: "mem16 \<Rightarrow> ptr \<Rightarrow> nat \<Rightarrow> nat \<Rightarrow> nat" where
  "u16_strnlen_loop m p i 0 = i"
| "u16_strnlen_loop m p i (Suc count) = (if m (p + i) \<noteq> 0 then u16_strnlen_loop m p (i + 1) count else i)"

definition u16_strnlen :: "mem16 \<Rightarrow> ptr \<Rightarrow> nat \<Rightarrow> nat" where
  "u16_strnlen m p count = u16_strnlen_loop m p 0 count"

definition u16_strlen :: "mem16 \<Rightarrow> ptr \<Rightarrow> nat" where
  "u16_strlen m p = u16_strnlen m p (2 ^ 64 - 1)"

definition u16_strsize :: "mem16 \<Rightarrow> ptr \<Rightarrow> nat" where
  "u16_strsize m p = (u16_strlen m p + 1) * 2"

partial_function (option) u16_strcpy_loop :: "mem16 \<Rightarrow> ptr \<Rightarrow> ptr \<Rightarrow> mem16 option" where
  "u16_strcpy_loop m dest src =
     (let m' = m(dest := m src) in if m src = 0 then Some m' else u16_strcpy_loop m' (dest + 1) (src + 1))"

definition u16_strcpy :: "mem16 \<Rightarrow> ptr \<Rightarrow> ptr \<Rightarrow> (mem16 \<times> ptr) option" where
  "u16_strcpy m dest src = map_option (\<lambda>m'. (m', dest)) (u16_strcpy_loop m dest src)"

text \<open>\<open>memcpy\<close> between \<open>u16\<close> arrays that do not overlap, in cells.\<close>

definition copy16 :: "mem16 \<Rightarrow> ptr \<Rightarrow> ptr \<Rightarrow> nat \<Rightarrow> mem16" where
  "copy16 m dest src n = (\<lambda>a. if dest \<le> a \<and> a < dest + n then m (src + (a - dest)) else m a)"

definition u16_strdup :: "(nat \<Rightarrow> ptr) \<Rightarrow> mem16 \<Rightarrow> ptr \<Rightarrow> mem16 \<times> ptr" where
  "u16_strdup alloc m src =
     (if src = NULL then (m, NULL)
      else
        let len = u16_strsize m src; new = alloc len
        in if new = NULL then (m, NULL) else (copy16 m new src (len div 2), new))"

definition u16_strlcat :: "mem16 \<Rightarrow> ptr \<Rightarrow> ptr \<Rightarrow> nat \<Rightarrow> mem16 \<times> nat" where
  "u16_strlcat m dest src count =
     (let destlen = u16_strnlen m dest count;
          srclen = u16_strlen m src;
          ret = destlen + srclen
      in if destlen \<ge> count then (m, ret)
         else
           let srclen = (if ret \<ge> count then srclen - (ret - count + 1) else srclen)
           in ((copy16 m (dest + destlen) src srclen)(dest + destlen + srclen := 0), ret))"

subsection \<open>The raw converter and the code page\<close>

text \<open>\<open>utf16_to_utf8\<close>: the bytes it writes; the list is what \<open>src\<close> points to, \<open>n\<close> is \<open>size\<close>.\<close>

fun utf16_to_utf8 :: "nat \<Rightarrow> int \<Rightarrow> u16 list \<Rightarrow> u8 list" where
  "utf16_to_utf8 0 code_high src = []"
| "utf16_to_utf8 (Suc n) code_high [] = []"
| "utf16_to_utf8 (Suc n) code_high (w # src) =
     (let code = uint w in
      if code_high \<noteq> 0 then
        if 0xDC00 \<le> code \<and> code \<le> 0xDFFF then
          let code = push_bit 10 (code_high - 0xD800) + (code - 0xDC00) + 0x10000
          in [word_of_int (drop_bit 18 code OR 0xF0), word_of_int ((drop_bit 12 code AND 0x3F) OR 0x80),
              word_of_int ((drop_bit 6 code AND 0x3F) OR 0x80), word_of_int ((code AND 0x3F) OR 0x80)] @
             utf16_to_utf8 n 0 src
        else 63 # utf16_to_utf8 n 0 (w # src)
      else if code \<le> 0x7F then word_of_int code # utf16_to_utf8 n 0 src
      else if code \<le> 0x7FF then
        [word_of_int (drop_bit 6 code OR 0xC0), word_of_int ((code AND 0x3F) OR 0x80)] @ utf16_to_utf8 n 0 src
      else if 0xD800 \<le> code \<and> code \<le> 0xDBFF then utf16_to_utf8 n code src
      else if 0xDC00 \<le> code \<and> code \<le> 0xDFFF then 63 # utf16_to_utf8 n 0 src
      else
        [word_of_int (drop_bit 12 code OR 0xE0), word_of_int ((drop_bit 6 code AND 0x3F) OR 0x80),
         word_of_int ((code AND 0x3F) OR 0x80)] @ utf16_to_utf8 n 0 src)"

fun cp_find :: "u16 list \<Rightarrow> nat \<Rightarrow> int \<Rightarrow> nat option" where
  "cp_find [] j c = None"
| "cp_find (w # ws) j c = (if c = uint w then Some j else cp_find ws (j + 1) c)"

text \<open>\<open>utf_to_cp\<close> with the 160 entries of the code page: the return code and the new \<open>*c\<close>.\<close>

definition utf_to_cp :: "u16 list \<Rightarrow> int \<Rightarrow> int \<times> int" where
  "utf_to_cp codepage c =
     (if c \<ge> 0x80 then
        case cp_find (take 0xA0 codepage) 0 c of
          Some j \<Rightarrow> (0, if j < 0x20 then int j else int j + 0x60)
        | None \<Rightarrow> (- ENOENT, 63)
      else (0, c))"

partial_function (option) utf8_to_utf32_stream :: "mem \<Rightarrow> u8 \<Rightarrow> ptr \<Rightarrow> (mem \<times> int) option" where
  "utf8_to_utf32_stream m c buffer =
     Option.bind (strlen m buffer) (\<lambda>n.
       let e = buffer + n + 1;
           m = m(buffer + n := c, e := 0)
       in case utf8_get m buffer of (s, pos) \<Rightarrow>
            if s > 0 then Some (m(buffer := 0), s)
            else if pos = e then Some (m, 0)
            else utf8_to_utf32_stream (m(buffer := 0)) c buffer)"

partial_function (option) utf8_to_cp437_stream :: "u16 list \<Rightarrow> mem \<Rightarrow> u8 \<Rightarrow> ptr \<Rightarrow> (mem \<times> int) option" where
  "utf8_to_cp437_stream codepage_437 m c buffer =
     Option.bind (strlen m buffer) (\<lambda>n.
       let e = buffer + n + 1;
           m = m(buffer + n := c, e := 0)
       in case utf8_get m buffer of (s, pos) \<Rightarrow>
            if s > 0 then Some (m(buffer := 0), snd (utf_to_cp codepage_437 s))
            else if pos = e then Some (m, 0)
            else utf8_to_cp437_stream codepage_437 (m(buffer := 0)) c buffer)"

declare utf8_to_utf32_stream.simps [code] utf8_to_cp437_stream.simps [code] strlen_loop.simps [code]

section \<open>UTF-8 round trip\<close>

definition valid_code :: "int \<Rightarrow> bool" where
  "valid_code c \<longleftrightarrow> 0 < c \<and> c < 0x110000 \<and> \<not> (0xD800 \<le> c \<and> c \<le> 0xDFFF)"

definition utf8_bytes :: "int \<Rightarrow> u8 list" where
  "utf8_bytes c =
     (if c \<le> 0x7F then [word_of_int c]
      else if c \<le> 0x7FF then [word_of_int (c div 64 + 0xC0), word_of_int (c mod 64 + 0x80)]
      else if c < 0x10000 then
        [word_of_int (c div 4096 + 0xE0), word_of_int (c div 64 mod 64 + 0x80), word_of_int (c mod 64 + 0x80)]
      else
        [word_of_int (c div 262144 + 0xF0), word_of_int (c div 4096 mod 64 + 0x80),
         word_of_int (c div 64 mod 64 + 0x80), word_of_int (c mod 64 + 0x80)])"

text \<open>Marker bits and payload bits do not meet.\<close>

lemma marker_bits:
  assumes "0 \<le> (x :: int)"
  shows "x < 64 \<Longrightarrow> x OR 0x80 = x + 0x80" "x < 64 \<Longrightarrow> (x + 0x80) AND 0x3f = x"
    and "x < 32 \<Longrightarrow> x OR 0xC0 = x + 0xC0" "x < 32 \<Longrightarrow> (x + 0xC0) AND 0x3f = x"
    and "x < 16 \<Longrightarrow> x OR 0xE0 = x + 0xE0" "x < 16 \<Longrightarrow> (x + 0xE0) AND 0x0f = x"
    and "x < 8 \<Longrightarrow> x OR 0xF0 = x + 0xF0" "x < 8 \<Longrightarrow> (x + 0xF0) AND 0x07 = x"
proof -
  have "list_all (\<lambda>x :: int. x OR 0x80 = x + 0x80 \<and> (x + 0x80) AND 0x3f = x) [0..63]"
    "list_all (\<lambda>x :: int. x OR 0xC0 = x + 0xC0 \<and> (x + 0xC0) AND 0x3f = x) [0..31]"
    "list_all (\<lambda>x :: int. x OR 0xE0 = x + 0xE0 \<and> (x + 0xE0) AND 0x0f = x) [0..15]"
    "list_all (\<lambda>x :: int. x OR 0xF0 = x + 0xF0 \<and> (x + 0xF0) AND 0x07 = x) [0..7]"
    by code_simp+
  then show "x < 64 \<Longrightarrow> x OR 0x80 = x + 0x80" "x < 64 \<Longrightarrow> (x + 0x80) AND 0x3f = x"
    and "x < 32 \<Longrightarrow> x OR 0xC0 = x + 0xC0" "x < 32 \<Longrightarrow> (x + 0xC0) AND 0x3f = x"
    and "x < 16 \<Longrightarrow> x OR 0xE0 = x + 0xE0" "x < 16 \<Longrightarrow> (x + 0xE0) AND 0x0f = x"
    and "x < 8 \<Longrightarrow> x OR 0xF0 = x + 0xF0" "x < 8 \<Longrightarrow> (x + 0xF0) AND 0x07 = x"
    using assms by (simp_all add: list_all_iff)
qed

lemma low_six: "(c :: int) AND 0x3F = c mod 64"
  using take_bit_eq_mask [of 6 c] by (simp add: take_bit_eq_mod mask_eq_exp_minus_1)

lemma uint_u8_of_int: "0 \<le> k \<Longrightarrow> k < 256 \<Longrightarrow> uint (word_of_int k :: u8) = k"
  by (subst uint_word_of_int) simp

lemma code_ranges:
  assumes "0 \<le> (c :: int)" "c < 0x110000"
  shows "0 \<le> c mod 64 \<and> c mod 64 < 64" "0 \<le> c div 64 mod 64 \<and> c div 64 mod 64 < 64"
    "0 \<le> c div 4096 mod 64 \<and> c div 4096 mod 64 < 64" "0 \<le> c div 262144 \<and> c div 262144 < 8"
    "c < 0x10000 \<Longrightarrow> 0 \<le> c div 4096 \<and> c div 4096 < 16" "c < 0x800 \<Longrightarrow> 0 \<le> c div 64 \<and> c div 64 < 32"
  using assms by (simp_all add: pos_imp_zdiv_nonneg_iff)

lemma utf8_put_bytes:
  assumes "valid_code c" "dst \<noteq> NULL"
  shows "utf8_put m c dst = (mem_store m dst (utf8_bytes c), dst + length (utf8_bytes c), 0)"
proof -
  have c: "0 \<le> c" "c < 0x110000" using assms(1) by (simp_all add: valid_code_def)
  note r = code_ranges [OF c]
  have sur: "\<not> (0xD800 \<le> c \<and> c \<le> 0xDFFF \<or> c \<ge> 0x110000)" using assms(1) by (auto simp: valid_code_def)
  have bits: "drop_bit 6 c = c div 64" "drop_bit 12 c = c div 4096" "drop_bit 18 c = c div 262144"
    by (simp_all add: drop_bit_eq_div)
  show ?thesis
    using assms(2) sur r
    by (auto simp: utf8_put_def utf8_bytes_def bits low_six marker_bits mem_store_Cons Let_def)
qed

lemma mod_64_range: "\<not> (c :: int) mod 64 < 0" "\<not> 63 < (c :: int) mod 64"
  using pos_mod_bound [of 64 c] by simp_all

text \<open>At the check for surrogates the low twelve bits are still zero.\<close>

lemma surrogate_check_dead: "27 \<le> 2 * (d :: int) \<Longrightarrow> \<not> d * 4096 \<le> 57343"
proof -
  assume "27 \<le> 2 * d"
  then have "14 \<le> d" by simp
  then show ?thesis by simp
qed

lemma recombine:
  fixes c :: int
  shows "c mod 64 + (c div 4096 * 4096 + c div 64 mod 64 * 64) = c"
    and "c div 262144 * 262144 + c div 4096 mod 64 * 4096 = c div 4096 * 4096"
proof -
  have d: "c div 4096 = c div 64 div 64" "c div 262144 = c div 4096 div 64" by (simp_all add: zdiv_zmult2_eq [symmetric])
  have split: "x = x div 64 * 64 + x mod 64" for x :: int by simp
  have join: "z = x * 64 + y \<Longrightarrow> x = v * 64 + w \<Longrightarrow> y + (v * 4096 + w * 64) = z" for v w x y z :: int by simp
  have join2: "x = v * 64 + w \<Longrightarrow> v * 262144 + w * 4096 = x * 4096" for v w x :: int by simp
  show "c mod 64 + (c div 4096 * 4096 + c div 64 mod 64 * 64) = c"
    unfolding d(1) by (rule join [OF split split])
  show "c div 262144 * 262144 + c div 4096 mod 64 * 4096 = c div 4096 * 4096"
    unfolding d(2) by (rule join2 [OF split])
qed

lemma read_string_byte: "src \<noteq> NULL \<Longrightarrow> uint (m src) \<noteq> 0 \<Longrightarrow> read_string m src = (m src, src + 1)"
  by (auto simp: read_string_def)

lemma utf8_get_bytes:
  assumes "valid_code c" "src \<noteq> NULL" "mem_bytes m src (length (utf8_bytes c)) = utf8_bytes c"
  shows "utf8_get m src = (c, src + length (utf8_bytes c))"
proof -
  have c: "0 < c" "0 \<le> c" "c < 0x110000" "\<not> (0xD800 \<le> c \<and> c \<le> 0xDFFF)" using assms(1) by (auto simp: valid_code_def)
  note r = code_ranges [OF c(2,3)]
  have at: "m (src + i) = utf8_bytes c ! i" if "i < length (utf8_bytes c)" for i
    using that assms(3) by (metis nth_mem_bytes)
  note eval = utf8_get_def get_code_def utf8_bytes_def push_bit_eq_mult Let_def mod_64_range surrogate_check_dead recombine
  consider "c \<le> 0x7F" | "0x7F < c" "c \<le> 0x7FF" | "0x7FF < c" "c < 0x10000" | "0x10000 \<le> c" by linarith
  then show ?thesis
  proof cases
    case 1
    have u: "uint (m src) = c" using at [of 0] 1 c by (simp add: utf8_bytes_def uint_u8_of_int)
    show ?thesis using 1 c u assms(2) read_string_byte [of src m] by (simp add: eval)
  next
    case 2
    have lead: "2 \<le> c div 64" using 2 by linarith
    have u: "uint (m src) = c div 64 + 0xC0" "uint (m (Suc src)) = c mod 64 + 0x80"
      using 2 at [of 0] at [of "Suc 0"] r by (simp_all add: utf8_bytes_def uint_u8_of_int del: of_int_add)
    have rd: "read_string m src = (m src, Suc src)" "read_string m (Suc src) = (m (Suc src), Suc (Suc src))"
      using assms(2) r lead by (simp_all add: read_string_byte u add_pos_pos add_nonneg_pos order_less_imp_not_eq2)
    show ?thesis using 2 r lead by (simp add: eval rd u marker_bits)
  next
    case 3
    have u: "uint (m src) = c div 4096 + 0xE0" "uint (m (Suc src)) = c div 64 mod 64 + 0x80"
      "uint (m (Suc (Suc src))) = c mod 64 + 0x80"
      using 3 at [of 0] at [of "Suc 0"] at [of "Suc (Suc 0)"] r by (simp_all add: utf8_bytes_def uint_u8_of_int del: of_int_add)
    have rd: "read_string m src = (m src, Suc src)" "read_string m (Suc src) = (m (Suc src), Suc (Suc src))"
      "read_string m (Suc (Suc src)) = (m (Suc (Suc src)), Suc (Suc (Suc src)))"
      using assms(2) r 3 by (simp_all add: read_string_byte u add_pos_pos add_nonneg_pos order_less_imp_not_eq2)
    show ?thesis using 3 r by (simp add: eval rd u marker_bits)
  next
    case 4
    have u: "uint (m src) = c div 262144 + 0xF0" "uint (m (Suc src)) = c div 4096 mod 64 + 0x80"
      "uint (m (Suc (Suc src))) = c div 64 mod 64 + 0x80" "uint (m (Suc (Suc (Suc src)))) = c mod 64 + 0x80"
      using 4 at [of 0] at [of "Suc 0"] at [of "Suc (Suc 0)"] at [of "Suc (Suc (Suc 0))"] r
      by (simp_all add: utf8_bytes_def uint_u8_of_int del: of_int_add)
    have rd: "read_string m src = (m src, Suc src)" "read_string m (Suc src) = (m (Suc src), Suc (Suc src))"
      "read_string m (Suc (Suc src)) = (m (Suc (Suc src)), Suc (Suc (Suc src)))" "read_string m (Suc (Suc (Suc src))) = (m (Suc (Suc (Suc src))), Suc (Suc (Suc (Suc src))))"
      using assms(2) r 4 by (simp_all add: read_string_byte u add_pos_pos add_nonneg_pos order_less_imp_not_eq2)
    have top: "c div 4096 < 272" "c div 262144 \<le> 4" using c(3) by simp_all
    show ?thesis using 4 r top by (simp add: eval rd u marker_bits)
  qed
qed

lemma utf8_bytes_nonzero:
  assumes "valid_code c"
  shows "utf8_bytes c \<noteq> []" "0 \<notin> set (utf8_bytes c)"
proof -
  have c: "0 < c" "0 \<le> c" "c < 0x110000" using assms by (auto simp: valid_code_def)
  note r = code_ranges [OF c(2,3)]
  have nz: "word_of_int k \<noteq> (0 :: u8)" if "0 < k" "k < 256" for k
    using that uint_u8_of_int [of k] by (metis less_irrefl order_less_imp_le uint_0_iff)
  show "utf8_bytes c \<noteq> []" by (simp add: utf8_bytes_def)
  show "0 \<notin> set (utf8_bytes c)"
    using c r nz [of c] nz [of "c div 64 + 0xC0"] nz [of "c mod 64 + 0x80"] nz [of "c div 4096 + 0xE0"]
      nz [of "c div 64 mod 64 + 0x80"] nz [of "c div 262144 + 0xF0"] nz [of "c div 4096 mod 64 + 0x80"]
    by (simp add: utf8_bytes_def del: of_int_add)
qed

text \<open>
  Every Unicode code point except NUL and the surrogates is written by \<open>utf8_put\<close> as one to four
  bytes, without touching anything else, and \<open>utf8_get\<close> reads it back and stops after exactly those
  bytes.\<close>

theorem utf8_put_get:
  assumes "valid_code c" "dst \<noteq> NULL"
  shows "\<exists>m' n. utf8_put m c dst = (m', dst + n, 0) \<and> utf8_get m' dst = (c, dst + n) \<and> 1 \<le> n \<and> n \<le> 4 \<and>
           (\<forall>a. a < dst \<or> dst + n \<le> a \<longrightarrow> m' a = m a)"
proof -
  let ?bs = "utf8_bytes c"
  have "1 \<le> length ?bs" "length ?bs \<le> 4" by (simp_all add: utf8_bytes_def)
  moreover have "utf8_get (mem_store m dst ?bs) dst = (c, dst + length ?bs)"
    by (rule utf8_get_bytes [OF assms]) (simp add: mem_simps)
  ultimately show ?thesis using utf8_put_bytes [OF assms, of m] by (auto simp: mem_simps)
qed

theorem utf8_put_get_witness:
  "\<exists>m' n. utf8_put (\<lambda>_. 0) 0x20AC 16 = (m', 16 + n, 0) \<and> utf8_get m' 16 = (0x20AC, 16 + n)"
proof -
  have "valid_code 0x20AC" by (simp add: valid_code_def)
  from utf8_put_get [OF this, of 16 "\<lambda>_. 0"] show ?thesis by auto
qed

text \<open>Overlong forms and encoded surrogates are not rejected.\<close>

lemma utf8_get_accepts_invalid:
  "utf8_get (mem_store (\<lambda>_. 0) 16 [0xE0, 0x80, 0x80, 65]) 16 = (0, 19)"
  "utf8_get (mem_store (\<lambda>_. 0) 16 [0xF0, 0x80, 0x80, 0xAF]) 16 = (47, 20)"
  "utf8_get (mem_store (\<lambda>_. 0) 16 [0xED, 0xA0, 0x80]) 16 = (0xD800, 19)"
  by code_simp+

section \<open>UTF-16\<close>

definition utf16_words :: "int \<Rightarrow> u16 list" where
  "utf16_words c =
     (if c < 0x10000 then [word_of_int c]
      else [word_of_int ((c - 0x10000) div 1024 + 0xD800), word_of_int ((c - 0x10000) mod 1024 + 0xDC00)])"

lemma or_add_int:
  fixes x :: int
  assumes "0 \<le> x" "x < 2 ^ n"
  shows "x OR push_bit n k = x + push_bit n k"
proof -
  have "take_bit n x = x" using assms by (simp add: take_bit_int_eq_self)
  then have "\<not> bit x j \<or> \<not> bit (push_bit n k) j" for j
    by (metis bit_push_bit_iff_int bit_take_bit_iff linorder_not_less)
  from disjunctive_add [OF this] show ?thesis by simp
qed

lemma surrogate_bits:
  fixes x :: int
  assumes "0 \<le> x" "x < 1024"
  shows "x OR 0xD800 = x + 0xD800" "x OR 0xDC00 = x + 0xDC00"
    and "(x + 0xD800) AND 0x3ff = x" "(x + 0xDC00) AND 0x3ff = x"
proof -
  show "x OR 0xD800 = x + 0xD800" "x OR 0xDC00 = x + 0xDC00"
    using assms or_add_int [of x 10 54] or_add_int [of x 10 55] by (simp_all add: push_bit_eq_mult)
  have low: "(c :: int) AND 0x3ff = c mod 1024" for c
    using take_bit_eq_mask [of 10 c] by (simp add: take_bit_eq_mod mask_eq_exp_minus_1)
  have "(x + 54 * 1024) mod 1024 = x" "(x + 55 * 1024) mod 1024 = x" using assms by (simp_all only: mod_mult_self1) simp_all
  then show "(x + 0xD800) AND 0x3ff = x" "(x + 0xDC00) AND 0x3ff = x" by (simp_all add: low)
qed

lemma low_ten: "(c :: int) AND 0x3ff = c mod 1024"
  using take_bit_eq_mask [of 10 c] by (simp add: take_bit_eq_mod mask_eq_exp_minus_1)

definition mem16_words :: "mem16 \<Rightarrow> ptr \<Rightarrow> nat \<Rightarrow> u16 list" where
  "mem16_words m p n = map m [p..<p + n]"

definition mem16_store :: "mem16 \<Rightarrow> ptr \<Rightarrow> u16 list \<Rightarrow> mem16" where
  "mem16_store m p ws = (\<lambda>a. if p \<le> a \<and> a < p + length ws then ws ! (a - p) else m a)"

lemma mem16_store_Nil [simp]: "mem16_store m p [] = m"
  by (rule ext) (auto simp: mem16_store_def)

lemma mem16_store_Cons: "mem16_store m p (w # ws) = mem16_store (m(p := w)) (Suc p) ws"
  by (rule ext) (auto simp: mem16_store_def nth_Cons')

lemma mem16_store_append: "mem16_store m p (ws @ vs) = mem16_store (mem16_store m p ws) (p + length ws) vs"
  by (rule ext) (auto simp: mem16_store_def nth_append)

lemma utf16_put_words:
  assumes "valid_code c" "dst \<noteq> NULL"
  shows "utf16_put m c dst = (mem16_store m dst (utf16_words c), dst + length (utf16_words c), 0)"
proof -
  have c: "0 < c" "c < 0x110000" "\<not> (0xD800 \<le> c \<and> c \<le> 0xDFFF \<or> c \<ge> 0x110000)"
    using assms(1) by (auto simp: valid_code_def)
  have r: "0 \<le> (c - 0x10000) mod 1024" "(c - 0x10000) mod 1024 < 1024" by simp_all
  have h: "0 \<le> (c - 0x10000) div 1024 \<and> (c - 0x10000) div 1024 < 1024" if "0x10000 \<le> c"
    using that c(2) by (simp add: pos_imp_zdiv_nonneg_iff)
  show ?thesis
  proof (cases "c < 0x10000")
    case True
    then show ?thesis using assms(2) c by (simp add: utf16_put_def utf16_words_def mem16_store_Cons)
  next
    case False
    define d where "d = c - 0x10000"
    have "0 \<le> d div 1024" "d div 1024 < 1024" using h False by (simp_all add: d_def)
    then have "drop_bit 10 d OR 0xD800 = d div 1024 + 0xD800"
      using surrogate_bits(1) [of "d div 1024"] by (simp add: drop_bit_eq_div)
    moreover have "(d AND 0x3ff) OR 0xDC00 = d mod 1024 + 0xDC00"
      using surrogate_bits(2) [of "d mod 1024"] by (simp add: low_ten)
    ultimately show ?thesis
      using False assms(2) c(3)
      by (simp add: utf16_put_def utf16_words_def mem16_store_Cons d_def [symmetric] Let_def del: of_int_add)
  qed
qed

text \<open>The low surrogates \<open>0xDC00\<close> and \<open>0xDFFF\<close> are refused, so the code points that need them are.\<close>

definition edge_code :: "int \<Rightarrow> bool" where
  "edge_code c \<longleftrightarrow> 0x10000 \<le> c \<and> (c mod 1024 = 0 \<or> c mod 1024 = 1023)"

lemma uint_u16_of_int: "0 \<le> k \<Longrightarrow> k < 65536 \<Longrightarrow> uint (word_of_int k :: u16) = k"
  by (subst uint_word_of_int) simp

lemma utf16_get_words:
  assumes "valid_code c" "src \<noteq> NULL" "\<And>i. i < length (utf16_words c) \<Longrightarrow> m (src + i) = utf16_words c ! i"
  shows "utf16_get m src = (if edge_code c then - 1 else c, src + length (utf16_words c))"
proof (cases "c < 0x10000")
  case True
  have c: "0 < c" "\<not> (0xD800 \<le> c \<and> c \<le> 0xDFFF)" using assms(1) by (auto simp: valid_code_def)
  have "uint (m src) = c" using assms(3) [of 0] True c by (simp add: utf16_words_def uint_u16_of_int)
  moreover from this c have "m src \<noteq> 0" by auto
  ultimately show ?thesis using True c assms(2) by (auto simp: utf16_get_def utf16_words_def edge_code_def Let_def)
next
  case False
  define d where "d = c - 0x10000"
  have c: "c < 0x110000" using assms(1) by (simp add: valid_code_def)
  have hi: "0 \<le> d div 1024" "d div 1024 < 1024" and lo: "0 \<le> d mod 1024" "d mod 1024 < 1024"
    using c False by (simp_all add: d_def pos_imp_zdiv_nonneg_iff)
  have u: "uint (m src) = d div 1024 + 0xD800" "uint (m (Suc src)) = d mod 1024 + 0xDC00"
    using assms(3) [of 0] assms(3) [of "Suc 0"] False hi lo
    by (simp_all add: utf16_words_def d_def [symmetric] uint_u16_of_int del: of_int_add)
  then have nz: "m src \<noteq> 0" "m (Suc src) \<noteq> 0" using hi lo by auto
  have d: "d div 1024 * 1024 + d mod 1024 = c - 0x10000" by (simp add: d_def)
  have "c = d + 64 * 1024" by (simp add: d_def)
  then have "c mod 1024 = d mod 1024" by (simp only: mod_mult_self1)
  then have edge: "edge_code c \<longleftrightarrow> d mod 1024 = 0 \<or> d mod 1024 = 1023" using False by (simp add: edge_code_def)
  have val: "push_bit 10 ((d div 1024 + 0xD800) AND 0x3ff) + 0x10000 + ((d mod 1024 + 0xDC00) AND 0x3ff) = c"
    using surrogate_bits(3) [OF hi] surrogate_bits(4) [OF lo] d by (simp add: push_bit_eq_mult)
  have low: "(d mod 1024 + 0xDC00 \<le> 0xDC00 \<or> d mod 1024 + 0xDC00 \<ge> 0xDFFF) \<longleftrightarrow> d mod 1024 = 0 \<or> d mod 1024 = 1023"
    using lo by linarith
  have not_low: "\<not> (0xDC00 \<le> d div 1024 + 0xD800 \<and> d div 1024 + 0xD800 \<le> 0xDFFF)"
    and high: "0xD800 \<le> d div 1024 + 0xD800 \<and> d div 1024 + 0xD800 \<le> 0xDBFF" using hi by linarith+
  have len: "length (utf16_words c) = 2" using False by (simp add: utf16_words_def)
  show ?thesis
    using assms(2) nz
    unfolding utf16_get_def Let_def Suc_eq_plus1 [symmetric] u edge len val
    by (simp only: not_low high low if_False if_True simp_thms) simp
qed

section \<open>Converting strings\<close>

definition text8 :: "int list \<Rightarrow> u8 list" where
  "text8 cs = concat (map utf8_bytes cs)"

definition text16 :: "int list \<Rightarrow> u16 list" where
  "text16 cs = concat (map utf16_words cs)"

lemma text_simps [simp]:
  "text8 [] = []" "text8 (c # cs) = utf8_bytes c @ text8 cs"
  "text16 [] = []" "text16 (c # cs) = utf16_words c @ text16 cs"
  by (simp_all add: text8_def text16_def)

lemma cstr_append: "cstr m p (xs @ ys) \<longleftrightarrow> mem_bytes m p (length xs) = xs \<and> 0 \<notin> set xs \<and> cstr m (p + length xs) ys"
  by (auto simp: cstr_def mem_bytes_add add.assoc)

lemma cstr_head_code:
  assumes "cstr m p (utf8_bytes c @ ys)" "valid_code c" "p \<noteq> NULL"
  shows "m p \<noteq> 0" "utf8_get m p = (c, p + length (utf8_bytes c))" "cstr m (p + length (utf8_bytes c)) ys"
proof -
  note a = assms(1) [unfolded cstr_append]
  show "utf8_get m p = (c, p + length (utf8_bytes c))" using a assms by (intro utf8_get_bytes) simp_all
  show "cstr m (p + length (utf8_bytes c)) ys" using a by simp
  have "0 < length (utf8_bytes c)" using utf8_bytes_nonzero(1) [OF assms(2)] by simp
  then have "m p = hd (utf8_bytes c)" using a by (metis add_0_right hd_conv_nth length_greater_0_conv nth_mem_bytes)
  then show "m p \<noteq> 0" using utf8_bytes_nonzero [OF assms(2)] by (metis hd_in_set)
qed

lemma length_utf16_words: "length (utf16_words c) = (if c < 0x10000 then 1 else 2)"
  by (simp add: utf16_words_def)

lemma utf8_utf16_loops:
  assumes "\<forall>c\<in>set cs. valid_code c" "cstr ms src (text8 cs)" "src \<noteq> NULL" "dst \<noteq> NULL" "length cs \<le> count"
  shows "utf8_utf16_copy_loop ms src count md dst = (mem16_store md dst (text16 cs), dst + length (text16 cs)) \<and>
         utf8_utf16_strnlen_loop ms src count len = len + length (text16 cs)"
  using assms
proof (induction cs arbitrary: src dst md count len)
  case Nil
  then show ?case by (cases count) auto
next
  case (Cons c cs)
  then obtain k where k: "count = Suc k" "length cs \<le> k" by (cases count) auto
  have c: "valid_code c" "0 < c" using Cons.prems(1) by (auto simp: valid_code_def)
  note h = cstr_head_code [OF Cons.prems(2) [unfolded text_simps] c(1) Cons.prems(3)]
  note put = utf16_put_words [OF c(1) Cons.prems(4), of md]
  have ih: "utf8_utf16_copy_loop ms (src + length (utf8_bytes c)) k (mem16_store md dst (utf16_words c)) (dst + length (utf16_words c)) =
      (mem16_store (mem16_store md dst (utf16_words c)) (dst + length (utf16_words c)) (text16 cs),
       dst + length (utf16_words c) + length (text16 cs)) \<and>
    utf8_utf16_strnlen_loop ms (src + length (utf8_bytes c)) k len' = len' + length (text16 cs)" for len'
    using Cons.prems k h(3) by (intro Cons.IH) auto
  show ?case using k h(1,2) put ih c(2) by (simp add: mem16_store_append length_utf16_words)
qed

text \<open>
  A terminated UTF-8 string of valid code points is converted by \<open>utf8_utf16_strncpy\<close> to the
  UTF-16 encoding of the same code points with a terminator, and \<open>utf8_utf16_strnlen\<close> returns
  beforehand exactly the number of 16-bit words that it will write in front of the terminator.\<close>

theorem utf8_utf16_converts:
  assumes "\<forall>c\<in>set cs. valid_code c" "cstr ms src (text8 cs)" "src \<noteq> NULL" "dst \<noteq> NULL" "length cs \<le> count"
  shows "utf8_utf16_strncpy ms md dst src count =
           ((mem16_store md dst (text16 cs))(dst + length (text16 cs) := 0), dst + utf8_utf16_strnlen ms src count, 0) \<and>
         utf8_utf16_strnlen ms src count = length (text16 cs)"
  using utf8_utf16_loops [OF assms, of md 0] assms(3,4)
  by (simp add: utf8_utf16_strncpy_def utf8_utf16_strnlen_def)

theorem utf8_utf16_converts_witness:
  "utf8_utf16_strnlen (mem_store (\<lambda>_. 0) 16 (text8 [65, 0x20AC, 0x1F600])) 16 9 = 4"
proof -
  have v: "\<forall>c\<in>set [65, 0x20AC, 0x1F600]. valid_code c" by (simp add: valid_code_def)
  have c: "cstr (mem_store (\<lambda>_. 0) 16 (text8 [65, 0x20AC, 0x1F600])) 16 (text8 [65, 0x20AC, 0x1F600])"
    by code_simp
  show ?thesis using utf8_utf16_converts [OF v c, of 1 9] by (simp add: length_utf16_words)
qed

text \<open>
  On a string with an overlong encoding of NUL the two disagree: \<open>utf8_utf16_strnlen\<close> stops there
  and reports no words at all, while \<open>utf8_utf16_strncpy\<close> goes on and writes past the room that was
  reported, up to the end of the string.\<close>

theorem utf8_utf16_overflow:
  "utf8_utf16_strnlen (mem_store (\<lambda>_. 0) 16 [0xE0, 0x80, 0x80, 65, 66, 67]) 16 9 = 0 \<and>
   fst (snd (utf8_utf16_strncpy (mem_store (\<lambda>_. 0) 16 [0xE0, 0x80, 0x80, 65, 66, 67]) (\<lambda>_. 0) 32 16 9)) = 32 + 4 \<and>
   fst (utf8_utf16_strncpy (mem_store (\<lambda>_. 0) 16 [0xE0, 0x80, 0x80, 65, 66, 67]) (\<lambda>_. 0) 32 16 9) 35 = 67"
  by code_simp

text \<open>
  \<open>utf16_put\<close> followed by \<open>utf16_get\<close> gives the code point back for every code point but those
  whose low surrogate is \<open>0xDC00\<close> or \<open>0xDFFF\<close>; these are written correctly, and refused on reading.\<close>

theorem utf16_put_get:
  assumes "valid_code c" "dst \<noteq> NULL"
  shows "\<exists>m' n. utf16_put m c dst = (m', dst + n, 0) \<and> n = (if c < 0x10000 then 1 else 2) \<and>
           utf16_get m' dst = (if edge_code c then - 1 else c, dst + n)"
proof -
  have "utf16_get (mem16_store m dst (utf16_words c)) dst =
      (if edge_code c then - 1 else c, dst + length (utf16_words c))"
    by (rule utf16_get_words [OF assms]) (simp add: mem16_store_def)
  then show ?thesis using utf16_put_words [OF assms, of m] by (simp add: length_utf16_words)
qed

theorem utf16_put_get_witness:
  "\<exists>m' n. utf16_put (\<lambda>_. 0) 0x1F400 16 = (m', 16 + n, 0) \<and> utf16_get m' 16 = (- 1, 16 + n)"
proof -
  have "valid_code 0x1F400" by (simp add: valid_code_def)
  moreover have "edge_code 0x1F400" by code_simp
  ultimately show ?thesis using utf16_put_get [of "0x1F400" 16 "\<lambda>_. 0"] by auto
qed

section \<open>There and back\<close>

text \<open>A terminated string of 16-bit words.\<close>

definition str16 :: "mem16 \<Rightarrow> ptr \<Rightarrow> u16 list \<Rightarrow> bool" where
  "str16 m p ws \<longleftrightarrow> (\<forall>i<length ws. m (p + i) = ws ! i) \<and> m (p + length ws) = 0"

lemma str16_append:
  "str16 m p (ws @ vs) \<longleftrightarrow> (\<forall>i<length ws. m (p + i) = ws ! i) \<and> str16 m (p + length ws) vs"
proof
  assume a: "str16 m p (ws @ vs)"
  have "m (p + length ws + i) = vs ! i" if "i < length vs" for i
    using a that spec [of _ "length ws + i"] by (auto simp: str16_def nth_append add.assoc)
  then show "(\<forall>i<length ws. m (p + i) = ws ! i) \<and> str16 m (p + length ws) vs"
    using a by (auto simp: str16_def nth_append add.assoc)
next
  assume b: "(\<forall>i<length ws. m (p + i) = ws ! i) \<and> str16 m (p + length ws) vs"
  have "m (p + i) = (ws @ vs) ! i" if "i < length ws + length vs" for i
  proof (cases "i < length ws")
    case False
    then have "i - length ws < length vs" "p + length ws + (i - length ws) = p + i" using that by auto
    then show ?thesis using b False by (metis nth_append str16_def)
  qed (use b in \<open>simp add: nth_append\<close>)
  then show "str16 m p (ws @ vs)" using b by (auto simp: str16_def add.assoc)
qed

lemma utf16_words_head:
  assumes "valid_code c" "m p = utf16_words c ! 0"
  shows "m p \<noteq> 0"
proof -
  have c: "0 < c" "c < 0x110000" using assms(1) by (simp_all add: valid_code_def)
  have nz: "word_of_int k \<noteq> (0 :: u16)" if "0 < k" "k < 65536" for k
    using that uint_u16_of_int [of k] by (metis less_irrefl order_less_imp_le uint_0_iff)
  have "0 < (c - 0x10000) div 1024 + 0xD800" "(c - 0x10000) div 1024 + 0xD800 < 65536" using c by simp_all
  then show ?thesis
    using assms(2) nz [of c] nz [of "(c - 0x10000) div 1024 + 0xD800"] c by (simp add: utf16_words_def del: of_int_add split: if_splits)
qed

lemma utf16_utf8_loops:
  assumes "\<forall>c\<in>set cs. valid_code c \<and> \<not> edge_code c" "str16 ms src (text16 cs)" "src \<noteq> NULL" "dst \<noteq> NULL"
    and "length cs \<le> count"
  shows "utf16_utf8_copy_loop ms src count md dst = (mem_store md dst (text8 cs), dst + length (text8 cs)) \<and>
         utf16_utf8_strnlen_loop ms src count len = len + length (text8 cs)"
  using assms
proof (induction cs arbitrary: src dst md count len)
  case Nil
  then show ?case by (cases count) (auto simp: str16_def)
next
  case (Cons c cs)
  then obtain k where k: "count = Suc k" "length cs \<le> k" by (cases count) auto
  have c: "valid_code c" "0 < c" "\<not> edge_code c" using Cons.prems(1) by (auto simp: valid_code_def)
  note t = Cons.prems(2) [unfolded text_simps str16_append]
  have "0 < length (utf16_words c)" by (simp add: length_utf16_words)
  then have h: "ms src \<noteq> 0" using t utf16_words_head [OF c(1), of ms src] by fastforce
  have g: "utf16_get ms src = (c, src + length (utf16_words c))"
    using utf16_get_words [OF c(1) Cons.prems(3), of ms] t c(3) by simp
  note put = utf8_put_bytes [OF c(1) Cons.prems(4), of md]
  have ih: "utf16_utf8_copy_loop ms (src + length (utf16_words c)) k (mem_store md dst (utf8_bytes c)) (dst + length (utf8_bytes c)) =
      (mem_store (mem_store md dst (utf8_bytes c)) (dst + length (utf8_bytes c)) (text8 cs),
       dst + length (utf8_bytes c) + length (text8 cs)) \<and>
    utf16_utf8_strnlen_loop ms (src + length (utf16_words c)) k len' = len' + length (text8 cs)" for len'
    using Cons.prems k t by (intro Cons.IH) auto
  have "length (utf8_bytes c) = (if c < 0x80 then 1 else if c < 0x800 then 2 else if c < 0x10000 then 3 else 4)"
    by (simp add: utf8_bytes_def)
  then show ?case using k h g put ih c(2) by (simp add: mem_store_append)
qed



text \<open>
  A NUL byte given to the stream decoder makes it run forever: the buffer is emptied and tried
  again without end.
\<close>

lemma utf8_stream_hangs:
  assumes "m buffer = 0" "buffer \<noteq> NULL"
  shows "utf8_to_utf32_stream m 0 buffer = None"
proof -
  have "\<not> (m buffer = 0 \<and> c = 0 \<and> buffer \<noteq> NULL)" if "utf8_to_utf32_stream m c buffer = Some r" for m c buffer r
  proof (rule utf8_to_utf32_stream.raw_induct [OF _ that], goal_cases)
    case (1 f m c buffer r)
    show ?case
    proof
      assume a: "m buffer = 0 \<and> c = 0 \<and> buffer \<noteq> NULL"
      then have "strlen m buffer = Some 0" by (simp add: strlen_cstr [of m buffer "[]"])
      moreover have "m(buffer := 0, buffer + 1 := 0) = m(Suc buffer := 0)" using a by auto
      moreover have "utf8_get (m(Suc buffer := 0)) buffer = (0, buffer)"
        using a by (simp add: utf8_get_def get_code_def read_string_def)
      ultimately have "f (m(Suc buffer := 0, buffer := 0)) c buffer = Some r"
        using 1(2) a by (simp add: Let_def)
      from 1(1) [OF this] a show False by simp
    qed
  qed
  then show ?thesis using assms by (cases "utf8_to_utf32_stream m 0 buffer") blast+
qed

end
