(* ===== verification/Blkcache.thy ===== *)
theory Blkcache
  imports Interfaces
begin

text \<open>
  The block cache of \<open>drivers/block/blkcache.c\<close> and the reads, writes and erasures of
  \<open>drivers/block/blk-uclass.c\<close> that go through it. The cache is the list of its nodes, the most
  recently used first, with the statistics; a node's buffer is the list of its bytes. Block
  numbers, counts and sizes are 64-bit words and wrap. \<open>malloc\<close> is a parameter: whether it gives a
  node and whether it gives a buffer. A driver is a parameter too. The lemmas show that the cache is
  coherent with the devices: a hit returns what the device holds.
\<close>

section \<open>Model\<close>

record block_cache_node =
  nd_iftype :: int
  nd_devnum :: int
  nd_start :: u64
  nd_blkcnt :: u64
  nd_blksz :: u64
  nd_cache :: "u8 list"

record block_cache_stats =
  hits :: u32
  misses :: u32
  entries :: u32
  max_blocks_per_entry :: u32
  max_entries :: u32

record blkcache =
  block_cache :: "block_cache_node list"
  bc_stats :: block_cache_stats

definition blkcache_initial :: blkcache where
  "blkcache_initial =
     \<lparr>block_cache = [],
      bc_stats = \<lparr>hits = 0, misses = 0, entries = 0, max_blocks_per_entry = 8, max_entries = 32\<rparr>\<rparr>"

definition node_covers :: "int \<Rightarrow> int \<Rightarrow> u64 \<Rightarrow> u64 \<Rightarrow> u64 \<Rightarrow> block_cache_node \<Rightarrow> bool" where
  "node_covers iftype devnum start blkcnt blksz node \<longleftrightarrow>
     nd_iftype node = iftype \<and> nd_devnum node = devnum \<and> nd_blksz node = blksz \<and>
     nd_start node \<le> start \<and> nd_start node + nd_blkcnt node \<ge> start + blkcnt"

text \<open>The walk over the list; \<open>before\<close> are the nodes that were passed. The node found moves to the front.\<close>

fun cache_find ::
  "int \<Rightarrow> int \<Rightarrow> u64 \<Rightarrow> u64 \<Rightarrow> u64 \<Rightarrow> block_cache_node list \<Rightarrow> block_cache_node list \<Rightarrow>
   block_cache_node list \<times> block_cache_node option" where
  "cache_find iftype devnum start blkcnt blksz before [] = (before, None)"
| "cache_find iftype devnum start blkcnt blksz before (node # rest) =
     (if node_covers iftype devnum start blkcnt blksz node then (node # before @ rest, Some node)
      else cache_find iftype devnum start blkcnt blksz (before @ [node]) rest)"

text \<open>The new cache and the bytes copied to the buffer on a hit.\<close>

definition blkcache_read :: "blkcache \<Rightarrow> int \<Rightarrow> int \<Rightarrow> u64 \<Rightarrow> u64 \<Rightarrow> u64 \<Rightarrow> blkcache \<times> u8 list option" where
  "blkcache_read bc iftype devnum start blkcnt blksz =
     (case cache_find iftype devnum start blkcnt blksz [] (block_cache bc) of
        (nodes, Some node) \<Rightarrow>
          (bc\<lparr>block_cache := nodes, bc_stats := (bc_stats bc)\<lparr>hits := hits (bc_stats bc) + 1\<rparr>\<rparr>,
           Some (take (unat (blksz * blkcnt)) (drop (unat ((start - nd_start node) * blksz)) (nd_cache node))))
      | (nodes, None) \<Rightarrow>
          (bc\<lparr>block_cache := nodes, bc_stats := (bc_stats bc)\<lparr>misses := misses (bc_stats bc) + 1\<rparr>\<rparr>, None))"

text \<open>
  \<open>node_ok\<close> and \<open>buf_ok\<close> are the answers of the two calls of \<open>malloc\<close>. A buffer that is kept may be
  longer than what is copied into it.
\<close>

definition blkcache_fill ::
  "bool \<Rightarrow> bool \<Rightarrow> blkcache \<Rightarrow> int \<Rightarrow> int \<Rightarrow> u64 \<Rightarrow> u64 \<Rightarrow> u64 \<Rightarrow> u8 list \<Rightarrow> blkcache" where
  "blkcache_fill node_ok buf_ok bc iftype devnum start blkcnt blksz buffer =
     (let st = bc_stats bc in
      if blkcnt > ucast (max_blocks_per_entry st) then bc
      else if max_entries st = 0 then bc
      else
        let bytes = blksz * blkcnt;
            full = (max_entries st \<le> entries st);
            lru = last (block_cache bc);
            bc1 = (if full then bc\<lparr>block_cache := butlast (block_cache bc), bc_stats := st\<lparr>entries := entries st - 1\<rparr>\<rparr>
                   else bc);
            old = (if full then if nd_blkcnt lru * nd_blksz lru < bytes then None else Some (nd_cache lru)
                   else None)
        in if \<not> full \<and> \<not> node_ok then bc
           else if old = None \<and> \<not> buf_ok then bc1
           else
             let keep = (case old of None \<Rightarrow> [] | Some c \<Rightarrow> drop (unat bytes) c);
                 node = \<lparr>nd_iftype = iftype, nd_devnum = devnum, nd_start = start, nd_blkcnt = blkcnt,
                         nd_blksz = blksz, nd_cache = take (unat bytes) buffer @ keep\<rparr>
             in bc1\<lparr>block_cache := node # block_cache bc1,
                    bc_stats := (bc_stats bc1)\<lparr>entries := entries (bc_stats bc1) + 1\<rparr>\<rparr>)"

definition dropped :: "int \<Rightarrow> int \<Rightarrow> block_cache_node \<Rightarrow> bool" where
  "dropped iftype devnum node \<longleftrightarrow> iftype = - 1 \<or> nd_iftype node = iftype \<and> nd_devnum node = devnum"

fun invalidate_loop :: "int \<Rightarrow> int \<Rightarrow> block_cache_node list \<Rightarrow> u32 \<Rightarrow> block_cache_node list \<times> u32" where
  "invalidate_loop iftype devnum [] n = ([], n)"
| "invalidate_loop iftype devnum (node # rest) n =
     (if dropped iftype devnum node then invalidate_loop iftype devnum rest (n - 1)
      else case invalidate_loop iftype devnum rest n of (rest', n') \<Rightarrow> (node # rest', n'))"

definition blkcache_invalidate :: "blkcache \<Rightarrow> int \<Rightarrow> int \<Rightarrow> blkcache" where
  "blkcache_invalidate bc iftype devnum =
     (case invalidate_loop iftype devnum (block_cache bc) (entries (bc_stats bc)) of (nodes, n) \<Rightarrow>
        bc\<lparr>block_cache := nodes, bc_stats := (bc_stats bc)\<lparr>entries := n\<rparr>\<rparr>)"

definition blkcache_configure :: "blkcache \<Rightarrow> u32 \<Rightarrow> u32 \<Rightarrow> blkcache" where
  "blkcache_configure bc blocks n =
     (let bc1 = (if blocks \<noteq> max_blocks_per_entry (bc_stats bc) \<or> n \<noteq> max_entries (bc_stats bc)
                 then blkcache_invalidate bc (- 1) 0 else bc)
      in bc1\<lparr>bc_stats := (bc_stats bc1)\<lparr>max_blocks_per_entry := blocks, max_entries := n, hits := 0, misses := 0\<rparr>\<rparr>)"

definition blkcache_stats :: "blkcache \<Rightarrow> blkcache \<times> block_cache_stats" where
  "blkcache_stats bc = (bc\<lparr>bc_stats := (bc_stats bc)\<lparr>hits := 0, misses := 0\<rparr>\<rparr>, bc_stats bc)"

definition blkcache_free :: "blkcache \<Rightarrow> blkcache" where
  "blkcache_free bc = blkcache_invalidate bc (- 1) 0"

subsection \<open>The block layer\<close>

record blk_desc =
  uclass_id :: int
  bd_devnum :: int
  bd_blksz :: u64

text \<open>
  \<open>rd\<close> is \<open>ops->read\<close>, or \<open>None\<close> when the driver has none: the number of blocks read and the bytes.
  \<open>bb\<close> is what \<open>bounce_buffer_start_extalign\<close> returns, or 0 when the device uses no bounce buffer;
  the driver then reads into the bounce buffer, which is copied back. The result is the cache, the
  return value and the bytes in the buffer.
\<close>

definition blk_read ::
  "bool \<Rightarrow> bool \<Rightarrow> int \<Rightarrow> (u64 \<Rightarrow> u64 \<Rightarrow> u64 \<times> u8 list) option \<Rightarrow> blkcache \<Rightarrow> blk_desc \<Rightarrow> u64 \<Rightarrow> u64 \<Rightarrow>
   blkcache \<times> u64 \<times> u8 list" where
  "blk_read node_ok buf_ok bb rd bc desc start blkcnt =
     (case rd of
        None \<Rightarrow> (bc, - 38, [])
      | Some read \<Rightarrow>
          (case blkcache_read bc (uclass_id desc) (bd_devnum desc) start blkcnt (bd_blksz desc) of
             (bc1, Some bytes) \<Rightarrow> (bc1, blkcnt, bytes)
           | (bc1, None) \<Rightarrow>
               if bb \<noteq> 0 then (bc1, word_of_int bb, [])
               else
                 let (blks_read, bytes) = read start blkcnt
                 in (if blks_read = blkcnt
                     then blkcache_fill node_ok buf_ok bc1 (uclass_id desc) (bd_devnum desc) start blkcnt (bd_blksz desc) bytes
                     else bc1, blks_read, bytes)))"

text \<open>\<open>wr\<close> is \<open>ops->write\<close>: from the device's contents to the new contents and the blocks written.\<close>

definition blk_write ::
  "int \<Rightarrow> ('i \<Rightarrow> 'i \<times> u64) option \<Rightarrow> blkcache \<Rightarrow> blk_desc \<Rightarrow> 'i \<Rightarrow> (blkcache \<times> 'i) \<times> u64" where
  "blk_write bb wr bc desc img =
     (case wr of
        None \<Rightarrow> ((bc, img), - 38)
      | Some write \<Rightarrow>
          let bc' = blkcache_invalidate bc (uclass_id desc) (bd_devnum desc)
          in if bb \<noteq> 0 then ((bc', img), word_of_int bb)
             else let (img', blks_written) = write img in ((bc', img'), blks_written))"

definition blk_erase ::
  "('i \<Rightarrow> 'i \<times> u64) option \<Rightarrow> blkcache \<Rightarrow> blk_desc \<Rightarrow> 'i \<Rightarrow> (blkcache \<times> 'i) \<times> u64" where
  "blk_erase er bc desc img =
     (case er of
        None \<Rightarrow> ((bc, img), - 38)
      | Some erase \<Rightarrow>
          let bc' = blkcache_invalidate bc (uclass_id desc) (bd_devnum desc);
              (img', blks_erased) = erase img
          in ((bc', img'), blks_erased))"

section \<open>Coherence\<close>

text \<open>
  A device's contents are a function from byte addresses. A request is whether \<open>malloc\<close> answers, the
  first block, the number of blocks and the block size. \<open>blocks_fit\<close> says that neither the last block
  number nor the number of bytes wraps.
\<close>

type_synonym image = "nat \<Rightarrow> u8"
type_synonym request = "(bool \<times> bool) \<times> u64 \<times> u64 \<times> u64"

definition blocks_fit :: "u64 \<Rightarrow> u64 \<Rightarrow> u64 \<Rightarrow> bool" where
  "blocks_fit start blkcnt blksz \<longleftrightarrow> unat start + unat blkcnt < 2 ^ 64 \<and> unat blkcnt * unat blksz < 2 ^ 64"

definition image_bytes :: "image \<Rightarrow> u64 \<Rightarrow> u64 \<Rightarrow> u64 \<Rightarrow> u8 list" where
  "image_bytes img start blkcnt blksz = map (\<lambda>i. img (unat start * unat blksz + i)) [0..<unat blkcnt * unat blksz]"

definition node_coherent :: "(int \<times> int \<Rightarrow> image) \<Rightarrow> block_cache_node \<Rightarrow> bool" where
  "node_coherent img node \<longleftrightarrow>
     blocks_fit (nd_start node) (nd_blkcnt node) (nd_blksz node) \<and>
     take (unat (nd_blkcnt node) * unat (nd_blksz node)) (nd_cache node) =
       image_bytes (img (nd_iftype node, nd_devnum node)) (nd_start node) (nd_blkcnt node) (nd_blksz node)"

definition cache_coherent :: "blkcache \<Rightarrow> (int \<times> int \<Rightarrow> image) \<Rightarrow> bool" where
  "cache_coherent bc img \<longleftrightarrow> (\<forall>node\<in>set (block_cache bc). node_coherent img node)"

fun request_ok :: "request \<Rightarrow> bool" where
  "request_ok (_, start, blkcnt, blksz) = blocks_fit start blkcnt blksz"

fun request_view :: "image \<Rightarrow> request \<Rightarrow> u8 list" where
  "request_view img (_, start, blkcnt, blksz) = image_bytes img start blkcnt blksz"

fun request_lookup :: "blkcache \<Rightarrow> int \<times> int \<Rightarrow> request \<Rightarrow> blkcache \<times> u8 list option" where
  "request_lookup bc (iftype, devnum) (_, start, blkcnt, blksz) = blkcache_read bc iftype devnum start blkcnt blksz"

fun request_fill :: "blkcache \<Rightarrow> int \<times> int \<Rightarrow> request \<Rightarrow> u8 list \<Rightarrow> blkcache" where
  "request_fill bc (iftype, devnum) ((node_ok, buf_ok), start, blkcnt, blksz) buffer =
     blkcache_fill node_ok buf_ok bc iftype devnum start blkcnt blksz buffer"

fun device_drop :: "blkcache \<Rightarrow> int \<times> int \<Rightarrow> blkcache" where
  "device_drop bc (iftype, devnum) = blkcache_invalidate bc iftype devnum"

subsection \<open>Looking up\<close>

lemma length_image_bytes [simp]: "length (image_bytes img s n b) = unat n * unat b"
  by (simp add: image_bytes_def)

lemma cache_find_None: "cache_find i d s n b before rest = (nodes, None) \<Longrightarrow>
    nodes = before @ rest \<and> (\<forall>node\<in>set rest. \<not> node_covers i d s n b node)"
  by (induction i d s n b before rest rule: cache_find.induct) (auto split: if_splits)

lemma cache_find_Some: "cache_find i d s n b before rest = (nodes, Some node) \<Longrightarrow>
    \<exists>pre post. rest = pre @ node # post \<and> nodes = node # before @ pre @ post \<and> node_covers i d s n b node \<and>
      (\<forall>x\<in>set pre. \<not> node_covers i d s n b x)"
proof (induction i d s n b before rest rule: cache_find.induct)
  case (2 i d s n b before x rest)
  show ?case
  proof (cases "node_covers i d s n b x")
    case True
    then have "x # rest = [] @ node # rest \<and> nodes = node # before @ [] @ rest \<and> node_covers i d s n b node"
      using 2(2) by auto
    then show ?thesis by (metis empty_iff list.set(1))
  next
    case False
    then obtain pre post where "rest = pre @ node # post" "nodes = node # (before @ [x]) @ pre @ post"
      "node_covers i d s n b node" "\<forall>y\<in>set pre. \<not> node_covers i d s n b y"
      using 2 by auto
    then show ?thesis using False by (intro exI [of _ "x # pre"] exI [of _ post]) auto
  qed
qed simp

lemma cache_find_set: "cache_find i d s n b before rest = (nodes, x) \<Longrightarrow> set nodes = set before \<union> set rest"
  by (cases x) (auto dest!: cache_find_None cache_find_Some)

lemma unat_mult_fit: "unat (a::u64) * unat b < 2 ^ 64 \<Longrightarrow> unat (a * b) = unat a * unat b"
  by (simp add: unat_word_ariths)

lemma range_in_node:
  assumes "ns \<le> s" "s + n \<le> ns + (m::nat)"
  shows "(s - ns) * b + n * b \<le> m * b"
proof -
  have "(s - ns + n) * b \<le> m * b" using assms by (intro mult_le_mono1) linarith
  then show ?thesis by (simp add: add_mult_distrib)
qed

lemma image_bytes_part:
  assumes "ns \<le> s" "s + n \<le> ns + m"
  shows "take (n * b) (drop ((s - ns) * b) (map (\<lambda>i. f (ns * b + i)) [0..<m * b])) = map (\<lambda>i. f (s * b + i)) [0..<n * b]"
proof (rule nth_equalityI)
  have le: "(s - ns) * b + n * b \<le> m * b" using range_in_node [OF assms] .
  then show "length (take (n * b) (drop ((s - ns) * b) (map (\<lambda>i. f (ns * b + i)) [0..<m * b]))) =
      length (map (\<lambda>i. f (s * b + i)) [0..<n * b])" by simp
  fix i assume i: "i < length (take (n * b) (drop ((s - ns) * b) (map (\<lambda>i. f (ns * b + i)) [0..<m * b])))"
  have "(s - ns) * b \<le> length (map (\<lambda>i. f (ns * b + i)) [0..<m * b])" using le unfolding length_map length_upt by linarith
  note nth = nth_drop [OF this]
  have "ns * b + (s - ns) * b = s * b" using assms(1) by (simp flip: add_mult_distrib)
  then show "take (n * b) (drop ((s - ns) * b) (map (\<lambda>i. f (ns * b + i)) [0..<m * b])) ! i =
      map (\<lambda>i. f (s * b + i)) [0..<n * b] ! i"
    using le i by (simp add: nth add.assoc [symmetric] del: drop_map)
qed

lemma take_drop_take: "k + m \<le> n \<Longrightarrow> take m (drop k (take n xs)) = take m (drop k xs)"
  by (simp add: drop_take)

lemma covers_bytes:
  assumes "node_coherent img node" "node_covers i d s n b node" "blocks_fit s n b"
  shows "take (unat (b * n)) (drop (unat ((s - nd_start node) * b)) (nd_cache node)) = image_bytes (img (i, d)) s n b"
proof -
  let ?ns = "unat (nd_start node)" and ?m = "unat (nd_blkcnt node)"
  have node: "nd_iftype node = i" "nd_devnum node = d" "nd_blksz node = b" "nd_start node \<le> s"
    and le: "s + n \<le> nd_start node + nd_blkcnt node"
    using assms(2) by (auto simp: node_covers_def)
  have fit: "?ns + ?m < 2 ^ 64" "?m * unat b < 2 ^ 64" "unat s + unat n < 2 ^ 64" "unat n * unat b < 2 ^ 64"
    using assms(1,3) node by (auto simp: node_coherent_def blocks_fit_def)
  have ns: "?ns \<le> unat s" using node(4) by (simp add: word_le_nat_alt)
  have sn: "unat s + unat n \<le> ?ns + ?m" using le fit by (simp add: word_le_nat_alt unat_word_ariths)
  have sub: "unat (s - nd_start node) = unat s - ?ns" using node(4) by (simp add: unat_sub_if' word_le_nat_alt)
  have in_node: "(unat s - ?ns) * unat b + unat n * unat b \<le> ?m * unat b"
    using range_in_node [OF ns sn] .
  have off: "unat ((s - nd_start node) * b) = (unat s - ?ns) * unat b"
    using unat_mult_fit [of "s - nd_start node" b] in_node fit(2) unfolding sub by linarith
  have bytes: "unat (b * n) = unat n * unat b"
    using unat_mult_fit [of n b] fit(4) by (simp add: mult.commute)
  have cache: "take (?m * unat b) (nd_cache node) = image_bytes (img (i, d)) (nd_start node) (nd_blkcnt node) b"
    using assms(1) node by (simp add: node_coherent_def)
  show ?thesis
    unfolding off bytes
    using image_bytes_part [OF ns sn, of "unat b" "img (i, d)"] take_drop_take [OF in_node, of "nd_cache node"]
    unfolding cache by (simp add: image_bytes_def)
qed

subsection \<open>The laws of a read cache\<close>

lemma blkcache_read_hit:
  assumes "cache_coherent bc img" "blocks_fit s n b" "blkcache_read bc i d s n b = (bc', Some v)"
  shows "v = image_bytes (img (i, d)) s n b"
proof -
  obtain nodes node where f: "cache_find i d s n b [] (block_cache bc) = (nodes, Some node)"
    and v: "v = take (unat (b * n)) (drop (unat ((s - nd_start node) * b)) (nd_cache node))"
    using assms(3) by (auto simp: blkcache_read_def split: prod.splits option.splits)
  have "node \<in> set (block_cache bc)" "node_covers i d s n b node" using cache_find_Some [OF f] by auto
  then show ?thesis using covers_bytes assms(1,2) v by (auto simp: cache_coherent_def)
qed

lemma blkcache_read_nodes:
  "set (block_cache (fst (blkcache_read bc i d s n b))) = set (block_cache bc)"
  by (auto simp: blkcache_read_def split: prod.splits option.splits dest: cache_find_set)

lemma blkcache_read_coherent: "cache_coherent bc img \<Longrightarrow> cache_coherent (fst (blkcache_read bc i d s n b)) img"
  by (simp add: cache_coherent_def blkcache_read_nodes)

lemma filled_coherent: "blocks_fit s n b \<Longrightarrow>
    node_coherent img \<lparr>nd_iftype = i, nd_devnum = d, nd_start = s, nd_blkcnt = n, nd_blksz = b,
                       nd_cache = take (unat (b * n)) (image_bytes (img (i, d)) s n b) @ keep\<rparr>"
  using unat_mult_fit [of n b] by (simp add: node_coherent_def blocks_fit_def mult.commute)

lemma blkcache_fill_coherent:
  assumes "cache_coherent bc img" "blocks_fit s n b"
  shows "cache_coherent (blkcache_fill node_ok buf_ok bc i d s n b (image_bytes (img (i, d)) s n b)) img"
  using assms filled_coherent [OF assms(2)]
  by (auto simp: blkcache_fill_def cache_coherent_def Let_def dest: in_set_butlastD)

lemma invalidate_loop_nodes: "fst (invalidate_loop i d nodes n) = filter (\<lambda>x. \<not> dropped i d x) nodes"
  by (induction i d nodes n rule: invalidate_loop.induct) (auto split: prod.splits)

lemma blkcache_invalidate_nodes:
  "block_cache (blkcache_invalidate bc i d) = filter (\<lambda>x. \<not> dropped i d x) (block_cache bc)"
  by (simp add: blkcache_invalidate_def split: prod.splits) (metis fst_conv invalidate_loop_nodes)

lemma blkcache_invalidate_coherent:
  "cache_coherent bc img \<Longrightarrow> cache_coherent (blkcache_invalidate bc i d) (img((i, d) := x))"
  by (auto simp: cache_coherent_def blkcache_invalidate_nodes node_coherent_def dropped_def)

interpretation blkc: read_cache cache_coherent request_ok request_view request_lookup request_fill device_drop
proof (unfold_locales, goal_cases)
  case (1 c img r d c' v)
  then show ?case by (cases r; cases d) (auto dest: blkcache_read_hit)
next
  case (2 c img r d c' x)
  then show ?case by (cases r; cases d) (auto dest: blkcache_read_coherent simp: prod_eq_iff)
next
  case (3 c img r d)
  then show ?case by (cases r; cases d) (auto intro: blkcache_fill_coherent)
next
  case (4 c img d i)
  then show ?case by (cases d) (auto intro: blkcache_invalidate_coherent)
qed


subsection \<open>The block layer on top of the cache\<close>

text \<open>
  A sequence of reads and changes of devices through \<open>blk_read\<close> and \<open>blk_write\<close>, with a driver that
  reads what the device holds. The bytes that each read leaves in its buffer are collected.
\<close>

fun blk_run ::
  "blkcache \<Rightarrow> (int \<times> int \<Rightarrow> image) \<Rightarrow> (int \<times> int, request, image \<Rightarrow> image) dev_op list \<Rightarrow>
   (blkcache \<times> (int \<times> int \<Rightarrow> image)) \<times> u8 list list" where
  "blk_run bc img [] = ((bc, img), [])"
| "blk_run bc img (Dread (c, dev) ((node_ok, buf_ok), start, blkcnt, blksz) # ops) =
     (case blk_read node_ok buf_ok 0 (Some (\<lambda>s n. (n, image_bytes (img (c, dev)) s n blksz))) bc
             \<lparr>uclass_id = c, bd_devnum = dev, bd_blksz = blksz\<rparr> start blkcnt of
        (bc', _, bytes) \<Rightarrow> (case blk_run bc' img ops of (s, vs) \<Rightarrow> (s, bytes # vs)))"
| "blk_run bc img (Dwrite (c, dev) f # ops) =
     (case blk_write 0 (Some (\<lambda>i. (f i, 0))) bc \<lparr>uclass_id = c, bd_devnum = dev, bd_blksz = 512\<rparr> (img (c, dev)) of
        ((bc', i), _) \<Rightarrow> blk_run bc' (img((c, dev) := i)) ops)"

lemma blk_run_cached: "blk_run bc img ops =
    run_cached request_lookup request_fill device_drop request_view (\<lambda>i f. f i) bc img ops"
proof (induction bc img ops rule: blk_run.induct)
  case (2 bc img c dev node_ok buf_ok start blkcnt blksz ops)
  then show ?case
    by (auto simp: blk_read_def Let_def split: prod.splits option.splits)
next
  case (3 bc img c dev f ops)
  then show ?case by (simp add: blk_write_def Let_def fun_upd_def split: prod.splits)
qed simp

text \<open>
  The block layer as a block device for its users: the state is the cache and the devices, and the
  driver of device \<open>dev\<close> reads and writes whole blocks of \<open>blksz\<close> bytes.
\<close>

type_synonym disks = "blkcache \<times> (int \<times> int \<Rightarrow> image)"

definition disk_read :: "u64 \<Rightarrow> int \<times> int \<Rightarrow> disks \<Rightarrow> u64 \<Rightarrow> u64 \<Rightarrow> disks \<times> u64 \<times> u8 list" where
  "disk_read blksz dev d s n =
     (case blk_read True True 0 (Some (\<lambda>s n. (n, mem_bytes (snd d dev) (unat s * unat blksz) (unat n * unat blksz))))
             (fst d) \<lparr>uclass_id = fst dev, bd_devnum = snd dev, bd_blksz = blksz\<rparr> s n of
        (bc, ret, bytes) \<Rightarrow> ((bc, snd d), ret, bytes))"

definition disk_write :: "u64 \<Rightarrow> int \<times> int \<Rightarrow> disks \<Rightarrow> u64 \<Rightarrow> u64 \<Rightarrow> u8 list \<Rightarrow> disks \<times> u64" where
  "disk_write blksz dev d s n bs =
     (case blk_write 0 (Some (\<lambda>img. (mem_store img (unat s * unat blksz) bs, n))) (fst d)
             \<lparr>uclass_id = fst dev, bd_devnum = snd dev, bd_blksz = blksz\<rparr> (snd d dev) of
        ((bc, img), ret) \<Rightarrow> ((bc, (snd d)(dev := img)), ret))"

definition disk_ok :: "disks \<Rightarrow> bool" where
  "disk_ok d \<longleftrightarrow> cache_coherent (fst d) (snd d)"

definition disk_content :: "int \<times> int \<Rightarrow> disks \<Rightarrow> mem" where
  "disk_content dev d = snd d dev"

lemma image_bytes_mem: "image_bytes img s n b = mem_bytes img (unat s * unat b) (unat n * unat b)"
  by (rule nth_equalityI) (simp_all add: image_bytes_def)

lemma disk_read_law:
  assumes "disk_ok d" "request_fits blksz s n"
  shows "\<exists>d'. disk_read blksz dev d s n = (d', n, mem_bytes (disk_content dev d) (unat s * unat blksz) (unat n * unat blksz)) \<and>
    disk_ok d' \<and> disk_content dev d' = disk_content dev d"
proof -
  obtain bc img where d: "d = (bc, img)" by fastforce
  have fit: "blocks_fit s n blksz" using assms(2) by (simp add: request_fits_def blocks_fit_def)
  have co: "cache_coherent bc img" using assms(1) d by (simp add: disk_ok_def)
  obtain bc1 x where r: "blkcache_read bc (fst dev) (snd dev) s n blksz = (bc1, x)" by fastforce
  have co1: "cache_coherent bc1 img" using blkcache_read_coherent [OF co, of "fst dev" "snd dev" s n blksz] r by simp
  show ?thesis
  proof (cases x)
    case None
    then show ?thesis
      using blkcache_fill_coherent [OF co1 fit, of True True "fst dev" "snd dev"] r d
      by (simp add: disk_read_def blk_read_def disk_ok_def disk_content_def image_bytes_mem)
  next
    case (Some v)
    then show ?thesis
      using blkcache_read_hit [OF co fit, of "fst dev" "snd dev" bc1 v] co1 r d
      by (simp add: disk_read_def blk_read_def disk_ok_def disk_content_def image_bytes_mem)
  qed
qed

lemma disk_write_law:
  assumes "disk_ok d"
  shows "\<exists>d'. disk_write blksz dev d s n bs = (d', n) \<and> disk_ok d' \<and>
    disk_content dev d' = mem_store (disk_content dev d) (unat s * unat blksz) bs"
  using assms blkcache_invalidate_coherent [of "fst d" "snd d" "fst dev" "snd dev"]
  by (auto simp: disk_write_def blk_write_def disk_ok_def disk_content_def Let_def)

interpretation disk: block_store disk_ok "disk_content dev" blksz "disk_read blksz dev" "disk_write blksz dev" for dev blksz
  by unfold_locales (use disk_read_law disk_write_law in blast)+

subsection \<open>Size and statistics\<close>

definition cache_sized :: "blkcache \<Rightarrow> bool" where
  "cache_sized bc \<longleftrightarrow>
     unat (entries (bc_stats bc)) = length (block_cache bc) \<and> entries (bc_stats bc) \<le> max_entries (bc_stats bc)"

lemma cache_find_length: "cache_find i d s n b before rest = (nodes, x) \<Longrightarrow> length nodes = length before + length rest"
  by (cases x) (auto dest!: cache_find_None cache_find_Some)

lemma invalidate_loop_count:
  "unat n = length nodes + k \<Longrightarrow>
   unat (snd (invalidate_loop i d nodes n)) = length (filter (\<lambda>x. \<not> dropped i d x) nodes) + k"
proof (induction i d nodes n arbitrary: k rule: invalidate_loop.induct)
  case (2 i d node rest n)
  have n: "unat (n - 1) = length rest + k" using 2(3) by (simp add: unat_minus_one) (metis nat.simps(3) unat_0 unat_minus_one diff_Suc_1)
  show ?case
  proof (cases "dropped i d node")
    case True
    then show ?thesis using 2(1) [OF True n] by simp
  next
    case False
    then show ?thesis using 2(2) [OF False, of "Suc k"] 2(3) by (auto split: prod.splits)
  qed
qed simp

lemma cache_sized_read: "cache_sized bc \<Longrightarrow> cache_sized (fst (blkcache_read bc i d s n b))"
  by (auto simp: cache_sized_def blkcache_read_def split: prod.splits option.splits dest!: cache_find_length)

lemma cache_sized_invalidate: "cache_sized bc \<Longrightarrow> cache_sized (blkcache_invalidate bc i d)"
  using invalidate_loop_count [of "entries (bc_stats bc)" "block_cache bc" 0 i d]
    invalidate_loop_nodes [of i d "block_cache bc" "entries (bc_stats bc)"]
  by (auto simp: cache_sized_def blkcache_invalidate_def word_le_nat_alt split: prod.splits
           intro: order.trans [OF length_filter_le])

lemma invalidate_all: "block_cache (blkcache_invalidate bc (- 1) d) = []"
  by (simp add: blkcache_invalidate_nodes dropped_def)


lemma cache_sized_fill:
  assumes "cache_sized bc"
  shows "cache_sized (blkcache_fill node_ok buf_ok bc i d s n b buffer)"
proof -
  let ?st = "bc_stats bc"
  have len: "unat (entries ?st) = length (block_cache bc)" and le: "entries ?st \<le> max_entries ?st"
    using assms by (auto simp: cache_sized_def)
  have one: "unat (entries ?st - 1) = length (block_cache bc) - 1" "block_cache bc \<noteq> []"
    "entries ?st - 1 \<le> max_entries ?st"
    if "max_entries ?st \<le> entries ?st" "max_entries ?st \<noteq> 0"
  proof -
    have "entries ?st \<noteq> 0" using that le by auto
    then show "unat (entries ?st - 1) = length (block_cache bc) - 1" using len by (simp add: unat_minus_one)
    then show "entries ?st - 1 \<le> max_entries ?st" using len le by (simp add: word_le_nat_alt)
    show "block_cache bc \<noteq> []" using len \<open>entries ?st \<noteq> 0\<close> by (auto simp: unat_eq_0)
  qed
  have more: "unat (entries ?st + 1) = Suc (length (block_cache bc))" "entries ?st + 1 \<le> max_entries ?st"
    if "\<not> max_entries ?st \<le> entries ?st"
  proof -
    have lt: "unat (entries ?st) < unat (max_entries ?st)" using that by (simp add: word_le_nat_alt)
    have "unat (max_entries ?st) < 2 ^ 32" by (rule order.strict_trans2 [OF unsigned_less]) simp
    then show "unat (entries ?st + 1) = Suc (length (block_cache bc))" using len lt by (simp add: unat_word_ariths)
    then show "entries ?st + 1 \<le> max_entries ?st" using lt len by (simp add: word_le_nat_alt)
  qed
  show ?thesis
    using assms one more by (auto simp: cache_sized_def blkcache_fill_def Let_def)
qed


lemma cache_sized_initial: "cache_sized blkcache_initial"
  by (simp add: cache_sized_def blkcache_initial_def)

lemma cache_sized_configure: "cache_sized bc \<Longrightarrow> cache_sized (blkcache_configure bc blocks n)"
  using cache_sized_invalidate [of bc "- 1" 0] invalidate_all [of bc 0]
  by (auto simp: blkcache_configure_def cache_sized_def Let_def word_le_nat_alt)

lemma cache_sized_blk_read: "cache_sized bc \<Longrightarrow> cache_sized (fst (blk_read node_ok buf_ok bb rd bc desc s n))"
  using cache_sized_read [of bc "uclass_id desc" "bd_devnum desc" s n "bd_blksz desc"]
  by (auto simp: blk_read_def Let_def cache_sized_fill split: option.splits prod.splits)

section \<open>Properties\<close>

text \<open>
  C5. Reading through the block cache is not observable. Starting from the empty cache, with any
  configuration of the cache, any sequence of reads and of changes of devices through
  \<open>blk_read\<close> and \<open>blk_write\<close> returns in each buffer exactly the bytes that the device holds at that
  moment, whatever \<open>malloc\<close> answers, and leaves the same devices; as long as no request has a last
  block number or a byte count that wraps.
\<close>

theorem blk_cache_transparent:
  assumes "\<forall>op\<in>set ops. reads_ok request_ok op"
  shows "\<exists>bc. blk_run (blkcache_configure blkcache_initial blocks n) img ops =
           ((bc, fst (run_direct request_view (\<lambda>i f. f i) img ops)), snd (run_direct request_view (\<lambda>i f. f i) img ops))"
proof -
  have "cache_coherent (blkcache_configure blkcache_initial blocks n) img"
    by (simp add: cache_coherent_def blkcache_configure_def blkcache_initial_def Let_def blkcache_invalidate_nodes)
  from blkc.run_cached_direct [OF this assms, of "\<lambda>i f. f i"] show ?thesis unfolding blk_run_cached by blast
qed

definition demo_ops :: "(int \<times> int, request, image \<Rightarrow> image) dev_op list" where
  "demo_ops = [Dread (1, 0) ((True, True), 4, 2, 2), Dwrite (1, 0) (\<lambda>i. i(9 := 7)), Dread (1, 0) ((True, True), 4, 1, 2),
               Dread (1, 0) ((True, True), 4, 1, 2)]"

theorem blk_cache_transparent_witness:
  "snd (blk_run (blkcache_configure blkcache_initial 4 2) (\<lambda>_ a. of_nat a) demo_ops) = [[8, 9, 10, 11], [8, 7], [8, 7]]"
proof -
  have "\<forall>op\<in>set demo_ops. reads_ok request_ok op" by (simp add: demo_ops_def blocks_fit_def)
  from blk_cache_transparent [OF this, of 4 2 "\<lambda>_ a. of_nat a"] show ?thesis
    by (force simp: demo_ops_def image_bytes_def upt_rec)
qed

text \<open>
  C38. The cache never holds more than \<open>max_entries\<close> nodes and its counter \<open>entries\<close> is the number of
  nodes: this holds of the initial cache and every operation keeps it, a failing \<open>malloc\<close> and a short
  read included.
\<close>

theorem blkcache_sized_preserved:
  assumes "cache_sized bc"
  shows "cache_sized blkcache_initial
    \<and> cache_sized (fst (blkcache_read bc i d s n b))
    \<and> cache_sized (blkcache_fill node_ok buf_ok bc i d s n b buffer)
    \<and> cache_sized (blkcache_invalidate bc i d)
    \<and> cache_sized (blkcache_configure bc blocks k)
    \<and> cache_sized (fst (blkcache_stats bc))
    \<and> cache_sized (blkcache_free bc)
    \<and> cache_sized (fst (blk_read node_ok buf_ok bb rd bc desc s n))
    \<and> cache_sized (fst (fst (blk_write bb wr bc desc dev)))
    \<and> cache_sized (fst (fst (blk_erase wr bc desc dev)))"
  using assms cache_sized_initial cache_sized_read cache_sized_fill cache_sized_invalidate cache_sized_configure
    cache_sized_blk_read
  by (auto simp: blkcache_free_def blk_write_def blk_erase_def blkcache_stats_def cache_sized_def Let_def
           split: option.splits prod.splits)

theorem blkcache_sized_preserved_witness:
  "cache_sized (blkcache_fill True True blkcache_initial 1 0 4 2 2 [1, 2, 3, 4])"
  by (rule blkcache_sized_preserved [OF cache_sized_initial, THEN conjunct2, THEN conjunct2, THEN conjunct1])

text \<open>
  A range that was just filled is found: when the number of blocks is within the limit, the cache
  is not switched off and \<open>malloc\<close> answers, a read of the same range of the same device is a hit and
  gives the bytes that were filled in, and the count of hits goes up by one.
\<close>

theorem blkcache_fill_read:
  assumes "cache_sized bc" "n \<le> ucast (max_blocks_per_entry (bc_stats bc))" "max_entries (bc_stats bc) \<noteq> 0"
    and "length buffer = unat (b * n)"
  shows "snd (blkcache_read (blkcache_fill True True bc i d s n b buffer) i d s n b) = Some buffer
    \<and> hits (bc_stats (fst (blkcache_read (blkcache_fill True True bc i d s n b buffer) i d s n b))) =
       hits (bc_stats bc) + 1"
  using assms by (simp add: blkcache_fill_def blkcache_read_def node_covers_def Let_def not_less [symmetric])

theorem blkcache_fill_read_witness:
  "snd (blkcache_read (blkcache_fill True True blkcache_initial 1 0 4 2 2 [1, 2, 3, 4]) 1 0 4 2 2) = Some [1, 2, 3, 4]"
  using blkcache_fill_read [of blkcache_initial 2 "[1, 2, 3, 4]" 2 1 0 4] cache_sized_initial
  by (simp add: blkcache_initial_def)

end
