(* ===== verification/Crc.thy ===== *)
theory Crc
  imports Prelude
begin

text \<open>
  The checksums of \<open>lib/crc32.c\<close>, \<open>lib/crc16-ccitt.c\<close>, \<open>lib/crc16.c\<close>, \<open>lib/crc7.c\<close>, \<open>lib/crc8.c\<close> and
  \<open>lib/crc32c.c\<close>, with their tables. A buffer is the list of its bytes; \<open>crc32_no_comp\<close> also takes
  the buffer's address, whose alignment decides how the bytes are grouped. The processor is little
  endian. The lemmas show that every table is the one its polynomial gives, that the table-driven
  routines compute the bit-by-bit shift register, that a checksum can be computed in pieces, and that
  CRC-32 tells apart messages that differ in up to four consecutive bytes.
\<close>

section \<open>Model\<close>

subsection \<open>CRC-32\<close>

text \<open>The table of \<open>CONFIG_DYNAMIC_CRC_TABLE\<close>, computed from the terms of the polynomial.\<close>

definition crc_terms :: "nat list" where
  "crc_terms = [0, 1, 2, 4, 5, 7, 8, 10, 11, 12, 16, 22, 23, 26]"

definition crc_poly :: u32 where
  "crc_poly = fold (\<lambda>n p. p OR push_bit (31 - n) 1) crc_terms 0"

definition make_crc_table :: "u32 list" where
  "make_crc_table =
     map (\<lambda>n. ((\<lambda>c. if c AND 1 \<noteq> 0 then crc_poly XOR drop_bit 1 c else drop_bit 1 c) ^^ 8) (of_nat n)) [0..<256]"

text \<open>The table of the other configurations.\<close>

definition crc_table :: "u32 list" where
  "crc_table = [
     0x00000000, 0x77073096, 0xee0e612c, 0x990951ba, 0x076dc419, 0x706af48f, 0xe963a535, 0x9e6495a3,
     0x0edb8832, 0x79dcb8a4, 0xe0d5e91e, 0x97d2d988, 0x09b64c2b, 0x7eb17cbd, 0xe7b82d07, 0x90bf1d91,
     0x1db71064, 0x6ab020f2, 0xf3b97148, 0x84be41de, 0x1adad47d, 0x6ddde4eb, 0xf4d4b551, 0x83d385c7,
     0x136c9856, 0x646ba8c0, 0xfd62f97a, 0x8a65c9ec, 0x14015c4f, 0x63066cd9, 0xfa0f3d63, 0x8d080df5,
     0x3b6e20c8, 0x4c69105e, 0xd56041e4, 0xa2677172, 0x3c03e4d1, 0x4b04d447, 0xd20d85fd, 0xa50ab56b,
     0x35b5a8fa, 0x42b2986c, 0xdbbbc9d6, 0xacbcf940, 0x32d86ce3, 0x45df5c75, 0xdcd60dcf, 0xabd13d59,
     0x26d930ac, 0x51de003a, 0xc8d75180, 0xbfd06116, 0x21b4f4b5, 0x56b3c423, 0xcfba9599, 0xb8bda50f,
     0x2802b89e, 0x5f058808, 0xc60cd9b2, 0xb10be924, 0x2f6f7c87, 0x58684c11, 0xc1611dab, 0xb6662d3d,
     0x76dc4190, 0x01db7106, 0x98d220bc, 0xefd5102a, 0x71b18589, 0x06b6b51f, 0x9fbfe4a5, 0xe8b8d433,
     0x7807c9a2, 0x0f00f934, 0x9609a88e, 0xe10e9818, 0x7f6a0dbb, 0x086d3d2d, 0x91646c97, 0xe6635c01,
     0x6b6b51f4, 0x1c6c6162, 0x856530d8, 0xf262004e, 0x6c0695ed, 0x1b01a57b, 0x8208f4c1, 0xf50fc457,
     0x65b0d9c6, 0x12b7e950, 0x8bbeb8ea, 0xfcb9887c, 0x62dd1ddf, 0x15da2d49, 0x8cd37cf3, 0xfbd44c65,
     0x4db26158, 0x3ab551ce, 0xa3bc0074, 0xd4bb30e2, 0x4adfa541, 0x3dd895d7, 0xa4d1c46d, 0xd3d6f4fb,
     0x4369e96a, 0x346ed9fc, 0xad678846, 0xda60b8d0, 0x44042d73, 0x33031de5, 0xaa0a4c5f, 0xdd0d7cc9,
     0x5005713c, 0x270241aa, 0xbe0b1010, 0xc90c2086, 0x5768b525, 0x206f85b3, 0xb966d409, 0xce61e49f,
     0x5edef90e, 0x29d9c998, 0xb0d09822, 0xc7d7a8b4, 0x59b33d17, 0x2eb40d81, 0xb7bd5c3b, 0xc0ba6cad,
     0xedb88320, 0x9abfb3b6, 0x03b6e20c, 0x74b1d29a, 0xead54739, 0x9dd277af, 0x04db2615, 0x73dc1683,
     0xe3630b12, 0x94643b84, 0x0d6d6a3e, 0x7a6a5aa8, 0xe40ecf0b, 0x9309ff9d, 0x0a00ae27, 0x7d079eb1,
     0xf00f9344, 0x8708a3d2, 0x1e01f268, 0x6906c2fe, 0xf762575d, 0x806567cb, 0x196c3671, 0x6e6b06e7,
     0xfed41b76, 0x89d32be0, 0x10da7a5a, 0x67dd4acc, 0xf9b9df6f, 0x8ebeeff9, 0x17b7be43, 0x60b08ed5,
     0xd6d6a3e8, 0xa1d1937e, 0x38d8c2c4, 0x4fdff252, 0xd1bb67f1, 0xa6bc5767, 0x3fb506dd, 0x48b2364b,
     0xd80d2bda, 0xaf0a1b4c, 0x36034af6, 0x41047a60, 0xdf60efc3, 0xa867df55, 0x316e8eef, 0x4669be79,
     0xcb61b38c, 0xbc66831a, 0x256fd2a0, 0x5268e236, 0xcc0c7795, 0xbb0b4703, 0x220216b9, 0x5505262f,
     0xc5ba3bbe, 0xb2bd0b28, 0x2bb45a92, 0x5cb36a04, 0xc2d7ffa7, 0xb5d0cf31, 0x2cd99e8b, 0x5bdeae1d,
     0x9b64c2b0, 0xec63f226, 0x756aa39c, 0x026d930a, 0x9c0906a9, 0xeb0e363f, 0x72076785, 0x05005713,
     0x95bf4a82, 0xe2b87a14, 0x7bb12bae, 0x0cb61b38, 0x92d28e9b, 0xe5d5be0d, 0x7cdcefb7, 0x0bdbdf21,
     0x86d3d2d4, 0xf1d4e242, 0x68ddb3f8, 0x1fda836e, 0x81be16cd, 0xf6b9265b, 0x6fb077e1, 0x18b74777,
     0x88085ae6, 0xff0f6a70, 0x66063bca, 0x11010b5c, 0x8f659eff, 0xf862ae69, 0x616bffd3, 0x166ccf45,
     0xa00ae278, 0xd70dd2ee, 0x4e048354, 0x3903b3c2, 0xa7672661, 0xd06016f7, 0x4969474d, 0x3e6e77db,
     0xaed16a4a, 0xd9d65adc, 0x40df0b66, 0x37d83bf0, 0xa9bcae53, 0xdebb9ec5, 0x47b2cf7f, 0x30b5ffe9,
     0xbdbdf21c, 0xcabac28a, 0x53b39330, 0x24b4a3a6, 0xbad03605, 0xcdd70693, 0x54de5729, 0x23d967bf,
     0xb3667a2e, 0xc4614ab8, 0x5d681b02, 0x2a6f2b94, 0xb40bbe37, 0xc30c8ea1, 0x5a05df1b, 0x2d02ef8d]"

definition DO_CRC :: "u32 \<Rightarrow> u32 \<Rightarrow> u32" where
  "DO_CRC crc x = crc_table ! unat ((crc XOR x) AND 255) XOR drop_bit 8 crc"

text \<open>The bytes before the first aligned address; \<open>bytes\<close> are the \<open>len\<close> bytes that are left.\<close>

fun crc_align_loop :: "ptr \<Rightarrow> u32 \<Rightarrow> u8 list \<Rightarrow> u32 \<times> u8 list" where
  "crc_align_loop p crc [] = (crc, [])"
| "crc_align_loop p crc (b # bytes) =
     (let crc' = DO_CRC crc (ucast b)
      in if bytes \<noteq> [] \<and> Suc p mod 4 \<noteq> 0 then crc_align_loop (Suc p) crc' bytes else (crc', bytes))"

definition load_le32 :: "u8 list \<Rightarrow> u32" where
  "load_le32 bytes = foldr (\<lambda>b w. ucast b OR push_bit 8 w) (take 4 bytes) 0"

fun crc_word_loop :: "nat \<Rightarrow> u32 \<Rightarrow> u8 list \<Rightarrow> u32 \<times> u8 list" where
  "crc_word_loop 0 crc bytes = (crc, bytes)"
| "crc_word_loop (Suc len) crc bytes =
     crc_word_loop len (DO_CRC (DO_CRC (DO_CRC (DO_CRC (crc XOR load_le32 bytes) 0) 0) 0) 0) (drop 4 bytes)"

fun crc_tail_loop :: "u32 \<Rightarrow> u8 list \<Rightarrow> u32" where
  "crc_tail_loop crc [] = crc"
| "crc_tail_loop crc (b # bytes) = crc_tail_loop (DO_CRC crc (ucast b)) bytes"

definition crc32_no_comp :: "u32 \<Rightarrow> ptr \<Rightarrow> u8 list \<Rightarrow> u32" where
  "crc32_no_comp crc p bytes =
     (let (crc1, bytes1) = (if p mod 4 \<noteq> 0 \<and> bytes \<noteq> [] then crc_align_loop p crc bytes else (crc, bytes));
          (crc2, bytes2) = crc_word_loop (length bytes1 div 4) crc1 bytes1
      in crc_tail_loop crc2 bytes2)"

definition crc32 :: "u32 \<Rightarrow> ptr \<Rightarrow> u8 list \<Rightarrow> u32" where
  "crc32 crc p bytes = crc32_no_comp (crc XOR 0xffffffff) p bytes XOR 0xffffffff"

text \<open>
  \<open>crc32_wd\<close> in a build with a watchdog. The loop does not end when the chunk size is zero and there
  are bytes, so it is a partial function.
\<close>

partial_function (option) crc32_wd_loop :: "u32 \<Rightarrow> ptr \<Rightarrow> u8 list \<Rightarrow> nat \<Rightarrow> u32 option" where
  "crc32_wd_loop crc pos bytes chunk_sz =
     (if bytes \<noteq> [] then
        let chunk = (if length bytes > chunk_sz then chunk_sz else length bytes)
        in crc32_wd_loop (crc32 crc pos (take chunk bytes)) (pos + chunk) (drop chunk bytes) chunk_sz
      else Some crc)"

definition crc32_wd :: "u32 \<Rightarrow> ptr \<Rightarrow> u8 list \<Rightarrow> nat \<Rightarrow> u32 option" where
  "crc32_wd crc buf bytes chunk_sz = crc32_wd_loop crc buf bytes chunk_sz"

text \<open>The checksum is stored big endian.\<close>

definition crc32_wd_buf :: "ptr \<Rightarrow> u8 list \<Rightarrow> nat \<Rightarrow> u8 list option" where
  "crc32_wd_buf p bytes chunk_sz =
     (case crc32_wd 0 p bytes chunk_sz of
        None \<Rightarrow> None
      | Some crc \<Rightarrow> Some [ucast (drop_bit 24 crc), ucast (drop_bit 16 crc), ucast (drop_bit 8 crc), ucast crc])"

subsection \<open>CRC-16, CRC-7, CRC-8 and CRC-32C\<close>

definition crc16_tab :: "u16 list" where
  "crc16_tab = [
     0x0000, 0x1021, 0x2042, 0x3063, 0x4084, 0x50a5, 0x60c6, 0x70e7,
     0x8108, 0x9129, 0xa14a, 0xb16b, 0xc18c, 0xd1ad, 0xe1ce, 0xf1ef,
     0x1231, 0x0210, 0x3273, 0x2252, 0x52b5, 0x4294, 0x72f7, 0x62d6,
     0x9339, 0x8318, 0xb37b, 0xa35a, 0xd3bd, 0xc39c, 0xf3ff, 0xe3de,
     0x2462, 0x3443, 0x0420, 0x1401, 0x64e6, 0x74c7, 0x44a4, 0x5485,
     0xa56a, 0xb54b, 0x8528, 0x9509, 0xe5ee, 0xf5cf, 0xc5ac, 0xd58d,
     0x3653, 0x2672, 0x1611, 0x0630, 0x76d7, 0x66f6, 0x5695, 0x46b4,
     0xb75b, 0xa77a, 0x9719, 0x8738, 0xf7df, 0xe7fe, 0xd79d, 0xc7bc,
     0x48c4, 0x58e5, 0x6886, 0x78a7, 0x0840, 0x1861, 0x2802, 0x3823,
     0xc9cc, 0xd9ed, 0xe98e, 0xf9af, 0x8948, 0x9969, 0xa90a, 0xb92b,
     0x5af5, 0x4ad4, 0x7ab7, 0x6a96, 0x1a71, 0x0a50, 0x3a33, 0x2a12,
     0xdbfd, 0xcbdc, 0xfbbf, 0xeb9e, 0x9b79, 0x8b58, 0xbb3b, 0xab1a,
     0x6ca6, 0x7c87, 0x4ce4, 0x5cc5, 0x2c22, 0x3c03, 0x0c60, 0x1c41,
     0xedae, 0xfd8f, 0xcdec, 0xddcd, 0xad2a, 0xbd0b, 0x8d68, 0x9d49,
     0x7e97, 0x6eb6, 0x5ed5, 0x4ef4, 0x3e13, 0x2e32, 0x1e51, 0x0e70,
     0xff9f, 0xefbe, 0xdfdd, 0xcffc, 0xbf1b, 0xaf3a, 0x9f59, 0x8f78,
     0x9188, 0x81a9, 0xb1ca, 0xa1eb, 0xd10c, 0xc12d, 0xf14e, 0xe16f,
     0x1080, 0x00a1, 0x30c2, 0x20e3, 0x5004, 0x4025, 0x7046, 0x6067,
     0x83b9, 0x9398, 0xa3fb, 0xb3da, 0xc33d, 0xd31c, 0xe37f, 0xf35e,
     0x02b1, 0x1290, 0x22f3, 0x32d2, 0x4235, 0x5214, 0x6277, 0x7256,
     0xb5ea, 0xa5cb, 0x95a8, 0x8589, 0xf56e, 0xe54f, 0xd52c, 0xc50d,
     0x34e2, 0x24c3, 0x14a0, 0x0481, 0x7466, 0x6447, 0x5424, 0x4405,
     0xa7db, 0xb7fa, 0x8799, 0x97b8, 0xe75f, 0xf77e, 0xc71d, 0xd73c,
     0x26d3, 0x36f2, 0x0691, 0x16b0, 0x6657, 0x7676, 0x4615, 0x5634,
     0xd94c, 0xc96d, 0xf90e, 0xe92f, 0x99c8, 0x89e9, 0xb98a, 0xa9ab,
     0x5844, 0x4865, 0x7806, 0x6827, 0x18c0, 0x08e1, 0x3882, 0x28a3,
     0xcb7d, 0xdb5c, 0xeb3f, 0xfb1e, 0x8bf9, 0x9bd8, 0xabbb, 0xbb9a,
     0x4a75, 0x5a54, 0x6a37, 0x7a16, 0x0af1, 0x1ad0, 0x2ab3, 0x3a92,
     0xfd2e, 0xed0f, 0xdd6c, 0xcd4d, 0xbdaa, 0xad8b, 0x9de8, 0x8dc9,
     0x7c26, 0x6c07, 0x5c64, 0x4c45, 0x3ca2, 0x2c83, 0x1ce0, 0x0cc1,
     0xef1f, 0xff3e, 0xcf5d, 0xdf7c, 0xaf9b, 0xbfba, 0x8fd9, 0x9ff8,
     0x6e17, 0x7e36, 0x4e55, 0x5e74, 0x2e93, 0x3eb2, 0x0ed1, 0x1ef0]"

fun crc16_ccitt :: "u16 \<Rightarrow> u8 list \<Rightarrow> u16" where
  "crc16_ccitt cksum [] = cksum"
| "crc16_ccitt cksum (b # buf) =
     crc16_ccitt (crc16_tab ! unat ((drop_bit 8 cksum XOR ucast b) AND 0xff) XOR push_bit 8 cksum) buf"

definition crc16_ccitt_wd_buf :: "u8 list \<Rightarrow> u8 list" where
  "crc16_ccitt_wd_buf inp = (let crc = crc16_ccitt 0 inp in [ucast (drop_bit 8 crc), ucast crc])"

definition crc16_table :: "u16 list" where
  "crc16_table = [
     0x0000, 0xC0C1, 0xC181, 0x0140, 0xC301, 0x03C0, 0x0280, 0xC241,
     0xC601, 0x06C0, 0x0780, 0xC741, 0x0500, 0xC5C1, 0xC481, 0x0440,
     0xCC01, 0x0CC0, 0x0D80, 0xCD41, 0x0F00, 0xCFC1, 0xCE81, 0x0E40,
     0x0A00, 0xCAC1, 0xCB81, 0x0B40, 0xC901, 0x09C0, 0x0880, 0xC841,
     0xD801, 0x18C0, 0x1980, 0xD941, 0x1B00, 0xDBC1, 0xDA81, 0x1A40,
     0x1E00, 0xDEC1, 0xDF81, 0x1F40, 0xDD01, 0x1DC0, 0x1C80, 0xDC41,
     0x1400, 0xD4C1, 0xD581, 0x1540, 0xD701, 0x17C0, 0x1680, 0xD641,
     0xD201, 0x12C0, 0x1380, 0xD341, 0x1100, 0xD1C1, 0xD081, 0x1040,
     0xF001, 0x30C0, 0x3180, 0xF141, 0x3300, 0xF3C1, 0xF281, 0x3240,
     0x3600, 0xF6C1, 0xF781, 0x3740, 0xF501, 0x35C0, 0x3480, 0xF441,
     0x3C00, 0xFCC1, 0xFD81, 0x3D40, 0xFF01, 0x3FC0, 0x3E80, 0xFE41,
     0xFA01, 0x3AC0, 0x3B80, 0xFB41, 0x3900, 0xF9C1, 0xF881, 0x3840,
     0x2800, 0xE8C1, 0xE981, 0x2940, 0xEB01, 0x2BC0, 0x2A80, 0xEA41,
     0xEE01, 0x2EC0, 0x2F80, 0xEF41, 0x2D00, 0xEDC1, 0xEC81, 0x2C40,
     0xE401, 0x24C0, 0x2580, 0xE541, 0x2700, 0xE7C1, 0xE681, 0x2640,
     0x2200, 0xE2C1, 0xE381, 0x2340, 0xE101, 0x21C0, 0x2080, 0xE041,
     0xA001, 0x60C0, 0x6180, 0xA141, 0x6300, 0xA3C1, 0xA281, 0x6240,
     0x6600, 0xA6C1, 0xA781, 0x6740, 0xA501, 0x65C0, 0x6480, 0xA441,
     0x6C00, 0xACC1, 0xAD81, 0x6D40, 0xAF01, 0x6FC0, 0x6E80, 0xAE41,
     0xAA01, 0x6AC0, 0x6B80, 0xAB41, 0x6900, 0xA9C1, 0xA881, 0x6840,
     0x7800, 0xB8C1, 0xB981, 0x7940, 0xBB01, 0x7BC0, 0x7A80, 0xBA41,
     0xBE01, 0x7EC0, 0x7F80, 0xBF41, 0x7D00, 0xBDC1, 0xBC81, 0x7C40,
     0xB401, 0x74C0, 0x7580, 0xB541, 0x7700, 0xB7C1, 0xB681, 0x7640,
     0x7200, 0xB2C1, 0xB381, 0x7340, 0xB101, 0x71C0, 0x7080, 0xB041,
     0x5000, 0x90C1, 0x9181, 0x5140, 0x9301, 0x53C0, 0x5280, 0x9241,
     0x9601, 0x56C0, 0x5780, 0x9741, 0x5500, 0x95C1, 0x9481, 0x5440,
     0x9C01, 0x5CC0, 0x5D80, 0x9D41, 0x5F00, 0x9FC1, 0x9E81, 0x5E40,
     0x5A00, 0x9AC1, 0x9B81, 0x5B40, 0x9901, 0x59C0, 0x5880, 0x9841,
     0x8801, 0x48C0, 0x4980, 0x8941, 0x4B00, 0x8BC1, 0x8A81, 0x4A40,
     0x4E00, 0x8EC1, 0x8F81, 0x4F40, 0x8D01, 0x4DC0, 0x4C80, 0x8C41,
     0x4400, 0x84C1, 0x8581, 0x4540, 0x8701, 0x47C0, 0x4680, 0x8641,
     0x8201, 0x42C0, 0x4380, 0x8341, 0x4100, 0x81C1, 0x8081, 0x4040]"

definition crc16_byte :: "u16 \<Rightarrow> u8 \<Rightarrow> u16" where
  "crc16_byte crc data = drop_bit 8 crc XOR crc16_table ! unat ((crc XOR ucast data) AND 0xff)"

fun crc16 :: "u16 \<Rightarrow> u8 list \<Rightarrow> u16" where
  "crc16 crc [] = crc"
| "crc16 crc (b # buffer) = crc16 (crc16_byte crc b) buffer"

definition crc7_syndrome_table :: "u8 list" where
  "crc7_syndrome_table = [
     0x00, 0x09, 0x12, 0x1b, 0x24, 0x2d, 0x36, 0x3f,
     0x48, 0x41, 0x5a, 0x53, 0x6c, 0x65, 0x7e, 0x77,
     0x19, 0x10, 0x0b, 0x02, 0x3d, 0x34, 0x2f, 0x26,
     0x51, 0x58, 0x43, 0x4a, 0x75, 0x7c, 0x67, 0x6e,
     0x32, 0x3b, 0x20, 0x29, 0x16, 0x1f, 0x04, 0x0d,
     0x7a, 0x73, 0x68, 0x61, 0x5e, 0x57, 0x4c, 0x45,
     0x2b, 0x22, 0x39, 0x30, 0x0f, 0x06, 0x1d, 0x14,
     0x63, 0x6a, 0x71, 0x78, 0x47, 0x4e, 0x55, 0x5c,
     0x64, 0x6d, 0x76, 0x7f, 0x40, 0x49, 0x52, 0x5b,
     0x2c, 0x25, 0x3e, 0x37, 0x08, 0x01, 0x1a, 0x13,
     0x7d, 0x74, 0x6f, 0x66, 0x59, 0x50, 0x4b, 0x42,
     0x35, 0x3c, 0x27, 0x2e, 0x11, 0x18, 0x03, 0x0a,
     0x56, 0x5f, 0x44, 0x4d, 0x72, 0x7b, 0x60, 0x69,
     0x1e, 0x17, 0x0c, 0x05, 0x3a, 0x33, 0x28, 0x21,
     0x4f, 0x46, 0x5d, 0x54, 0x6b, 0x62, 0x79, 0x70,
     0x07, 0x0e, 0x15, 0x1c, 0x23, 0x2a, 0x31, 0x38,
     0x41, 0x48, 0x53, 0x5a, 0x65, 0x6c, 0x77, 0x7e,
     0x09, 0x00, 0x1b, 0x12, 0x2d, 0x24, 0x3f, 0x36,
     0x58, 0x51, 0x4a, 0x43, 0x7c, 0x75, 0x6e, 0x67,
     0x10, 0x19, 0x02, 0x0b, 0x34, 0x3d, 0x26, 0x2f,
     0x73, 0x7a, 0x61, 0x68, 0x57, 0x5e, 0x45, 0x4c,
     0x3b, 0x32, 0x29, 0x20, 0x1f, 0x16, 0x0d, 0x04,
     0x6a, 0x63, 0x78, 0x71, 0x4e, 0x47, 0x5c, 0x55,
     0x22, 0x2b, 0x30, 0x39, 0x06, 0x0f, 0x14, 0x1d,
     0x25, 0x2c, 0x37, 0x3e, 0x01, 0x08, 0x13, 0x1a,
     0x6d, 0x64, 0x7f, 0x76, 0x49, 0x40, 0x5b, 0x52,
     0x3c, 0x35, 0x2e, 0x27, 0x18, 0x11, 0x0a, 0x03,
     0x74, 0x7d, 0x66, 0x6f, 0x50, 0x59, 0x42, 0x4b,
     0x17, 0x1e, 0x05, 0x0c, 0x33, 0x3a, 0x21, 0x28,
     0x5f, 0x56, 0x4d, 0x44, 0x7b, 0x72, 0x69, 0x60,
     0x0e, 0x07, 0x1c, 0x15, 0x2a, 0x23, 0x38, 0x31,
     0x46, 0x4f, 0x54, 0x5d, 0x62, 0x6b, 0x70, 0x79]"

text \<open>The index is an \<open>int\<close>: with a \<open>crc\<close> of 128 or more it is outside the table, which is \<open>None\<close>.\<close>

definition crc7_byte :: "u8 \<Rightarrow> u8 \<Rightarrow> u8 option" where
  "crc7_byte crc data =
     (let i = unat (push_bit 1 (ucast crc :: u32) XOR ucast data)
      in if i < 256 then Some (crc7_syndrome_table ! i) else None)"

fun crc7 :: "u8 \<Rightarrow> u8 list \<Rightarrow> u8 option" where
  "crc7 crc [] = Some crc"
| "crc7 crc (b # buffer) = (case crc7_byte crc b of None \<Rightarrow> None | Some crc' \<Rightarrow> crc7 crc' buffer)"

definition crc8_poly :: u16 where "crc8_poly = push_bit 3 0x1070"

definition crc8_step :: "u16 \<Rightarrow> u16" where
  "crc8_step data = push_bit 1 (if data AND 0x8000 \<noteq> 0 then data XOR crc8_poly else data)"

definition crc8_data :: "u16 \<Rightarrow> u8" where
  "crc8_data data = ucast (drop_bit 8 ((crc8_step ^^ 8) data))"

text \<open>The shifted value is converted to \<open>unsigned short\<close> in the call.\<close>

fun crc8 :: "u32 \<Rightarrow> u8 list \<Rightarrow> u32" where
  "crc8 crc [] = crc"
| "crc8 crc (b # vptr) = crc8 (ucast (crc8_data (ucast (push_bit 8 (crc XOR ucast b))))) vptr"

definition crc32c_init :: "u32 \<Rightarrow> u32 list" where
  "crc32c_init pol = map (\<lambda>i. ((\<lambda>v. drop_bit 1 v XOR (if v AND 1 \<noteq> 0 then pol else 0)) ^^ 8) (of_nat i)) [0..<256]"

fun crc32c_cal :: "u32 \<Rightarrow> u8 list \<Rightarrow> u32 list \<Rightarrow> u32" where
  "crc32c_cal crc [] table = crc"
| "crc32c_cal crc (b # data) table = crc32c_cal (table ! unat (ucast (crc XOR ucast b) :: u8) XOR drop_bit 8 crc) data table"


section \<open>Shift registers\<close>

text \<open>
  One step of a shift register that shifts right (reflected) or left, the register after a byte, and
  the register after a message: the definition of these checksums, bit by bit.
\<close>

definition refl_bit :: "'a::len word \<Rightarrow> 'a word \<Rightarrow> 'a word" where
  "refl_bit poly c = (if bit c 0 then poly XOR drop_bit 1 c else drop_bit 1 c)"

definition refl_byte :: "'a::len word \<Rightarrow> 'a word \<Rightarrow> u8 \<Rightarrow> 'a word" where
  "refl_byte poly c b = (refl_bit poly ^^ 8) (c XOR ucast b)"

definition left_bit :: "'a::len word \<Rightarrow> 'a word \<Rightarrow> 'a word" where
  "left_bit poly c = (if bit c (LENGTH('a) - 1) then poly XOR push_bit 1 c else push_bit 1 c)"

definition left_byte :: "'a::len word \<Rightarrow> 'a word \<Rightarrow> u8 \<Rightarrow> 'a word" where
  "left_byte poly c b = (left_bit poly ^^ 8) (c XOR push_bit (LENGTH('a) - 8) (ucast b))"

definition xor_linear :: "('a::len word \<Rightarrow> 'a word) \<Rightarrow> bool" where
  "xor_linear f \<longleftrightarrow> (\<forall>a b. f (a XOR b) = f a XOR f b)"

lemma xor_linear_0: "xor_linear f \<Longrightarrow> f 0 = 0"
  unfolding xor_linear_def by (metis xor_self_eq)

lemma xor_linear_funpow: "xor_linear f \<Longrightarrow> xor_linear (f ^^ n)"
  by (induction n) (simp_all add: xor_linear_def)

lemma refl_bit_linear: "xor_linear (refl_bit poly)"
  unfolding xor_linear_def
  by (auto simp: refl_bit_def bit_simps intro!: bit_word_eqI)

lemma left_bit_linear: "xor_linear (left_bit poly)"
  unfolding xor_linear_def
  by (auto simp: left_bit_def bit_simps intro!: bit_word_eqI)

subsection \<open>Tables by doubling\<close>

text \<open>The table of a linear function is built from its values at the powers of two.\<close>

definition doubled :: "'a::len word list \<Rightarrow> 'a word list" where
  "doubled xs = fold (\<lambda>x t. t @ map (\<lambda>y. x XOR y) t) xs [0]"

lemma pow_and_less: "n < 2 ^ k \<Longrightarrow> (2::'a::len word) ^ k AND of_nat n = 0"
  by (rule bit_word_eqI) (auto simp: bit_simps, metis bit_take_bit_iff less_irrefl take_bit_nat_eq_self)

lemma pow_xor: "n < 2 ^ k \<Longrightarrow> (2::'a::len word) ^ k XOR of_nat n = of_nat (2 ^ k + n)"
proof -
  assume "n < 2 ^ k"
  then have "(2::'a word) ^ k + of_nat n = 2 ^ k XOR of_nat n" by (intro disjunctive_add_eq_xor pow_and_less)
  then show ?thesis by simp
qed

lemma upt_pow_Suc: "[0..<2 ^ Suc k] = [0..<2 ^ k] @ map (\<lambda>n. 2 ^ k + n) [0..<2 ^ k]"
proof -
  have "[0..<2 ^ k + 2 ^ k] = [0..<2 ^ k] @ [2 ^ k..<2 ^ k + 2 ^ k]" by (rule upt_add_eq_append) simp
  moreover have "map (\<lambda>n. n + 2 ^ k) [0..<2 ^ k] = [2 ^ k..<2 ^ k + 2 ^ k]" by (rule map_add_upt)
  ultimately show ?thesis by (simp add: mult_2 add.commute)
qed

lemma doubled_table: "xor_linear f \<Longrightarrow> map (\<lambda>n. f (of_nat n)) [0..<2 ^ k] = doubled (map (\<lambda>i. f (2 ^ i)) [0..<k])"
proof (induction k)
  case 0
  then show ?case by (simp add: xor_linear_0 doubled_def)
next
  case (Suc k)
  have "f (of_nat (2 ^ k + n)) = f (2 ^ k) XOR f (of_nat n)" if "n < 2 ^ k" for n
    using Suc.prems by (simp add: pow_xor [OF that, symmetric] xor_linear_def del: of_nat_add)
  then have "map (\<lambda>n. f (of_nat n)) [0..<2 ^ Suc k] =
      map (\<lambda>n. f (of_nat n)) [0..<2 ^ k] @ map (\<lambda>n. f (2 ^ k) XOR f (of_nat n)) [0..<2 ^ k]"
    unfolding upt_pow_Suc by (simp add: comp_def del: of_nat_add)
  moreover have "map (\<lambda>n. f (2 ^ k) XOR f (of_nat n)) [0..<2 ^ k] =
      map (\<lambda>y. f (2 ^ k) XOR y) (map (\<lambda>n. f (of_nat n)) [0..<2 ^ k])" by simp
  ultimately show ?case unfolding Suc.IH [OF Suc.prems] by (simp add: doubled_def)
qed


subsection \<open>The tables\<close>

lemma funpow_8: "f ^^ 8 = (\<lambda>x. f (f (f (f (f (f (f (f x))))))))"
  by (simp add: numeral_eq_Suc comp_def)

lemma refl_bit_numeral:
  "refl_bit poly 1 = poly"
  "refl_bit poly (numeral (num.Bit0 n)) = drop_bit 1 (numeral (num.Bit0 n))"
  "refl_bit poly (numeral (num.Bit1 n)) = poly XOR drop_bit 1 (numeral (num.Bit1 n))"
  by (simp_all add: refl_bit_def)

lemma table_doubled:
  assumes "xor_linear f" "map (\<lambda>i. f (2 ^ i)) [0..<8] = basis" "doubled basis = table"
  shows "map (\<lambda>n. f (of_nat n)) [0..<256] = table"
  using doubled_table [OF assms(1), of 8] assms(2,3) by simp

lemma crc_table_refl: "map (\<lambda>n. (refl_bit 0xedb88320 ^^ 8) (of_nat n)) [0..<256] = crc_table"
proof (rule table_doubled [OF xor_linear_funpow [OF refl_bit_linear]])
  show "map (\<lambda>i. (refl_bit (0xedb88320::u32) ^^ 8) (2 ^ i)) [0..<8] =
      [0x77073096, 0xee0e612c, 0x076dc419, 0x0edb8832, 0x1db71064, 0x3b6e20c8, 0x76dc4190, 0xedb88320]"
    unfolding funpow_8 by (simp add: refl_bit_numeral upt_rec)
  show "doubled [0x77073096, 0xee0e612c, 0x076dc419, 0x0edb8832, 0x1db71064, 0x3b6e20c8, 0x76dc4190, 0xedb88320] =
      crc_table"
    unfolding crc_table_def doubled_def by simp
qed

lemma crc16_table_refl: "map (\<lambda>n. (refl_bit 0xA001 ^^ 8) (of_nat n)) [0..<256] = crc16_table"
proof (rule table_doubled [OF xor_linear_funpow [OF refl_bit_linear]])
  show "map (\<lambda>i. (refl_bit (0xA001::u16) ^^ 8) (2 ^ i)) [0..<8] =
      [0xC0C1, 0xC181, 0xC301, 0xC601, 0xCC01, 0xD801, 0xF001, 0xA001]"
    unfolding funpow_8 by (simp add: refl_bit_numeral upt_rec)
  show "doubled [0xC0C1, 0xC181, 0xC301, 0xC601, 0xCC01, 0xD801, 0xF001, 0xA001] = crc16_table"
    unfolding crc16_table_def doubled_def by simp
qed

lemma xor_linear_push: "xor_linear f \<Longrightarrow> xor_linear (\<lambda>x. f (push_bit k x))"
  by (simp add: xor_linear_def push_bit_xor)

lemma xor_linear_drop: "xor_linear f \<Longrightarrow> xor_linear (\<lambda>x. drop_bit k (f x))"
  by (simp add: xor_linear_def drop_bit_xor)

lemma crc16_tab_left: "map (\<lambda>n. (left_bit 0x1021 ^^ 8) (push_bit 8 (of_nat n))) [0..<256] = crc16_tab"
proof (rule table_doubled [OF xor_linear_push [OF xor_linear_funpow [OF left_bit_linear]]])
  show "map (\<lambda>i. (left_bit (0x1021::u16) ^^ 8) (push_bit 8 (2 ^ i))) [0..<8] =
      [0x1021, 0x2042, 0x4084, 0x8108, 0x1231, 0x2462, 0x48c4, 0x9188]"
    unfolding funpow_8 by (simp add: left_bit_def upt_rec)
  show "doubled [0x1021, 0x2042, 0x4084, 0x8108, 0x1231, 0x2462, 0x48c4, 0x9188] = crc16_tab"
    unfolding crc16_tab_def doubled_def by simp
qed

lemma crc7_table_left: "map (\<lambda>n. drop_bit 1 ((left_bit 0x12 ^^ 8) (of_nat n))) [0..<256] = crc7_syndrome_table"
proof (rule table_doubled [OF xor_linear_drop [OF xor_linear_funpow [OF left_bit_linear]]])
  show "map (\<lambda>i. drop_bit 1 ((left_bit (0x12::u8) ^^ 8) (2 ^ i))) [0..<8] =
      [0x09, 0x12, 0x24, 0x48, 0x19, 0x32, 0x64, 0x41]"
    unfolding funpow_8 by (simp add: left_bit_def upt_rec)
  show "doubled [0x09, 0x12, 0x24, 0x48, 0x19, 0x32, 0x64, 0x41] = crc7_syndrome_table"
    unfolding crc7_syndrome_table_def doubled_def by simp
qed

lemma and_1_bit: "(c AND 1 \<noteq> 0) = bit (c::'a::len word) 0"
  by (simp add: and_one_eq bit_0 odd_iff_mod_2_eq_one)

lemma and_255: "x AND 255 = take_bit 8 (x::'a::len word)"
proof -
  have "mask 8 = (255::'a word)" by (simp add: mask_eq_exp_minus_1)
  then show ?thesis by (simp add: take_bit_eq_mask)
qed

lemma make_crc_table_refl: "make_crc_table = crc_table"
proof -
  have "crc_poly = 0xedb88320" by (simp add: crc_poly_def crc_terms_def)
  then show ?thesis
    unfolding make_crc_table_def crc_table_refl [symmetric]
    by (simp add: refl_bit_def [abs_def] and_1_bit)
qed

subsection \<open>A byte at a time\<close>

lemma refl_low_zero: "(\<And>i. i < n \<Longrightarrow> \<not> bit c i) \<Longrightarrow> (refl_bit poly ^^ n) c = drop_bit n c"
proof (induction n arbitrary: c)
  case (Suc n)
  then have "refl_bit poly c = drop_bit 1 c" by (simp add: refl_bit_def)
  moreover have "(refl_bit poly ^^ n) (drop_bit 1 c) = drop_bit n (drop_bit 1 c)"
    by (rule Suc.IH) (simp add: Suc.prems bit_simps)
  ultimately show ?case unfolding funpow_Suc_right by simp
qed simp

lemma refl_8: "(refl_bit poly ^^ 8) x = (refl_bit poly ^^ 8) (x AND 255) XOR drop_bit 8 x"
proof -
  let ?R = "refl_bit poly ^^ 8"
  have x: "(x AND 255) XOR push_bit 8 (drop_bit 8 x) = x"
    unfolding and_255 by (rule bit_word_eqI) (auto simp: bit_simps)
  have "?R (push_bit 8 (drop_bit 8 x)) = drop_bit 8 (push_bit 8 (drop_bit 8 x))"
    by (rule refl_low_zero) (simp add: bit_simps)
  also have "\<dots> = drop_bit 8 x" by (rule bit_word_eqI) (auto simp: bit_simps dest: bit_imp_le_length)
  finally show ?thesis
    using xor_linear_funpow [OF refl_bit_linear, of 8 poly] x unfolding xor_linear_def by metis
qed

lemma left_high_zero: "(\<And>i. i < n \<Longrightarrow> \<not> bit (c::'a::len word) (LENGTH('a) - 1 - i)) \<Longrightarrow> n \<le> LENGTH('a) \<Longrightarrow>
    (left_bit poly ^^ n) c = push_bit n c"
proof (induction n arbitrary: c)
  case (Suc n)
  then have "left_bit poly c = push_bit 1 c" by (force simp: left_bit_def)
  moreover have "(left_bit poly ^^ n) (push_bit 1 c) = push_bit n (push_bit 1 c)"
  proof (rule Suc.IH)
    fix i assume "i < n"
    then show "\<not> bit (push_bit 1 c) (LENGTH('a) - 1 - i)"
      using Suc.prems(1) [of "Suc i"] by (auto simp del: push_bit_Suc simp: bit_push_bit_iff)
  qed (use Suc.prems in simp)
  ultimately show ?case unfolding funpow_Suc_right by (simp add: push_bit_push_bit)
qed simp

lemma left_8:
  assumes "8 \<le> LENGTH('a)"
  shows "(left_bit poly ^^ 8) (x::'a::len word) =
    (left_bit poly ^^ 8) (push_bit (LENGTH('a) - 8) (drop_bit (LENGTH('a) - 8) x)) XOR push_bit 8 x"
proof -
  let ?L = "left_bit poly ^^ 8" and ?k = "LENGTH('a) - 8"
  have x: "push_bit ?k (drop_bit ?k x) XOR take_bit ?k x = x"
    by (rule bit_word_eqI) (auto simp: bit_simps)
  have "?L (take_bit ?k x) = push_bit 8 (take_bit ?k x)"
    by (rule left_high_zero) (use assms in \<open>auto simp: bit_simps\<close>)
  also have "\<dots> = push_bit 8 x" by (rule bit_word_eqI) (auto simp: bit_simps)
  finally show ?thesis
    using xor_linear_funpow [OF left_bit_linear, of 8 poly] x unfolding xor_linear_def by metis
qed

lemma nth_table: "map (\<lambda>n. f (of_nat n)) [0..<256] = table \<Longrightarrow> table ! unat ((x::'a::len word) AND 255) = f (x AND 255)"
proof -
  assume t: "map (\<lambda>n. f (of_nat n)) [0..<256] = table"
  have "unat (x AND 255) < 256" unfolding and_255 unsigned_take_bit_eq using take_bit_nat_less_exp [of 8 "unat x"] by simp
  then show ?thesis unfolding t [symmetric] by simp
qed

lemma drop_8_byte: "drop_bit 8 (ucast (b::u8)) = (0::'a::len word)"
  by (rule bit_word_eqI) (auto simp: bit_simps dest: bit_imp_le_length)

lemma DO_CRC_refl: "DO_CRC crc (ucast b) = refl_byte 0xedb88320 crc b"
  unfolding DO_CRC_def refl_byte_def nth_table [OF crc_table_refl]
  by (subst (2) refl_8) (simp add: drop_8_byte)

lemma crc16_byte_refl: "crc16_byte crc b = refl_byte 0xA001 crc b"
  unfolding crc16_byte_def refl_byte_def nth_table [OF crc16_table_refl]
  by (subst (2) refl_8) (simp add: drop_8_byte xor.commute)

lemma crc16_refl: "crc16 crc bytes = fold (\<lambda>b c. refl_byte 0xA001 c b) bytes crc"
  by (induction crc bytes rule: crc16.induct) (simp_all add: crc16_byte_refl)


lemma crc32c_init_refl: "crc32c_init pol = map (\<lambda>n. (refl_bit pol ^^ 8) (of_nat n)) [0..<256]"
proof -
  have "(\<lambda>v. drop_bit 1 v XOR (if v AND 1 \<noteq> 0 then pol else 0)) = refl_bit pol"
    by (rule ext) (simp add: refl_bit_def and_1_bit xor.commute)
  then show ?thesis by (simp add: crc32c_init_def)
qed

lemma crc32c_cal_refl: "crc32c_cal crc bytes (crc32c_init pol) = fold (\<lambda>b c. refl_byte pol c b) bytes crc"
proof (induction bytes arbitrary: crc)
  case (Cons b bytes)
  have "unat (ucast (crc XOR ucast b) :: u8) = unat ((crc XOR ucast b) AND 255)"
    unfolding and_255 unsigned_take_bit_eq by (simp add: unsigned_ucast_eq)
  then have "crc32c_init pol ! unat (ucast (crc XOR ucast b) :: u8) XOR drop_bit 8 crc = refl_byte pol crc b"
    unfolding refl_byte_def by (subst refl_8) (simp add: nth_table [OF crc32c_init_refl [symmetric]] drop_8_byte)
  then show ?case using Cons by simp
qed simp

lemma crc16_ccitt_left: "crc16_ccitt crc bytes = fold (\<lambda>b c. left_byte 0x1021 c b) bytes crc"
proof (induction crc bytes rule: crc16_ccitt.induct)
  case (2 crc b bytes)
  let ?x = "crc XOR push_bit 8 (ucast b) :: u16"
  have i: "drop_bit 8 crc XOR ucast b = drop_bit 8 ?x"
    by (rule bit_word_eqI) (auto simp: bit_simps dest: bit_imp_le_length)
  have p: "push_bit 8 ?x = push_bit 8 crc"
    by (rule bit_word_eqI) (auto simp: bit_simps dest: bit_imp_le_length)
  have d: "drop_bit 8 ?x AND 255 = drop_bit 8 ?x"
    unfolding and_255 by (rule bit_word_eqI) (auto simp: bit_simps dest: bit_imp_le_length)
  have "crc16_tab ! unat ((drop_bit 8 crc XOR ucast b) AND 0xff) XOR push_bit 8 crc = left_byte 0x1021 crc b"
    using left_8 [of "0x1021" ?x] nth_table [OF crc16_tab_left, of "drop_bit 8 ?x"]
    unfolding i d left_byte_def by (simp add: p del: push_bit_xor drop_bit_xor)
  then show ?case using 2 by simp
qed simp

lemma less_128_bit:
  assumes "(c::u8) < 128" "bit c n"
  shows "n < 7"
proof -
  have "\<not> bit (unat c) 7" using assms(1) by (simp add: bit_iff_odd word_less_nat_alt)
  then show ?thesis using assms(2) bit_imp_le_length [of c n] by (cases "n = 7") (auto simp: bit_unsigned_iff)
qed

lemma drop_1_less: "drop_bit 1 (c::u8) < 128"
proof -
  have lt: "unat c < 256" by (rule order.strict_trans2 [OF unsigned_less]) simp
  then have "unat (drop_bit 1 c) = unat c div 2"
    unfolding unsigned_drop_bit_eq by (simp add: drop_bit_eq_div take_bit_nat_eq_self)
  with lt show ?thesis by (simp add: word_less_nat_alt)
qed

lemma crc7_byte_left:
  assumes "crc < 128"
  shows "crc7_byte crc b = Some (drop_bit 1 (left_byte 0x12 (push_bit 1 crc) b))"
proof -
  have "push_bit 1 (ucast crc :: u32) XOR ucast b = ucast (push_bit 1 crc XOR b)"
    by (rule bit_word_eqI) (auto simp: bit_xor_iff bit_ucast_iff bit_push_bit_iff simp del: push_bit_Suc dest: less_128_bit [OF assms])
  moreover have lt: "unat (push_bit 1 crc XOR b) < 256" by (rule order.strict_trans2 [OF unsigned_less]) simp
  ultimately have i: "unat (push_bit 1 (ucast crc :: u32) XOR ucast b) = unat (push_bit 1 crc XOR b)"
    using take_bit_nat_eq_self [of "unat (push_bit 1 crc XOR b)" 32] by (simp add: unsigned_ucast_eq)
  from lt show ?thesis
    unfolding crc7_byte_def Let_def i left_byte_def
    by (simp add: crc7_table_left [symmetric])
qed


lemma left_bit_even: "\<not> bit (left_bit 0x12 (c::u8)) 0"
  by (simp add: left_bit_def bit_xor_iff bit_push_bit_iff del: push_bit_Suc)

lemma left_byte_even: "push_bit 1 (drop_bit 1 (left_byte 0x12 (c::u8) b)) = left_byte 0x12 c b"
proof -
  have "\<not> bit (left_byte 0x12 c b) 0" unfolding left_byte_def funpow_8 by (rule left_bit_even)
  then have "bit (left_byte 0x12 c b) n \<Longrightarrow> 0 < n" for n by (cases n) auto
  then show ?thesis
    by (intro bit_word_eqI)
       (auto simp: bit_drop_bit_eq bit_push_bit_iff Suc_le_eq simp del: push_bit_Suc drop_bit_Suc)
qed

lemma crc7_left:
  "crc < 128 \<Longrightarrow> crc7 crc bytes = Some (drop_bit 1 (fold (\<lambda>b c. left_byte 0x12 c b) bytes (push_bit 1 crc)))"
proof (induction bytes arbitrary: crc)
  case Nil
  then have "drop_bit 1 (push_bit 1 crc) = crc"
    by (intro bit_word_eqI) (auto simp: bit_drop_bit_eq bit_push_bit_iff simp del: push_bit_Suc drop_bit_Suc dest: less_128_bit)
  then show ?case by simp
next
  case (Cons b bytes)
  show ?case using Cons.IH [OF drop_1_less] Cons.prems by (simp only: crc7.simps crc7_byte_left option.case left_byte_even fold_simps)
qed

lemma crc8_step_left: "crc8_step (push_bit 8 (ucast c)) = push_bit 8 (ucast (left_bit 7 (c::u8)))"
proof -
  have "(push_bit 8 (ucast c) AND (0x8000::u16) \<noteq> 0) = bit c 7"
    using and_exp_eq_0_iff_not_bit [of "push_bit 8 (ucast c) :: u16" 15] by (simp add: bit_simps)
  moreover have "push_bit 1 (push_bit 8 (ucast c :: u16)) = push_bit 8 (ucast (push_bit 1 c))"
    by (rule bit_word_eqI) (auto simp: bit_push_bit_iff bit_ucast_iff simp del: push_bit_Suc dest: bit_imp_le_length)
  moreover have "push_bit 1 crc8_poly = push_bit 8 (ucast (7::u8))" by (simp add: crc8_poly_def)
  moreover have "ucast (7 XOR push_bit 1 c) = (ucast (7::u8) XOR ucast (push_bit 1 c) :: u16)"
    by (rule unsigned_xor_eq)
  ultimately show ?thesis
    unfolding crc8_step_def left_bit_def by (simp only: push_bit_xor xor.commute split: if_split) simp
qed

lemma crc8_data_left: "crc8_data (push_bit 8 (ucast c)) = (left_bit 7 ^^ 8) c"
proof -
  have "(crc8_step ^^ n) (push_bit 8 (ucast c)) = push_bit 8 (ucast ((left_bit 7 ^^ n) c))" for n
    by (induction n) (simp_all add: crc8_step_left)
  then have "crc8_data (push_bit 8 (ucast c)) = ucast (drop_bit 8 (push_bit 8 (ucast ((left_bit 7 ^^ 8) c) :: u16)))"
    by (simp add: crc8_data_def)
  also have "\<dots> = (left_bit 7 ^^ 8) c" by (rule bit_word_eqI) (auto simp: bit_simps)
  finally show ?thesis .
qed

lemma crc8_left: "crc8 (ucast crc) bytes = ucast (fold (\<lambda>b c. left_byte 7 c b) bytes (crc::u8))"
proof (induction bytes arbitrary: crc)
  case (Cons b bytes)
  have "ucast (push_bit 8 (ucast crc XOR ucast b :: u32)) = (push_bit 8 (ucast (crc XOR b)) :: u16)"
    by (rule bit_word_eqI) (auto simp: bit_simps)
  then show ?case using Cons [of "left_byte 7 crc b"] by (simp add: crc8_data_left left_byte_def)
qed simp

subsection \<open>CRC-32 of a message\<close>

abbreviation crc32_reg :: "u32 \<Rightarrow> u8 list \<Rightarrow> u32" where
  "crc32_reg crc bytes \<equiv> fold (\<lambda>b c. refl_byte 0xedb88320 c b) bytes crc"

lemma crc_align_loop_reg:
  "crc_align_loop p crc bytes = (crc', rest) \<Longrightarrow> crc32_reg crc' rest = crc32_reg crc bytes"
  by (induction p crc bytes rule: crc_align_loop.induct) (auto simp: Let_def DO_CRC_refl split: if_splits)

lemma crc_tail_loop_reg: "crc_tail_loop crc bytes = crc32_reg crc bytes"
  by (induction crc bytes rule: crc_tail_loop.induct) (simp_all add: DO_CRC_refl)

lemma DO_CRC_0: "DO_CRC crc 0 = (refl_bit 0xedb88320 ^^ 8) crc"
  using DO_CRC_refl [of crc 0] by (simp add: refl_byte_def)

lemma refl_8_push:
  assumes "take_bit 24 y = (y::u32)"
  shows "(refl_bit poly ^^ 8) (x XOR push_bit 8 y) = (refl_bit poly ^^ 8) x XOR y"
proof -
  have "(refl_bit poly ^^ 8) (push_bit 8 y) = drop_bit 8 (push_bit 8 y)"
    by (rule refl_low_zero) (simp add: bit_simps)
  also have "\<dots> = take_bit 24 y" by (rule bit_word_eqI) (auto simp: bit_simps)
  finally show ?thesis
    using xor_linear_funpow [OF refl_bit_linear, of 8 poly] assms by (simp add: xor_linear_def)
qed

lemma load_le32_xor:
  "load_le32 (a # b # c # d # rest) = ucast a XOR push_bit 8 (ucast b XOR push_bit 8 (ucast c XOR push_bit 8 (ucast d)))"
  unfolding load_le32_def by (rule bit_word_eqI) (auto simp: bit_simps dest: bit_imp_le_length)

lemma word_step_reg:
  "DO_CRC (DO_CRC (DO_CRC (DO_CRC (crc XOR load_le32 (a # b # c # d # rest)) 0) 0) 0) 0 = crc32_reg crc [a, b, c, d]"
proof -
  let ?R = "refl_bit (0xedb88320::u32) ^^ 8"
  let ?y2 = "ucast c XOR push_bit 8 (ucast d) :: u32" and ?y1 = "ucast b XOR push_bit 8 (ucast c XOR push_bit 8 (ucast d)) :: u32"
  have fit: "take_bit 24 ?y1 = ?y1" "take_bit 24 ?y2 = ?y2" "take_bit 24 (ucast d) = (ucast d :: u32)"
    by (rule bit_word_eqI; auto simp: bit_simps dest: bit_imp_le_length)+
  have "?R (crc XOR load_le32 (a # b # c # d # rest)) = ?R (crc XOR ucast a) XOR ?y1"
    unfolding load_le32_xor using refl_8_push [OF fit(1), of _ "crc XOR ucast a"] by (simp add: xor.assoc)
  moreover have "?R (z XOR ?y1) = ?R (z XOR ucast b) XOR ?y2" for z
    using refl_8_push [OF fit(2), of _ "z XOR ucast b"] by (simp add: xor.assoc)
  moreover have "?R (z XOR ?y2) = ?R (z XOR ucast c) XOR ucast d" for z
    using refl_8_push [OF fit(3), of _ "z XOR ucast c"] by (simp add: xor.assoc)
  ultimately show ?thesis unfolding DO_CRC_0 by (simp add: refl_byte_def)
qed

lemma crc_word_loop_reg:
  "4 * n \<le> length bytes \<Longrightarrow> crc_word_loop n crc bytes = (crc32_reg crc (take (4 * n) bytes), drop (4 * n) bytes)"
proof (induction n arbitrary: crc bytes)
  case (Suc n)
  then have "4 \<le> length bytes" by simp
  then obtain a b c d rest where "bytes = a # b # c # d # rest" by (auto simp: Suc_le_length_iff numeral_eq_Suc)
  then show ?case using Suc.prems Suc.IH [of rest "crc32_reg crc [a, b, c, d]"]
    by (simp add: word_step_reg take_Cons' drop_Cons')
qed simp

lemma crc32_reg_split: "crc32_reg (crc32_reg crc (take n bytes)) (drop n bytes) = crc32_reg crc bytes"
  using fold_append [of "\<lambda>b c. refl_byte (0xedb88320::u32) c b" "take n bytes" "drop n bytes"] by (simp add: fun_eq_iff)

lemma crc32_no_comp_reg: "crc32_no_comp crc p bytes = crc32_reg crc bytes"
proof -
  obtain crc1 bytes1 where a: "(if p mod 4 \<noteq> 0 \<and> bytes \<noteq> [] then crc_align_loop p crc bytes else (crc, bytes)) = (crc1, bytes1)"
    by fastforce
  then have r: "crc32_reg crc1 bytes1 = crc32_reg crc bytes"
    using crc_align_loop_reg by (auto split: if_splits)
  have "4 * (length bytes1 div 4) \<le> length bytes1" by simp
  from crc_word_loop_reg [OF this] show ?thesis
    unfolding crc32_no_comp_def a Let_def crc_tail_loop_reg r [symmetric]
    by (simp add: crc32_reg_split)
qed


lemma crc32_reg_form: "crc32 crc p bytes = NOT (crc32_reg (NOT crc) bytes)"
proof -
  have "(0xffffffff::u32) = - 1" by simp
  then have "x XOR 0xffffffff = NOT x" for x :: u32 by (simp only:) (rule bit_word_eqI, simp add: bit_simps)
  then show ?thesis by (simp add: crc32_def crc32_no_comp_reg)
qed

lemma crc32_append: "crc32 crc p (xs @ ys) = crc32 (crc32 crc p xs) q ys"
  by (simp add: crc32_reg_form)

lemma crc32_wd_loop_crc32:
  "0 < chunk_sz \<Longrightarrow> crc32_wd_loop crc p bytes chunk_sz = Some (crc32 crc p bytes)"
proof (induction "length bytes" arbitrary: crc p bytes rule: less_induct)
  case less
  show ?case
  proof (cases "bytes = []")
    case True
    then show ?thesis by (simp add: crc32_wd_loop.simps crc32_reg_form)
  next
    case False
    let ?n = "if length bytes > chunk_sz then chunk_sz else length bytes"
    have "crc32_wd_loop crc p bytes chunk_sz =
        crc32_wd_loop (crc32 crc p (take ?n bytes)) (p + ?n) (drop ?n bytes) chunk_sz"
      using False by (subst crc32_wd_loop.simps) (simp add: Let_def)
    also have "\<dots> = Some (crc32 (crc32 crc p (take ?n bytes)) (p + ?n) (drop ?n bytes))"
      using less.prems False by (intro less.hyps) auto
    also have "\<dots> = Some (crc32 crc p bytes)"
      using crc32_append [of crc p "take ?n bytes" "drop ?n bytes" "p + ?n"] by simp
    finally show ?thesis .
  qed
qed

lemma crc32_wd_hangs:
  assumes "bytes \<noteq> []"
  shows "crc32_wd crc p bytes 0 = None"
proof -
  have "\<not> (bs \<noteq> [] \<and> n = 0)" if "crc32_wd_loop c q bs n = Some y" for c q bs n y
  proof (rule crc32_wd_loop.raw_induct [OF _ that], goal_cases)
    case (1 loop c q bs n y)
    show ?case
    proof
      assume "bs \<noteq> [] \<and> n = 0"
      then show False using 1(1) [of c "q" bs 0 y] 1 by (auto simp: Let_def crc32_reg_form)
    qed
  qed
  then show ?thesis using assms unfolding crc32_wd_def by (metis not_Some_eq)
qed

subsection \<open>Error detection\<close>

lemma xor_cancel: "a XOR c = b XOR c \<Longrightarrow> a = (b::'a::len word)"
proof -
  assume "a XOR c = b XOR c"
  then have "(a XOR c) XOR c = (b XOR c) XOR c" by (rule arg_cong)
  then show "a = b" unfolding xor.assoc by simp
qed

lemma xor_cancel_left: "c XOR a = c XOR b \<Longrightarrow> a = (b::'a::len word)"
  by (rule xor_cancel [of _ c]) (simp add: xor.commute)

lemma refl_bit_inj:
  assumes "bit poly (LENGTH('a) - 1)"
  shows "inj (refl_bit (poly::'a::len word))"
proof (rule injI)
  fix a b assume eq: "refl_bit poly a = refl_bit poly b"
  have top: "bit (refl_bit poly c) (LENGTH('a) - 1) = bit c 0" for c
    using assms by (auto simp: refl_bit_def bit_simps dest: bit_imp_le_length)
  have b0: "bit a 0 = bit b 0" using top [of a] top [of b] eq by simp
  then have d: "drop_bit 1 a = drop_bit 1 b"
    using eq by (cases "bit b 0") (simp_all add: refl_bit_def xor_cancel_left)
  have "bit a n = bit b n" for n
  proof (cases n)
    case (Suc k)
    then show ?thesis using arg_cong [OF d, of "\<lambda>x. bit x k"] by (simp only: bit_drop_bit_eq comp_def) simp
  qed (use b0 in simp)
  then show "a = b" by (intro bit_word_eqI)
qed

lemma refl_byte_inj: "refl_byte 0xedb88320 c b = refl_byte 0xedb88320 d b \<Longrightarrow> c = (d::u32)"
proof -
  assume "refl_byte 0xedb88320 c b = refl_byte 0xedb88320 d b"
  moreover have "inj (refl_bit (0xedb88320::u32) ^^ 8)" by (rule inj_fn, rule refl_bit_inj) simp
  ultimately have "c XOR ucast b = d XOR ucast b" unfolding refl_byte_def by (rule injD [rotated])
  then show "c = d" by (rule xor_cancel)
qed

lemma crc32_reg_inj: "crc32_reg c bytes = crc32_reg d bytes \<Longrightarrow> c = d"
  by (induction bytes arbitrary: c d) (auto dest: refl_byte_inj)


lemma byte_beyond: "8 \<le> n \<Longrightarrow> \<not> bit (b::u8) n"
  using bit_imp_le_length [of b n] by auto

lemma load_le32_inj:
  assumes "length xs = 4" "length ys = 4" "load_le32 xs = load_le32 ys"
  shows "xs = ys"
proof -
  have byte: "xs ! k = ucast (drop_bit (8 * k) (load_le32 xs))" if l: "length xs = 4" and k: "k < 4" for xs k
  proof -
    obtain a b c d where xs: "xs = [a, b, c, d]" using l by (auto simp: numeral_eq_Suc length_Suc_conv)
    have "k \<in> {0, 1, 2, 3}" using k by auto
    then show ?thesis unfolding xs load_le32_xor
      by (auto intro!: bit_word_eqI simp: bit_simps byte_beyond nth_Cons')
  qed
  show ?thesis using assms byte [OF assms(1)] byte [OF assms(2)] by (intro nth_equalityI) auto
qed

lemma crc32_reg_word_inj:
  assumes "length xs = 4" "length ys = 4" "crc32_reg c xs = crc32_reg c ys"
  shows "xs = ys"
proof (rule load_le32_inj [OF assms(1,2)])
  have step: "crc32_reg c zs = (refl_bit 0xedb88320 ^^ 8) ((refl_bit 0xedb88320 ^^ 8) ((refl_bit 0xedb88320 ^^ 8)
      ((refl_bit 0xedb88320 ^^ 8) (c XOR load_le32 zs))))" if l: "length zs = 4" for zs
  proof -
    obtain a b c' d where "zs = [a, b, c', d]" using l by (auto simp: numeral_eq_Suc length_Suc_conv)
    then show ?thesis using word_step_reg [of c a b c' d "[]"] unfolding DO_CRC_0 by simp
  qed
  have "inj (refl_bit (0xedb88320::u32) ^^ 8)" by (rule inj_fn, rule refl_bit_inj) simp
  then have "c XOR load_le32 xs = c XOR load_le32 ys"
    using assms(3) unfolding step [OF assms(1)] step [OF assms(2)] by (simp add: inj_eq)
  then show "load_le32 xs = load_le32 ys" by (rule xor_cancel_left)
qed

lemma crc32_reg_burst:
  assumes "length a = length b" "length a \<le> 4" "crc32_reg c (xs @ a @ ys) = crc32_reg c (xs @ b @ ys)"
  shows "a = b"
proof -
  let ?z = "replicate (4 - length a) 0 :: u8 list"
  have "crc32_reg (crc32_reg c xs) a = crc32_reg (crc32_reg c xs) b"
    using assms(3) crc32_reg_inj [of ys] by simp
  then have "crc32_reg (crc32_reg c xs) (a @ ?z) = crc32_reg (crc32_reg c xs) (b @ ?z)" by simp
  then have "a @ ?z = b @ ?z" using assms(1,2) by (intro crc32_reg_word_inj) auto
  then show ?thesis by simp
qed

section \<open>Properties\<close>

text \<open>
  C16. CRC-32 is the reflected shift register of the polynomial 0xEDB88320: whatever the alignment of
  the buffer, the bytes before the first aligned address, the loop over words and the bytes at the
  end together compute what the register gives bit by bit, started at the complement of \<open>crc\<close> and
  complemented at the end. The static table is the one that \<open>make_crc_table\<close> computes.
\<close>

theorem crc32_bitwise:
  "make_crc_table = crc_table \<and>
   crc32 crc p bytes = NOT (fold (\<lambda>b c. (refl_bit 0xedb88320 ^^ 8) (c XOR ucast b)) bytes (NOT crc))"
  using make_crc_table_refl crc32_reg_form by (simp add: refl_byte_def)

text \<open>
  C17. CRC-32 detects every change of up to four consecutive bytes, hence every burst of up to 25
  bits: two messages that differ only there have different checksums.
\<close>

theorem crc32_detects_burst:
  assumes "length a = length b" "length a \<le> 4" "a \<noteq> b"
  shows "crc32 crc p (xs @ a @ ys) \<noteq> crc32 crc q (xs @ b @ ys)"
proof
  assume "crc32 crc p (xs @ a @ ys) = crc32 crc q (xs @ b @ ys)"
  then have "crc32_reg (NOT crc) (xs @ a @ ys) = crc32_reg (NOT crc) (xs @ b @ ys)"
    unfolding crc32_reg_form by (metis bit.double_compl)
  then show False using crc32_reg_burst [OF assms(1,2)] assms(3) by blast
qed

theorem crc32_detects_burst_witness:
  "crc32 0 0 ([1] @ [2, 3] @ [4]) \<noteq> crc32 0 0 ([1] @ [2, 5] @ [4])"
  by (rule crc32_detects_burst) simp_all

text \<open>
  The checksum may be computed in chunks: for every chunk size but zero, \<open>crc32_wd\<close> returns and
  gives the checksum of the whole buffer. With a chunk size of zero it does not return.
\<close>

theorem crc32_wd_chunks:
  assumes "bytes \<noteq> []"
  shows "crc32_wd crc p bytes chunk_sz = (if chunk_sz = 0 then None else Some (crc32 crc p bytes))"
  using crc32_wd_hangs [OF assms] crc32_wd_loop_crc32 by (simp add: crc32_wd_def)

theorem crc32_wd_chunks_witness: "crc32_wd 0 0 [1, 2, 3] 2 = Some (crc32 0 0 [1, 2, 3])"
  using crc32_wd_chunks [of "[1, 2, 3]" 0 0 2] by simp

text \<open>
  The other checksums are the shift registers of their polynomials too: CRC-16 reflected with
  0xA001, CRC-16-CCITT with 0x1021, CRC-8 with 7, CRC-7 with 9 (kept shifted left by one in eight bits)
  for a start value of seven bits, and CRC-32C with the polynomial its table was made for.
\<close>

theorem crc_family_bitwise:
  assumes "crc7_start < 128"
  shows "crc16 crc bytes = fold (\<lambda>b c. refl_byte 0xA001 c b) bytes crc
    \<and> crc16_ccitt crc bytes = fold (\<lambda>b c. left_byte 0x1021 c b) bytes crc
    \<and> crc8 (ucast (crc8_start::u8)) bytes = ucast (fold (\<lambda>b c. left_byte 7 c b) bytes crc8_start)
    \<and> crc7 crc7_start bytes = Some (drop_bit 1 (fold (\<lambda>b c. left_byte (push_bit 1 9) c b) bytes (push_bit 1 crc7_start)))
    \<and> crc32c_cal crc32_start bytes (crc32c_init pol) = fold (\<lambda>b c. refl_byte pol c b) bytes crc32_start"
  using crc16_refl crc16_ccitt_left crc8_left crc7_left [OF assms] crc32c_cal_refl by simp

theorem crc_family_bitwise_witness: "crc7 0 [1] = Some 9"
proof -
  have "(0::u8) < 128" by simp
  from crc_family_bitwise [OF this, THEN conjunct2, THEN conjunct2, THEN conjunct2, THEN conjunct1]
  have "crc7 0 [1] = Some (drop_bit 1 (fold (\<lambda>b c. left_byte (push_bit 1 9) c b) [1] (push_bit 1 0)))" .
  also have "fold (\<lambda>b c. left_byte (push_bit 1 9) c b) [1] (push_bit 1 0) = (0x12::u8)" by (simp add: left_byte_def funpow_8 left_bit_def)
  finally show ?thesis by simp
qed

end
