(* ===== verification/AndroidAb.thy ===== *)
theory AndroidAb
  imports Blkcache Crc
begin

text \<open>
  The choice of the boot slot of \<open>boot/android_ab.c\<close>. The control block is the record
  \<open>bootloader_control\<close>, whose bit fields are words of their width, and \<open>abc_bytes\<close> and \<open>abc_of_bytes\<close>
  are its layout in memory on a little-endian processor, where bit fields are allocated from the
  lowest bit. The block device is given by its read and write functions on a state; the lemmas use
  the locale \<open>block_store\<close>, interpreted on the cached block layer of \<open>Blkcache\<close>. A buffer of whole blocks
  is a list of bytes that begins with the control block. Block sizes are not zero.

  The lemmas show that the slot chosen is the best bootable one, that the choice is stored and read
  back, and that a device on which no boot succeeds runs out of attempts.
\<close>

section \<open>Model\<close>

record slot_metadata =
  priority :: "4 word"
  tries_remaining :: "3 word"
  successful_boot :: "1 word"
  verity_corrupted :: "1 word"
  sm_reserved :: "7 word"

text \<open>\<open>abc_spare\<close> are the two bits of the second byte after \<open>magic\<close> that no field uses.\<close>

record bootloader_control =
  slot_suffix :: "u8 list"
  magic :: u32
  version :: u8
  nb_slot :: "3 word"
  recovery_tries_remaining :: "3 word"
  abc_spare :: "2 word"
  reserved0 :: "u8 list"
  slot_info :: "slot_metadata list"
  reserved1 :: "u8 list"
  crc32_le :: u32

definition BOOT_CTRL_MAGIC :: u32 where "BOOT_CTRL_MAGIC = 0x42414342"
definition BOOT_CTRL_VERSION :: u8 where "BOOT_CTRL_VERSION = 1"
definition NUM_SLOTS :: "3 word" where "NUM_SLOTS = 2"
definition BOOT_SLOT_NAME :: "nat \<Rightarrow> u8" where "BOOT_SLOT_NAME slot_num = 97 + of_nat slot_num"

definition le32_bytes :: "u32 \<Rightarrow> u8 list" where
  "le32_bytes w = [ucast w, ucast (drop_bit 8 w), ucast (drop_bit 16 w), ucast (drop_bit 24 w)]"

definition slot_bytes :: "slot_metadata \<Rightarrow> u8 list" where
  "slot_bytes s =
     [ucast (priority s) OR push_bit 4 (ucast (tries_remaining s)) OR push_bit 7 (ucast (successful_boot s)),
      ucast (verity_corrupted s) OR push_bit 1 (ucast (sm_reserved s))]"

definition slot_of_bytes :: "u8 list \<Rightarrow> slot_metadata" where
  "slot_of_bytes bs =
     \<lparr>priority = ucast (bs ! 0), tries_remaining = ucast (drop_bit 4 (bs ! 0)), successful_boot = ucast (drop_bit 7 (bs ! 0)),
      verity_corrupted = ucast (bs ! 1), sm_reserved = ucast (drop_bit 1 (bs ! 1))\<rparr>"

text \<open>The 28 bytes before the checksum, and the whole block of 32 bytes.\<close>

definition abc_head :: "bootloader_control \<Rightarrow> u8 list" where
  "abc_head abc =
     slot_suffix abc @ le32_bytes (magic abc) @
     [version abc,
      ucast (nb_slot abc) OR push_bit 3 (ucast (recovery_tries_remaining abc)) OR push_bit 6 (ucast (abc_spare abc))] @
     reserved0 abc @ concat (map slot_bytes (slot_info abc)) @ reserved1 abc"

definition abc_bytes :: "bootloader_control \<Rightarrow> u8 list" where
  "abc_bytes abc = abc_head abc @ le32_bytes (crc32_le abc)"

definition abc_of_bytes :: "u8 list \<Rightarrow> bootloader_control" where
  "abc_of_bytes bs =
     \<lparr>slot_suffix = take 4 bs, magic = load_le32 (drop 4 bs), version = bs ! 8, nb_slot = ucast (bs ! 9),
      recovery_tries_remaining = ucast (drop_bit 3 (bs ! 9)), abc_spare = ucast (drop_bit 6 (bs ! 9)),
      reserved0 = take 2 (drop 10 bs), slot_info = map (\<lambda>i. slot_of_bytes (drop (12 + 2 * i) bs)) [0..<4],
      reserved1 = take 8 (drop 20 bs), crc32_le = load_le32 (drop 28 bs)\<rparr>"

definition ab_control_compute_crc :: "bootloader_control \<Rightarrow> u32" where
  "ab_control_compute_crc abc = crc32 0 0 (abc_head abc)"

definition slot_default :: slot_metadata where
  "slot_default = \<lparr>priority = 15, tries_remaining = 7, successful_boot = 0, verity_corrupted = 0, sm_reserved = 0\<rparr>"

text \<open>\<open>ab_control_default\<close> of a block that is not \<open>NULL\<close>; only the first two slots are set.\<close>

definition ab_control_default :: "bootloader_control \<Rightarrow> bootloader_control" where
  "ab_control_default abc =
     (let abc1 = abc\<lparr>slot_suffix := [97, 0, 0, 0], magic := BOOT_CTRL_MAGIC, version := BOOT_CTRL_VERSION,
                     nb_slot := NUM_SLOTS, reserved0 := [0, 0],
                     slot_info := replicate (unat NUM_SLOTS) slot_default @ drop (unat NUM_SLOTS) (slot_info abc),
                     reserved1 := replicate 8 0\<rparr>
      in abc1\<lparr>crc32_le := ab_control_compute_crc abc1\<rparr>)"

subsection \<open>Reading and writing the control block\<close>

record disk_partition =
  dp_start :: u64
  dp_size :: u64
  dp_blksz :: u64

definition IS_ERR_VALUE :: "u64 \<Rightarrow> bool" where
  "IS_ERR_VALUE x \<longleftrightarrow> x \<ge> - 4095"

text \<open>The size of the control block in blocks; \<open>slot_suffix\<close> is at 2048 in \<open>bootloader_message_ab\<close>.\<close>

definition abc_blocks :: "disk_partition \<Rightarrow> u64" where
  "abc_blocks part_info = (32 + dp_blksz part_info - 1) div dp_blksz part_info"

definition ab_control_create_from_disk ::
  "('d \<Rightarrow> u64 \<Rightarrow> u64 \<Rightarrow> 'd \<times> u64 \<times> u8 list) \<Rightarrow> bool \<Rightarrow> 'd \<Rightarrow> disk_partition \<Rightarrow> u64 \<Rightarrow> 'd \<times> (int + u8 list)" where
  "ab_control_create_from_disk dread malloc_ok dev part_info offset =
     (let abc_offset = offset + 2048
      in if abc_offset mod dp_blksz part_info \<noteq> 0 then (dev, Inl (- EINVAL))
         else
           let abc_offset = abc_offset div dp_blksz part_info
           in if abc_offset + abc_blocks part_info > dp_size part_info then (dev, Inl (- EINVAL))
              else if \<not> malloc_ok then (dev, Inl (- ENOMEM))
              else case dread dev (dp_start part_info + abc_offset) (abc_blocks part_info) of (dev', ret, buf) \<Rightarrow>
                if IS_ERR_VALUE ret then (dev', Inl (- EIO)) else (dev', Inr buf))"

definition ab_control_store ::
  "('d \<Rightarrow> u64 \<Rightarrow> u64 \<Rightarrow> u8 list \<Rightarrow> 'd \<times> u64) \<Rightarrow> 'd \<Rightarrow> disk_partition \<Rightarrow> u8 list \<Rightarrow> u64 \<Rightarrow> 'd \<times> int" where
  "ab_control_store dwrite dev part_info abc offset =
     (let abc_offset = offset + 2048 div dp_blksz part_info
      in case dwrite dev (dp_start part_info + abc_offset) (abc_blocks part_info) abc of (dev', ret) \<Rightarrow>
        if IS_ERR_VALUE ret then (dev', - EIO) else (dev', 0))"

subsection \<open>Choosing\<close>

definition ab_compare_slots :: "slot_metadata \<Rightarrow> slot_metadata \<Rightarrow> int" where
  "ab_compare_slots a b =
     (if priority a \<noteq> priority b then uint (priority b) - uint (priority a)
      else if successful_boot a \<noteq> successful_boot b then uint (successful_boot b) - uint (successful_boot a)
      else if tries_remaining a \<noteq> tries_remaining b then uint (tries_remaining b) - uint (tries_remaining a)
      else 0)"

definition slot_unbootable :: "slot_metadata \<Rightarrow> bool" where
  "slot_unbootable s \<longleftrightarrow> verity_corrupted s \<noteq> 0 \<or> tries_remaining s = 0"

text \<open>The loop over the slots; \<open>slot\<close> is the best one so far, \<open>None\<close> for \<open>-1\<close>.\<close>

fun choose_loop :: "slot_metadata list \<Rightarrow> nat \<Rightarrow> nat \<Rightarrow> nat option \<Rightarrow> nat option" where
  "choose_loop slots i 0 slot = slot"
| "choose_loop slots i (Suc n) slot =
     (if slot_unbootable (slots ! i) then choose_loop slots (Suc i) n slot
      else if slot = None \<or> ab_compare_slots (slots ! i) (slots ! the slot) < 0 then choose_loop slots (Suc i) n (Some i)
      else choose_loop slots (Suc i) n slot)"

text \<open>
  The part of \<open>ab_select_slot\<close> between the checks of the control block and storing it: the new block,
  the slot and \<open>store_needed\<close>.
\<close>

definition ab_choose :: "bool \<Rightarrow> bool \<Rightarrow> bootloader_control \<Rightarrow> bootloader_control \<times> nat option \<times> bool" where
  "ab_choose dec_tries store_needed abc =
     (let too_many = unat (nb_slot abc) > 4;
          abc1 = (if too_many then abc\<lparr>nb_slot := 4\<rparr> else abc);
          slot = choose_loop (slot_info abc1) 0 (unat (nb_slot abc1)) None
      in case slot of
           None \<Rightarrow> (abc1, None, store_needed \<or> too_many)
         | Some i \<Rightarrow>
             let s = slot_info abc1 ! i;
                 dec = (successful_boot s = 0 \<and> dec_tries);
                 abc2 = (if dec then abc1\<lparr>slot_info := (slot_info abc1)[i := s\<lparr>tries_remaining := tries_remaining s - 1\<rparr>]\<rparr>
                         else abc1);
                 suffix = [BOOT_SLOT_NAME i, 0, 0, 0];
                 other = (slot_suffix abc2 \<noteq> suffix)
             in (if other then abc2\<lparr>slot_suffix := suffix\<rparr> else abc2, Some i, store_needed \<or> too_many \<or> dec \<or> other))"

text \<open>The check of the checksum: the block to use and \<open>store_needed\<close>. \<open>backup\<close> is \<open>backup_abc\<close>, if there is one.\<close>

definition ab_recover :: "bootloader_control \<Rightarrow> bootloader_control option \<Rightarrow> bootloader_control \<times> bool" where
  "ab_recover abc backup =
     (if crc32_le abc \<noteq> ab_control_compute_crc abc then
        case backup of
          Some b \<Rightarrow> if crc32_le b \<noteq> ab_control_compute_crc b then (ab_control_default abc, True) else (b, True)
        | None \<Rightarrow> (ab_control_default abc, True)
      else (abc, False))"

definition ab_select_slot ::
  "('d \<Rightarrow> u64 \<Rightarrow> u64 \<Rightarrow> 'd \<times> u64 \<times> u8 list) \<Rightarrow> ('d \<Rightarrow> u64 \<Rightarrow> u64 \<Rightarrow> u8 list \<Rightarrow> 'd \<times> u64) \<Rightarrow> bool \<Rightarrow> bool \<Rightarrow> u64 \<Rightarrow>
   'd \<Rightarrow> disk_partition \<Rightarrow> bool \<Rightarrow> 'd \<times> int" where
  "ab_select_slot dread dwrite malloc1 malloc2 backup_offset dev part_info dec_tries =
     (case ab_control_create_from_disk dread malloc1 dev part_info 0 of
        (dev1, Inl ret) \<Rightarrow> (dev1, ret)
      | (dev1, Inr buf) \<Rightarrow>
          (case (if backup_offset \<noteq> 0
                 then case ab_control_create_from_disk dread malloc2 dev1 part_info backup_offset of
                        (dev2, Inl ret) \<Rightarrow> (dev2, Inl ret) | (dev2, Inr b) \<Rightarrow> (dev2, Inr (Some (abc_of_bytes b)))
                 else (dev1, Inr None)) of
             (dev2, Inl ret) \<Rightarrow> (dev2, ret)
           | (dev2, Inr backup) \<Rightarrow>
               (case ab_recover (abc_of_bytes buf) backup of (abc, store_needed) \<Rightarrow>
                  if magic abc \<noteq> BOOT_CTRL_MAGIC then (dev2, - 61)
                  else if version abc > BOOT_CTRL_VERSION then (dev2, - 61)
                  else
                    (case ab_choose dec_tries store_needed abc of (abc1, slot, store) \<Rightarrow>
                       let abc2 = (if store then abc1\<lparr>crc32_le := ab_control_compute_crc abc1\<rparr> else abc1);
                           out = abc_bytes abc2 @ drop 32 buf;
                           (dev3, ret) = (if store then ab_control_store dwrite dev2 part_info out 0 else (dev2, 0))
                       in if ret < 0 then (dev3, ret)
                          else
                            let (dev4, ret4) = (case backup of
                                  Some b \<Rightarrow> if abc_bytes b \<noteq> abc_bytes abc2
                                             then ab_control_store dwrite dev3 part_info out backup_offset else (dev3, 0)
                                | None \<Rightarrow> (dev3, 0))
                            in if ret4 < 0 then (dev4, ret4)
                               else case slot of None \<Rightarrow> (dev4, - EINVAL) | Some i \<Rightarrow> (dev4, int i)))))"


section \<open>The layout\<close>

definition abc_wf :: "bootloader_control \<Rightarrow> bool" where
  "abc_wf abc \<longleftrightarrow> length (slot_suffix abc) = 4 \<and> length (reserved0 abc) = 2 \<and> length (slot_info abc) = 4 \<and>
     length (reserved1 abc) = 8"

lemma length_le32_bytes [simp]: "length (le32_bytes w) = 4"
  by (simp add: le32_bytes_def)

lemma length_slot_bytes [simp]: "length (slot_bytes s) = 2"
  by (simp add: slot_bytes_def)

lemma load_le32_bytes: "load_le32 (le32_bytes w @ rest) = w"
  unfolding le32_bytes_def append_Cons append_Nil load_le32_xor
  by (rule bit_word_eqI) (auto simp: bit_simps)

lemma le32_bytes_load: "length bs = 4 \<Longrightarrow> le32_bytes (load_le32 bs) = bs"
proof -
  assume "length bs = 4"
  then obtain a b c d where bs: "bs = [a, b, c, d]" by (auto simp: numeral_eq_Suc length_Suc_conv)
  show ?thesis unfolding bs load_le32_xor le32_bytes_def
    by (auto intro!: bit_word_eqI simp: bit_simps byte_beyond)
qed

lemma load_le32_take: "load_le32 (take 4 bs) = load_le32 bs"
  by (simp add: load_le32_def)

lemma slot_bytes_of: "slot_of_bytes (slot_bytes s @ rest) = s"
proof -
  have "ucast (ucast (priority s) OR push_bit 4 (ucast (tries_remaining s)) OR push_bit 7 (ucast (successful_boot s)) :: u8) = priority s"
    "ucast (drop_bit 4 (ucast (priority s) OR push_bit 4 (ucast (tries_remaining s)) OR push_bit 7 (ucast (successful_boot s)) :: u8)) = tries_remaining s"
    "ucast (drop_bit 7 (ucast (priority s) OR push_bit 4 (ucast (tries_remaining s)) OR push_bit 7 (ucast (successful_boot s)) :: u8)) = successful_boot s"
    "ucast (ucast (verity_corrupted s) OR push_bit 1 (ucast (sm_reserved s)) :: u8) = verity_corrupted s"
    "ucast (drop_bit 1 (ucast (verity_corrupted s) OR push_bit 1 (ucast (sm_reserved s)) :: u8)) = sm_reserved s"
    by (rule bit_word_eqI; auto simp: bit_or_iff bit_ucast_iff bit_drop_bit_eq bit_push_bit_iff
          simp del: push_bit_Suc drop_bit_Suc dest: bit_imp_le_length)+
  then show ?thesis unfolding slot_bytes_def slot_of_bytes_def by (cases s) simp
qed

lemma byte_eqI: "(\<And>n. n \<in> {0, 1, 2, 3, 4, 5, 6, 7} \<Longrightarrow> bit a n = bit b n) \<Longrightarrow> a = (b :: u8)"
proof (rule bit_word_eqI)
  fix n assume eq: "\<And>n. n \<in> {0, 1, 2, 3, 4, 5, 6, 7} \<Longrightarrow> bit a n = bit b n" and n: "n < LENGTH(8)"
  from n have "n < 8" by simp
  then have "n = 0 \<or> n = 1 \<or> n = 2 \<or> n = 3 \<or> n = 4 \<or> n = 5 \<or> n = 6 \<or> n = 7" by presburger
  then have "n \<in> {0, 1, 2, 3, 4, 5, 6, 7}" by simp
  then show "bit a n = bit b n" by (rule eq)
qed

lemma slot_of_bytes_bytes: "length bs = 2 \<Longrightarrow> slot_bytes (slot_of_bytes (bs @ rest)) = bs"
proof -
  assume "length bs = 2"
  then obtain a b where bs: "bs = [a, b]" by (auto simp: numeral_eq_Suc length_Suc_conv)
  have "ucast (ucast a :: 4 word) OR push_bit 4 (ucast (ucast (drop_bit 4 a) :: 3 word)) OR
      push_bit 7 (ucast (ucast (drop_bit 7 a) :: 1 word)) = a"
    "ucast (ucast b :: 1 word) OR push_bit 1 (ucast (ucast (drop_bit 1 b) :: 7 word)) = b"
    by (rule byte_eqI; auto simp: bit_or_iff bit_ucast_iff bit_drop_bit_eq bit_push_bit_iff
          numeral_eq_Suc simp del: push_bit_Suc drop_bit_Suc)+
  then show ?thesis by (simp add: bs slot_bytes_def slot_of_bytes_def)
qed

lemma count_bytes:
  "ucast (ucast (n :: 3 word) OR push_bit 3 (ucast (r :: 3 word)) OR push_bit 6 (ucast (x :: 2 word)) :: u8) = n"
  "ucast (drop_bit 3 (ucast n OR push_bit 3 (ucast r) OR push_bit 6 (ucast x) :: u8)) = r"
  "ucast (drop_bit 6 (ucast n OR push_bit 3 (ucast r) OR push_bit 6 (ucast x) :: u8)) = x"
  by (rule bit_word_eqI; auto simp: bit_simps dest: bit_imp_le_length)+

lemma count_bytes_of:
  "ucast (ucast b :: 3 word) OR push_bit 3 (ucast (ucast (drop_bit 3 b) :: 3 word)) OR
   push_bit 6 (ucast (ucast (drop_bit 6 b) :: 2 word)) = (b :: u8)"
  by (rule byte_eqI) (auto simp: bit_simps)

lemma length_abc_head: "abc_wf abc \<Longrightarrow> length (abc_head abc) = 28"
  by (auto simp: abc_wf_def abc_head_def length_concat comp_def sum_list_triv)

lemma length_abc_bytes: "abc_wf abc \<Longrightarrow> length (abc_bytes abc) = 32"
  by (simp add: abc_bytes_def length_abc_head)

lemma abc_of_bytes_wf: "32 \<le> length bs \<Longrightarrow> abc_wf (abc_of_bytes bs)"
  by (simp add: abc_wf_def abc_of_bytes_def)

lemma abc_bytes_of: "abc_wf abc \<Longrightarrow> abc_of_bytes (abc_bytes abc @ rest) = abc"
proof -
  assume wf: "abc_wf abc"
  obtain s0 s1 s2 s3 where sl: "slot_info abc = [s0, s1, s2, s3]"
    using wf by (auto simp: abc_wf_def numeral_eq_Suc length_Suc_conv)
  have len: "length (slot_suffix abc) = 4" "length (reserved0 abc) = 2" "length (reserved1 abc) = 8"
    using wf by (auto simp: abc_wf_def)
  have n4: "[0..<4] = [0, 1, 2, 3]" by (simp add: upt_rec)
  define P where "P = slot_suffix abc @ le32_bytes (magic abc) @
     [version abc,
      ucast (nb_slot abc) OR push_bit 3 (ucast (recovery_tries_remaining abc)) OR push_bit 6 (ucast (abc_spare abc))] @
     reserved0 abc"
  define Q where "Q = concat (map slot_bytes (slot_info abc)) @ reserved1 abc @ le32_bytes (crc32_le abc) @ rest"
  have "abc_bytes abc @ rest = P @ Q" "length P = 12" using len by (simp_all add: abc_bytes_def abc_head_def P_def Q_def)
  then have drops: "drop (12 + 2 * i) (abc_bytes abc @ rest) = drop (2 * i) Q" for i by simp
  have "slot_info (abc_of_bytes (abc_bytes abc @ rest)) = slot_info abc"
    unfolding abc_of_bytes_def bootloader_control.select_convs n4 list.map drops Q_def sl
    by (simp add: slot_bytes_of)
  moreover have "length (concat (map slot_bytes (slot_info abc))) = 8" by (simp add: sl)
  ultimately show ?thesis
    using len by (cases abc) (simp add: abc_of_bytes_def abc_bytes_def abc_head_def load_le32_bytes nth_append count_bytes
        del: drop_bit_or)
qed

lemma abc_of_bytes_bytes:
  assumes "32 \<le> length bs"
  shows "abc_bytes (abc_of_bytes bs) = take 32 bs"
proof -
  have slot: "slot_bytes (slot_of_bytes (drop k bs)) = take 2 (drop k bs)" if "k + 2 \<le> length bs" for k
    using slot_of_bytes_bytes [of "take 2 (drop k bs)" "drop 2 (drop k bs)"] that unfolding append_take_drop_id by simp
  have w32: "le32_bytes (load_le32 (drop k bs)) = take 4 (drop k bs)" if "k + 4 \<le> length bs" for k
    using le32_bytes_load [of "take 4 (drop k bs)"] that by (simp add: load_le32_take)
  have two: "[bs ! k, bs ! Suc k] = take 2 (drop k bs)" if "k + 2 \<le> length bs" for k
    using that by (simp add: numeral_2_eq_2 take_Suc_conv_app_nth)
  have join: "take m (drop k bs) @ take n (drop (k + m) bs) = take (m + n) (drop k bs)" for k m n
    by (simp add: take_add add.commute)
  have n4: "[0..<4] = [0, 1, 2, 3]" by (simp add: upt_rec)
  have "abc_bytes (abc_of_bytes bs) = take 4 (drop 0 bs) @ take 4 (drop 4 bs) @ take 2 (drop 8 bs) @ take 2 (drop 10 bs) @
      (take 2 (drop 12 bs) @ take 2 (drop 14 bs) @ take 2 (drop 16 bs) @ take 2 (drop 18 bs)) @ take 8 (drop 20 bs) @
      take 4 (drop 28 bs)"
    using assms slot [of 12] slot [of 14] slot [of 16] slot [of 18] w32 [of 4] w32 [of 28] two [of 8]
    by (simp add: abc_bytes_def abc_head_def abc_of_bytes_def n4 count_bytes_of del: drop_bit_or)
  also have "\<dots> = take 32 (drop 0 bs)"
    using join [of 4 0 4] join [of 8 0 2] join [of 10 0 2] join [of 12 0 2] join [of 14 0 2] join [of 16 0 2] join [of 18 0 2]
      join [of 20 0 8] join [of 28 0 4]
    by (simp flip: append_assoc)
  finally show ?thesis by simp
qed

lemma abc_of_bytes_take: "32 \<le> length bs \<Longrightarrow> abc_of_bytes (take 32 bs) = abc_of_bytes bs"
  using abc_bytes_of [OF abc_of_bytes_wf, of bs "[]"] abc_of_bytes_bytes [of bs] by simp

section \<open>Choosing the best slot\<close>

text \<open>The order of \<open>ab_compare_slots\<close> as a number.\<close>

definition slot_rank :: "slot_metadata \<Rightarrow> int" where
  "slot_rank s = 16 * uint (priority s) + 8 * uint (successful_boot s) + uint (tries_remaining s)"

lemma field_bounds:
  "0 \<le> uint (successful_boot s)" "uint (successful_boot s) < 2" "0 \<le> uint (tries_remaining s)" "uint (tries_remaining s) < 8"
  using uint_lt2p [of "successful_boot s"] uint_lt2p [of "tries_remaining s"] by simp_all

lemma lex_rank:
  fixes p q s t u v :: int
  assumes "0 \<le> s" "s < 2" "0 \<le> t" "t < 2" "0 \<le> u" "u < 8" "0 \<le> v" "v < 8"
  shows "(if p \<noteq> q then q - p else if s \<noteq> t then t - s else if u \<noteq> v then v - u else 0) < 0 \<longleftrightarrow>
      16 * q + 8 * t + v < 16 * p + 8 * s + u"
    "(if p \<noteq> q then q - p else if s \<noteq> t then t - s else if u \<noteq> v then v - u else 0) = 0 \<longleftrightarrow>
      16 * p + 8 * s + u = 16 * q + 8 * t + v"
  using assms
  by (cases p q rule: linorder_cases; cases s t rule: linorder_cases; cases u v rule: linorder_cases; simp; linarith)+

lemma compare_rank: "ab_compare_slots a b < 0 \<longleftrightarrow> slot_rank b < slot_rank a" "ab_compare_slots a b = 0 \<longleftrightarrow> slot_rank a = slot_rank b"
  using lex_rank [OF field_bounds(1,2) [of a] field_bounds(1,2) [of b] field_bounds(3,4) [of a] field_bounds(3,4) [of b],
      of "uint (priority a)" "uint (priority b)"]
  unfolding ab_compare_slots_def slot_rank_def word_uint_eq_iff by blast+

text \<open>The slots from \<open>lo\<close> up to \<open>hi\<close> that can be booted, and that \<open>j\<close> is the first of the best of them.\<close>

definition bootable :: "slot_metadata list \<Rightarrow> nat \<Rightarrow> nat set" where
  "bootable slots hi = {j. j < hi \<and> \<not> slot_unbootable (slots ! j)}"

definition best_slot :: "slot_metadata list \<Rightarrow> nat \<Rightarrow> nat option \<Rightarrow> bool" where
  "best_slot slots hi slot \<longleftrightarrow>
     (case slot of
        None \<Rightarrow> bootable slots hi = {}
      | Some j \<Rightarrow> j \<in> bootable slots hi \<and>
          (\<forall>k \<in> bootable slots hi. if k < j then slot_rank (slots ! k) < slot_rank (slots ! j)
                                    else slot_rank (slots ! k) \<le> slot_rank (slots ! j)))"

lemma bootable_Suc: "bootable slots (Suc i) = bootable slots i \<union> (if slot_unbootable (slots ! i) then {} else {i})"
  by (auto simp: bootable_def less_Suc_eq)

lemma choose_loop_best: "best_slot slots i slot \<Longrightarrow> best_slot slots (i + n) (choose_loop slots i n slot)"
proof (induction n arbitrary: i slot)
  case (Suc n)
  have "best_slot slots (Suc i) (if slot_unbootable (slots ! i) then slot
      else if slot = None \<or> ab_compare_slots (slots ! i) (slots ! the slot) < 0 then Some i else slot)"
  proof (cases slot)
    case None
    then show ?thesis using Suc.prems by (auto simp: best_slot_def bootable_Suc)
  next
    case (Some j)
    then have j: "j \<in> bootable slots i" "j < i"
      and best: "\<And>k. k \<in> bootable slots i \<Longrightarrow> slot_rank (slots ! k) \<le> slot_rank (slots ! j)"
        "\<And>k. k \<in> bootable slots i \<Longrightarrow> k < j \<Longrightarrow> slot_rank (slots ! k) < slot_rank (slots ! j)"
      using Suc.prems by (auto simp: best_slot_def bootable_def split: if_splits)
    show ?thesis
      unfolding best_slot_def bootable_Suc Some compare_rank using j best by (auto simp: bootable_def) force+
  qed
  from Suc.IH [OF this] show ?case by (auto split: if_splits)
qed simp

lemma choose_best: "best_slot slots n (choose_loop slots 0 n None)"
  using choose_loop_best [of slots 0 None n] by (simp add: best_slot_def bootable_def)


section \<open>The control block on the device\<close>

text \<open>
  The partition: the block size divides 2048 and the control block lies inside the partition and the
  device's block numbers. \<open>abc_base\<close> is its byte address.
\<close>

definition part_ok :: "disk_partition \<Rightarrow> bool" where
  "part_ok part_info \<longleftrightarrow>
     (let b = unat (dp_blksz part_info); k = 2048 div b; n = (31 + b) div b
      in 0 < b \<and> 2048 mod b = 0 \<and> k + n \<le> unat (dp_size part_info) \<and> unat (dp_start part_info) + k + n < 2 ^ 64)"

definition abc_base :: "disk_partition \<Rightarrow> nat" where
  "abc_base part_info = (unat (dp_start part_info) + 2048 div unat (dp_blksz part_info)) * unat (dp_blksz part_info)"

definition abc_room :: "disk_partition \<Rightarrow> nat" where
  "abc_room part_info = (31 + unat (dp_blksz part_info)) div unat (dp_blksz part_info) * unat (dp_blksz part_info)"

definition stored_abc :: "disk_partition \<Rightarrow> mem \<Rightarrow> bootloader_control" where
  "stored_abc part_info m = abc_of_bytes (mem_bytes m (abc_base part_info) 32)"

lemma part_ok_blksz: "part_ok p \<Longrightarrow> 0 < unat (dp_blksz p) \<and> unat (dp_blksz p) \<le> 2048"
  by (auto simp: part_ok_def Let_def intro: dvd_imp_le mod_0_imp_dvd)

lemma part_ok_blocks: "part_ok p \<Longrightarrow> unat (abc_blocks p) = (31 + unat (dp_blksz p)) div unat (dp_blksz p)"
  using part_ok_blksz [of p] by (simp add: abc_blocks_def unat_div unat_word_ariths)

lemma part_ok_offset:
  assumes "part_ok p"
  shows "(2048::u64) mod dp_blksz p = 0" "unat (2048 div dp_blksz p) = 2048 div unat (dp_blksz p)"
    "2048 div dp_blksz p + abc_blocks p \<le> dp_size p"
    "unat (dp_start p + 2048 div dp_blksz p) * unat (dp_blksz p) = abc_base p"
    "request_fits (dp_blksz p) (dp_start p + 2048 div dp_blksz p) (abc_blocks p)"
    "unat (abc_blocks p) * unat (dp_blksz p) = abc_room p" "32 \<le> abc_room p" "\<not> IS_ERR_VALUE (abc_blocks p)"
proof -
  let ?b = "unat (dp_blksz p)"
  have b: "0 < ?b" "?b \<le> 2048" using part_ok_blksz [OF assms] by auto
  have ok: "2048 mod ?b = 0" "2048 div ?b + (31 + ?b) div ?b \<le> unat (dp_size p)"
    "unat (dp_start p) + 2048 div ?b + (31 + ?b) div ?b < 2 ^ 64"
    using assms by (auto simp: part_ok_def Let_def)
  have d: "unat (2048 div dp_blksz p) = 2048 div ?b" by (simp add: unat_div)
  show "(2048::u64) mod dp_blksz p = 0" using ok(1) by (simp add: word_arith_nat_mod)
  show "unat (2048 div dp_blksz p) = 2048 div ?b" by (rule d)
  note n = part_ok_blocks [OF assms]
  have n32: "(31 + ?b) div ?b \<le> 32"
  proof -
    have "(31 + ?b) div ?b \<le> (32 * ?b) div ?b" using b by (intro div_le_mono) auto
    then show ?thesis using b by simp
  qed
  have s: "unat (dp_start p + 2048 div dp_blksz p) = unat (dp_start p) + 2048 div ?b"
    using ok(3) d by (simp add: unat_word_ariths)
  show "2048 div dp_blksz p + abc_blocks p \<le> dp_size p"
    using ok(2,3) d n by (simp add: word_le_nat_alt unat_word_ariths)
  show "unat (dp_start p + 2048 div dp_blksz p) * ?b = abc_base p" unfolding s abc_base_def ..
  show "unat (abc_blocks p) * ?b = abc_room p" unfolding n abc_room_def ..
  have "(31 + ?b) div ?b * ?b + (31 + ?b) mod ?b = 31 + ?b" by (rule div_mult_mod_eq)
  moreover have "(31 + ?b) mod ?b < ?b" using b by simp
  ultimately show "32 \<le> abc_room p" unfolding abc_room_def by linarith
  have "(31 + ?b) div ?b * ?b \<le> 32 * 2048" using n32 b by (intro mult_le_mono) auto
  then show "request_fits (dp_blksz p) (dp_start p + 2048 div dp_blksz p) (abc_blocks p)"
    using ok(3) by (simp add: request_fits_def s n)
  have "unat (abc_blocks p) \<le> 32" using n n32 by simp
  then show "\<not> IS_ERR_VALUE (abc_blocks p)" by (simp add: IS_ERR_VALUE_def word_le_nat_alt)
qed


text \<open>What \<open>ab_choose\<close> keeps of a control block.\<close>

lemma ab_choose_keeps:
  assumes "ab_choose dec st abc = (abc1, slot, store)" "abc_wf abc"
  shows "abc_wf abc1 \<and> magic abc1 = magic abc \<and> version abc1 = version abc \<and> crc32_le abc1 = crc32_le abc \<and>
    (\<not> store \<longrightarrow> abc1 = abc)"
  using assms by (auto simp: ab_choose_def Let_def abc_wf_def split: option.splits if_splits)

lemma abc_wf_crc: "abc_wf (abc\<lparr>crc32_le := c\<rparr>) = abc_wf abc"
  by (simp add: abc_wf_def)

lemma compute_crc_upd: "ab_control_compute_crc (abc\<lparr>crc32_le := c\<rparr>) = ab_control_compute_crc abc"
  by (simp add: ab_control_compute_crc_def abc_head_def)

lemma ab_default_wf: "abc_wf abc \<Longrightarrow> abc_wf (ab_control_default abc)"
  by (simp add: ab_control_default_def Let_def abc_wf_def NUM_SLOTS_def)

definition abc_valid :: "bootloader_control \<Rightarrow> bool" where
  "abc_valid abc \<longleftrightarrow> abc_wf abc \<and> crc32_le abc = ab_control_compute_crc abc \<and> magic abc = BOOT_CTRL_MAGIC \<and>
     version abc \<le> BOOT_CTRL_VERSION"

lemma ab_default_valid: "abc_wf abc \<Longrightarrow> abc_valid (ab_control_default abc)"
  using ab_default_wf [of abc]
  by (simp add: abc_valid_def ab_control_default_def Let_def compute_crc_upd)

lemma ab_recover_cases: "ab_recover abc None = (abc', st) \<Longrightarrow> abc_wf abc \<Longrightarrow>
    abc_wf abc' \<and> crc32_le abc' = ab_control_compute_crc abc' \<and> (\<not> st \<longrightarrow> abc' = abc)"
  using ab_default_valid [of abc] by (auto simp: ab_recover_def abc_valid_def split: if_splits)

text \<open>The slot as the result of \<open>ab_select_slot\<close>.\<close>

definition slot_ret :: "nat option \<Rightarrow> int" where
  "slot_ret slot = (case slot of None \<Rightarrow> - EINVAL | Some i \<Rightarrow> int i)"

section \<open>Attempts\<close>

text \<open>
  The slots that are used, the attempts they have left, and that none of them is marked as booted.
\<close>

definition slots_used :: "bootloader_control \<Rightarrow> nat" where
  "slots_used abc = min (unat (nb_slot abc)) 4"

definition attempts :: "bootloader_control \<Rightarrow> nat" where
  "attempts abc = (\<Sum>i\<in>{..<slots_used abc}. unat (tries_remaining (slot_info abc ! i)))"

definition unmarked :: "bootloader_control \<Rightarrow> bool" where
  "unmarked abc \<longleftrightarrow> (\<forall>i < slots_used abc. successful_boot (slot_info abc ! i) = 0)"

text \<open>The slots after the choice of \<open>slot\<close>.\<close>

definition slots_after :: "bool \<Rightarrow> nat option \<Rightarrow> slot_metadata list \<Rightarrow> slot_metadata list" where
  "slots_after dec slot slots =
     (case slot of
        None \<Rightarrow> slots
      | Some i \<Rightarrow> if dec \<and> successful_boot (slots ! i) = 0
                 then slots[i := (slots ! i)\<lparr>tries_remaining := tries_remaining (slots ! i) - 1\<rparr>] else slots)"

lemma ab_choose_spec:
  assumes "ab_choose dec st abc = (abc1, slot, store)"
  shows "slot = choose_loop (slot_info abc) 0 (slots_used abc) None" "slots_used abc1 = slots_used abc"
    "slot_info abc1 = slots_after dec slot (slot_info abc)"
    "slot_suffix abc1 = (case slot of None \<Rightarrow> slot_suffix abc | Some i \<Rightarrow> [BOOT_SLOT_NAME i, 0, 0, 0])"
  using assms
  by (auto simp: ab_choose_def Let_def slots_used_def slots_after_def min_def split: option.splits if_splits)

lemma slot_used_bootable:
  "choose_loop slots 0 n None = Some i \<Longrightarrow> i < n \<and> tries_remaining (slots ! i) \<noteq> 0"
  using choose_best [of slots n] by (auto simp: best_slot_def bootable_def slot_unbootable_def)

lemma ab_choose_attempt:
  assumes "ab_choose True st abc = (abc1, Some i, store)" "abc_wf abc" "unmarked abc"
  shows "Suc (attempts abc1) = attempts abc" "unmarked abc1"
proof -
  note sp = ab_choose_spec [OF assms(1)]
  let ?s = "slot_info abc" and ?n = "slots_used abc"
  have i: "i < ?n" "tries_remaining (?s ! i) \<noteq> 0" using slot_used_bootable [OF sp(1) [symmetric]] by auto
  have pos: "0 < unat (tries_remaining (?s ! i))" using i(2) by (simp add: unat_gt_0)
  have len: "?n \<le> length ?s" using assms(2) by (simp add: slots_used_def abc_wf_def)
  have su: "successful_boot (?s ! i) = 0" using assms(3) i(1) by (simp add: unmarked_def)
  have s1: "slot_info abc1 = ?s[i := (?s ! i)\<lparr>tries_remaining := tries_remaining (?s ! i) - 1\<rparr>]"
    using sp(3) su by (simp add: slots_after_def)
  show "unmarked abc1" using assms(3) su i len unfolding unmarked_def sp(2) s1 by (auto simp: nth_list_update)
  have "(\<Sum>k\<in>{..<?n}. unat (tries_remaining (slot_info abc1 ! k))) =
      unat (tries_remaining (slot_info abc1 ! i)) + (\<Sum>k\<in>{..<?n} - {i}. unat (tries_remaining (slot_info abc1 ! k)))"
    using i(1) by (intro sum.remove) auto
  also have "(\<Sum>k\<in>{..<?n} - {i}. unat (tries_remaining (slot_info abc1 ! k))) =
      (\<Sum>k\<in>{..<?n} - {i}. unat (tries_remaining (?s ! k)))" by (intro sum.cong) (auto simp: s1)
  also have "unat (tries_remaining (slot_info abc1 ! i)) = unat (tries_remaining (?s ! i)) - 1"
    using i len by (simp add: s1 unat_minus_one)
  also have "unat (tries_remaining (?s ! i)) - 1 + (\<Sum>k\<in>{..<?n} - {i}. unat (tries_remaining (?s ! k))) =
      (\<Sum>k\<in>{..<?n}. unat (tries_remaining (?s ! k))) - 1"
    using i pos sum.remove [of "{..<?n}" i "\<lambda>k. unat (tries_remaining (?s ! k))"] by simp
  finally have "attempts abc1 = attempts abc - 1" by (simp add: attempts_def sp(2))
  moreover have "0 < attempts abc"
  proof -
    have "unat (tries_remaining (?s ! i)) \<le> attempts abc" unfolding attempts_def using i(1) by (intro member_le_sum) auto
    then show ?thesis using pos by linarith
  qed
  ultimately show "Suc (attempts abc1) = attempts abc" by simp
qed

text \<open>One boot in which \<open>dec_tries\<close> is set and the system does not mark the slot as booted.\<close>

definition failed_boot ::
  "('d \<Rightarrow> u64 \<Rightarrow> u64 \<Rightarrow> 'd \<times> u64 \<times> u8 list) \<Rightarrow> ('d \<Rightarrow> u64 \<Rightarrow> u64 \<Rightarrow> u8 list \<Rightarrow> 'd \<times> u64) \<Rightarrow> disk_partition \<Rightarrow> 'd \<Rightarrow> 'd" where
  "failed_boot dread dwrite p d = fst (ab_select_slot dread dwrite True True 0 d p True)"

context block_store
begin

lemma create_from_disk:
  assumes "inv d" "part_ok p" "dp_blksz p = blksz"
  shows "\<exists>d'. ab_control_create_from_disk dread True d p 0 = (d', Inr (mem_bytes (content d) (abc_base p) (abc_room p))) \<and>
    inv d' \<and> content d' = content d"
proof -
  note o = part_ok_offset [OF assms(2)]
  obtain d' where "dread d (dp_start p + 2048 div dp_blksz p) (abc_blocks p) =
      (d', abc_blocks p, mem_bytes (content d) (abc_base p) (abc_room p))" "inv d'" "content d' = content d"
    using dread_law [OF assms(1), of "dp_start p + 2048 div dp_blksz p" "abc_blocks p"] o(4-6) assms(3) by auto
  then show ?thesis using o(1,3,8) by (simp add: ab_control_create_from_disk_def Let_def not_less)
qed

lemma control_store:
  assumes "inv d" "part_ok p" "dp_blksz p = blksz" "length bs = abc_room p"
  shows "\<exists>d'. ab_control_store dwrite d p bs 0 = (d', 0) \<and> inv d' \<and> content d' = mem_store (content d) (abc_base p) bs"
proof -
  note o = part_ok_offset [OF assms(2)]
  obtain d' where "dwrite d (dp_start p + 2048 div dp_blksz p) (abc_blocks p) bs = (d', abc_blocks p)" "inv d'"
    "content d' = mem_store (content d) (abc_base p) bs"
    using dwrite_law [OF assms(1), of "dp_start p + 2048 div dp_blksz p" "abc_blocks p" bs] o(4-6) assms(3,4) by auto
  then show ?thesis using o(8) by (simp add: ab_control_store_def Let_def)
qed

lemma select_slot:
  assumes "inv d" "part_ok p" "dp_blksz p = blksz" "ab_recover (stored_abc p (content d)) None = (abc, st)"
    "magic abc = BOOT_CTRL_MAGIC" "version abc \<le> BOOT_CTRL_VERSION" "ab_choose dec st abc = (abc1, slot, store)"
  shows "\<exists>d'. ab_select_slot dread dwrite True m2 0 d p dec = (d', slot_ret slot) \<and> inv d' \<and>
    stored_abc p (content d') = abc1\<lparr>crc32_le := ab_control_compute_crc abc1\<rparr> \<and> abc_valid (stored_abc p (content d')) \<and>
    (\<forall>a. a < abc_base p \<or> abc_base p + 32 \<le> a \<longrightarrow> content d' a = content d a)"
proof -
  let ?buf = "mem_bytes (content d) (abc_base p) (abc_room p)"
  have room: "32 \<le> abc_room p" by (rule part_ok_offset [OF assms(2)])
  let ?c = "stored_abc p (content d)" and ?abc2 = "abc1\<lparr>crc32_le := ab_control_compute_crc abc1\<rparr>"
  have dec: "abc_of_bytes ?buf = ?c"
    using abc_of_bytes_take [of ?buf] room by (simp add: stored_abc_def take_mem_bytes)
  have wf: "abc_wf ?c" by (simp add: stored_abc_def abc_of_bytes_wf)
  have rec: "abc_wf abc" "crc32_le abc = ab_control_compute_crc abc" "\<not> st \<longrightarrow> abc = ?c"
    using ab_recover_cases [OF assms(4) wf] by auto
  have ch: "abc_wf abc1" "magic abc1 = BOOT_CTRL_MAGIC" "version abc1 \<le> BOOT_CTRL_VERSION" "crc32_le abc1 = crc32_le abc"
    "\<not> store \<longrightarrow> abc1 = abc"
    using ab_choose_keeps [OF assms(7) rec(1)] assms(5,6) by auto
  have valid: "abc_valid ?abc2" using ch by (simp add: abc_valid_def abc_wf_crc compute_crc_upd)
  obtain d1 where d1: "ab_control_create_from_disk dread True d p 0 = (d1, Inr ?buf)" "inv d1" "content d1 = content d"
    using create_from_disk [OF assms(1-3)] by blast
  let ?out = "abc_bytes ?abc2 @ drop 32 ?buf"
  have out: "length ?out = abc_room p" using room ch(1) by (simp add: length_abc_bytes abc_wf_crc)
  show ?thesis
  proof (cases store)
    case True
    obtain d2 where d2: "ab_control_store dwrite d1 p ?out 0 = (d2, 0)" "inv d2"
      "content d2 = mem_store (content d) (abc_base p) ?out"
      using control_store [OF d1(2) assms(2,3) out] d1(3) by auto
    have sel: "ab_select_slot dread dwrite True m2 0 d p dec = (d2, slot_ret slot)"
      using d1 d2(1) assms(4-7) True dec by (simp add: ab_select_slot_def slot_ret_def not_less Let_def split: option.split)
    have "take 32 (mem_bytes (content d2) (abc_base p) (abc_room p)) = abc_bytes ?abc2"
      using ch(1) unfolding d2(3) mem_store_same [OF out] by (simp add: length_abc_bytes abc_wf_crc)
    then have st: "stored_abc p (content d2) = ?abc2"
      using room ch(1) abc_bytes_of [of ?abc2 "[]"] by (simp add: stored_abc_def take_mem_bytes abc_wf_crc)
    have "content d2 a = content d a" if "a < abc_base p \<or> abc_base p + 32 \<le> a" for a
      using that ch(1) unfolding d2(3) mem_store_def
      by (auto simp: nth_append length_abc_bytes abc_wf_crc)
    then show ?thesis using sel st valid d2(2) by auto
  next
    case False
    then have same: "abc1 = abc" "abc = ?c" "?abc2 = abc1"
      using ch rec assms(7) by (auto simp: ab_choose_def Let_def split: option.splits if_splits)
    have sel: "ab_select_slot dread dwrite True m2 0 d p dec = (d1, slot_ret slot)"
      using d1 assms(4-7) False dec by (simp add: ab_select_slot_def slot_ret_def not_less Let_def split: option.split)
    then show ?thesis using d1(2,3) same valid by auto
  qed
qed

lemma attempts_run_out:
  assumes "inv d" "part_ok p" "dp_blksz p = blksz" "abc_valid (stored_abc p (content d))"
    "unmarked (stored_abc p (content d))"
  shows "\<exists>k \<le> attempts (stored_abc p (content d)).
      snd (ab_select_slot dread dwrite True True 0 ((failed_boot dread dwrite p ^^ k) d) p True) = - EINVAL \<and>
      (\<forall>j<k. 0 \<le> snd (ab_select_slot dread dwrite True True 0 ((failed_boot dread dwrite p ^^ j) d) p True))"
  using assms
proof (induction "attempts (stored_abc p (content d))" arbitrary: d rule: less_induct)
  case less
  let ?c = "stored_abc p (content d)" and ?sel = "\<lambda>d. ab_select_slot dread dwrite True True 0 d p True"
  let ?B = "failed_boot dread dwrite p"
  have rec: "ab_recover ?c None = (?c, False)" using less.prems(4) by (simp add: ab_recover_def abc_valid_def)
  obtain c1 slot store where ch: "ab_choose True False ?c = (c1, slot, store)" by (metis prod.exhaust)
  obtain d' where d': "?sel d = (d', slot_ret slot)" "inv d'"
    "stored_abc p (content d') = c1\<lparr>crc32_le := ab_control_compute_crc c1\<rparr>" "abc_valid (stored_abc p (content d'))"
    using select_slot [OF less.prems(1-3) rec _ _ ch, of True] less.prems(4) by (auto simp: abc_valid_def)
  show ?case
  proof (cases slot)
    case None
    then show ?thesis using d'(1) by (intro exI [of _ 0]) (simp add: slot_ret_def)
  next
    case (Some i)
    have wf: "abc_wf ?c" using less.prems(4) by (simp add: abc_valid_def)
    note at = ab_choose_attempt [OF ch [unfolded Some] wf less.prems(5)]
    have same: "attempts (stored_abc p (content d')) = attempts c1" "unmarked (stored_abc p (content d')) = unmarked c1"
      by (simp_all add: d'(3) attempts_def unmarked_def slots_used_def)
    have Bd: "?B d = d'" using d'(1) by (simp add: failed_boot_def)
    have less': "attempts (stored_abc p (content d')) < attempts ?c" using at(1) same(1) by simp
    have um: "unmarked (stored_abc p (content d'))" using at(2) same(2) by simp
    obtain k where k: "k \<le> attempts c1" "snd (?sel ((?B ^^ k) d')) = - EINVAL" "\<forall>j<k. 0 \<le> snd (?sel ((?B ^^ j) d'))"
      using less.hyps [OF less' d'(2) less.prems(2,3) d'(4) um] same(1) by auto
    have step: "(?B ^^ Suc m) d = (?B ^^ m) d'" for m unfolding funpow_Suc_right by (simp add: Bd)
    have "\<forall>j<Suc k. 0 \<le> snd (?sel ((?B ^^ j) d))"
    proof (intro allI impI)
      fix j assume "j < Suc k"
      then show "0 \<le> snd (?sel ((?B ^^ j) d))"
        using k(3) d'(1) Some step by (cases j) (auto simp: slot_ret_def simp del: funpow.simps)
    qed
    then show ?thesis using k(1,2) step [of k] at(1) by (intro exI [of _ "Suc k"]) (simp del: funpow.simps)
  qed
qed

end


section \<open>Properties\<close>

definition demo_part :: disk_partition where
  "demo_part = \<lparr>dp_start = 16, dp_size = 64, dp_blksz = 512\<rparr>"

definition demo_abc :: bootloader_control where
  "demo_abc = ab_control_default
     \<lparr>slot_suffix = [0, 0, 0, 0], magic = 0, version = 0, nb_slot = 0, recovery_tries_remaining = 0, abc_spare = 0,
      reserved0 = [0, 0], slot_info = replicate 4 slot_default, reserved1 = replicate 8 0, crc32_le = 0\<rparr>"

definition demo_disks :: disks where
  "demo_disks = (blkcache_initial, \<lambda>_. mem_store (\<lambda>_. 0) (abc_base demo_part) (abc_bytes demo_abc))"

lemma demo_part_ok: "part_ok demo_part"
  by (simp add: part_ok_def demo_part_def Let_def)

lemma demo_abc_valid: "abc_valid demo_abc"
  unfolding demo_abc_def by (rule ab_default_valid) (simp add: abc_wf_def)

lemma demo_stored: "disk_ok demo_disks" "stored_abc demo_part (disk_content dev demo_disks) = demo_abc"
proof -
  show "disk_ok demo_disks" by (simp add: disk_ok_def demo_disks_def cache_coherent_def blkcache_initial_def)
  have "length (abc_bytes demo_abc) = 32" using demo_abc_valid by (simp add: abc_valid_def length_abc_bytes)
  then show "stored_abc demo_part (disk_content dev demo_disks) = demo_abc"
    using abc_bytes_of [of demo_abc "[]"] demo_abc_valid
    by (simp add: stored_abc_def disk_content_def demo_disks_def mem_store_same abc_valid_def)
qed

lemma demo_unmarked: "unmarked demo_abc" "attempts demo_abc = 14"
  by (simp_all add: unmarked_def attempts_def slots_used_def demo_abc_def ab_control_default_def Let_def NUM_SLOTS_def
      slot_default_def nth_append)



text \<open>
  C8. A device on which no boot succeeds runs out of attempts: when no slot is marked as booted and
  every boot decrements the counters, then after at most as many boots as the counters add up to,
  \<open>ab_select_slot\<close> reports that there is no slot, and each call before that chose one.
\<close>

theorem ab_attempts_run_out:
  assumes "disk_ok d" "part_ok p" "abc_valid c" "stored_abc p (disk_content dev d) = c" "unmarked c"
  shows "\<exists>k \<le> attempts c.
      snd (ab_select_slot (disk_read (dp_blksz p) dev) (disk_write (dp_blksz p) dev) True True 0
        ((failed_boot (disk_read (dp_blksz p) dev) (disk_write (dp_blksz p) dev) p ^^ k) d) p True) = - EINVAL \<and>
      (\<forall>j<k. 0 \<le> snd (ab_select_slot (disk_read (dp_blksz p) dev) (disk_write (dp_blksz p) dev) True True 0
        ((failed_boot (disk_read (dp_blksz p) dev) (disk_write (dp_blksz p) dev) p ^^ j) d) p True))"
  using disk.attempts_run_out [OF assms(1,2) refl, of dev] assms(3-5) by simp

theorem ab_attempts_run_out_witness:
  "\<exists>k \<le> 14. snd (ab_select_slot (disk_read 512 (1, 0)) (disk_write 512 (1, 0)) True True 0
        ((failed_boot (disk_read 512 (1, 0)) (disk_write 512 (1, 0)) demo_part ^^ k) demo_disks) demo_part True) = - EINVAL"
proof -
  have "dp_blksz demo_part = 512" by (simp add: demo_part_def)
  then show ?thesis
    using ab_attempts_run_out [OF demo_stored(1) demo_part_ok demo_abc_valid demo_stored(2) demo_unmarked(1), of "(1, 0)"]
      demo_unmarked(2) by auto
qed



text \<open>
  The comment in \<open>ab_select_slot\<close> says that a slot is bootable when it has attempts left or is marked as
  booted. The code asks for attempts in any case.
\<close>

lemma booted_without_tries:
  "slot_unbootable \<lparr>priority = 15, tries_remaining = 0, successful_boot = 1, verity_corrupted = 0, sm_reserved = 0\<rparr>"
  by (simp add: slot_unbootable_def)

text \<open>
  The backup is read from block \<open>(offset + 2048) / blksz\<close> and written to block \<open>offset + 2048 / blksz\<close>.
\<close>

lemma backup_stored_elsewhere:
  "fst (ab_control_create_from_disk (\<lambda>d s n. ([s], n, [])) True [] \<lparr>dp_start = 0, dp_size = 8192, dp_blksz = 512\<rparr> 0x1000) = [12]"
  "fst (ab_control_store (\<lambda>d s n bs. ([s], n)) [] \<lparr>dp_start = 0, dp_size = 8192, dp_blksz = 512\<rparr> [] 0x1000) = [0x1004]"
  by (simp_all add: ab_control_create_from_disk_def ab_control_store_def abc_blocks_def IS_ERR_VALUE_def Let_def
      word_le_nat_alt)

end
