(* ===== verification/Rtc.thy ===== *)
theory Rtc
  imports Prelude "HOL-Library.Signed_Division"
begin

text \<open>
  Dates and times: \<open>lib/date.c\<close> (\<open>rtc_calc_weekday\<close>, \<open>rtc_mktime\<close>, \<open>mktime64\<close>) and \<open>lib/rtc-lib.c\<close>
  (\<open>rtc_month_days\<close>, \<open>rtc_to_tm\<close>). The fields of \<open>rtc_time\<close> are integers; where the code converts between
  signed and unsigned or narrows a value the wrap-around is written out, and divisions of signed
  values round towards zero. The lemmas relate both directions to the count of days of the Gregorian
  calendar, \<open>day_count\<close>, and show that they are inverse to each other.
\<close>

section \<open>Model\<close>

record rtc_time =
  tm_sec :: int
  tm_min :: int
  tm_hour :: int
  tm_mday :: int
  tm_mon :: int
  tm_year :: int
  tm_wday :: int
  tm_yday :: int
  tm_isdst :: int

definition month_offset :: "int list" where
  "month_offset = [0, 31, 59, 90, 120, 151, 181, 212, 243, 273, 304, 334]"

text \<open>\<open>None\<close> is an index outside \<open>month_offset\<close>; otherwise the result and the time with its day of the week.\<close>

definition rtc_calc_weekday :: "rtc_time \<Rightarrow> (rtc_time \<times> int) option" where
  "rtc_calc_weekday tm =
     (if tm_year tm < 1753 then Some (tm, - 1)
      else if tm_mon tm < 1 \<or> 12 < tm_mon tm then None
      else
        let last_year = tm_year tm - 1;
            leaps_to_date = last_year sdiv 4 - last_year sdiv 100 + last_year sdiv 400;
            day0 = (if tm_year tm smod 4 = 0 \<and> (tm_year tm smod 100 \<noteq> 0 \<or> tm_year tm smod 400 = 0) \<and> tm_mon tm > 2
                    then 1 else 0);
            day = day0 + (last_year * 365 + leaps_to_date + month_offset ! nat (tm_mon tm - 1) + tm_mday tm)
        in Some (tm\<lparr>tm_wday := day smod 7\<rparr>, 0))"

text \<open>\<open>days\<close> is an \<open>unsigned long\<close>; \<open>hours\<close> and the result are signed 64-bit integers.\<close>

definition rtc_mktime :: "rtc_time \<Rightarrow> int" where
  "rtc_mktime tm =
     (let mon0 = tm_mon tm - 2;
          (mon, year) = (if 0 \<ge> mon0 then (mon0 + 12, tm_year tm - 1) else (mon0, tm_year tm));
          days = word_of_int (year sdiv 4 - year sdiv 100 + year sdiv 400 + 367 * mon sdiv 12 + tm_mday tm) +
                 word_of_int (year * 365) - 719499 :: u64;
          hours = sint (days * 24 + word_of_int (tm_hour tm))
      in (hours * 60 + tm_min tm) * 60 + tm_sec tm)"

definition mktime64 :: "u32 \<Rightarrow> u32 \<Rightarrow> u32 \<Rightarrow> u32 \<Rightarrow> u32 \<Rightarrow> u32 \<Rightarrow> int" where
  "mktime64 year mon day hour minute second =
     rtc_mktime \<lparr>tm_sec = sint second, tm_min = sint minute, tm_hour = sint hour, tm_mday = sint day, tm_mon = sint mon,
       tm_year = sint year, tm_wday = 0, tm_yday = 0, tm_isdst = 0\<rparr>"

definition is_leap_year :: "u32 \<Rightarrow> bool" where
  "is_leap_year year \<longleftrightarrow> year mod 4 = 0 \<and> year mod 100 \<noteq> 0 \<or> year mod 400 = 0"

definition rtc_days_in_month :: "int list" where
  "rtc_days_in_month = [31, 28, 31, 30, 31, 30, 31, 31, 30, 31, 30, 31]"

text \<open>The month is below 12 in every call.\<close>

definition rtc_month_days :: "nat \<Rightarrow> u32 \<Rightarrow> int" where
  "rtc_month_days month year = rtc_days_in_month ! month + (if is_leap_year year \<and> month = 1 then 1 else 0)"

definition LEAPS_THRU_END_OF :: "u32 \<Rightarrow> u32" where
  "LEAPS_THRU_END_OF y = y div 4 - y div 100 + y div 400"

text \<open>The loop that goes back to the year of the day, and the loop over the months.\<close>

function to_tm_years :: "int \<Rightarrow> u32 \<Rightarrow> int \<times> u32" where
  "to_tm_years days year =
     (if days < 0 then to_tm_years (days + (365 + (if is_leap_year (year - 1) then 1 else 0))) (year - 1)
      else (days, year))"
  by pat_completeness auto
termination
  by (relation "measure (\<lambda>(days, year). nat (- days))") auto

declare to_tm_years.simps [simp del]

fun to_tm_months :: "nat \<Rightarrow> nat \<Rightarrow> int \<Rightarrow> u32 \<Rightarrow> nat \<times> int" where
  "to_tm_months 0 month days year = (month, days)"
| "to_tm_months (Suc n) month days year =
     (let newdays = days - rtc_month_days month year
      in if newdays < 0 then (month, days) else to_tm_months n (Suc month) newdays year)"

text \<open>
  \<open>days\<close> is an \<open>int\<close>, so the quotient is narrowed to 32 bits; the correction is computed in
  \<open>unsigned int\<close>. \<open>secs\<close> is below 86400.
\<close>

definition rtc_to_tm :: "u64 \<Rightarrow> rtc_time" where
  "rtc_to_tm time =
     (let secs = uint (time mod 86400);
          days0 = sint (ucast (time div 86400) :: u32);
          wday = (days0 + 4) smod 7;
          year0 = 1970 + word_of_int (days0 sdiv 365) :: u32;
          days1 = sint (word_of_int days0 -
                    ((year0 - 1970) * 365 + LEAPS_THRU_END_OF (year0 - 1) - LEAPS_THRU_END_OF (1970 - 1)) :: u32);
          (days2, year) = to_tm_years days1 year0;
          (month, days3) = to_tm_months 11 0 days2 year;
          hour = secs div 3600;
          secs1 = secs - hour * 3600;
          minute = secs1 div 60
      in \<lparr>tm_sec = secs1 - minute * 60, tm_min = minute, tm_hour = hour, tm_mday = days3 + 1, tm_mon = int month + 1,
          tm_year = sint year, tm_wday = wday, tm_yday = days2 + 1, tm_isdst = 0\<rparr>)"

section \<open>The calendar\<close>

definition leap :: "int \<Rightarrow> bool" where
  "leap y \<longleftrightarrow> y mod 4 = 0 \<and> y mod 100 \<noteq> 0 \<or> y mod 400 = 0"

definition leaps :: "int \<Rightarrow> int" where
  "leaps y = y div 4 - y div 100 + y div 400"

text \<open>The days from 1970-01-01 to the first of January of a year, and to a day of it.\<close>

definition year_start :: "int \<Rightarrow> int" where
  "year_start y = (y - 1970) * 365 + leaps (y - 1) - 477"

definition day_count :: "int \<Rightarrow> int \<Rightarrow> int \<Rightarrow> int" where
  "day_count y m d = year_start y + month_offset ! nat (m - 1) + (if leap y \<and> m > 2 then 1 else 0) + d - 1"

lemma div_pred: "0 < n \<Longrightarrow> y div n = (y - 1) div n + (if y mod n = 0 then 1 else (0::int))"
proof -
  assume n: "0 < n"
  have y: "y = n * (y div n) + y mod n" by simp
  have r: "0 \<le> y mod n" "y mod n < n" using n by auto
  show ?thesis
  proof (cases "y mod n = 0")
    case True
    have "(y - 1) div n = y div n - 1"
      by (rule int_div_pos_eq [where r = "n - 1"]) (use y True n in \<open>auto simp: algebra_simps\<close>)
    then show ?thesis using True by simp
  next
    case False
    have "(y - 1) div n = y div n"
      by (rule int_div_pos_eq [where r = "y mod n - 1"]) (use y r False in \<open>auto simp: algebra_simps\<close>)
    then show ?thesis using False by simp
  qed
qed

lemma leaps_step: "leaps y = leaps (y - 1) + (if leap y then 1 else 0)"
proof -
  have "400 dvd y \<Longrightarrow> 100 dvd y" by (rule dvd_trans [of _ 400]) simp_all
  moreover have "100 dvd y \<Longrightarrow> 4 dvd y" by (rule dvd_trans [of _ 100]) simp_all
  ultimately have "y mod 400 = 0 \<Longrightarrow> y mod 100 = 0" "y mod 100 = 0 \<Longrightarrow> y mod 4 = 0"
    unfolding mod_eq_0_iff_dvd by blast+
  then have ifs: "(if y mod 4 = 0 then 1 else 0) - (if y mod 100 = 0 then 1 else 0) + (if y mod 400 = 0 then 1 else 0) =
      (if leap y then 1 else (0::int))"
    unfolding leap_def by (cases "y mod 400 = 0"; cases "y mod 100 = 0"; cases "y mod 4 = 0") simp_all
  have sum: "a - b + c = (a' - b' + c') + (p - q + r)" if "a = a' + p" "b = b' + q" "c = c' + r" for a b c a' b' c' p q r :: int
    using that by simp
  have "y div 4 - y div 100 + y div 400 = ((y - 1) div 4 - (y - 1) div 100 + (y - 1) div 400) +
      ((if y mod 4 = 0 then 1 else 0) - (if y mod 100 = 0 then 1 else 0) + (if y mod 400 = 0 then 1 else 0))"
    by (intro sum div_pred) simp_all
  then show ?thesis unfolding leaps_def ifs .
qed

lemma year_start_step: "year_start (y + 1) = year_start y + 365 + (if leap y then 1 else 0)"
  using leaps_step [of y] by (simp add: year_start_def algebra_simps)


lemma sint_fit:
  "- (2 ^ (LENGTH('a) - 1)) \<le> x \<Longrightarrow> x < 2 ^ (LENGTH('a) - 1) \<Longrightarrow> sint (word_of_int x :: 'a::len word) = x"
  unfolding sint_sbintrunc' by (rule signed_take_bit_int_eq_self)

lemma uint_fit: "0 \<le> x \<Longrightarrow> x < 2 ^ LENGTH('a) \<Longrightarrow> uint (word_of_int x :: 'a::len word) = x"
  unfolding uint_word_of_int by simp

lemma sdiv_pos: "0 \<le> y \<Longrightarrow> 0 < n \<Longrightarrow> y sdiv n = y div (n::int)"
  by (cases "y = 0") (simp_all add: signed_divide_int_def)

lemma smod_pos: "0 \<le> y \<Longrightarrow> 0 < n \<Longrightarrow> y smod n = y mod (n::int)"
  by (cases "y = 0") (simp_all add: signed_modulo_int_def sdiv_pos minus_mult_div_eq_mod [symmetric] mult.commute)

lemma month_cases: "1 \<le> m \<Longrightarrow> m \<le> 12 \<Longrightarrow> m \<in> {1, 2, 3, 4, 5, 6, 7, 8, 9, 10, 11, 12::int}"
  by (simp, presburger)

text \<open>The formula of \<open>rtc_mktime\<close>, in which the year begins in March, counts days.\<close>

lemma gauss_days:
  assumes "1 \<le> m" "m \<le> 12"
  shows "(if m - 2 \<le> 0 then leaps (y - 1) + 367 * (m - 2 + 12) div 12 + d + (y - 1) * 365 - 719499
          else leaps y + 367 * (m - 2) div 12 + d + y * 365 - 719499) = day_count y m d"
  using month_cases [OF assms] leaps_step [of y]
  by (auto simp: day_count_def year_start_def month_offset_def algebra_simps)

text \<open>The dates on which no sum or product of the code leaves the range of \<open>int\<close>.\<close>

definition date_ok :: "rtc_time \<Rightarrow> bool" where
  "date_ok tm \<longleftrightarrow> 1 \<le> tm_mon tm \<and> tm_mon tm \<le> 12 \<and> 1 \<le> tm_year tm \<and> tm_year tm < 5881600 \<and>
     \<bar>tm_mday tm\<bar> < 2 ^ 20 \<and> \<bar>tm_hour tm\<bar> < 2 ^ 31"

lemma day_count_bound:
  assumes "1 \<le> m" "m \<le> 12" "1 \<le> y" "y < 5881600" "\<bar>d\<bar> < 2 ^ 20"
  shows "\<bar>day_count y m d\<bar> < 2 ^ 41"
proof -
  have "0 \<le> leaps (y - 1)" "leaps (y - 1) \<le> y" using assms(3) by (auto simp: leaps_def)
  moreover have "0 \<le> month_offset ! nat (m - 1)" "month_offset ! nat (m - 1) \<le> 334"
    using month_cases [OF assms(1,2)] by (auto simp: month_offset_def)
  ultimately show ?thesis using assms(3-5) by (auto simp: day_count_def year_start_def)
qed

lemma word_days: "(word_of_int a + word_of_int b - 719499 :: u64) * 24 + word_of_int h = word_of_int ((a + b - 719499) * 24 + h)"
  by simp

lemma rtc_mktime_count:
  assumes "date_ok tm"
  shows "rtc_mktime tm = ((day_count (tm_year tm) (tm_mon tm) (tm_mday tm) * 24 + tm_hour tm) * 60 + tm_min tm) * 60 + tm_sec tm"
proof -
  let ?y = "tm_year tm" and ?m = "tm_mon tm" and ?d = "tm_mday tm"
  let ?N = "day_count ?y ?m ?d * 24 + tm_hour tm"
  have ok: "1 \<le> ?m" "?m \<le> 12" "1 \<le> ?y" "?y < 5881600" "\<bar>?d\<bar> < 2 ^ 20" "\<bar>tm_hour tm\<bar> < 2 ^ 31"
    using assms by (auto simp: date_ok_def)
  have "\<bar>?N\<bar> < 2 ^ 47" using day_count_bound [OF ok(1-5)] ok(6) by auto
  then have "sint (word_of_int ?N :: u64) = ?N" by (intro sint_fit) auto
  then have words: "sint ((word_of_int a + word_of_int b - 719499 :: u64) * 24 + word_of_int (tm_hour tm)) = ?N"
    if "a + b - 719499 = day_count ?y ?m ?d" for a b
    unfolding word_days that by simp
  show ?thesis
  proof (cases "?m - 2 \<le> 0")
    case True
    then have "(?y - 1) sdiv 4 - (?y - 1) sdiv 100 + (?y - 1) sdiv 400 + 367 * (?m - 2 + 12) sdiv 12 + ?d + (?y - 1) * 365 - 719499 =
        day_count ?y ?m ?d"
      using gauss_days [OF ok(1,2), of ?y ?d] ok by (simp add: sdiv_pos leaps_def)
    from words [OF this] True show ?thesis by (simp only: rtc_mktime_def Let_def if_True prod.case)
  next
    case False
    then have "?y sdiv 4 - ?y sdiv 100 + ?y sdiv 400 + 367 * (?m - 2) sdiv 12 + ?d + ?y * 365 - 719499 = day_count ?y ?m ?d"
      using gauss_days [OF ok(1,2), of ?y ?d] ok by (simp add: sdiv_pos leaps_def)
    from words [OF this] False show ?thesis by (simp only: rtc_mktime_def Let_def if_False prod.case)
  qed
qed


section \<open>From seconds to a date\<close>

lemma uint_year: "0 \<le> y \<Longrightarrow> y < 2 ^ 32 \<Longrightarrow> uint (word_of_int y :: u32) = y"
  by (simp add: uint_fit)

lemma mod_word_0: "(w::u32) mod word_of_int n = 0 \<longleftrightarrow> uint w mod uint (word_of_int n :: u32) = 0"
  by (simp add: word_uint_eq_iff uint_mod)

lemma is_leap_year_leap: "0 \<le> y \<Longrightarrow> y < 2 ^ 32 \<Longrightarrow> is_leap_year (word_of_int y) = leap y"
  using mod_word_0 [of "word_of_int y" 4] mod_word_0 [of "word_of_int y" 100] mod_word_0 [of "word_of_int y" 400]
  by (simp add: is_leap_year_def leap_def uint_year)

lemma LEAPS_leaps: "0 \<le> y \<Longrightarrow> y < 2 ^ 32 \<Longrightarrow> LEAPS_THRU_END_OF (word_of_int y) = word_of_int (leaps y)"
proof -
  assume y: "0 \<le> y" "y < 2 ^ 32"
  have "(word_of_int y :: u32) div n = word_of_int (y div uint n)" for n
  proof -
    have "y div uint n \<le> y"
    proof (cases "uint n = 0")
      case False
      then have "1 \<le> uint n" using unsigned_greater_eq [of n, where ?'a = int] by linarith
      then show ?thesis using zdiv_mono2 [of y 1 "uint n"] y(1) by simp
    qed (simp add: y)
    moreover have "0 \<le> y div uint n" using y(1) by (simp add: div_int_pos_iff)
    ultimately show ?thesis using y by (simp add: word_uint_eq_iff uint_div uint_year)
  qed
  then show ?thesis by (simp add: LEAPS_THRU_END_OF_def leaps_def)
qed

lemma leaps_mono: "y \<le> y' \<Longrightarrow> leaps y \<le> leaps y'"
proof (induction y' rule: int_ge_induct)
  case (step i)
  then show ?case using leaps_step [of "i + 1"] by simp
qed simp

lemma leaps_1969: "leaps 1969 = 477"
  by (simp add: leaps_def)

lemma year_start_mono: "y \<le> y' \<Longrightarrow> year_start y \<le> year_start y'"
proof (induction y' rule: int_ge_induct)
  case (step i)
  then show ?case using year_start_step [of i] by (auto split: if_splits)
qed simp

lemma to_tm_years_spec:
  assumes "0 \<le> D" "D < year_start (y + 1)" "1970 \<le> y" "y < 2 ^ 31"
  shows "\<exists>y'. to_tm_years (D - year_start y) (word_of_int y) = (D - year_start y', word_of_int y') \<and>
    1970 \<le> y' \<and> y' \<le> y \<and> year_start y' \<le> D \<and> D < year_start (y' + 1)"
  using assms
proof (induction "nat (y - 1970)" arbitrary: y rule: less_induct)
  case less
  show ?case
  proof (cases "D - year_start y < 0")
    case True
    have "year_start 1970 = 0" by (simp add: year_start_def leaps_def)
    then have "y \<noteq> 1970" using True less.prems(1) by auto
    then have y: "1970 \<le> y - 1" "nat (y - 1 - 1970) < nat (y - 1970)" using less.prems(3) by auto
    have l: "is_leap_year (word_of_int y - 1) = leap (y - 1)"
      using is_leap_year_leap [of "y - 1"] y less.prems(4) by simp
    have "to_tm_years (D - year_start y) (word_of_int y) = to_tm_years (D - year_start (y - 1)) (word_of_int (y - 1))"
      using True l year_start_step [of "y - 1"] by (subst to_tm_years.simps) (simp add: algebra_simps)
    moreover have "D < year_start (y - 1 + 1)" using True by simp
    ultimately show ?thesis using less.hyps [OF y(2) less.prems(1) _ y(1)] less.prems(4) by auto
  next
    case False
    then show ?thesis using less.prems by (subst to_tm_years.simps) auto
  qed
qed

definition month_len :: "bool \<Rightarrow> nat \<Rightarrow> int" where
  "month_len l k = rtc_days_in_month ! k + (if l \<and> k = 1 then 1 else 0)"

definition month_start :: "bool \<Rightarrow> nat \<Rightarrow> int" where
  "month_start l k = month_offset ! k + (if l \<and> k > 1 then 1 else 0)"

lemma nat_month_cases: "k < 12 \<Longrightarrow> k \<in> {0, 1, 2, 3, 4, 5, 6, 7, 8, 9, 10, 11::nat}"
  by (simp, presburger)

lemma month_start_Suc: "k < 11 \<Longrightarrow> month_start l (Suc k) = month_start l k + month_len l k"
  using nat_month_cases [of k] by (auto simp: month_start_def month_len_def month_offset_def rtc_days_in_month_def)

lemma to_tm_months_spec:
  assumes "0 \<le> days - month_start l k" "k + n = 11" "days < month_start l 11 + 31" "is_leap_year year = l"
  shows "\<exists>m d. to_tm_months n k (days - month_start l k) year = (m, d) \<and> m < 12 \<and> days = month_start l m + d \<and>
    0 \<le> d \<and> d < month_len l m"
  using assms
proof (induction n arbitrary: k)
  case 0
  then show ?case by (auto simp: month_len_def rtc_days_in_month_def)
next
  case (Suc n)
  have md: "rtc_month_days k year = month_len l k" using Suc.prems(4) by (simp add: rtc_month_days_def month_len_def)
  have nx: "days - month_start l k - month_len l k = days - month_start l (Suc k)"
    using month_start_Suc [of k l] Suc.prems(2) by simp
  show ?case
  proof (cases "days - month_start l (Suc k) < 0")
    case True
    then show ?thesis using md nx Suc.prems by (auto simp: Let_def)
  next
    case False
    have "to_tm_months (Suc n) k (days - month_start l k) year = to_tm_months n (Suc k) (days - month_start l (Suc k)) year"
      using False unfolding to_tm_months.simps Let_def md nx by simp
    then show ?thesis using Suc.IH [of "Suc k"] False Suc.prems by simp
  qed
qed

lemma to_tm_date:
  assumes "0 \<le> D" "D < 2 ^ 31 - 4" and y0: "y0 = 1970 + D div 365"
  obtains y m d where "to_tm_years (D - year_start y0) (word_of_int y0) = (D - year_start y, word_of_int y)"
    "to_tm_months 11 0 (D - year_start y) (word_of_int y) = (m, d)"
    "1970 \<le> y" "y < 5881600" "m < 12" "0 \<le> d" "d < month_len (leap y) m" "D = year_start y + month_start (leap y) m + d"
proof -
  have "1970 \<le> y0" "y0 < 2 ^ 31" using assms by simp_all
  moreover have "D < year_start (y0 + 1)"
  proof -
    have "477 \<le> leaps y0" using leaps_mono [of 1969 y0] leaps_1969 assms by simp
    moreover have "D < (D div 365 + 1) * 365" by presburger
    ultimately show ?thesis unfolding year_start_def y0 by simp
  qed
  ultimately obtain y where y: "to_tm_years (D - year_start y0) (word_of_int y0) = (D - year_start y, word_of_int y)"
      "1970 \<le> y" "y \<le> y0" "year_start y \<le> D" "D < year_start (y + 1)"
    using to_tm_years_spec [OF assms(1), of y0] by blast
  have "year_start 5881600 = 2147490760" by (simp add: year_start_def leaps_def)
  then have small: "y < 5881600" using year_start_mono [of 5881600 y] y(4) assms(2) by (cases "y < 5881600") simp_all
  have l: "is_leap_year (word_of_int y) = leap y" using is_leap_year_leap [of y] y(2) small by simp
  have 0: "month_start l 0 = 0" "month_start l 11 + 31 = 365 + (if l then 1 else 0)" for l
    by (simp_all add: month_start_def month_offset_def)
  obtain m d where md: "to_tm_months 11 0 (D - year_start y) (word_of_int y) = (m, d)" "m < 12"
      "D - year_start y = month_start (leap y) m + d" "0 \<le> d" "d < month_len (leap y) m"
    using to_tm_months_spec [of "D - year_start y" "leap y" 0 11, OF _ _ _ l] y(4,5) year_start_step [of y] 0 by auto
  then have "D = year_start y + month_start (leap y) m + d" by simp
  with md y(1,2) small show thesis by (intro that) simp_all
qed

lemma to_tm_days:
  assumes "0 \<le> D" "D < 2 ^ 31 - 4" and y0: "y0 = 1970 + D div 365"
  shows "sint (word_of_int D - ((word_of_int y0 - 1970) * 365 + LEAPS_THRU_END_OF (word_of_int y0 - 1) - LEAPS_THRU_END_OF (1970 - 1)) :: u32) =
    D - year_start y0"
proof -
  have L: "LEAPS_THRU_END_OF (word_of_int y0 - 1) = word_of_int (leaps (y0 - 1))" "LEAPS_THRU_END_OF (1970 - 1) = word_of_int 477"
    using LEAPS_leaps [of "y0 - 1"] LEAPS_leaps [of 1969] leaps_1969 assms by simp_all
  have "leaps (y0 - 1) \<le> y0" using assms by (simp add: leaps_def)
  moreover have "477 \<le> leaps (y0 - 1)" using leaps_mono [of 1969 "y0 - 1"] leaps_1969 assms by simp
  moreover have "D - year_start y0 = D mod 365 - leaps (y0 - 1) + 477"
    unfolding year_start_def y0 by (simp add: minus_mult_div_eq_mod [symmetric])
  ultimately have "- (2 ^ 31) \<le> D - year_start y0" "D - year_start y0 < 2 ^ 31" using assms by auto
  then have "sint (word_of_int (D - year_start y0) :: u32) = D - year_start y0" by (intro sint_fit) simp_all
  moreover have "word_of_int D - ((word_of_int y0 - 1970) * 365 + word_of_int (leaps (y0 - 1)) - word_of_int 477) =
      (word_of_int (D - year_start y0) :: u32)"
    unfolding year_start_def by simp
  ultimately show ?thesis unfolding L by (simp only:)
qed

text \<open>What a normalised time is, and the seconds it stands for.\<close>

definition calendar :: "rtc_time \<Rightarrow> bool" where
  "calendar tm \<longleftrightarrow> 1970 \<le> tm_year tm \<and> tm_year tm < 5881600 \<and> 1 \<le> tm_mon tm \<and> tm_mon tm \<le> 12 \<and>
     1 \<le> tm_mday tm \<and> tm_mday tm \<le> rtc_month_days (nat (tm_mon tm - 1)) (word_of_int (tm_year tm)) \<and>
     0 \<le> tm_hour tm \<and> tm_hour tm < 24 \<and> 0 \<le> tm_min tm \<and> tm_min tm < 60 \<and> 0 \<le> tm_sec tm \<and> tm_sec tm < 60"

lemma day_count_month: "m < 12 \<Longrightarrow> day_count y (int m + 1) (d + 1) = year_start y + month_start (leap y) m + d"
  by (simp add: day_count_def month_start_def)

lemma rtc_month_days_len: "0 \<le> y \<Longrightarrow> y < 2 ^ 32 \<Longrightarrow> rtc_month_days m (word_of_int y) = month_len (leap y) m"
  using is_leap_year_leap [of y] by (simp add: rtc_month_days_def month_len_def)

lemma rtc_to_tm_count:
  assumes "uint t < 86400 * (2 ^ 31 - 4)"
  shows "calendar (rtc_to_tm t)"
    and "day_count (tm_year (rtc_to_tm t)) (tm_mon (rtc_to_tm t)) (tm_mday (rtc_to_tm t)) = uint t div 86400"
    and "(tm_hour (rtc_to_tm t) * 60 + tm_min (rtc_to_tm t)) * 60 + tm_sec (rtc_to_tm t) = uint t mod 86400"
    and "tm_wday (rtc_to_tm t) = (uint t div 86400 + 4) mod 7"
proof -
  define D y0 where D: "D = uint t div 86400" and y0: "y0 = 1970 + D div 365"
  define s where s: "s = uint t mod 86400"
  have D1: "0 \<le> D" "D < 2 ^ 31 - 4" using assms by (simp_all add: D div_int_pos_iff)
  obtain y m d where ymd: "to_tm_years (D - year_start y0) (word_of_int y0) = (D - year_start y, word_of_int y)"
      "to_tm_months 11 0 (D - year_start y) (word_of_int y) = (m, d)"
      "1970 \<le> y" "y < 5881600" "m < 12" "0 \<le> d" "d < month_len (leap y) m" "D = year_start y + month_start (leap y) m + d"
    by (rule to_tm_date [OF D1 y0])
  have days: "sint (ucast (t div 86400) :: u32) = D"
  proof -
    have "uint (ucast (t div 86400) :: u32) = D"
      using D1 by (simp add: D unsigned_ucast_eq uint_div take_bit_int_eq_self)
    then have "(ucast (t div 86400) :: u32) = word_of_int D" by (metis word_of_int_uint)
    then show ?thesis using D1 by (simp add: sint_fit)
  qed
  have year: "1970 + word_of_int (D div 365) = (word_of_int y0 :: u32)" by (simp add: y0)
  have sd: "D sdiv 365 = D div 365" using D1 by (simp add: sdiv_pos)
  have secs: "uint (t mod 86400) = s" by (simp add: s uint_mod)
  have sy: "sint (word_of_int y :: u32) = y" using ymd(3,4) by (intro sint_fit) simp_all
  have tm: "rtc_to_tm t = \<lparr>tm_sec = s - s div 3600 * 3600 - (s - s div 3600 * 3600) div 60 * 60, tm_min = (s - s div 3600 * 3600) div 60,
      tm_hour = s div 3600, tm_mday = d + 1, tm_mon = int m + 1, tm_year = y, tm_wday = (D + 4) smod 7,
      tm_yday = D - year_start y + 1, tm_isdst = 0\<rparr>"
    unfolding rtc_to_tm_def Let_def days secs sd year to_tm_days [OF D1 y0] ymd(1) prod.case ymd(2) sy ..
  show "day_count (tm_year (rtc_to_tm t)) (tm_mon (rtc_to_tm t)) (tm_mday (rtc_to_tm t)) = uint t div 86400"
    using ymd(5,8) by (simp add: tm day_count_month D [symmetric])
  show "(tm_hour (rtc_to_tm t) * 60 + tm_min (rtc_to_tm t)) * 60 + tm_sec (rtc_to_tm t) = uint t mod 86400"
    by (simp add: tm s [symmetric])
  show "tm_wday (rtc_to_tm t) = (uint t div 86400 + 4) mod 7"
    using D1 by (simp add: tm smod_pos D [symmetric])
  have "0 \<le> s" "s < 86400" by (simp_all add: s)
  then have "0 \<le> s div 3600" "s div 3600 < 24" by (simp_all add: div_int_pos_iff)
  moreover have "0 \<le> s mod 3600 div 60" "s mod 3600 div 60 < 60" by (simp_all add: div_int_pos_iff)
  moreover have "0 \<le> s mod 3600 mod 60" "s mod 3600 mod 60 < 60" by simp_all
  ultimately show "calendar (rtc_to_tm t)"
    using ymd(3-7) rtc_month_days_len [of y m] by (simp add: calendar_def tm minus_div_mult_eq_mod del: mod_mod_trivial)
qed

lemma month_len_31: "m < 12 \<Longrightarrow> month_len l m \<le> 31"
  using nat_month_cases [of m] by (auto simp: month_len_def rtc_days_in_month_def)

lemma calendar_date_ok: "calendar tm \<Longrightarrow> date_ok tm"
  using month_len_31 [of "nat (tm_mon tm - 1)" "leap (tm_year tm)"] rtc_month_days_len [of "tm_year tm" "nat (tm_mon tm - 1)"]
  by (auto simp: calendar_def date_ok_def nat_less_iff)

text \<open>
  C18. Converting seconds to a date and back gives the same seconds, for the 5.8 million years in which the
  count of days fits the \<open>int\<close> of the code.
\<close>

theorem rtc_mktime_to_tm:
  assumes "uint t < 86400 * (2 ^ 31 - 4)"
  shows "rtc_mktime (rtc_to_tm t) = uint t"
proof -
  have sum: "r = u" if "r = ((n * 24 + h) * 60 + m) * 60 + s" "n = q" "(h * 60 + m) * 60 + s = p" "q * 86400 + p = u"
    for r n h m s q p u :: int
    using that by simp
  show ?thesis
    by (rule sum [OF rtc_mktime_count [OF calendar_date_ok [OF rtc_to_tm_count(1) [OF assms]]] rtc_to_tm_count(2,3) [OF assms]
          div_mult_mod_eq])
qed

lemma rtc_mktime_to_tm_witness: "rtc_mktime (rtc_to_tm 951826600) = 951826600"
  using rtc_mktime_to_tm [of 951826600] by simp

lemma calc_weekday_count:
  assumes "1753 \<le> tm_year tm" "date_ok tm" "0 \<le> tm_mday tm"
  shows "rtc_calc_weekday tm =
    Some (tm\<lparr>tm_wday := (day_count (tm_year tm) (tm_mon tm) (tm_mday tm) + 719163) mod 7\<rparr>, 0)"
proof -
  let ?y = "tm_year tm" and ?m = "tm_mon tm" and ?d = "tm_mday tm"
  let ?b = "?y smod 4 = 0 \<and> (?y smod 100 \<noteq> 0 \<or> ?y smod 400 = 0) \<and> 2 < ?m"
  have m: "1 \<le> ?m" "?m \<le> 12" "0 \<le> ?y" "0 \<le> ?y - 1" using assms by (auto simp: date_ok_def)
  have "y mod 400 = 0 \<Longrightarrow> y mod 4 = 0" for y :: int
    unfolding mod_eq_0_iff_dvd by (rule dvd_trans [of _ 400]) simp_all
  from this [of ?y] have b: "?b \<longleftrightarrow> leap ?y \<and> 2 < ?m"
    unfolding leap_def smod_pos [OF m(3), of 4, simplified] smod_pos [OF m(3), of 100, simplified] smod_pos [OF m(3), of 400, simplified]
    by argo
  have l: "(?y - 1) sdiv 4 - (?y - 1) sdiv 100 + (?y - 1) sdiv 400 = leaps (?y - 1)"
    unfolding leaps_def using m by (simp add: sdiv_pos)
  have day: "(if leap ?y \<and> 2 < ?m then 1 else 0) + ((?y - 1) * 365 + leaps (?y - 1) + month_offset ! nat (?m - 1) + ?d) =
      day_count ?y ?m ?d + 719163"
    by (simp add: day_count_def year_start_def)
  have "0 \<le> leaps (?y - 1)" using leaps_mono [of 0 "?y - 1"] m by (simp add: leaps_def)
  moreover have "0 \<le> month_offset ! nat (?m - 1)"
    using month_cases [OF m(1,2)] by (auto simp: month_offset_def)
  ultimately have "0 \<le> day_count ?y ?m ?d + 719163" unfolding day [symmetric] using assms(3) m by simp
  then show ?thesis
    unfolding rtc_calc_weekday_def Let_def b l day using assms(1) m by (simp add: smod_pos)
qed

text \<open>
  The two ways the code computes the day of the week agree: \<open>rtc_calc_weekday\<close> leaves a time produced by
  \<open>rtc_to_tm\<close> as it is.
\<close>

theorem weekday_agrees:
  assumes "uint t < 86400 * (2 ^ 31 - 4)"
  shows "rtc_calc_weekday (rtc_to_tm t) = Some (rtc_to_tm t, 0)"
proof -
  note c = rtc_to_tm_count [OF assms]
  have "(x + 719163) mod 7 = (x + 4) mod 7" for x :: int
    using mod_add_right_eq [of x 719163 7] by simp
  from this [of "uint t div 86400"]
  have "(rtc_to_tm t)\<lparr>tm_wday := (uint t div 86400 + 719163) mod 7\<rparr> = rtc_to_tm t"
    using c(4) by simp
  then show ?thesis
    using calc_weekday_count [OF _ calendar_date_ok [OF c(1)]] c(1,2) by (simp add: calendar_def)
qed

lemma weekday_agrees_witness: "rtc_calc_weekday (rtc_to_tm 951826600) = Some (rtc_to_tm 951826600, 0)"
  using weekday_agrees [of 951826600] by simp

section \<open>Every date is found again\<close>

lemma month_start_mono: "m < m' \<Longrightarrow> m' < 12 \<Longrightarrow> month_start l m + month_len l m \<le> month_start l m'"
proof (induction m')
  case (Suc k)
  have "0 \<le> month_len l k"
    using nat_month_cases [of k] Suc.prems by (auto simp: month_len_def rtc_days_in_month_def)
  then show ?case using Suc month_start_Suc [of k l] by (cases "m = k") simp_all
qed simp

lemma calendar_day:
  assumes "calendar tm"
  obtains m d where "tm_mon tm = int m + 1" "tm_mday tm = d + 1" "m < 12" "0 \<le> d" "d < month_len (leap (tm_year tm)) m"
    "day_count (tm_year tm) (tm_mon tm) (tm_mday tm) = year_start (tm_year tm) + month_start (leap (tm_year tm)) m + d"
    "year_start (tm_year tm) \<le> day_count (tm_year tm) (tm_mon tm) (tm_mday tm)"
    "day_count (tm_year tm) (tm_mon tm) (tm_mday tm) < year_start (tm_year tm + 1)"
proof -
  define m d where md: "m = nat (tm_mon tm - 1)" "d = tm_mday tm - 1"
  let ?l = "leap (tm_year tm)"
  have m: "tm_mon tm = int m + 1" "tm_mday tm = d + 1" "m < 12" "0 \<le> d" "d < month_len ?l m"
    using assms rtc_month_days_len [of "tm_year tm" m] by (auto simp: calendar_def md)
  have "0 \<le> month_start ?l m" using nat_month_cases [OF m(3)] by (auto simp: month_start_def month_offset_def)
  moreover have "month_start ?l m + month_len ?l m \<le> 365 + (if ?l then 1 else 0)"
    using nat_month_cases [OF m(3)]
    by (auto simp: month_start_def month_offset_def month_len_def rtc_days_in_month_def)
  ultimately show thesis
    using that [OF m] day_count_month [OF m(3), of "tm_year tm" d] year_start_step [of "tm_year tm"] m by simp
qed

lemma day_count_unique:
  assumes "calendar a" "calendar b" "day_count (tm_year a) (tm_mon a) (tm_mday a) = day_count (tm_year b) (tm_mon b) (tm_mday b)"
  shows "tm_year a = tm_year b \<and> tm_mon a = tm_mon b \<and> tm_mday a = tm_mday b"
proof -
  obtain m d where A: "tm_mon a = int m + 1" "tm_mday a = d + 1" "m < 12" "0 \<le> d" "d < month_len (leap (tm_year a)) m"
    "day_count (tm_year a) (tm_mon a) (tm_mday a) = year_start (tm_year a) + month_start (leap (tm_year a)) m + d"
    "year_start (tm_year a) \<le> day_count (tm_year a) (tm_mon a) (tm_mday a)"
    "day_count (tm_year a) (tm_mon a) (tm_mday a) < year_start (tm_year a + 1)"
    by (rule calendar_day [OF assms(1)])
  obtain m' d' where B: "tm_mon b = int m' + 1" "tm_mday b = d' + 1" "m' < 12" "0 \<le> d'" "d' < month_len (leap (tm_year b)) m'"
    "day_count (tm_year b) (tm_mon b) (tm_mday b) = year_start (tm_year b) + month_start (leap (tm_year b)) m' + d'"
    "year_start (tm_year b) \<le> day_count (tm_year b) (tm_mon b) (tm_mday b)"
    "day_count (tm_year b) (tm_mon b) (tm_mday b) < year_start (tm_year b + 1)"
    by (rule calendar_day [OF assms(2)])
  have y: "tm_year a = tm_year b"
    using year_start_mono [of "tm_year a + 1" "tm_year b"] year_start_mono [of "tm_year b + 1" "tm_year a"] A(7,8) B(7,8) assms(3)
    by (cases "tm_year a" "tm_year b" rule: linorder_cases) simp_all
  let ?l = "leap (tm_year b)"
  have "month_start ?l m + d = month_start ?l m' + d'" using A(6) B(6) y assms(3) by simp
  then have "m = m'"
    using month_start_mono [of m m' ?l] month_start_mono [of m' m ?l] A(3-5) B(3-5) y
    by (cases m m' rule: linorder_cases) simp_all
  then show ?thesis using A B y assms(3) by simp
qed

lemma radix_unique:
  assumes "a * n + r = b * n + q" "0 \<le> r" "r < n" "0 \<le> q" "q < (n::int)"
  shows "a = b \<and> r = q"
  using assms int_div_pos_eq [of "a * n + r" n a r] int_div_pos_eq [of "a * n + r" n b q] by (simp add: mult.commute)

lemma clock_unique:
  assumes "calendar a" "calendar b" "(tm_hour a * 60 + tm_min a) * 60 + tm_sec a = (tm_hour b * 60 + tm_min b) * 60 + tm_sec b"
  shows "tm_hour a = tm_hour b \<and> tm_min a = tm_min b \<and> tm_sec a = tm_sec b"
  using radix_unique [OF assms(3)] radix_unique [of "tm_hour a" 60 "tm_min a" "tm_hour b" "tm_min b"] assms(1,2)
  unfolding calendar_def by blast

text \<open>
  C19. Converting a normalised date from 1970 on to seconds and back finds the same year, month, day, hour,
  minute and second.
\<close>

theorem rtc_to_tm_mktime:
  assumes "calendar tm" "tm_year tm < 5881580" and tm': "tm' = rtc_to_tm (word_of_int (rtc_mktime tm))"
  shows "tm_year tm' = tm_year tm \<and> tm_mon tm' = tm_mon tm \<and> tm_mday tm' = tm_mday tm \<and>
    tm_hour tm' = tm_hour tm \<and> tm_min tm' = tm_min tm \<and> tm_sec tm' = tm_sec tm"
proof -
  define N where N: "N = day_count (tm_year tm) (tm_mon tm) (tm_mday tm)"
  define s where s: "s = (tm_hour tm * 60 + tm_min tm) * 60 + tm_sec tm"
  have "year_start (tm_year tm) \<le> N" "N < year_start (tm_year tm + 1)"
    using calendar_day [OF assms(1)] N by metis+
  moreover have "year_start 1970 = 0" "year_start 5881580 < 2 ^ 31 - 4" by (simp_all add: year_start_def leaps_def)
  ultimately have n: "0 \<le> N" "N < 2 ^ 31 - 4"
    using year_start_mono [of 1970 "tm_year tm"] year_start_mono [of "tm_year tm + 1" 5881580] assms(1,2)
    by (simp_all add: calendar_def)
  have sb: "0 \<le> s" "s < 86400" using assms(1) by (simp_all add: calendar_def s)
  have mk: "rtc_mktime tm = N * 86400 + s"
    using rtc_mktime_count [OF calendar_date_ok [OF assms(1)]] by (simp add: N s algebra_simps)
  then have t: "uint (word_of_int (rtc_mktime tm) :: u64) = N * 86400 + s"
    using n sb by (simp only: mk) (rule uint_fit; simp)
  then have "uint (word_of_int (rtc_mktime tm) :: u64) < 86400 * (2 ^ 31 - 4)" using n sb by simp
  note c = rtc_to_tm_count [OF this, folded tm', unfolded t]
  have "day_count (tm_year tm') (tm_mon tm') (tm_mday tm') = N"
    "(tm_hour tm' * 60 + tm_min tm') * 60 + tm_sec tm' = s"
    using c(2,3) sb by simp_all
  then show ?thesis
    using day_count_unique [OF c(1) assms(1)] clock_unique [OF c(1) assms(1)] by (simp add: N s)
qed

definition leap_day :: rtc_time where
  "leap_day = \<lparr>tm_sec = 59, tm_min = 59, tm_hour = 23, tm_mday = 29, tm_mon = 2, tm_year = 2000, tm_wday = 0, tm_yday = 0, tm_isdst = 0\<rparr>"

lemma leap_day_calendar: "calendar leap_day"
  by (simp add: calendar_def leap_day_def rtc_month_days_def rtc_days_in_month_def is_leap_year_def)

lemma rtc_to_tm_mktime_witness: "tm_mday (rtc_to_tm (word_of_int (rtc_mktime leap_day))) = 29"
  using rtc_to_tm_mktime [OF leap_day_calendar _ refl] by (simp add: leap_day_def)

end
