(* ===== verification/EnvCommon.thy ===== *)
theory EnvCommon
  imports Envtext Crc Strto
begin

text \<open>
  The environment of \<open>env/common.c\<close>: setting and getting variables, the linear search that is used
  before the table exists, defaults, and the stored form of the environment with its checksum and,
  in builds with a redundant copy, its serial number. It is built on the table (\<open>Hashtable\<close>), its
  text form (\<open>Envtext\<close>), the checksum (\<open>Crc\<close>) and the number parser (\<open>Strto\<close>).

  The global state is the record \<open>env_gd\<close>. The default environment, the sizes, the allocator and the
  callbacks of the table are the record \<open>env_cfg\<close>; \<open>ec_size\<close> is \<open>ENV_SIZE\<close>. An operation is \<open>None\<close> when a search in the table
  does not return, which the lemmas exclude for well-formed tables, or when the code reads through a
  null pointer or writes outside a buffer.
\<close>

section \<open>Model\<close>

datatype env_valid = ENV_INVALID | ENV_VALID | ENV_REDUND

text \<open>\<open>env_flags\<close> is the serial number, used in builds with \<open>CONFIG_SYS_REDUNDAND_ENVIRONMENT\<close>.\<close>

record env_gd =
  env_htab :: hsearch_data
  gd_env_ready :: bool
  gd_env_default :: bool
  gd_env_valid :: env_valid
  env_id :: int
  env_flags :: u8
  env_errno :: int
  gd_env_addr :: ptr

record env_cfg =
  ec_henv :: henv
  ec_import :: import_config
  ec_size :: nat
  ec_redundant :: bool
  ec_mem :: mem
  ec_default_ptr :: ptr
  ec_default_len :: nat
  ec_data_addr :: ptr

record env_t =
  et_crc :: u32
  et_flags :: u8
  et_data :: "u8 list"

abbreviation (input) ENOMSG :: int where "ENOMSG \<equiv> 42"
abbreviation (input) H_FORCE :: int where "H_FORCE \<equiv> 2"
abbreviation (input) H_INTERACTIVE :: int where "H_INTERACTIVE \<equiv> 4"
abbreviation (input) H_PROGRAMMATIC :: int where "H_PROGRAMMATIC \<equiv> 512"
abbreviation (input) H_DEFAULT :: int where "H_DEFAULT \<equiv> 1024"
abbreviation (input) CMD_RET_USAGE :: int where "CMD_RET_USAGE \<equiv> - 1"

subsection \<open>Setting\<close>

definition env_get_id :: "env_gd \<Rightarrow> int" where
  "env_get_id gd = env_id gd"

definition env_inc_id :: "env_gd \<Rightarrow> env_gd" where
  "env_inc_id gd = gd\<lparr>env_id := env_id gd + 1\<rparr>"

text \<open>The letters of one option: \<open>None\<close> is the return with \<open>CMD_RET_USAGE\<close>.\<close>

fun set_opt_letters :: "cstring \<Rightarrow> int \<Rightarrow> int option" where
  "set_opt_letters [] env_flag = Some env_flag"
| "set_opt_letters (c # arg) env_flag = (if c = 102 then set_opt_letters arg (env_flag OR H_FORCE) else None)"

text \<open>The options at the front of the arguments after the command name.\<close>

fun set_opts :: "cstring list \<Rightarrow> int \<Rightarrow> (cstring list \<times> int) option" where
  "set_opts [] env_flag = Some ([], env_flag)"
| "set_opts (arg # argv) env_flag =
     (if take 1 arg = [45]
      then case set_opt_letters (tl arg) env_flag of None \<Rightarrow> None | Some env_flag' \<Rightarrow> set_opts argv env_flag'
      else Some (arg # argv, env_flag))"

fun join_args :: "cstring list \<Rightarrow> cstring" where
  "join_args [] = []"
| "join_args [v] = v"
| "join_args (v # argv) = v @ 32 # join_args argv"

text \<open>
  \<open>argv\<close> are the arguments after the command name; \<open>malloc_value\<close> says whether \<open>malloc\<close> gives the
  buffer of the value. The result is \<open>None\<close> also when no name is left after the options: the code
  then passes a null pointer to \<open>strchr\<close>.
\<close>

definition env_do_env_set :: "env_cfg \<Rightarrow> bool \<Rightarrow> env_gd \<Rightarrow> cstring list \<Rightarrow> int \<Rightarrow> (env_gd \<times> int) option" where
  "env_do_env_set cfg malloc_value gd argv env_flag =
     (case set_opts argv env_flag of
        None \<Rightarrow> Some (gd, CMD_RET_USAGE)
      | Some ([], flag) \<Rightarrow> None
      | Some (name # args, flag) \<Rightarrow>
          if 61 \<in> set name then Some (gd, 1)
          else
            let gd1 = env_inc_id gd
            in if args = [] then
                 map_option (\<lambda>(h, errno, rc).
                     (gd1\<lparr>env_htab := h, env_errno := errno\<rparr>, if rc \<noteq> 0 \<and> rc \<noteq> - ENOENT then 1 else 0))
                   (hdelete_r (ec_henv cfg) name (env_htab gd1) (env_errno gd1) flag)
               else if \<not> malloc_value then Some (gd1, 1)
               else
                 map_option (\<lambda>(h, errno, rc, ep).
                     (gd1\<lparr>env_htab := h, env_errno := errno\<rparr>, if ep = None then 1 else 0))
                   (hsearch_r (ec_henv cfg) name (Some (join_args args)) ENV_ENTER (env_htab gd1) (env_errno gd1) flag))"

definition env_set :: "env_cfg \<Rightarrow> bool \<Rightarrow> env_gd \<Rightarrow> cstring \<Rightarrow> cstring option \<Rightarrow> (env_gd \<times> int) option" where
  "env_set cfg malloc_value gd varname varvalue =
     (if \<not> gd_env_ready gd then Some (gd, 1)
      else if varvalue = None \<or> varvalue = Some [] then env_do_env_set cfg malloc_value gd [varname] H_PROGRAMMATIC
      else env_do_env_set cfg malloc_value gd [varname, the varvalue] H_PROGRAMMATIC)"

subsection \<open>The linear search\<close>

text \<open>
  The loop for the end of an entry: \<open>None\<close> is the return with \<open>-1\<close>. \<open>sz\<close> is \<open>CONFIG_ENV_SIZE\<close>.
\<close>

function linear_end :: "mem \<Rightarrow> ptr \<Rightarrow> nat \<Rightarrow> ptr \<Rightarrow> ptr option" where
  "linear_end m env sz end_p =
     (if m end_p \<noteq> 0 then if sz \<le> end_p - env then None else linear_end m env sz (Suc end_p) else Some end_p)"
  by pat_completeness auto
termination
  by (relation "measure (\<lambda>(m, env, sz, e). env + sz - e)") auto

declare linear_end.simps [simp del]

text \<open>\<open>strncmp\<close> of the name with the bytes at \<open>p\<close> and the test for the equals sign after it.\<close>

definition linear_match :: "mem \<Rightarrow> cstring \<Rightarrow> ptr \<Rightarrow> bool" where
  "linear_match m name p \<longleftrightarrow> mem_bytes m p (length name) = name \<and> m (p + length name) = 61"

lemma linear_end_ge: "linear_end m env sz e = Some e' \<Longrightarrow> e \<le> e'"
proof (induction m env sz e rule: linear_end.induct)
  case (1 m env sz e)
  then show ?case by (subst (asm) (2) linear_end.simps) (auto split: if_splits)
qed

lemma linear_end_bound: "linear_end m env sz e = Some e' \<Longrightarrow> m e \<noteq> 0 \<Longrightarrow> e < env + sz"
  by (subst (asm) linear_end.simps) (auto split: if_splits)

text \<open>The loop over the entries: the address of the value and of its end.\<close>

function linear_loop :: "mem \<Rightarrow> ptr \<Rightarrow> nat \<Rightarrow> cstring \<Rightarrow> ptr \<Rightarrow> (ptr \<times> ptr) option" where
  "linear_loop m env sz name p =
     (if m p = 0 then None
      else case linear_end m env sz p of
        None \<Rightarrow> None
      | Some end_p \<Rightarrow>
          if linear_match m name p then Some (p + length name + 1, end_p)
          else linear_loop m env sz name (end_p + 1))"
  by pat_completeness auto
termination
proof (relation "measure (\<lambda>(m, env, sz, name, p). env + sz - p)", goal_cases)
  case (2 m env sz name p end_p)
  then show ?case using linear_end_ge [of m env sz p end_p] linear_end_bound [of m env sz p end_p] by simp
qed simp

declare linear_loop.simps [simp del]

text \<open>
  \<open>env_get_from_linear\<close>: the return value and the bytes in \<open>buf\<close> that it wrote. The code reads the
  name as a string, so \<open>name\<close> has no null byte. With \<open>len = 0\<close> it writes to \<open>buf[-1]\<close>, which is \<open>None\<close>.
\<close>

definition env_get_from_linear :: "mem \<Rightarrow> ptr \<Rightarrow> nat \<Rightarrow> cstring \<Rightarrow> nat \<Rightarrow> (int \<times> u8 list) option" where
  "env_get_from_linear m env sz name len =
     (if name = [] then Some (- 1, [])
      else case linear_loop m env sz name env of
        None \<Rightarrow> Some (- 1, [])
      | Some (value, end_p) \<Rightarrow>
          let res = end_p - value; buf = mem_bytes m value (min len (res + 1))
          in if len \<le> res then if len = 0 then None else Some (int res, buf[len - 1 := 0])
             else Some (int res, buf))"


subsection \<open>Getting\<close>

text \<open>\<open>CONFIG_ENV_SIZE\<close>, from the size of the data and of the header.\<close>

definition config_env_size :: "env_cfg \<Rightarrow> nat" where
  "config_env_size cfg = ec_size cfg + (if ec_redundant cfg then 5 else 4)"

definition env_get_f :: "env_cfg \<Rightarrow> env_gd \<Rightarrow> cstring \<Rightarrow> nat \<Rightarrow> (int \<times> u8 list) option" where
  "env_get_f cfg gd name len =
     (let env = (if gd_env_valid gd = ENV_INVALID then ec_default_ptr cfg else gd_env_addr gd)
      in env_get_from_linear (ec_mem cfg) env (config_env_size cfg) name len)"

definition env_get_default_into :: "env_cfg \<Rightarrow> cstring \<Rightarrow> nat \<Rightarrow> (int \<times> u8 list) option" where
  "env_get_default_into cfg name len =
     env_get_from_linear (ec_mem cfg) (ec_default_ptr cfg) (config_env_size cfg) name len"

text \<open>A buffer read as a string; \<open>gd->env_buf\<close> has 32 bytes.\<close>

definition buf_string :: "(int \<times> u8 list) option \<Rightarrow> cstring option option" where
  "buf_string r = map_option (\<lambda>(ret, buf). if 0 \<le> ret then Some (takeWhile (\<lambda>c. c \<noteq> 0) buf) else None) r"

definition env_get_default :: "env_cfg \<Rightarrow> cstring \<Rightarrow> cstring option option" where
  "env_get_default cfg name = buf_string (env_get_default_into cfg name 32)"

definition env_get :: "env_cfg \<Rightarrow> env_gd \<Rightarrow> cstring \<Rightarrow> (env_gd \<times> cstring option) option" where
  "env_get cfg gd name =
     (if gd_env_ready gd then
        map_option (\<lambda>(h, errno, rc, ep).
            (gd\<lparr>env_htab := h, env_errno := errno\<rparr>,
             case ep of Some idx \<Rightarrow> e_data (entry (table h ! idx)) | None \<Rightarrow> None))
          (hsearch_r (ec_henv cfg) name None ENV_FIND (env_htab gd) (env_errno gd) 0)
      else map_option (\<lambda>r. (gd, r)) (buf_string (env_get_f cfg gd name 32)))"

text \<open>\<open>from_env\<close> also prints a message when there is no variable.\<close>

definition from_env :: "env_cfg \<Rightarrow> env_gd \<Rightarrow> cstring \<Rightarrow> (env_gd \<times> cstring option) option" where
  "from_env cfg gd envvar = env_get cfg gd envvar"

text \<open>A value as a string in memory, for the number parser.\<close>

definition string_mem :: "cstring \<Rightarrow> mem" where
  "string_mem s = mem_store (\<lambda>_. 0) 1 (s @ [0])"

definition env_get_ulong :: "env_cfg \<Rightarrow> env_gd \<Rightarrow> cstring \<Rightarrow> u32 \<Rightarrow> u64 \<Rightarrow> (env_gd \<times> u64) option" where
  "env_get_ulong cfg gd name base default_val =
     Option.bind (env_get cfg gd name) (\<lambda>(gd', str). case str of
         None \<Rightarrow> Some (gd', default_val)
       | Some s \<Rightarrow> map_option (\<lambda>(v, endp). (gd', v)) (simple_strtoul (string_mem s) 1 base))"

definition env_get_hex :: "env_cfg \<Rightarrow> env_gd \<Rightarrow> cstring \<Rightarrow> u64 \<Rightarrow> (env_gd \<times> u64) option" where
  "env_get_hex cfg gd varname default_val =
     Option.bind (env_get cfg gd varname) (\<lambda>(gd', str). case str of
         None \<Rightarrow> Some (gd', default_val)
       | Some s \<Rightarrow> map_option (\<lambda>(v, endp). (gd', if endp = 1 then default_val else v)) (hextoul (string_mem s) 1))"

definition env_get_yesno :: "env_cfg \<Rightarrow> env_gd \<Rightarrow> cstring \<Rightarrow> (env_gd \<times> int) option" where
  "env_get_yesno cfg gd var =
     map_option (\<lambda>(gd', s). (gd', case s of
         None \<Rightarrow> - 1
       | Some str \<Rightarrow> if take 1 str \<in> {[49], [121], [89], [116], [84]} then 1 else 0)) (env_get cfg gd var)"

definition env_get_autostart :: "env_cfg \<Rightarrow> env_gd \<Rightarrow> (env_gd \<times> bool) option" where
  "env_get_autostart cfg gd =
     map_option (\<lambda>(gd', r). (gd', r = 1)) (env_get_yesno cfg gd [97, 117, 116, 111, 115, 116, 97, 114, 116])"

subsection \<open>Defaults, import and export\<close>

definition env_set_default :: "env_cfg \<Rightarrow> env_gd \<Rightarrow> int \<Rightarrow> env_gd option" where
  "env_set_default cfg gd flags =
     map_option (\<lambda>(h, errno, r).
         let gd1 = gd\<lparr>env_htab := h, env_errno := errno\<rparr>
         in if r = 0 then gd1 else gd1\<lparr>gd_env_ready := True, gd_env_default := True\<rparr>)
       (himport_r (ec_henv cfg) (ec_import cfg) (env_htab gd)
          (mem_bytes (ec_mem cfg) (ec_default_ptr cfg) (ec_default_len cfg)) (ec_default_len cfg) 0
          (flags OR H_DEFAULT) False [] (env_errno gd))"

definition env_set_default_vars :: "env_cfg \<Rightarrow> env_gd \<Rightarrow> cstring list \<Rightarrow> int \<Rightarrow> (env_gd \<times> int) option" where
  "env_set_default_vars cfg gd vars flags =
     map_option (\<lambda>(h, errno, r). (gd\<lparr>env_htab := h, env_errno := errno\<rparr>, r))
       (himport_r (ec_henv cfg) (ec_import cfg) (env_htab gd)
          (mem_bytes (ec_mem cfg) (ec_default_ptr cfg) (ec_default_len cfg)) (ec_default_len cfg) 0
          (flags OR (H_NOCLEAR OR H_DEFAULT)) False vars (env_errno gd))"

definition env_import :: "env_cfg \<Rightarrow> env_gd \<Rightarrow> env_t \<Rightarrow> bool \<Rightarrow> int \<Rightarrow> (env_gd \<times> int) option" where
  "env_import cfg gd ep check flags =
     (if check \<and> crc32 0 (ec_data_addr cfg) (et_data ep) \<noteq> et_crc ep
      then map_option (\<lambda>gd'. (gd', - ENOMSG)) (env_set_default cfg gd 0)
      else
        Option.bind (himport_r (ec_henv cfg) (ec_import cfg) (env_htab gd) (et_data ep) (ec_size cfg) 0 flags False []
                       (env_errno gd))
          (\<lambda>(h, errno, r).
             let gd1 = gd\<lparr>env_htab := h, env_errno := errno\<rparr>
             in if r \<noteq> 0 then Some (gd1\<lparr>gd_env_ready := True\<rparr>, 0)
                else map_option (\<lambda>gd'. (gd', - EIO)) (env_set_default cfg gd1 0)))"

definition env_check_redund :: "env_cfg \<Rightarrow> env_gd \<Rightarrow> env_t \<Rightarrow> bool \<Rightarrow> env_t \<Rightarrow> bool \<Rightarrow> env_gd \<times> int" where
  "env_check_redund cfg gd env1 buf1_read_fail env2 buf2_read_fail =
     (if buf1_read_fail \<and> buf2_read_fail then (gd, - EIO)
      else
        let crc1_ok = (\<not> buf1_read_fail \<and> crc32 0 (ec_data_addr cfg) (et_data env1) = et_crc env1);
            crc2_ok = (\<not> buf2_read_fail \<and> crc32 0 (ec_data_addr cfg) (et_data env2) = et_crc env2)
        in if \<not> crc1_ok \<and> \<not> crc2_ok then (gd\<lparr>gd_env_valid := ENV_INVALID\<rparr>, - ENOMSG)
           else if crc1_ok \<and> \<not> crc2_ok then (gd\<lparr>gd_env_valid := ENV_VALID\<rparr>, 0)
           else if \<not> crc1_ok \<and> crc2_ok then (gd\<lparr>gd_env_valid := ENV_REDUND\<rparr>, 0)
           else if et_flags env1 = 255 \<and> et_flags env2 = 0 then (gd\<lparr>gd_env_valid := ENV_REDUND\<rparr>, 0)
           else if et_flags env2 = 255 \<and> et_flags env1 = 0 then (gd\<lparr>gd_env_valid := ENV_VALID\<rparr>, 0)
           else if et_flags env1 > et_flags env2 then (gd\<lparr>gd_env_valid := ENV_VALID\<rparr>, 0)
           else if et_flags env2 > et_flags env1 then (gd\<lparr>gd_env_valid := ENV_REDUND\<rparr>, 0)
           else (gd\<lparr>gd_env_valid := ENV_VALID\<rparr>, 0))"

definition env_import_redund ::
  "env_cfg \<Rightarrow> env_gd \<Rightarrow> env_t \<Rightarrow> bool \<Rightarrow> env_t \<Rightarrow> bool \<Rightarrow> int \<Rightarrow> (env_gd \<times> int) option" where
  "env_import_redund cfg gd buf1 buf1_read_fail buf2 buf2_read_fail flags =
     (case env_check_redund cfg gd buf1 buf1_read_fail buf2 buf2_read_fail of (gd1, ret) \<Rightarrow>
        if ret = - EIO then map_option (\<lambda>gd'. (gd', - EIO)) (env_set_default cfg gd1 0)
        else if ret = - ENOMSG then map_option (\<lambda>gd'. (gd', - ENOMSG)) (env_set_default cfg gd1 0)
        else
          let ep = (if gd_env_valid gd1 = ENV_VALID then buf1 else buf2)
          in env_import cfg (gd1\<lparr>env_flags := et_flags ep\<rparr>) ep False flags)"

text \<open>
  \<open>env_export\<close> into \<open>env_out\<close>, whose data has \<open>ENV_SIZE\<close> bytes. \<open>hexport_r\<close> clears them first. It is
  \<open>None\<close> when the text is longer than that.
\<close>

definition env_export :: "env_cfg \<Rightarrow> env_gd \<Rightarrow> env_t \<Rightarrow> (env_gd \<times> int \<times> env_t) option" where
  "env_export cfg gd env_out =
     (case hexport_r (ec_henv cfg) (env_htab gd) 0 0 True True (ec_size cfg) [] (env_errno gd) of
        (errno, len, None) \<Rightarrow> Some (gd\<lparr>env_errno := errno\<rparr>, 1, env_out)
      | (errno, len, Some txt) \<Rightarrow>
          if length txt > ec_size cfg then None
          else
            let data = txt @ replicate (ec_size cfg - length txt) 0;
                out1 = env_out\<lparr>et_data := data, et_crc := crc32 0 (ec_data_addr cfg) data\<rparr>;
                gd1 = gd\<lparr>env_errno := errno\<rparr>
            in if ec_redundant cfg
               then Some (gd1\<lparr>env_flags := env_flags gd + 1\<rparr>, 0, out1\<lparr>et_flags := env_flags gd + 1\<rparr>)
               else Some (gd1, 0, out1))"

subsection \<open>Completion\<close>

lemma hmatch_loop_range: "hmatch_loop mat htab i n = Some j \<Longrightarrow> i \<le> j \<and> j < i + n"
  by (induction mat htab i n rule: hmatch_loop.induct) (fastforce simp: Let_def split: if_splits)+

lemma hmatch_r_range: "hmatch_r mat idx htab errno = (e, r, Some j) \<Longrightarrow> idx < j \<and> j < h_size htab"
  using hmatch_loop_range [of mat htab "idx + 1" "h_size htab - (idx + 1)" j]
  by (auto simp: hmatch_r_def split: option.splits)

text \<open>
  The loop of \<open>env_complete\<close>: \<open>errno\<close>, the value of \<open>idx\<close> when it ends, and the completions in the order
  found. The buffer holds them one after the other, so that each is a string of its own.
\<close>

function complete_loop ::
  "hsearch_data \<Rightarrow> bool \<Rightarrow> cstring \<Rightarrow> int \<Rightarrow> int \<Rightarrow> nat \<Rightarrow> cstring list \<Rightarrow> int \<Rightarrow> int \<times> nat \<times> cstring list" where
  "complete_loop htab dollar_comp var maxv errno idx found bufsz =
     (case hmatch_r var idx htab errno of
        (errno', r, None) \<Rightarrow> (errno', 0, found)
      | (errno', r, Some idx') \<Rightarrow>
          let key = the (e_key (entry (table htab ! idx')));
              vallen = int (length key) + 1
          in if int (length found) \<ge> maxv - 2 \<or> bufsz < vallen + (if dollar_comp then 3 else 0)
             then (errno', idx', found)
             else complete_loop htab dollar_comp var maxv errno' idx'
                    (found @ [if dollar_comp then [36, 123] @ key @ [125] else key])
                    (bufsz - vallen - (if dollar_comp then 3 else 0)))"
  by pat_completeness auto
termination
  by (relation "measure (\<lambda>(htab, dollar, var, maxv, errno, idx, found, bufsz). h_size htab - idx)")
     (auto dest!: hmatch_r_range [OF sym])

declare complete_loop.simps [simp del]

text \<open>The strings in \<open>cmdv\<close>, of which there are as many as the function returns.\<close>

definition env_complete :: "env_gd \<Rightarrow> cstring \<Rightarrow> int \<Rightarrow> int \<Rightarrow> bool \<Rightarrow> env_gd \<times> cstring list" where
  "env_complete gd var maxv bufsz dollar_comp =
     (if dollar_comp \<and> take 1 var \<noteq> [36] then (gd, [])
      else
        let var1 = (if dollar_comp then tl var else var)
        in if dollar_comp \<and> take 1 var1 \<noteq> [123] \<and> var1 \<noteq> [] then (gd, [])
           else
             let var2 = (if dollar_comp \<and> take 1 var1 = [123] then tl var1 else var1);
                 (errno, idx, found) = complete_loop (env_htab gd) dollar_comp var2 maxv (env_errno gd) 0 [] bufsz;
                 sorted = qsort lex_cmp found
             in (gd\<lparr>env_errno := errno\<rparr>,
                 if idx \<noteq> 0 then sorted @ [if dollar_comp then [36, 123, 46, 46, 46, 125] else [46, 46, 46]] else sorted))"

section \<open>Getting what was set\<close>

lemma set_opts_plain: "take 1 name \<noteq> [45] \<Longrightarrow> set_opts (name # args) flag = Some (name # args, flag)"
  by simp

text \<open>The table of a ready environment; in the linear search the text of the pairs lies at \<open>env\<close>.\<close>

definition env_wf :: "env_cfg \<Rightarrow> env_gd \<Rightarrow> bool" where
  "env_wf cfg gd \<longleftrightarrow> gd_env_ready gd \<and> h_ok (ec_henv cfg) (env_htab gd)"

lemma env_get_ready:
  assumes "env_wf cfg gd"
  shows "\<exists>gd'. env_get cfg gd name = Some (gd', hmap (env_htab gd) name) \<and> env_htab gd' = env_htab gd"
proof -
  have wf: "h_wf (char_val (ec_henv cfg)) (env_htab gd)" using assms by (simp add: env_wf_def h_ok_def)
  show ?thesis
    using assms find_spec [OF wf, of name None "env_errno gd" 0]
    by (cases "hmap (env_htab gd) name") (auto simp: env_get_def env_wf_def holds_def)
qed

text \<open>The map after a variable was set, or deleted by an empty value.\<close>

definition set_var :: "cstring \<Rightarrow> cstring option \<Rightarrow> (cstring \<rightharpoonup> cstring) \<Rightarrow> (cstring \<rightharpoonup> cstring)" where
  "set_var name value f = f(name := if value = Some [] then None else value)"

lemma env_do_set_delete:
  assumes "h_ok (ec_henv cfg) (env_htab gd)" "take 1 name \<noteq> [45]" "61 \<notin> set name"
  shows "\<exists>errno. env_do_env_set cfg ok gd [name] flag =
    Some (gd\<lparr>env_htab := h_del (ec_henv cfg) (env_errno gd) flag (env_htab gd) name, env_errno := errno, env_id := env_id gd + 1\<rparr>, 0)"
proof -
  have wf: "h_wf (char_val (ec_henv cfg)) (env_htab gd)" "accepts (ec_henv cfg) (env_htab gd)"
    using assms(1) by (auto simp: h_ok_def)
  obtain h errno ret where d: "hdelete_r (ec_henv cfg) name (env_htab gd) (env_errno gd) flag = Some (h, errno, ret)"
    and ret: "ret = 0 \<or> ret = - ENOENT"
    using delete_spec [OF wf(1), of name "env_errno gd" flag] wf(2) by (auto split: if_splits)
  then show ?thesis
    using assms(2,3) by (cases gd) (auto simp: env_do_env_set_def env_inc_id_def Let_def h_del_def)
qed

lemma env_do_set_enter:
  assumes "h_ok (ec_henv cfg) (env_htab gd)" "take 1 name \<noteq> [45]" "61 \<notin> set name" "args \<noteq> []"
    "name \<in> dom (hmap (env_htab gd)) \<or> card (dom (hmap (env_htab gd))) < h_size (env_htab gd)"
  shows "env_do_env_set cfg True gd (name # args) flag =
    Some (gd\<lparr>env_htab := h_enter (ec_henv cfg) (env_errno gd) flag (env_htab gd) name (join_args args),
             env_id := env_id gd + 1\<rparr>, 0)"
proof -
  have wf: "h_wf (char_val (ec_henv cfg)) (env_htab gd)" "accepts (ec_henv cfg) (env_htab gd)" "env_ok (ec_henv cfg)"
    using assms(1) by (auto simp: h_ok_def)
  have room: "name \<in> dom (hmap (env_htab gd)) \<or> filled (env_htab gd) \<noteq> h_size (env_htab gd)"
    using assms(5) filled_card [OF wf(1)] by auto
  obtain h errno ret rv where run: "hsearch_r (ec_henv cfg) name (Some (join_args args)) ENV_ENTER (env_htab gd)
      (env_errno gd) flag = Some (h, errno, ret, rv)" and rv: "rv \<noteq> None" "errno = env_errno gd"
    using enter_spec [OF wf(1,3), of name "join_args args" "env_errno gd" flag] wf(2) room by (auto split: if_splits)
  then show ?thesis
    using assms(2-4) by (cases gd) (auto simp: env_do_env_set_def env_inc_id_def Let_def h_enter_def)
qed

section \<open>The linear search in an exported text\<close>

lemma linear_end_zero: "\<lbrakk>\<forall>i<n. m (e + i) \<noteq> 0; m (e + n) = 0; e + n \<le> env + sz; env \<le> e\<rbrakk> \<Longrightarrow>
    linear_end m env sz e = Some (e + n)"
proof (induction n arbitrary: e)
  case 0
  then show ?case by (subst linear_end.simps) simp
next
  case (Suc n)
  have "linear_end m env sz (Suc e) = Some (Suc e + n)"
  proof (rule Suc.IH)
    show "\<forall>i<n. m (Suc e + i) \<noteq> 0" using Suc.prems(1) by (metis Suc_less_eq add_Suc_shift)
  qed (use Suc.prems in auto)
  moreover have "m e \<noteq> 0" using Suc.prems(1) by (metis add.right_neutral zero_less_Suc)
  ultimately show ?case using Suc.prems by (subst linear_end.simps) simp
qed


lemma escape_value_zero: "0 \<notin> set v \<Longrightarrow> 0 \<notin> set (escape_value sep v)"
  by (induction v) auto

lemma key_match_unique:
  assumes "61 \<notin> set k" "61 \<notin> set name"
    "take (length name) (k @ 61 # r) = name" "(k @ 61 # r @ [0]) ! length name = 61" "length name < length (k @ 61 # r)"
  shows "k = name"
  using assms
proof (induction k arbitrary: name)
  case Nil
  then show ?case by (cases name) auto
next
  case (Cons c k)
  show ?case
  proof (cases name)
    case Nil
    then show ?thesis using Cons.prems by auto
  next
    case (Cons d name')
    then show ?thesis using Cons.prems Cons.IH [of name'] by auto
  qed
qed

lemma mem_bytes_parts:
  assumes "mem_bytes m p (length (a @ b)) = a @ b"
  shows "mem_bytes m p (length a) = a \<and> mem_bytes m (p + length a) (length b) = b"
  using assms unfolding length_append mem_bytes_add by simp

lemma linear_match_entry:
  assumes "mem_bytes m p (length (k @ 61 # w @ [0])) = k @ 61 # w @ [0]" "0 \<notin> set w" "0 \<notin> set k" "61 \<notin> set k"
    "0 \<notin> set name" "61 \<notin> set name"
  shows "linear_match m name p \<longleftrightarrow> name = k"
proof -
  let ?e = "k @ 61 # w @ [0]"
  have at: "m (p + i) = ?e ! i" if "i < length ?e" for i
    using arg_cong [OF assms(1), of "\<lambda>xs. xs ! i"] that by simp
  show ?thesis
  proof
    assume l: "linear_match m name p"
    have short: "length name < length (k @ 61 # w)"
    proof (rule ccontr)
      assume "\<not> ?thesis"
      then have n: "length (k @ 61 # w) \<le> length name" by simp
      show False
      proof (cases "length (k @ 61 # w) = length name")
        case True
        have "m (p + length (k @ 61 # w)) = 0" using at [of "length (k @ 61 # w)"] by (simp add: nth_append)
        then show False using l unfolding True by (simp add: linear_match_def)
      next
        case False
        then have lt: "length (k @ 61 # w) < length name" using n by simp
        then have "name ! length (k @ 61 # w) = 0"
          using l at [of "length (k @ 61 # w)"] nth_mem_bytes [of "length (k @ 61 # w)" "length name" m p]
          by (simp add: linear_match_def nth_append)
        then show False using lt assms(5) by (metis nth_mem)
      qed
    qed
    have "take (length name) (mem_bytes m p (length ?e)) = name"
      using l short by (simp add: linear_match_def take_mem_bytes)
    then have "take (length name) ((k @ 61 # w) @ [0]) = name" unfolding assms(1) by simp
    then have "take (length name) (k @ 61 # w) = name" using short unfolding take_append by simp
    moreover have "?e ! length name = 61" using l short at [of "length name"] by (simp add: linear_match_def)
    ultimately show "name = k" using key_match_unique [of k name w] assms(4,6) short by simp
  next
    assume "name = k"
    then show "linear_match m name p"
      using take_mem_bytes [of "length k" "length ?e" m p] assms(1) at [of "length k"]
      by (simp add: linear_match_def nth_append)
  qed
qed

lemma linear_loop_text:
  assumes "mem_bytes m p (length (text_of 0 kvs @ [0])) = text_of 0 kvs @ [0]"
    "\<forall>(k, v) \<in> set kvs. name_ok 0 k \<and> value_ok v" "0 \<notin> set name" "61 \<notin> set name"
    "env \<le> p" "p + length (text_of 0 kvs) \<le> env + sz"
  shows "(map_of kvs name = None \<longrightarrow> linear_loop m env sz name p = None) \<and>
    (\<forall>v. map_of kvs name = Some v \<longrightarrow> (\<exists>q. linear_loop m env sz name p = Some (q, q + length (escape_value 0 v)) \<and>
       mem_bytes m q (length (escape_value 0 v) + 1) = escape_value 0 v @ [0]))"
  using assms
proof (induction kvs arbitrary: p)
  case Nil
  then have "m p = 0" using mem_bytes_Suc [of m p 0] by simp
  then show ?case by (subst linear_loop.simps) simp
next
  case (Cons kv kvs)
  obtain k v where kv: "kv = (k, v)" by fastforce
  let ?w = "escape_value 0 v" and ?e = "k @ 61 # escape_value 0 v @ [0]"
  have ok: "name_ok 0 k" "value_ok v" using Cons.prems(2) kv by auto
  then have zero: "0 \<notin> set ?w" "0 \<notin> set k" "61 \<notin> set k" "k \<noteq> []"
    using escape_value_zero by (auto simp: name_ok_def value_ok_def)
  have text_eq: "text_of 0 (kv # kvs) @ [0] = ?e @ text_of 0 kvs @ [0]" by (simp add: kv entry_text_def)
  have len: "length (text_of 0 (kv # kvs) @ [0]) = length ?e + length (text_of 0 kvs @ [0])" unfolding text_eq by simp
  have split: "mem_bytes m p (length ?e) = ?e"
    "mem_bytes m (p + length ?e) (length (text_of 0 kvs @ [0])) = text_of 0 kvs @ [0]"
    using mem_bytes_parts [of m p ?e "text_of 0 kvs @ [0]"] Cons.prems(1) unfolding text_eq by blast+
  have at: "m (p + i) = ?e ! i" if "i < length ?e" for i
    using arg_cong [OF split(1), of "\<lambda>xs. xs ! i"] that by simp
  have nz: "\<forall>i < length ?e - 1. m (p + i) \<noteq> 0"
  proof (intro allI impI)
    fix i assume i: "i < length ?e - 1"
    then have "?e ! i \<in> set (k @ 61 # ?w)" by (metis append_Cons append_assoc butlast_snoc length_butlast nth_butlast nth_mem)
    then show "m (p + i) \<noteq> 0" using at [of i] i zero by auto
  qed
  have "m (p + (length ?e - 1)) = 0" using at [of "length ?e - 1"] by (simp add: nth_append)
  then have fin: "linear_end m env sz p = Some (p + (length ?e - 1))"
    using nz Cons.prems(5,6) len by (intro linear_end_zero) auto
  have p0: "m p \<noteq> 0" using nz zero(4) by (metis add.right_neutral append_Cons append_assoc butlast_snoc length_butlast length_greater_0_conv append_is_Nil_conv list.distinct(1))
  note match = linear_match_entry [OF split(1) zero(1-3) Cons.prems(3,4)]
  show ?case
  proof (cases "name = k")
    case True
    then have "linear_loop m env sz name p = Some (p + length k + 1, p + length k + 1 + length ?w)"
      using fin p0 match by (subst linear_loop.simps) simp
    moreover have "mem_bytes m (p + length k + 1) (length ?w + 1) = ?w @ [0]"
      using split(1) drop_mem_bytes [of "length k + 1" "length ?e" m p] by (simp add: add.assoc)
    ultimately show ?thesis using True kv by auto
  next
    case False
    then have "linear_loop m env sz name p = linear_loop m env sz name (p + length ?e)"
      using fin p0 match by (subst linear_loop.simps) simp
    moreover have "map_of (kv # kvs) name = map_of kvs name" using False kv by simp
    moreover note Cons.IH [OF split(2) _ Cons.prems(3,4)]
    ultimately show ?thesis using Cons.prems(2,5,6) len by auto
  qed
qed


section \<open>The stored environment\<close>

abbreviation crc_good :: "env_cfg \<Rightarrow> env_t \<Rightarrow> bool" where
  "crc_good cfg env \<equiv> crc32 0 (ec_data_addr cfg) (et_data env) = et_crc env"

lemma env_export_spec:
  assumes "h_ok (ec_henv cfg) (env_htab gd)" "env_export cfg gd env_out = Some (gd1, 0, env)"
  shows "\<exists>kvs. (\<forall>k v. (k, v) \<in> set kvs \<longleftrightarrow> hmap (env_htab gd) k = Some v) \<and>
      et_data env = (text_of 0 kvs @ [0]) @ replicate (ec_size cfg - length (text_of 0 kvs @ [0])) 0 \<and>
      length (text_of 0 kvs @ [0]) \<le> ec_size cfg \<and> crc_good cfg env \<and> env_htab gd1 = env_htab gd \<and>
      (ec_redundant cfg \<longrightarrow> et_flags env = env_flags gd + 1 \<and> env_flags gd1 = env_flags gd + 1)"
proof -
  define kvs where "kvs = pairs (qsort cmpkey (export_list (ec_henv cfg) (env_htab gd) 0 []))"
  have wf: "h_wf (char_val (ec_henv cfg)) (env_htab gd)" using assms(1) by (simp add: h_ok_def)
  have kvs: "(k, v) \<in> set kvs \<longleftrightarrow> hmap (env_htab gd) k = Some v" for k v
    unfolding kvs_def set_pairs_qsort by (rule export_list_all [OF wf]) simp
  have "export_text 0 (qsort cmpkey (export_list (ec_henv cfg) (env_htab gd) 0 [])) = text_of 0 kvs @ [0]"
    unfolding kvs_def by (rule export_text_pairs)
  then show ?thesis
    using assms(2) kvs by (intro exI [of _ kvs]) (auto simp: env_export_def hexport_r_def Let_def split: if_splits)
qed

text \<open>What the import needs of the configuration to have room for the variables of \<open>f\<close>.\<close>

definition import_room :: "env_cfg \<Rightarrow> (cstring \<rightharpoonup> cstring) \<Rightarrow> bool" where
  "import_room cfg f \<longleftrightarrow>
     malloc_ok (ec_import cfg) \<and> calloc_ok (ec_import cfg) \<and> \<not> env_append (ec_import cfg) \<and>
     (let nent = min (min_entries (ec_import cfg) + ec_size cfg div 8) (Envtext.max_entries (ec_import cfg))
      in 2 \<le> nent \<and> nent \<le> 521 \<and> card (dom f) \<le> nent)"

lemma env_import_pairs:
  assumes "env_ok (ec_henv cfg)" "accepts (ec_henv cfg) (env_htab gd0)" "import_room cfg f" "flags AND H_NOCLEAR = 0"
    "\<And>k v. (k, v) \<in> set kvs \<longleftrightarrow> f k = Some v" "\<And>k v. f k = Some v \<Longrightarrow> name_ok 0 k \<and> value_ok v"
    "et_data env = (text_of 0 kvs @ [0]) @ replicate (ec_size cfg - length (text_of 0 kvs @ [0])) 0"
    "length (text_of 0 kvs @ [0]) \<le> ec_size cfg" "check \<longrightarrow> crc_good cfg env"
  shows "\<exists>gd'. env_import cfg gd0 env check flags = Some (gd', 0) \<and> env_wf cfg gd' \<and> hmap (env_htab gd') = f \<and>
    env_flags gd' = env_flags gd0"
proof -
  have room: "malloc_ok (ec_import cfg)" "calloc_ok (ec_import cfg)" "\<not> env_append (ec_import cfg)"
    "2 \<le> min (min_entries (ec_import cfg) + ec_size cfg div 8) (Envtext.max_entries (ec_import cfg))"
    "min (min_entries (ec_import cfg) + ec_size cfg div 8) (Envtext.max_entries (ec_import cfg)) \<le> 521"
    "card (dom f) \<le> min (min_entries (ec_import cfg) + ec_size cfg div 8) (Envtext.max_entries (ec_import cfg))"
    using assms(3) unfolding import_room_def Let_def by blast+
  obtain h e where h: "himport_r (ec_henv cfg) (ec_import cfg) (env_htab gd0) (et_data env) (ec_size cfg) 0 flags False []
      (env_errno gd0) = Some (h, e, 1)" "h_ok (ec_henv cfg) h" "hmap h = f"
    using import_pairs [OF assms(1,2) _ _ assms(5,6) refl assms(8) room(1-3) refl room(4-6) assms(4), of "env_errno gd0"]
    unfolding assms(7) by auto
  then show ?thesis using assms(9) by (auto simp: env_import_def env_wf_def Let_def)
qed


lemma burst_bad:
  assumes "et_data env = xs @ a @ ys" "length a = length b" "length a \<le> 4" "a \<noteq> b" "crc_good cfg env"
  shows "\<not> crc_good cfg (env\<lparr>et_data := xs @ b @ ys\<rparr>)"
proof
  assume "crc_good cfg (env\<lparr>et_data := xs @ b @ ys\<rparr>)"
  then have "NOT (crc32_reg (NOT 0) (xs @ b @ ys)) = NOT (crc32_reg (NOT 0) (xs @ a @ ys))"
    using assms(1,5) unfolding crc32_reg_form by simp
  then have "crc32_reg (NOT 0) (xs @ b @ ys) = crc32_reg (NOT 0) (xs @ a @ ys)" by (metis bit.double_compl)
  then show False using crc32_reg_burst [of b a] assms(2-4) by metis
qed

lemma next_serial: "f \<noteq> 255 \<Longrightarrow> f < f + (1::u8)" "f = 255 \<Longrightarrow> f + 1 = (0::u8)"
proof -
  assume "f \<noteq> 255"
  then have "unat f \<noteq> 255" by (simp add: word_unat_eq_iff)
  moreover have "unat f < 256" by (rule order.strict_trans2 [OF unsigned_less]) simp
  ultimately show "f < f + 1" by (simp add: word_less_nat_alt unat_word_ariths)
qed simp

lemma check_redund_newest:
  assumes "crc_good cfg old" "crc_good cfg new" "et_flags new = et_flags old + 1"
  shows "env_check_redund cfg gd old False new False = (gd\<lparr>gd_env_valid := ENV_REDUND\<rparr>, 0)
    \<and> env_check_redund cfg gd new False old False = (gd\<lparr>gd_env_valid := ENV_VALID\<rparr>, 0)"
  using next_serial [of "et_flags old"] assms
  by (cases "et_flags old = 255") (auto simp: env_check_redund_def)

lemma check_redund_torn:
  assumes "crc_good cfg old" "\<not> crc_good cfg bad \<or> fail"
  shows "env_check_redund cfg gd old False bad fail = (gd\<lparr>gd_env_valid := ENV_VALID\<rparr>, 0)
    \<and> env_check_redund cfg gd bad fail old False = (gd\<lparr>gd_env_valid := ENV_REDUND\<rparr>, 0)"
  using assms by (auto simp: env_check_redund_def Let_def)

section \<open>Properties\<close>

definition demo_cfg :: env_cfg where
  "demo_cfg = \<lparr>ec_henv = demo_env, ec_import = demo_config, ec_size = 64, ec_redundant = True,
     ec_mem = mem_store (\<lambda>_. 0) 8 [97, 61, 49, 0, 98, 61, 50, 51, 0, 0], ec_default_ptr = 8, ec_default_len = 10, ec_data_addr = 4\<rparr>"

definition demo_gd :: "hsearch_data \<Rightarrow> env_gd" where
  "demo_gd htab = \<lparr>env_htab = htab, gd_env_ready = True, gd_env_default = False, gd_env_valid = ENV_VALID,
     env_id = 1, env_flags = 255, env_errno = 0, gd_env_addr = 8\<rparr>"




lemma export_list_length:
  assumes "h_wf cval htab" "flag AND H_HIDE_DOT = 0"
  shows "length (export_list env htab flag []) = card (dom (hmap htab))"
proof -
  let ?t = "table htab"
  have "{i \<in> {1..h_size htab}. 0 < slot_used htab i} = Suc ` {i. i < length (tl ?t) \<and> 0 < used (tl ?t ! i)}"
    (is "?A = Suc ` ?B")
  proof (intro equalityI subsetI)
    fix i assume "i \<in> ?A"
    then show "i \<in> Suc ` ?B" using h_wfD(3) [OF assms(1)] by (intro image_eqI [of _ _ "i - 1"]) (auto simp: nth_tl)
  qed (use h_wfD(3) [OF assms(1)] in \<open>auto simp: nth_tl\<close>)
  then have "card ?A = card ?B" by (simp add: card_image)
  then show ?thesis
    using assms h_wfD(3,4) [OF assms(1)] filled_card [OF assms(1)]
    by (simp add: export_list_def export_wanted_def length_filter_conv_card)
qed

lemma demo_export:
  obtains htab where "h_ok demo_env htab" "hmap htab = [[97] \<mapsto> [92, 10]]"
    "\<forall>k v. hmap htab k = Some v \<longrightarrow> name_ok 0 k \<and> value_ok v"
    "\<forall>gd out. env_htab gd = htab \<longrightarrow> (\<exists>gd1 env. env_export demo_cfg gd out = Some (gd1, 0, env))"
proof -
  obtain htab where h: "h_ok demo_env htab" "hmap htab = [[97] \<mapsto> [92, 10]]" by (rule demo_table)
  have wf: "h_wf (char_val demo_env) htab" using h(1) by (simp add: h_ok_def)
  define eps where "eps = export_list demo_env htab 0 []"
  have "length eps = 1" using export_list_length [OF wf, of 0 demo_env] h(2) by (simp add: eps_def)
  then obtain ep where ep: "eps = [ep]" by (auto simp: length_Suc_conv)
  have "([97], [92, 10]) \<in> set (pairs eps)" using export_list_all(2) [OF wf, of 0] h(2) by (simp add: eps_def)
  then have kd: "the (e_key ep) = [97]" "the (e_data ep) = [92, 10]" by (auto simp: ep pairs_def)
  have "length (export_text 0 (qsort cmpkey eps)) = 7"
    unfolding export_qsort_length by (simp add: ep kd entry_len_def uncounted_def)
  then have "\<exists>gd1 env. env_export demo_cfg gd out = Some (gd1, 0, env)" if "env_htab gd = htab" for gd out
    using that ep kd
    by (simp add: env_export_def hexport_r_def Let_def demo_cfg_def demo_config_def eps_def [symmetric] entry_len_def)
  moreover have "name_ok 0 k \<and> value_ok v" if "hmap htab k = Some v" for k v
    using that h(2) by (auto simp: name_ok_def value_ok_def isblank_def split: if_splits)
  ultimately show thesis using that h by blast
qed

lemma demo_room: "import_room demo_cfg [[97] \<mapsto> [92, 10]]"
  by (simp add: import_room_def demo_cfg_def demo_config_def)







text \<open>
  Before the table exists, \<open>env_get_f\<close> searches the exported text itself and agrees with the table
  up to two points that callers have to know: for a variable of the text it returns the length of the
  value as it was exported, with every backslash doubled, and leaves it in the buffer, cut to the
  buffer and always ended by a null byte; for another name it returns -1.
\<close>

theorem env_get_f_linear:
  assumes "env = (if gd_env_valid gd = ENV_INVALID then ec_default_ptr cfg else gd_env_addr gd)"
    "mem_bytes (ec_mem cfg) env (length (text_of 0 kvs @ [0])) = text_of 0 kvs @ [0]"
    "\<forall>(k, v) \<in> set kvs. name_ok 0 k \<and> value_ok v" "length (text_of 0 kvs) \<le> config_env_size cfg"
    "0 \<notin> set name" "61 \<notin> set name" "name \<noteq> []" "0 < len"
  shows "env_get_f cfg gd name len =
    (case map_of kvs name of
       None \<Rightarrow> Some (- 1, [])
     | Some v \<Rightarrow> Some (int (length (escape_value 0 v)), take (len - 1) (escape_value 0 v) @ [0]))"
proof -
  note loop = linear_loop_text [OF assms(2,3,5,6), of env "config_env_size cfg"]
  show ?thesis
  proof (cases "map_of kvs name")
    case None
    then show ?thesis using loop assms(1,4,7) by (auto simp: env_get_f_def env_get_from_linear_def Let_def)
  next
    case (Some v)
    let ?w = "escape_value 0 v"
    obtain q where q: "linear_loop (ec_mem cfg) env (config_env_size cfg) name env = Some (q, q + length ?w)"
      "mem_bytes (ec_mem cfg) q (length ?w + 1) = ?w @ [0]"
      using loop Some assms(4) by auto
    have buf: "mem_bytes (ec_mem cfg) q (min len (length ?w + 1)) = take len (?w @ [0])"
      unfolding q(2) [symmetric] by (simp add: take_mem_bytes min_def)
    have "(take len ?w)[len - 1 := 0] = take (len - 1) ?w @ [0]" if "len \<le> length ?w"
      using that assms(8) by (cases len) (simp_all add: take_Suc_conv_app_nth list_update_append)
    then show ?thesis
      using q(1) buf assms(1,7,8) Some by (auto simp: env_get_f_def env_get_from_linear_def Let_def)
  qed
qed

theorem env_get_f_linear_witness:
  "env_get_f demo_cfg (demo_gd no_table) [98] 2 = Some (2, [50, 0])"
proof -
  have mem: "mem_bytes (ec_mem demo_cfg) 8 (length (text_of 0 [([97], [49]), ([98], [50, 51])] @ [0])) =
      text_of 0 [([97], [49]), ([98], [50, 51])] @ [0]"
    by (simp add: demo_cfg_def entry_text_def mem_store_same)
  show ?thesis
    using env_get_f_linear [OF _ mem, of "demo_gd no_table" "[98]" 2]
    by (simp add: demo_cfg_def demo_gd_def name_ok_def value_ok_def isblank_def config_env_size_def entry_text_def)
qed

text \<open>
  The option \<open>-f\<close> without a name: nothing is left for the name, and the code passes the null pointer
  after the arguments to \<open>strchr\<close>.
\<close>

lemma env_set_force_no_name: "env_do_env_set cfg ok gd [[45, 102]] flag = None"
  by (simp add: env_do_env_set_def)

text \<open>Completion of a name returns at most \<open>maxv - 1\<close> strings, in order.\<close>

lemma complete_loop_length:
  "0 \<le> maxv - 2 \<Longrightarrow> int (length found) \<le> maxv - 2 \<Longrightarrow>
   int (length (snd (snd (complete_loop htab dollar var maxv errno idx found bufsz)))) \<le> maxv - 2"
proof (induction htab dollar var maxv errno idx found bufsz rule: complete_loop.induct)
  case (1 htab dollar var maxv errno idx found bufsz)
  obtain e r x where h: "hmatch_r var idx htab errno = (e, r, x)" by (metis prod.exhaust)
  show ?case
  proof (cases x)
    case None
    then show ?thesis using h 1(3) by (subst complete_loop.simps) simp
  next
    case (Some i)
    then show ?thesis using h 1 by (subst complete_loop.simps) (auto simp: Let_def)
  qed
qed

end
