(* ===== verification/EnvAttr.thy ===== *)
theory EnvAttr
  imports Envtext
begin

text \<open>
  Attribute lists: \<open>env/attr.c\<close>, and \<open>skip_spaces\<close> and \<open>strim\<close> of \<open>lib/linux_string.c\<close>. A list such as
  \<open>ethaddr:mo,serial#:so\<close> gives attributes to variables; \<open>.flags\<close> and \<open>.callbacks\<close> have this form.
  Strings are the lists of their bytes and pointers into a string are positions, where the position
  at the length is the terminating null byte (\<open>byte_at\<close>). \<open>rx\<close> is the matcher of \<open>slre.c\<close>: \<open>None\<close> is a build
  without \<open>CONFIG_REGEX\<close>; otherwise it gives for a pattern that compiles the strings it matches.

  \<open>env_attr_walk_text\<close> and \<open>lookup_last\<close> relate the two readers to the list of entries a text stands
  for: the walk visits them in order and the lookup finds the last one of a name.
\<close>

section \<open>Model\<close>

definition skip_spaces :: "cstring \<Rightarrow> cstring" where
  "skip_spaces str = dropWhile isspace str"

definition strim :: "cstring \<Rightarrow> cstring" where
  "strim s = (let s1 = skip_spaces s in if s1 = [] then s1 else rev (dropWhile isspace (rev s1)))"

text \<open>
  One turn of the loop of \<open>env_attr_walk\<close>: the entry is copied, cut at the separator and stripped, and
  the callback gets the name and the attributes. The state of the callback is threaded through; its
  result is \<open>None\<close> when it does not return. \<open>mem_ok\<close> says whether there is memory for the copy.
\<close>

definition attr_entry ::
  "(cstring \<Rightarrow> bool) \<Rightarrow> (cstring \<Rightarrow> cstring option \<Rightarrow> 's \<Rightarrow> ('s \<times> int) option) \<Rightarrow> cstring \<Rightarrow> 's \<Rightarrow> ('s \<times> int) option" where
  "attr_entry mem_ok callback e s =
     (if e = [] then Some (s, 0)
      else if \<not> mem_ok e then Some (s, - ENOMEM)
      else
        let attributes = (if 58 \<in> set e then Some (strim (tl (dropWhile (\<lambda>c. c \<noteq> 58) e))) else None);
            name = strim (takeWhile (\<lambda>c. c \<noteq> 58) e)
        in if name \<noteq> [] then callback name attributes s else Some (s, 0))"

function attr_walk_loop ::
  "(cstring \<Rightarrow> bool) \<Rightarrow> (cstring \<Rightarrow> cstring option \<Rightarrow> 's \<Rightarrow> ('s \<times> int) option) \<Rightarrow> cstring \<Rightarrow> 's \<Rightarrow> ('s \<times> int) option" where
  "attr_walk_loop mem_ok callback lst s =
     Option.bind (attr_entry mem_ok callback (takeWhile (\<lambda>c. c \<noteq> 44) lst) s) (\<lambda>(s', retval).
       if retval \<noteq> 0 then Some (s', retval)
       else if 44 \<in> set lst then attr_walk_loop mem_ok callback (tl (dropWhile (\<lambda>c. c \<noteq> 44) lst)) s'
       else Some (s', 0))"
  by pat_completeness auto
termination
proof (relation "measure (\<lambda>(mo, cb, e, s). length e)", goal_cases)
  case (2 mo cb e s r s' ret)
  then have "dropWhile (\<lambda>c. c \<noteq> 44) e \<noteq> []" by (auto simp: dropWhile_eq_Nil_conv)
  then show ?case using length_dropWhile_le [of "\<lambda>c. c \<noteq> 44" e] by (cases "dropWhile (\<lambda>c. c \<noteq> 44) e") auto
qed simp

declare attr_walk_loop.simps [simp del]

definition env_attr_walk ::
  "(cstring \<Rightarrow> bool) \<Rightarrow> cstring option \<Rightarrow> (cstring \<Rightarrow> cstring option \<Rightarrow> 's \<Rightarrow> ('s \<times> int) option) \<Rightarrow> 's \<Rightarrow> ('s \<times> int) option" where
  "env_attr_walk mem_ok attr_list callback s =
     (case attr_list of None \<Rightarrow> Some (s, 1) | Some lst \<Rightarrow> attr_walk_loop mem_ok callback lst s)"

subsection \<open>Lookup with regular expressions\<close>

text \<open>
  The state is the pair of \<open>regex\<close> and \<open>attributes\<close> of \<open>regex_callback_priv\<close>; memory is available. A pattern without attributes
  ends the walk with an error.
\<close>

definition regex_callback ::
  "(cstring \<Rightarrow> (cstring \<Rightarrow> bool) option) \<Rightarrow> cstring \<Rightarrow> cstring \<Rightarrow> cstring option \<Rightarrow> (cstring \<times> cstring) option \<Rightarrow>
   ((cstring \<times> cstring) option \<times> int) option" where
  "regex_callback rx searched_for name attributes priv =
     Some (let pat = 94 # name @ [36]
           in case rx pat of
                Some matches \<Rightarrow>
                  if matches searched_for then
                    case attributes of None \<Rightarrow> (priv, - EINVAL) | Some a \<Rightarrow> (Some (pat, a), 0)
                  else (priv, 0)
              | None \<Rightarrow> (priv, - EINVAL))"

subsection \<open>Lookup of a name\<close>

text \<open>\<open>strstr\<close> from a position: the first position at or after it where the name occurs.\<close>

definition occurs_at :: "cstring \<Rightarrow> cstring \<Rightarrow> nat \<Rightarrow> bool" where
  "occurs_at searched name i \<longleftrightarrow> take (length name) (drop i searched) = name"

definition strstr_from :: "cstring \<Rightarrow> cstring \<Rightarrow> nat \<Rightarrow> nat option" where
  "strstr_from searched name i = find (occurs_at searched name) [i ..< length searched]"

function skip_back :: "cstring \<Rightarrow> int \<Rightarrow> int" where
  "skip_back searched prevch =
     (if 0 \<le> prevch \<and> byte_at searched (nat prevch) = 32 then skip_back searched (prevch - 1) else prevch)"
  by pat_completeness auto
termination
  by (relation "measure (\<lambda>(s, p). nat (p + 1))") auto

function skip_blanks :: "cstring \<Rightarrow> nat \<Rightarrow> nat" where
  "skip_blanks s i = (if byte_at s i = 32 then skip_blanks s (Suc i) else i)"
  by pat_completeness auto
termination
proof (relation "measure (\<lambda>(s, i). length s - i)", goal_cases)
  case (2 s i)
  then show ?case using byte_at_less [of s i] by simp
qed simp

declare skip_back.simps [simp del] skip_blanks.simps [simp del]

text \<open>
  Whether the loop accepts a match. The code also reads the byte before the list, when only blanks
  precede the match; the outcome does not depend on it.
\<close>

definition exact_match :: "cstring \<Rightarrow> cstring \<Rightarrow> nat \<Rightarrow> bool" where
  "exact_match searched name i =
     (let prevch = skip_back searched (int i - 1);
          nextch = byte_at searched (skip_blanks searched (i + length name))
      in (i = 0 \<or> prevch = - 1 \<or> byte_at searched (nat prevch) = 44) \<and> (nextch = 58 \<or> nextch = 44 \<or> nextch = 0))"

function name_search_loop :: "cstring \<Rightarrow> cstring \<Rightarrow> nat \<Rightarrow> nat option \<Rightarrow> nat option" where
  "name_search_loop searched name cur_searched result =
     (case strstr_from searched name cur_searched of
        None \<Rightarrow> result
      | Some i \<Rightarrow> name_search_loop searched name (i + 1) (if exact_match searched name i then Some i else result))"
  by pat_completeness auto
termination
proof (relation "measure (\<lambda>(s, n, cur, r). length s - cur)", goal_cases)
  case (2 s n cur r i)
  then show ?case by (auto simp: strstr_from_def find_Some_iff)
qed simp

declare name_search_loop.simps [simp del]

text \<open>The position of the last exact match and the length of the name.\<close>

definition reverse_name_search :: "cstring \<Rightarrow> cstring \<Rightarrow> nat option \<times> nat" where
  "reverse_name_search searched search_for =
     (if search_for = [] then (Some 0, length searched)
      else (name_search_loop searched search_for 0 None, length search_for))"

text \<open>
  \<open>env_attr_lookup\<close>: the return value and, on success, the string written to \<open>attributes\<close>. The code does not
  know the size of that buffer. \<open>attr_read\<close> is the part after the name was found.
\<close>

definition attr_read :: "cstring \<Rightarrow> nat \<Rightarrow> cstring" where
  "attr_read attr_list p =
     (let e1 = skip_blanks attr_list p
      in if byte_at attr_list e1 \<noteq> 58 then []
         else let e2 = skip_blanks attr_list (e1 + 1) in takeWhile (\<lambda>c. c \<noteq> 44 \<and> c \<noteq> 32) (drop e2 attr_list))"

definition attr_lookup_plain :: "cstring \<Rightarrow> cstring \<Rightarrow> int \<times> cstring option" where
  "attr_lookup_plain attr_list name =
     (case reverse_name_search attr_list name of
        (None, nlen) \<Rightarrow> (- ENOENT, None)
      | (Some pos, nlen) \<Rightarrow>
          (0, Some (attr_read attr_list (pos + nlen))))"

definition env_attr_lookup ::
  "(cstring \<Rightarrow> (cstring \<Rightarrow> bool) option) option \<Rightarrow> cstring option \<Rightarrow> cstring \<Rightarrow> int \<times> cstring option" where
  "env_attr_lookup rx attr_list name =
     (case attr_list of
        None \<Rightarrow> (- EINVAL, None)
      | Some al \<Rightarrow>
          (case rx of
             None \<Rightarrow> attr_lookup_plain al name
           | Some r \<Rightarrow>
               (case env_attr_walk (\<lambda>e. True) (Some al) (regex_callback r name) None of
                  Some (priv, retval) \<Rightarrow>
                    if retval \<noteq> 0 then (retval, None)
                    else (case priv of Some (pat, a) \<Rightarrow> (0, Some a) | None \<Rightarrow> (- ENOENT, None))
                | None \<Rightarrow> (- EINVAL, None))))"

section \<open>The entries of a list\<close>

text \<open>
  A list as the macros of the configuration build it: entries without blanks, separated by commas; an
  entry may be empty, as after a comma at the end.
\<close>

type_synonym attr_pair = "cstring \<times> cstring option"

definition clean :: "u8 \<Rightarrow> bool" where
  "clean c \<longleftrightarrow> c \<noteq> 0 \<and> c \<noteq> 44 \<and> c \<noteq> 58 \<and> \<not> isspace c"

definition pair_ok :: "attr_pair \<Rightarrow> bool" where
  "pair_ok p \<longleftrightarrow> fst p \<noteq> [] \<and> list_all clean (fst p) \<and> (case snd p of Some a \<Rightarrow> list_all clean a | None \<Rightarrow> True)"

definition pair_text :: "attr_pair \<Rightarrow> cstring" where
  "pair_text p = fst p @ (case snd p of Some a \<Rightarrow> 58 # a | None \<Rightarrow> [])"

definition item_text :: "attr_pair option \<Rightarrow> cstring" where
  "item_text x = (case x of Some p \<Rightarrow> pair_text p | None \<Rightarrow> [])"

fun attr_text :: "attr_pair option list \<Rightarrow> cstring" where
  "attr_text [] = []"
| "attr_text [x] = item_text x"
| "attr_text (x # xs) = item_text x @ 44 # attr_text xs"

definition items_ok :: "attr_pair option list \<Rightarrow> bool" where
  "items_ok xs \<longleftrightarrow> (\<forall>p. Some p \<in> set xs \<longrightarrow> pair_ok p)"

fun items :: "attr_pair option list \<Rightarrow> attr_pair list" where
  "items [] = []"
| "items (x # xs) = (case x of Some p \<Rightarrow> p # items xs | None \<Rightarrow> items xs)"

lemma isspace_32 [simp]: "isspace 32"
  by (simp add: isspace_iff)

lemma isspace_punct [simp]: "\<not> isspace 44" "\<not> isspace 58" "\<not> isspace 0"
  by (simp_all add: isspace_iff)

lemma cleanD: "clean c \<Longrightarrow> c \<noteq> 0 \<and> c \<noteq> 44 \<and> c \<noteq> 58 \<and> c \<noteq> 32 \<and> \<not> isspace c"
  by (auto simp: clean_def)

lemma takeWhile_notin: "x \<notin> set w \<Longrightarrow> takeWhile (\<lambda>c. c \<noteq> x) w = w"
  by (auto simp: takeWhile_eq_all_conv)

lemma strim_clean: "list_all clean w \<Longrightarrow> strim w = w"
proof -
  have drop: "dropWhile isspace v = v" if "list_all clean v" for v
    using that by (cases v) (auto simp: clean_def)
  assume "list_all clean w"
  then show ?thesis using drop [of w] drop [of "rev w"] by (simp add: strim_def skip_spaces_def)
qed

lemma items_ok_Nil [simp]: "items_ok []"
  by (simp add: items_ok_def)

lemma items_ok_Cons [simp]: "items_ok (x # xs) \<longleftrightarrow> (\<forall>p. x = Some p \<longrightarrow> pair_ok p) \<and> items_ok xs"
  by (auto simp: items_ok_def)

lemma item_text_clean: "items_ok (x # xs) \<Longrightarrow> c \<in> set (item_text x) \<Longrightarrow> c = 58 \<or> clean c"
  by (auto simp: item_text_def pair_text_def pair_ok_def list_all_iff split: option.splits)

lemma item_text_bytes: "items_ok (x # xs) \<Longrightarrow> c \<in> set (item_text x) \<Longrightarrow> c \<noteq> 0 \<and> c \<noteq> 44 \<and> c \<noteq> 32"
  using item_text_clean [of x xs c] by (auto dest: cleanD)

lemma attr_text_Cons: "xs \<noteq> [] \<Longrightarrow> attr_text (x # xs) = item_text x @ 44 # attr_text xs"
  by (cases xs) simp_all

section \<open>Walking\<close>

fun walk_items :: "(cstring \<Rightarrow> cstring option \<Rightarrow> 's \<Rightarrow> ('s \<times> int) option) \<Rightarrow> attr_pair list \<Rightarrow> 's \<Rightarrow> ('s \<times> int) option" where
  "walk_items callback [] s = Some (s, 0)"
| "walk_items callback ((n, a) # ps) s =
     Option.bind (callback n a s) (\<lambda>(s', r). if r \<noteq> 0 then Some (s', r) else walk_items callback ps s')"

lemma attr_entry_item:
  assumes "items_ok [x]" "\<forall>e. mem_ok e"
  shows "attr_entry mem_ok callback (item_text x) s =
    (case x of None \<Rightarrow> Some (s, 0) | Some (n, a) \<Rightarrow> callback n a s)"
proof (cases x)
  case (Some p)
  obtain n a where p: "p = (n, a)" by (cases p)
  have n: "n \<noteq> []" "list_all clean n" "58 \<notin> set n" and a: "a = Some v \<Longrightarrow> list_all clean v" for v
    using assms(1) Some p by (auto simp: pair_ok_def list_all_iff clean_def)
  show ?thesis
    using n a assms(2) Some p takeWhile_notin [OF n(3)]
    by (cases a) (auto simp: attr_entry_def item_text_def pair_text_def Let_def strim_clean takeWhile_append dropWhile_append takeWhile_notin)
qed (simp add: attr_entry_def item_text_def)

lemma walk_last: "44 \<notin> set l \<Longrightarrow> attr_walk_loop mem_ok callback l s = attr_entry mem_ok callback l s"
  by (subst attr_walk_loop.simps) (cases "attr_entry mem_ok callback l s"; auto simp: takeWhile_notin)

lemma walk_text:
  assumes "items_ok xs" "\<forall>e. mem_ok e"
  shows "attr_walk_loop mem_ok callback (attr_text xs) s = walk_items callback (items xs) s"
  using assms(1)
proof (induction xs arbitrary: s)
  case Nil
  then show ?case by (subst attr_walk_loop.simps) (simp add: attr_entry_def)
next
  case (Cons x xs)
  have i: "44 \<notin> set (item_text x)" "items_ok [x]" using Cons.prems item_text_bytes [of x xs 44] by (auto simp: items_ok_def)
  note entry = attr_entry_item [OF i(2) assms(2), of callback]
  show ?case
  proof (cases "xs = []")
    case True
    then show ?thesis by (auto simp: walk_last [OF i(1)] entry split: option.split prod.split Option.bind_split)
  next
    case False
    have "takeWhile (\<lambda>c. c \<noteq> 44) (item_text x @ 44 # attr_text xs) = item_text x"
      "dropWhile (\<lambda>c. c \<noteq> 44) (item_text x @ 44 # attr_text xs) = 44 # attr_text xs"
      using i(1) by (auto simp: takeWhile_append dropWhile_append)
    then have "attr_walk_loop mem_ok callback (attr_text (x # xs)) s =
        Option.bind (attr_entry mem_ok callback (item_text x) s) (\<lambda>(s', r).
          if r \<noteq> 0 then Some (s', r) else walk_items callback (items xs) s')"
      using Cons False by (subst attr_walk_loop.simps) (auto simp: attr_text_Cons intro!: Option.bind_cong)
    then show ?thesis using entry by (auto split: option.split)
  qed
qed

section \<open>Looking up\<close>

definition accepted :: "cstring \<Rightarrow> cstring \<Rightarrow> nat \<Rightarrow> bool" where
  "accepted searched name i \<longleftrightarrow> occurs_at searched name i \<and> exact_match searched name i"

abbreviation last_or :: "'a list \<Rightarrow> 'a option \<Rightarrow> 'a option" where
  "last_or is r \<equiv> (if is = [] then r else Some (last is))"

lemma strstr_from_split:
  "strstr_from s n cur = (case dropWhile (\<lambda>i. \<not> occurs_at s n i) [cur ..< length s] of [] \<Rightarrow> None | i # is \<Rightarrow> Some i)"
  by (simp add: strstr_from_def find_dropWhile comp_def)

lemma upt_dropWhile: "dropWhile P [a ..< b] = [] \<or> (\<exists>i. dropWhile P [a ..< b] = [i ..< b] \<and> a \<le> i \<and> i < b \<and> \<not> P i)"
proof (induction "b - a" arbitrary: a)
  case (Suc k)
  then have ab: "a < b" "k = b - Suc a" by simp_all
  show ?case
  proof (cases "P a")
    case True
    then have "dropWhile P [a ..< b] = dropWhile P [Suc a ..< b]" using ab(1) by (simp add: upt_conv_Cons)
    then show ?thesis using Suc.hyps(1) [OF ab(2)] by (metis Suc_leD)
  next
    case False
    then have "dropWhile P [a ..< b] = [a ..< b]" using ab(1) by (simp add: upt_conv_Cons)
    then show ?thesis using ab(1) False by blast
  qed
qed simp

lemma filter_dropWhile: "(\<And>i. P i \<Longrightarrow> Q i) \<Longrightarrow> filter P (dropWhile (\<lambda>i. \<not> Q i) is) = filter P is"
  by (induction "is") auto

lemma name_search_last:
  "name_search_loop s n cur r = last_or (filter (accepted s n) [cur ..< length s]) r"
proof (induction "length s - cur" arbitrary: cur r rule: less_induct)
  case less
  let ?D = "dropWhile (\<lambda>i. \<not> occurs_at s n i) [cur ..< length s]"
  have eq: "filter (accepted s n) [cur ..< length s] = filter (accepted s n) ?D"
    by (rule filter_dropWhile [symmetric]) (simp add: accepted_def)
  from upt_dropWhile [of "\<lambda>i. \<not> occurs_at s n i" cur "length s"] show ?case
  proof (elim disjE exE conjE)
    assume "?D = []"
    then have none: "strstr_from s n cur = None" by (simp only: strstr_from_split list.case)
    show ?thesis unfolding eq \<open>?D = []\<close> by (subst name_search_loop.simps) (simp add: none)
  next
    fix i assume i: "?D = [i ..< length s]" "cur \<le> i" "i < length s" "\<not> \<not> occurs_at s n i"
    then have D: "?D = i # [Suc i ..< length s]" by (simp add: upt_conv_Cons)
    have step: "name_search_loop s n cur r = name_search_loop s n (i + 1) (if exact_match s n i then Some i else r)"
    proof -
      have "strstr_from s n cur = Some i" by (simp only: strstr_from_split D list.case)
      then show ?thesis by (subst name_search_loop.simps) simp
    qed
    show ?thesis
      unfolding step eq D using less [of "i + 1" "if exact_match s n i then Some i else r"] i(2-4)
      by (auto simp: accepted_def)
  qed
qed

text \<open>The scans do not depend on what stands before, except that a comma ends the one to the left.\<close>

lemma skip_blanks_append: "skip_blanks (pre @ t) (length pre + i) = length pre + skip_blanks t i"
proof (induction t i rule: skip_blanks.induct)
  case (1 t i)
  then show ?case
    by (subst skip_blanks.simps, subst (2) skip_blanks.simps) (simp add: byte_at_append flip: add_Suc_right)
qed

lemma attr_read_append: "attr_read (pre @ t) (length pre + i) = attr_read t i"
  using skip_blanks_append [of pre t] by (simp add: attr_read_def byte_at_append Let_def add.assoc del: add_Suc_right)

lemma last_byte: "last pre = x \<Longrightarrow> pre \<noteq> [] \<Longrightarrow> byte_at (pre @ t) (nat (int (length pre) - 1)) = x"
  by (cases pre rule: rev_cases) (auto simp: byte_at_def nth_append)

lemma skip_back_append:
  assumes "last pre = 44" "pre \<noteq> []"
  shows "skip_back (pre @ t) (int (length pre + j) - 1) =
    (let q = skip_back t (int j - 1) in if q = - 1 then int (length pre) - 1 else int (length pre) + q) \<and>
    - 1 \<le> skip_back t (int j - 1)"
proof (induction j)
  case 0
  have "skip_back (pre @ t) (int (length pre) - 1) = int (length pre) - 1"
    using assms(2) last_byte [OF assms] by (subst skip_back.simps) simp
  moreover have "skip_back t (- 1) = - 1" by (subst skip_back.simps) simp
  ultimately show ?case by simp
next
  case (Suc j)
  have b: "byte_at (pre @ t) (length pre + j) = byte_at t j" by (rule byte_at_append)
  have "skip_back (pre @ t) (int (length pre + Suc j) - 1) =
      (if byte_at t j = 32 then skip_back (pre @ t) (int (length pre + j) - 1) else int (length pre + j))"
    using b by (subst skip_back.simps) (simp add: nat_int_add)
  moreover have "skip_back t (int (Suc j) - 1) = (if byte_at t j = 32 then skip_back t (int j - 1) else int j)"
    by (subst skip_back.simps) simp
  ultimately show ?case using Suc.IH by (simp add: Let_def)
qed

lemma accepted_append:
  assumes "last pre = 44" "pre \<noteq> []"
  shows "accepted (pre @ t) name (length pre + j) = accepted t name j"
proof -
  define q where "q = skip_back t (int j - 1)"
  have q: "skip_back (pre @ t) (int (length pre + j) - 1) = (if q = - 1 then int (length pre) - 1 else int (length pre) + q)"
    "- 1 \<le> q"
    using skip_back_append [OF assms, of t j] by (simp_all add: q_def Let_def)
  note comma = last_byte [OF assms]
  have nx: "byte_at (pre @ t) (skip_blanks (pre @ t) (length pre + j + length name)) = byte_at t (skip_blanks t (j + length name))"
    using skip_blanks_append [of pre t "j + length name"] by (simp add: byte_at_append add.assoc)
  have left: "(length pre + j = 0 \<or> skip_back (pre @ t) (int (length pre + j) - 1) = - 1 \<or>
      byte_at (pre @ t) (nat (skip_back (pre @ t) (int (length pre + j) - 1))) = 44) =
    (j = 0 \<or> q = - 1 \<or> byte_at t (nat q) = 44)"
  proof (cases "q = - 1")
    case True
    then show ?thesis using q(1) comma by simp
  next
    case False
    then have "nat (int (length pre) + q) = length pre + nat q" "0 \<le> q" using q(2) by auto
    moreover have "j \<noteq> 0" using False by (cases j) (auto simp: q_def skip_back.simps [of t "- 1"])
    ultimately show ?thesis using q(1) False by (simp add: byte_at_append)
  qed
  show ?thesis
    unfolding accepted_def exact_match_def Let_def nx left q_def by (simp add: occurs_at_def)
qed

text \<open>A match inside an entry is accepted only at its front, and only if the entry has this name.\<close>

definition tail_ok :: "cstring \<Rightarrow> bool" where
  "tail_ok rest \<longleftrightarrow> rest = [] \<or> hd rest = 44"

lemma tail_byte: "tail_ok rest \<Longrightarrow> byte_at rest 0 = 0 \<or> byte_at rest 0 = 44"
  by (cases rest) (auto simp: tail_ok_def byte_at_def)

lemma byte_at_in: "i < length w \<Longrightarrow> byte_at (w @ rest) i = w ! i"
  by (simp add: byte_at_def nth_append)

lemma occurs_clean:
  assumes "occurs_at t name i" "list_all clean name" "j < length name"
  shows "byte_at t (i + j) = name ! j" "clean (byte_at t (i + j))"
proof -
  have "drop i t ! j = name ! j" "j < length (drop i t)"
    using assms(1,3) unfolding occurs_at_def by (metis nth_take, metis length_take min_less_iff_conj)
  then show "byte_at t (i + j) = name ! j" by (simp add: byte_at_def less_diff_conv add.commute)
  then show "clean (byte_at t (i + j))" using assms(2,3) by (simp add: list_all_length)
qed

lemma not_clean [simp]: "\<not> clean 0" "\<not> clean 44" "\<not> clean 58" "\<not> clean 32"
  by (simp_all add: clean_def)

lemma accepted_inside:
  assumes "items_ok [x]" "list_all clean name" "name \<noteq> []" "0 < i" "i \<le> length (item_text x)" "tail_ok rest"
  shows "\<not> accepted (item_text x @ rest) name i"
proof
  assume acc: "accepted (item_text x @ rest) name i"
  let ?T = "item_text x @ rest"
  have occ: "occurs_at ?T name i" using acc by (simp add: accepted_def)
  show False
  proof (cases "i = length (item_text x)")
    case True
    then show ?thesis
      using occurs_clean(2) [OF occ assms(2), of 0] assms(3,6) byte_at_append [of "item_text x" rest 0] tail_byte [of rest] by auto
  next
    case False
    then have b: "byte_at ?T (i - 1) = item_text x ! (i - 1)" "item_text x ! (i - 1) \<in> set (item_text x)"
      using assms(4,5) by (auto simp: byte_at_in)
    then have c: "byte_at ?T (i - 1) \<noteq> 44" "byte_at ?T (i - 1) \<noteq> 32"
      using item_text_bytes [OF assms(1)] by auto
    have "nat (int i - 1) = i - 1" by simp
    then have "skip_back ?T (int i - 1) = int i - 1" using c(2) by (subst skip_back.simps) simp
    then show ?thesis using acc c(1) assms(4) by (simp add: accepted_def exact_match_def Let_def nat_diff_distrib)
  qed
qed

lemma accepted_front:
  assumes "items_ok [x]" "list_all clean name" "name \<noteq> []" "tail_ok rest"
  shows "accepted (item_text x @ rest) name 0 \<longleftrightarrow> (\<exists>a. x = Some (name, a))"
proof (cases x)
  case None
  then have "\<not> occurs_at (item_text x @ rest) name 0"
    using occurs_clean(2) [of rest name 0 0] assms(2-4) tail_byte [of rest] by (auto simp: item_text_def)
  then show ?thesis using None by (simp add: accepted_def)
next
  case (Some p)
  obtain n a where x: "x = Some (n, a)" using Some by (cases p) auto
  define t where "t = (case a of Some v \<Rightarrow> 58 # v | None \<Rightarrow> []) @ rest"
  have T: "item_text x @ rest = n @ t" by (simp add: x item_text_def pair_text_def t_def)
  have n: "list_all clean n" using assms(1) x by (simp add: pair_ok_def)
  have t: "byte_at t 0 \<in> {0, 44, 58}" using tail_byte [OF assms(4)] by (cases a) (auto simp: t_def)
  have stop: "skip_blanks s k = k" if "byte_at s k \<noteq> 32" for s k using that by (subst skip_blanks.simps) simp
  show ?thesis
  proof (cases "name = n")
    case True
    have "byte_at (n @ t) (length n) = byte_at t 0" using byte_at_append [of n t 0] by simp
    then have "skip_blanks (n @ t) (length n) = length n" "byte_at (n @ t) (length n) \<in> {0, 44, 58}"
      using t stop [of "n @ t" "length n"] by auto
    then show ?thesis unfolding T using True x by (auto simp: accepted_def exact_match_def occurs_at_def Let_def)
  next
    case False
    have "\<not> accepted (n @ t) name 0"
    proof
      assume acc: "accepted (n @ t) name 0"
      then have occ: "occurs_at (n @ t) name 0" by (simp add: accepted_def)
      have le: "length name \<le> length n"
      proof (rule ccontr)
        assume "\<not> length name \<le> length n"
        then have "clean (byte_at (n @ t) (0 + length n))" using occurs_clean(2) [OF occ assms(2)] by simp
        then show False using t byte_at_append [of n t 0] by auto
      qed
      then have "name = take (length name) n" using occ by (simp add: occurs_at_def)
      then have "length name < length n" using False le by (metis le_neq_implies_less take_all_iff)
      then have "clean (byte_at (n @ t) (length name))" using n by (simp add: byte_at_in list_all_length)
      moreover from this have "skip_blanks (n @ t) (length name) = length name" by (intro stop) auto
      ultimately show False
        using acc unfolding accepted_def exact_match_def Let_def by auto
    qed
    then show ?thesis unfolding T using False x by simp
  qed
qed

lemma accepted_item:
  assumes "items_ok [x]" "list_all clean name" "name \<noteq> []" "tail_ok rest"
  shows "filter (accepted (item_text x @ rest) name) [0 ..< Suc (length (item_text x))] = (if \<exists>a. x = Some (name, a) then [0] else [])"
proof -
  have "filter (accepted (item_text x @ rest) name) [1 ..< Suc (length (item_text x))] = []"
    using accepted_inside [OF assms(1-3) _ _ assms(4)] by (auto simp: filter_empty_conv simp del: upt_Suc)
  moreover have "[0 ..< Suc (length (item_text x))] = 0 # [1 ..< Suc (length (item_text x))]" by (simp add: upt_conv_Cons del: upt_Suc)
  ultimately show ?thesis using accepted_front [OF assms] by (simp del: upt_Suc)
qed

lemma accepted_text:
  assumes "items_ok (x # xs)" "xs \<noteq> []" "list_all clean name" "name \<noteq> []"
  shows "filter (accepted (attr_text (x # xs)) name) [0 ..< length (attr_text (x # xs))] =
    (if \<exists>a. x = Some (name, a) then [0] else []) @
    map (\<lambda>j. Suc (length (item_text x)) + j) (filter (accepted (attr_text xs) name) [0 ..< length (attr_text xs)])"
proof -
  define pre where "pre = item_text x @ [44]"
  have T: "attr_text (x # xs) = item_text x @ 44 # attr_text xs" "attr_text (x # xs) = pre @ attr_text xs"
    using assms(2) by (simp_all add: attr_text_Cons pre_def)
  have len: "length pre = Suc (length (item_text x))" "last pre = 44" "pre \<noteq> []" by (simp_all add: pre_def)
  have "[0 ..< length (attr_text (x # xs))] = [0 ..< Suc (length (item_text x))] @ map (\<lambda>j. length pre + j) [0 ..< length (attr_text xs)]"
    unfolding T(2) length_append len(1) [symmetric] upt_add_eq_append [OF le0] by (simp add: map_add_upt add.commute)
  moreover have "filter (accepted (attr_text (x # xs)) name) (map (\<lambda>j. length pre + j) ks) =
      map (\<lambda>j. length pre + j) (filter (accepted (attr_text xs) name) ks)" for ks
    unfolding T(2) filter_map using accepted_append [OF len(2,3)] by (simp add: comp_def)
  moreover have "tail_ok (44 # attr_text xs)" by (simp add: tail_ok_def)
  ultimately show ?thesis
    using accepted_item [of x name "44 # attr_text xs"] assms T(1) len(1) by (simp del: upt_Suc)
qed

text \<open>What a list says of a name: the attributes of its last entry, empty if it has none.\<close>

definition attrs_of :: "attr_pair list \<Rightarrow> cstring \<Rightarrow> cstring option" where
  "attrs_of ps name = map_option (\<lambda>a. case a of Some v \<Rightarrow> v | None \<Rightarrow> []) (map_of (rev ps) name)"

lemma attrs_of_Nil [simp]: "attrs_of [] name = None"
  by (simp add: attrs_of_def)

lemma attrs_of_Cons:
  "attrs_of ((n, a) # ps) name =
     (case attrs_of ps name of Some v \<Rightarrow> Some v
      | None \<Rightarrow> if n = name then Some (case a of Some v \<Rightarrow> v | None \<Rightarrow> []) else None)"
  by (auto simp: attrs_of_def map_add_def split: option.splits)

lemma attr_read_item:
  assumes "pair_ok (name, a)" "tail_ok rest"
  shows "attr_read (item_text (Some (name, a)) @ rest) (length name) = (case a of Some v \<Rightarrow> v | None \<Rightarrow> [])"
proof -
  have stop: "skip_blanks s k = k" if "byte_at s k \<noteq> 32" for s k using that by (subst skip_blanks.simps) simp
  show ?thesis
  proof (cases a)
    case None
    then show ?thesis
      using attr_read_append [of name rest 0] tail_byte [OF assms(2)] stop [of rest 0]
      by (auto simp: item_text_def pair_text_def attr_read_def)
  next
    case (Some v)
    have v: "list_all clean v" using assms(1) Some by (simp add: pair_ok_def)
    have r: "takeWhile (\<lambda>c. c \<noteq> 44 \<and> c \<noteq> 32) rest = []" using assms(2) by (cases rest) (auto simp: tail_ok_def)
    have tw: "takeWhile (\<lambda>c. c \<noteq> 44 \<and> c \<noteq> 32) (v @ rest) = v"
      using v r by (induction v) (auto simp: clean_def)
    have "byte_at (v @ rest) 0 \<noteq> 32" using v tail_byte [OF assms(2)] by (cases v) (auto simp: clean_def)
    then have "skip_blanks (58 # v @ rest) 1 = 1" using stop [of "58 # v @ rest" 1] by simp
    moreover have "skip_blanks (58 # v @ rest) 0 = 0" by (rule stop) simp
    ultimately have "attr_read (58 # v @ rest) 0 = v" using tw by (simp add: attr_read_def)
    then show ?thesis using Some attr_read_append [of name "58 # v @ rest" 0] by (simp add: item_text_def pair_text_def)
  qed
qed

lemma lookup_pos:
  assumes "items_ok xs" "list_all clean name" "name \<noteq> []"
  shows "map_option (\<lambda>p. attr_read (attr_text xs) (p + length name)) (last_or (filter (accepted (attr_text xs) name) [0 ..< length (attr_text xs)]) None) =
    attrs_of (items xs) name"
  using assms(1)
proof (induction xs)
  case (Cons x xs)
  let ?A = "\<lambda>xs. filter (accepted (attr_text xs) name) [0 ..< length (attr_text xs)]"
  show ?case
  proof (cases "xs = []")
    case True
    let ?T = "item_text x"
    have ok: "items_ok [x]" "tail_ok []" using Cons.prems by (auto simp: tail_ok_def)
    have nl: "\<not> accepted ?T name (length ?T)"
      using accepted_inside [OF ok(1) assms(2,3) _ order.refl ok(2)] accepted_front [OF ok(1) assms(2,3) ok(2)] assms(3)
      by (cases "?T = []") (auto simp: item_text_def pair_text_def pair_ok_def)
    have "filter (accepted ?T name) [0 ..< Suc (length ?T)] = filter (accepted ?T name) [0 ..< length ?T]" using nl by simp
    then have A: "?A (x # xs) = (if \<exists>a. x = Some (name, a) then [0] else [])"
      using accepted_item [OF ok(1) assms(2,3) ok(2)] True by simp
    show ?thesis
    proof (cases "\<exists>a. x = Some (name, a)")
      case xa: True
      then obtain a where a: "x = Some (name, a)" ..
      then show ?thesis
        using A True attr_read_item [of name a "[]"] Cons.prems ok(2) by (simp add: attrs_of_Cons)
    next
      case False
      then show ?thesis using A True by (auto simp: attrs_of_Cons split: option.splits)
    qed
  next
    case False
    define pre where "pre = item_text x @ [44]"
    have T: "attr_text (x # xs) = item_text x @ 44 # attr_text xs" "attr_text (x # xs) = pre @ attr_text xs"
      "length pre = Suc (length (item_text x))"
      using False by (simp_all add: attr_text_Cons pre_def)
    note A = accepted_text [OF Cons.prems False assms(2,3)]
    have IH: "map_option (\<lambda>p. attr_read (attr_text xs) (p + length name)) (last_or (?A xs) None) = attrs_of (items xs) name"
      using Cons by simp
    show ?thesis
    proof (cases "?A xs = []")
      case True
      then have none: "attrs_of (items xs) name = None" using IH by simp
      show ?thesis
      proof (cases "\<exists>a. x = Some (name, a)")
        case xa: True
        then obtain a where a: "x = Some (name, a)" ..
        then show ?thesis
          using A True none attr_read_item [of name a "44 # attr_text xs"] Cons.prems T(1)
          by (simp add: attrs_of_Cons tail_ok_def)
      next
        case xa: False
        then show ?thesis using A True none by (auto simp: attrs_of_Cons split: option.splits)
      qed
    next
      case found: False
      let ?p = "last (?A xs)"
      have "last (?A (x # xs)) = length pre + ?p" "?A (x # xs) \<noteq> []"
        unfolding A using found T(3) by (simp_all add: last_append last_map)
      moreover have "attr_read (attr_text (x # xs)) (length pre + ?p + length name) = attr_read (attr_text xs) (?p + length name)"
        unfolding T(2) add.assoc by (rule attr_read_append)
      moreover have "attrs_of (items xs) name = Some (attr_read (attr_text xs) (?p + length name))" using IH found by simp
      ultimately show ?thesis by (auto simp: attrs_of_Cons split: option.splits)
    qed
  qed
qed simp

lemma lookup_last:
  assumes "items_ok xs" "list_all clean name" "name \<noteq> []"
  shows "attr_lookup_plain (attr_text xs) name =
    (case attrs_of (items xs) name of Some v \<Rightarrow> (0, Some v) | None \<Rightarrow> (- ENOENT, None))"
  using lookup_pos [OF assms, symmetric] assms(3) name_search_last [of "attr_text xs" name 0 None]
  by (auto simp: attr_lookup_plain_def reverse_name_search_def split: option.splits if_splits)

text \<open>
  With regular expressions the name of an entry is a pattern; the last entry whose pattern matches
  counts. A matching entry without attributes and a pattern that does not compile are errors.
\<close>

definition matching :: "(cstring \<Rightarrow> (cstring \<Rightarrow> bool) option) \<Rightarrow> cstring \<Rightarrow> attr_pair list \<Rightarrow> attr_pair list" where
  "matching r name ps = filter (\<lambda>(n, a). the (r (94 # n @ [36])) name) ps"

lemma walk_regex:
  assumes "\<forall>(n, a) \<in> set ps. r (94 # n @ [36]) \<noteq> None" "\<forall>(n, a) \<in> set (matching r name ps). a \<noteq> None"
  shows "walk_items (regex_callback r name) ps priv =
    Some (if matching r name ps = [] then priv
          else let (n, a) = last (matching r name ps) in Some (94 # n @ [36], the a), 0)"
  using assms
proof (induction ps arbitrary: priv)
  case (Cons p ps)
  obtain n a where p: "p = (n, a)" by (cases p)
  then obtain mt where mt: "r (94 # n @ [36]) = Some mt" using Cons.prems(1) by auto
  show ?case
  proof (cases "mt name")
    case True
    then obtain v where "a = Some v" using Cons.prems(2) p mt by (auto simp: matching_def)
    then show ?thesis using Cons p mt True by (auto simp: matching_def regex_callback_def split: prod.splits)
  next
    case False
    then show ?thesis using Cons p mt by (auto simp: matching_def regex_callback_def)
  qed
qed (simp add: matching_def)

lemma lookup_regex:
  assumes "items_ok xs" "\<forall>(n, a) \<in> set (items xs). r (94 # n @ [36]) \<noteq> None"
    "\<forall>(n, a) \<in> set (matching r name (items xs)). a \<noteq> None"
  shows "env_attr_lookup (Some r) (Some (attr_text xs)) name =
    (if matching r name (items xs) = [] then (- ENOENT, None) else (0, snd (last (matching r name (items xs)))))"
proof -
  have "snd (last (matching r name (items xs))) \<noteq> None" if "matching r name (items xs) \<noteq> []"
    using last_in_set [OF that] assms(3) by auto
  then show ?thesis
    using walk_text [OF assms(1), of "\<lambda>e. True" "regex_callback r name" None] walk_regex [OF assms(2,3), of None] assms(3)
    by (auto simp: env_attr_lookup_def env_attr_walk_def split: prod.splits)
qed

lemma regex_pattern_error:
  assumes "items_ok (Some (n, a) # xs)" "r (94 # n @ [36]) = None"
  shows "env_attr_lookup (Some r) (Some (attr_text (Some (n, a) # xs))) name = (- EINVAL, None)"
  using walk_text [OF assms(1), of "\<lambda>e. True" "regex_callback r name" None] assms(2)
  by (simp add: env_attr_lookup_def env_attr_walk_def regex_callback_def)


definition demo_list :: "attr_pair option list" where
  "demo_list = [Some ([97, 98], Some [109, 111]), Some ([98], Some [100]), None, Some ([97, 98], Some [115, 114]), Some ([99], None), None]"

lemma demo_list_ok: "items_ok demo_list"
  by (simp add: demo_list_def pair_ok_def clean_def isspace_iff)


end
