(* ===== verification/EnvFlags.thy ===== *)
theory EnvFlags
  imports EnvCommon EnvAttr
begin

text \<open>
  Types and access rights of variables, \<open>env/flags.c\<close>, and their callbacks, \<open>env/callback.c\<close>. Both initialise
  a new entry of the table, which is the parameter \<open>entry_init\<close> of \<open>Hashtable\<close>, and \<open>env_flags_validate\<close> is
  the \<open>change_ok\<close> of the environment's table. The build has \<open>CONFIG_NET\<close>; the record \<open>flags_cfg\<close> holds the other
  options and the static lists.

  A value is the list of its bytes and a pointer into it a position (\<open>byte_at\<close>). A type of a variable
  is an enumerator; a number that is none is \<open>None\<close>, as a cast in C does not check it. An access right is the
  number of its enumerator.
\<close>

section \<open>Model\<close>

record flags_cfg =
  fc_regex :: "(cstring \<Rightarrow> (cstring \<Rightarrow> bool) option) option"
  fc_static :: cstring
  fc_writeable_list :: bool
  fc_ignore_force :: bool
  fc_callback_static :: cstring
  fc_callbacks :: "(cstring \<times> nat) list"

datatype env_flags_vartype =
  env_flags_vartype_string | env_flags_vartype_decimal | env_flags_vartype_hex | env_flags_vartype_bool |
  env_flags_vartype_ipaddr | env_flags_vartype_macaddr | env_flags_vartype_end

definition vartypes :: "env_flags_vartype list" where
  "vartypes = [env_flags_vartype_string, env_flags_vartype_decimal, env_flags_vartype_hex, env_flags_vartype_bool,
     env_flags_vartype_ipaddr, env_flags_vartype_macaddr, env_flags_vartype_end]"

abbreviation (input) PREVENT_DELETE :: int where "PREVENT_DELETE \<equiv> 8"
abbreviation (input) PREVENT_CREATE :: int where "PREVENT_CREATE \<equiv> 16"
abbreviation (input) PREVENT_OVERWR :: int where "PREVENT_OVERWR \<equiv> 32"
abbreviation (input) PREVENT_NONDEF_OVERWR :: int where "PREVENT_NONDEF_OVERWR \<equiv> 64"
abbreviation (input) VARACCESS_WRITEABLE :: int where "VARACCESS_WRITEABLE \<equiv> 128"
abbreviation (input) VARTYPE_BIN_MASK :: int where "VARTYPE_BIN_MASK \<equiv> 7"
abbreviation (input) VARACCESS_BIN_MASK :: int where "VARACCESS_BIN_MASK \<equiv> 248"
abbreviation (input) H_EXTERNAL :: int where "H_EXTERNAL \<equiv> 2048"

text \<open>The letters of the types, \<open>sdxbim\<close>, and of the access rights, \<open>aroc\<close> and \<open>w\<close>, and the masks of the rights.\<close>

definition env_flags_vartype_rep :: cstring where
  "env_flags_vartype_rep = [115, 100, 120, 98, 105, 109]"

definition env_flags_varaccess_rep :: "flags_cfg \<Rightarrow> cstring" where
  "env_flags_varaccess_rep fc = [97, 114, 111, 99] @ (if fc_writeable_list fc then [119] else [])"

definition env_flags_varaccess_mask :: "flags_cfg \<Rightarrow> int list" where
  "env_flags_varaccess_mask fc =
     [0, PREVENT_DELETE OR PREVENT_CREATE OR PREVENT_OVERWR, PREVENT_DELETE OR PREVENT_OVERWR,
      PREVENT_DELETE OR PREVENT_NONDEF_OVERWR] @ (if fc_writeable_list fc then [VARACCESS_WRITEABLE] else [])"

subsection \<open>Reading the letters\<close>

fun index_of :: "'a list \<Rightarrow> 'a \<Rightarrow> nat option" where
  "index_of [] x = None"
| "index_of (y # ys) x = (if y = x then Some 0 else map_option Suc (index_of ys x))"

definition env_flags_parse_vartype :: "cstring \<Rightarrow> nat" where
  "env_flags_parse_vartype flags =
     (if length flags \<le> 0 then 0
      else case index_of env_flags_vartype_rep (flags ! 0) of Some i \<Rightarrow> i | None \<Rightarrow> 0)"

definition env_flags_parse_varaccess :: "flags_cfg \<Rightarrow> cstring \<Rightarrow> nat" where
  "env_flags_parse_varaccess fc flags =
     (if length flags \<le> 1 then 0
      else case index_of (env_flags_varaccess_rep fc) (flags ! 1) of Some i \<Rightarrow> i | None \<Rightarrow> 0)"

definition env_flags_parse_varaccess_from_binflags :: "flags_cfg \<Rightarrow> int \<Rightarrow> nat" where
  "env_flags_parse_varaccess_from_binflags fc binflags =
     (case index_of (env_flags_varaccess_mask fc) (binflags AND VARACCESS_BIN_MASK) of Some i \<Rightarrow> i | None \<Rightarrow> 0)"

definition env_parse_flags_to_bin :: "flags_cfg \<Rightarrow> cstring \<Rightarrow> int" where
  "env_parse_flags_to_bin fc flags =
     (int (env_flags_parse_vartype flags) AND VARTYPE_BIN_MASK) OR
     env_flags_varaccess_mask fc ! env_flags_parse_varaccess fc flags"

subsection \<open>Checking a value\<close>

definition is_hex_prefix :: "cstring \<Rightarrow> nat \<Rightarrow> bool" where
  "is_hex_prefix value p \<longleftrightarrow> byte_at value p = 48 \<and> (byte_at value (p + 1) = 120 \<or> byte_at value (p + 1) = 88)"

function skip_digits :: "bool \<Rightarrow> cstring \<Rightarrow> nat \<Rightarrow> int \<Rightarrow> nat" where
  "skip_digits hex value p i =
     (if i \<noteq> 0 \<and> (if hex then isxdigit (byte_at value p) else isdigit (byte_at value p))
      then skip_digits hex value (Suc p) (i - 1) else p)"
  by pat_completeness auto
termination
proof (relation "measure (\<lambda>(hex, value, p, i). length value - p)", goal_cases)
  case (2 hex v p i)
  then have "byte_at v p \<noteq> 0" by (auto simp: isxdigit_iff isdigit_iff split: if_splits)
  then show ?case using byte_at_less [of v p] by simp
qed simp

declare skip_digits.simps [simp del]

definition skip_num :: "bool \<Rightarrow> cstring \<Rightarrow> nat \<Rightarrow> int \<Rightarrow> nat" where
  "skip_num hex value p max_digits =
     skip_digits hex value (if hex \<and> is_hex_prefix value p then p + 2 else p) max_digits"

text \<open>The loop over the bytes of an address; the first argument counts the turns that are left.\<close>

fun ethaddr_loop :: "nat \<Rightarrow> cstring \<Rightarrow> nat \<Rightarrow> int" where
  "ethaddr_loop 0 addr cur = 0"
| "ethaddr_loop (Suc n) addr cur =
     (let e = skip_num True addr cur 2
      in if cur = e then - 1
         else if cur + 2 = e \<and> is_hex_prefix addr cur then - 1
         else if n \<noteq> 0 \<and> byte_at addr e \<noteq> 58 then - 1
         else if n = 0 \<and> byte_at addr e \<noteq> 0 then - 1
         else ethaddr_loop n addr (e + 1))"

definition eth_validate_ethaddr_str :: "cstring \<Rightarrow> int" where
  "eth_validate_ethaddr_str addr = ethaddr_loop 6 addr 0"

fun ipaddr_loop :: "nat \<Rightarrow> cstring \<Rightarrow> nat \<Rightarrow> int" where
  "ipaddr_loop 0 value cur = 0"
| "ipaddr_loop (Suc n) value cur =
     (let e = skip_num False value cur 3
      in if cur = e then - 1
         else if n \<noteq> 0 \<and> byte_at value e \<noteq> 46 then - 1
         else if n = 0 \<and> byte_at value e \<noteq> 0 then - 1
         else ipaddr_loop n value (e + 1))"

definition bool_letters :: cstring where
  "bool_letters = [49, 121, 116, 89, 84, 48, 110, 102, 78, 70]"

text \<open>\<open>_env_flags_validate_type\<close>; a number that is no enumerator reaches no case.\<close>

definition validate_type :: "cstring \<Rightarrow> env_flags_vartype option \<Rightarrow> int" where
  "validate_type value type =
     (case type of
        Some env_flags_vartype_decimal \<Rightarrow> if byte_at value (skip_num False value 0 (- 1)) \<noteq> 0 then - 1 else 0
      | Some env_flags_vartype_hex \<Rightarrow>
          let e = skip_num True value 0 (- 1)
          in if byte_at value e \<noteq> 0 then - 1 else if e = 2 \<and> is_hex_prefix value 0 then - 1 else 0
      | Some env_flags_vartype_bool \<Rightarrow>
          if byte_at value 0 \<notin> set bool_letters then - 1 else if byte_at value 1 \<noteq> 0 then - 1 else 0
      | Some env_flags_vartype_ipaddr \<Rightarrow> ipaddr_loop 4 value 0
      | Some env_flags_vartype_macaddr \<Rightarrow> if eth_validate_ethaddr_str value \<noteq> 0 then - 1 else 0
      | Some env_flags_vartype_end \<Rightarrow> - 1
      | Some env_flags_vartype_string \<Rightarrow> 0
      | None \<Rightarrow> 0)"

subsection \<open>Looking up the flags of a name\<close>

definition env_flags_lookup :: "flags_cfg \<Rightarrow> cstring option \<Rightarrow> cstring \<Rightarrow> int \<times> cstring option" where
  "env_flags_lookup fc flags_list name =
     (let r = (if flags_list \<noteq> None then env_attr_lookup (fc_regex fc) flags_list name else (1, None))
      in if fst r \<noteq> 0 then env_attr_lookup (fc_regex fc) (Some (fc_static fc)) name else r)"

text \<open>
  The functions of the host tools; \<open>flags_var\<close> is the value of \<open>.flags\<close>. Like \<open>env_flags_init\<close> they give \<open>None\<close> when the
  attributes do not fit the array of three bytes they are written to.
\<close>

definition flags_fit :: "int \<times> cstring option \<Rightarrow> bool" where
  "flags_fit r \<longleftrightarrow> (case snd r of Some a \<Rightarrow> length a \<le> 2 | None \<Rightarrow> True)"

definition env_flags_get_type :: "flags_cfg \<Rightarrow> cstring option \<Rightarrow> cstring \<Rightarrow> nat option" where
  "env_flags_get_type fc flags_var name =
     (let r = env_flags_lookup fc flags_var name
      in if \<not> flags_fit r then None
         else if fst r \<noteq> 0 then Some 0
         else if length (the (snd r)) \<le> 0 then Some 0
         else Some (env_flags_parse_vartype (the (snd r))))"

definition env_flags_get_varaccess :: "flags_cfg \<Rightarrow> cstring option \<Rightarrow> cstring \<Rightarrow> nat option" where
  "env_flags_get_varaccess fc flags_var name =
     (let r = env_flags_lookup fc flags_var name
      in if \<not> flags_fit r then None
         else if fst r \<noteq> 0 then Some 0
         else if length (the (snd r)) \<le> 1 then Some 0
         else Some (env_flags_parse_varaccess fc (the (snd r))))"

definition vartype_of :: "nat \<Rightarrow> env_flags_vartype option" where
  "vartype_of n = (if n < length vartypes then Some (vartypes ! n) else None)"

definition env_flags_validate_type :: "flags_cfg \<Rightarrow> cstring option \<Rightarrow> cstring \<Rightarrow> cstring option \<Rightarrow> int option" where
  "env_flags_validate_type fc flags_var name value =
     (case value of
        None \<Rightarrow> Some 0
      | Some v \<Rightarrow> map_option (\<lambda>type. if validate_type v (vartype_of type) < 0 then - 1 else 0)
          (env_flags_get_type fc flags_var name))"

definition env_flags_validate_varaccess :: "flags_cfg \<Rightarrow> cstring option \<Rightarrow> cstring \<Rightarrow> int \<Rightarrow> bool option" where
  "env_flags_validate_varaccess fc flags_var name check_mask =
     map_option (\<lambda>access. check_mask AND env_flags_varaccess_mask fc ! access \<noteq> 0) (env_flags_get_varaccess fc flags_var name)"

definition env_flags_validate_env_set_params :: "flags_cfg \<Rightarrow> cstring option \<Rightarrow> cstring \<Rightarrow> cstring option list \<Rightarrow> int option" where
  "env_flags_validate_env_set_params fc flags_var name vals =
     (if 1 \<le> length vals \<and> vals ! 0 \<noteq> None then
        Option.bind (env_flags_get_type fc flags_var name) (\<lambda>type.
          if type \<noteq> 0 \<and> 1 < length vals then Some (- 1) else env_flags_validate_type fc flags_var name (vals ! 0))
      else Some 0)"

subsection \<open>A new variable\<close>

text \<open>
  The static variables \<open>first_call\<close> and \<open>flags_list\<close> (\<open>callback_list\<close>): the value of \<open>.flags\<close> (\<open>.callbacks\<close>) is read when the
  first variable is created and never again.
\<close>

record attr_state =
  first_call :: bool
  attr_list :: "cstring option"

definition env_flags_init :: "flags_cfg \<Rightarrow> cstring option \<Rightarrow> attr_state \<Rightarrow> env_entry \<Rightarrow> (attr_state \<times> env_entry) option" where
  "env_flags_init fc flags_var st var_entry =
     (let st' = (if first_call st
                 then \<lparr>first_call = False, attr_list = if fc_writeable_list fc then Some (fc_static fc) else flags_var\<rparr> else st);
          r = env_flags_lookup fc (attr_list st') (the (e_key var_entry))
      in if \<not> flags_fit r then None
         else Some (st', if fst r = 0 \<and> the (snd r) \<noteq> []
                         then var_entry\<lparr>e_flags := env_parse_flags_to_bin fc (the (snd r))\<rparr> else var_entry))"

definition find_env_callback :: "flags_cfg \<Rightarrow> cstring \<Rightarrow> nat option" where
  "find_env_callback fc name = map_option snd (find (\<lambda>(n, cb). n = name) (fc_callbacks fc))"

text \<open>The name of the callback is written to an array of 256 bytes.\<close>

definition env_callback_init :: "flags_cfg \<Rightarrow> cstring option \<Rightarrow> attr_state \<Rightarrow> env_entry \<Rightarrow> (attr_state \<times> env_entry) option" where
  "env_callback_init fc callbacks_var st var_entry =
     (let st' = (if first_call st then \<lparr>first_call = False, attr_list = callbacks_var\<rparr> else st);
          name = the (e_key var_entry);
          r0 = (if attr_list st' \<noteq> None then env_attr_lookup (fc_regex fc) (attr_list st') name else (1, None));
          r = (if fst r0 \<noteq> 0 then env_attr_lookup (fc_regex fc) (Some (fc_callback_static fc)) name else r0);
          e = var_entry\<lparr>e_callback := None\<rparr>
      in if fst r = 0 \<and> 256 \<le> length (the (snd r)) then None
         else if fst r = 0 \<and> the (snd r) \<noteq> [] then
           (case find_env_callback fc (the (snd r)) of
              Some cb \<Rightarrow> Some (st', e\<lparr>e_callback := Some cb\<rparr>)
            | None \<Rightarrow> Some (st', e))
         else Some (st', e))"

subsection \<open>A new list\<close>

text \<open>\<open>hwalk_r\<close> with a callback that changes each used entry and returns 0.\<close>

definition walk_entry :: "(env_entry \<Rightarrow> env_entry) \<Rightarrow> nat \<Rightarrow> hsearch_data \<Rightarrow> hsearch_data" where
  "walk_entry f i htab = (if used (table htab ! i) > 0 then set_entry htab i (f (entry (table htab ! i))) else htab)"

definition hwalk_update :: "(env_entry \<Rightarrow> env_entry) \<Rightarrow> hsearch_data \<Rightarrow> hsearch_data" where
  "hwalk_update f htab = fold (walk_entry f) [1 ..< Suc (h_size htab)] htab"

definition clear_flags :: "env_entry \<Rightarrow> env_entry" where
  "clear_flags e = e\<lparr>e_flags := 0\<rparr>"

definition set_flags ::
  "henv \<Rightarrow> flags_cfg \<Rightarrow> cstring \<Rightarrow> cstring option \<Rightarrow> hsearch_data \<times> int \<Rightarrow> ((hsearch_data \<times> int) \<times> int) option" where
  "set_flags env fc name value s =
     map_option (\<lambda>(h, errno, rc, ep).
         (case ep of
            None \<Rightarrow> ((h, errno), 0)
          | Some i \<Rightarrow>
              let e = entry (table h ! i);
                  new = (if value = None \<or> value = Some [] then 0 else env_parse_flags_to_bin fc (the value))
              in ((set_entry h i (e\<lparr>e_flags := new\<rparr>), errno), 0)))
       (hsearch_r env name None ENV_FIND (fst s) (snd s) 0)"

text \<open>\<open>on_flags\<close> and \<open>on_callbacks\<close> ignore the results of the walks.\<close>

definition attr_update ::
  "(cstring \<Rightarrow> bool) \<Rightarrow> (cstring \<Rightarrow> cstring option \<Rightarrow> hsearch_data \<times> int \<Rightarrow> ((hsearch_data \<times> int) \<times> int) option) \<Rightarrow>
   cstring \<Rightarrow> cstring option \<Rightarrow> hsearch_data \<times> int \<Rightarrow> (hsearch_data \<times> int) option" where
  "attr_update mem_ok callback static value s =
     Option.bind (env_attr_walk mem_ok (Some static) callback s) (\<lambda>(s1, r1).
       map_option fst (env_attr_walk mem_ok value callback s1))"

definition on_flags ::
  "henv \<Rightarrow> flags_cfg \<Rightarrow> (cstring \<Rightarrow> bool) \<Rightarrow> cstring option \<Rightarrow> hsearch_data \<times> int \<Rightarrow> (hsearch_data \<times> int) option" where
  "on_flags env fc mem_ok value s =
     attr_update mem_ok (set_flags env fc) (fc_static fc) value (hwalk_update clear_flags (fst s), snd s)"

definition clear_callback :: "env_entry \<Rightarrow> env_entry" where
  "clear_callback e = e\<lparr>e_callback := None\<rparr>"

definition set_callback ::
  "henv \<Rightarrow> flags_cfg \<Rightarrow> cstring \<Rightarrow> cstring option \<Rightarrow> hsearch_data \<times> int \<Rightarrow> ((hsearch_data \<times> int) \<times> int) option" where
  "set_callback env fc name value s =
     map_option (\<lambda>(h, errno, rc, ep).
         (case ep of
            None \<Rightarrow> ((h, errno), 0)
          | Some i \<Rightarrow>
              let e = entry (table h ! i)
              in if value = None \<or> value = Some [] then ((set_entry h i (e\<lparr>e_callback := None\<rparr>), errno), 0)
                 else case find_env_callback fc (the value) of
                        Some cb \<Rightarrow> ((set_entry h i (e\<lparr>e_callback := Some cb\<rparr>), errno), 0)
                      | None \<Rightarrow> ((h, errno), 0)))
       (hsearch_r env name None ENV_FIND (fst s) (snd s) 0)"

definition on_callbacks ::
  "henv \<Rightarrow> flags_cfg \<Rightarrow> (cstring \<Rightarrow> bool) \<Rightarrow> cstring option \<Rightarrow> hsearch_data \<times> int \<Rightarrow> (hsearch_data \<times> int) option" where
  "on_callbacks env fc mem_ok value s =
     attr_update mem_ok (set_callback env fc) (fc_callback_static fc) value (hwalk_update clear_callback (fst s), snd s)"

subsection \<open>Permission\<close>

text \<open>
  \<open>env_flags_validate\<close>. An entry that is overwritten has a value. \<open>env_get_default\<close> always returns, as its buffer
  has 32 bytes.
\<close>

definition env_flags_validate :: "flags_cfg \<Rightarrow> env_cfg \<Rightarrow> env_entry \<Rightarrow> cstring option \<Rightarrow> env_op \<Rightarrow> int \<Rightarrow> int" where
  "env_flags_validate fc cfg item newval0 op flag =
     (let newval = (case newval0 of Some v \<Rightarrow> v | None \<Rightarrow> []);
          type = vartype_of (nat (VARTYPE_BIN_MASK AND e_flags item))
      in if op \<noteq> env_op_delete \<and> validate_type newval type < 0 then - 1
         else if fc_writeable_list fc \<and> flag AND H_DEFAULT \<noteq> 0 then 0
         else if fc_writeable_list fc \<and> flag AND H_EXTERNAL \<noteq> 0 \<and> e_flags item AND VARACCESS_WRITEABLE = 0 then 1
         else if flag AND H_FORCE \<noteq> 0 \<and> \<not> fc_ignore_force fc then 0
         else
           case op of
             env_op_delete \<Rightarrow> if e_flags item AND PREVENT_DELETE \<noteq> 0 then 1 else 0
           | env_op_overwrite \<Rightarrow>
               if e_flags item AND PREVENT_OVERWR \<noteq> 0 then 1
               else if e_flags item AND PREVENT_NONDEF_OVERWR \<noteq> 0 then
                 let defval = (case the (env_get_default cfg (the (e_key item))) of Some d \<Rightarrow> d | None \<Rightarrow> [])
                 in if the (e_data item) \<noteq> defval then 1 else 0
               else 0
           | env_op_create \<Rightarrow> if e_flags item AND PREVENT_CREATE \<noteq> 0 then 1 else 0)"

section \<open>The formats of values\<close>

text \<open>\<open>groups\<close> is the shape of an address: a number of groups with a separator between them.\<close>

fun groups :: "(cstring \<Rightarrow> bool) \<Rightarrow> u8 \<Rightarrow> nat \<Rightarrow> cstring \<Rightarrow> bool" where
  "groups G sep 0 t = False"
| "groups G sep (Suc 0) t = G t"
| "groups G sep (Suc n) t =
     (sep \<in> set t \<and> G (takeWhile (\<lambda>c. c \<noteq> sep) t) \<and> groups G sep n (tl (dropWhile (\<lambda>c. c \<noteq> sep) t)))"

definition ip_group :: "cstring \<Rightarrow> bool" where
  "ip_group a \<longleftrightarrow> a \<noteq> [] \<and> length a \<le> 3 \<and> list_all isdigit a"

definition hex_pair :: "cstring \<Rightarrow> bool" where
  "hex_pair a \<longleftrightarrow> a \<noteq> [] \<and> length a \<le> 2 \<and> list_all isxdigit a"

definition mac_group :: "cstring \<Rightarrow> bool" where
  "mac_group a \<longleftrightarrow> hex_pair a \<or> is_hex_prefix a 0 \<and> hex_pair (drop 2 a)"

definition value_format :: "env_flags_vartype option \<Rightarrow> cstring \<Rightarrow> bool" where
  "value_format type v =
     (case type of
        Some env_flags_vartype_decimal \<Rightarrow> list_all isdigit v
      | Some env_flags_vartype_hex \<Rightarrow> list_all isxdigit v \<or> is_hex_prefix v 0 \<and> drop 2 v \<noteq> [] \<and> list_all isxdigit (drop 2 v)
      | Some env_flags_vartype_bool \<Rightarrow> length v = 1 \<and> hd v \<in> set bool_letters
      | Some env_flags_vartype_ipaddr \<Rightarrow> groups ip_group 46 4 v
      | Some env_flags_vartype_macaddr \<Rightarrow> groups mac_group 58 6 v
      | Some env_flags_vartype_end \<Rightarrow> False
      | Some env_flags_vartype_string \<Rightarrow> True
      | None \<Rightarrow> True)"

text \<open>A loop over groups: \<open>scan\<close> is the length of the group at the front of a text and \<open>good\<close> the check made of it.\<close>

locale group_loop =
  fixes loop :: "nat \<Rightarrow> cstring \<Rightarrow> nat \<Rightarrow> int" and scan :: "cstring \<Rightarrow> nat" and good :: "cstring \<Rightarrow> bool"
    and sep :: u8 and G :: "cstring \<Rightarrow> bool"
  assumes loop_0: "loop 0 v p = 0"
    and loop_Suc: "loop (Suc n) v p =
      (let k = scan (drop p v)
       in if k = 0 \<or> \<not> good (drop p v) then - 1
          else if byte_at (drop p v) k \<noteq> (if n = 0 then 0 else sep) then - 1
          else loop n v (p + k + 1))"
    and scan_group: "G a \<Longrightarrow> r = [] \<or> hd r = sep \<Longrightarrow> scan (a @ r) = length a \<and> a \<noteq> [] \<and> good (a @ r)"
    and group_scan: "scan t \<noteq> 0 \<Longrightarrow> good t \<Longrightarrow>
      scan t \<le> length t \<and> G (take (scan t) t) \<and> sep \<notin> set (take (scan t) t)"
begin

lemma loop_range: "loop n v p = 0 \<or> loop n v p = - 1"
  by (induction n arbitrary: p) (auto simp: loop_0 loop_Suc Let_def)

lemma last_group:
  assumes "0 \<notin> set t"
  shows "scan t \<noteq> 0 \<and> good t \<and> byte_at t (scan t) = 0 \<longleftrightarrow> G t"
proof
  assume l: "scan t \<noteq> 0 \<and> good t \<and> byte_at t (scan t) = 0"
  then have "scan t \<le> length t" "G (take (scan t) t)" using group_scan by blast+
  moreover have "\<not> scan t < length t"
  proof
    assume "scan t < length t"
    then have "byte_at t (scan t) \<in> set t" by (simp add: byte_at_def)
    then show False using l assms by simp
  qed
  ultimately show "G t" by simp
next
  assume "G t"
  then show "scan t \<noteq> 0 \<and> good t \<and> byte_at t (scan t) = 0"
    using scan_group [of t "[]"] by (simp add: byte_at_def)
qed

lemma inner_group:
  assumes "sep \<noteq> 0"
  shows "scan t \<noteq> 0 \<and> good t \<and> byte_at t (scan t) = sep \<longleftrightarrow> sep \<in> set t \<and> G (takeWhile (\<lambda>c. c \<noteq> sep) t)"
    and "sep \<in> set t \<Longrightarrow> G (takeWhile (\<lambda>c. c \<noteq> sep) t) \<Longrightarrow> drop (scan t + 1) t = tl (dropWhile (\<lambda>c. c \<noteq> sep) t)"
proof -
  have right: "scan t \<noteq> 0 \<and> good t \<and> byte_at t (scan t) = sep \<and> drop (scan t + 1) t = tl (dropWhile (\<lambda>c. c \<noteq> sep) t)"
    if a: "sep \<in> set t" "G (takeWhile (\<lambda>c. c \<noteq> sep) t)"
  proof -
    let ?a = "takeWhile (\<lambda>c. c \<noteq> sep) t"
    have "dropWhile (\<lambda>c. c \<noteq> sep) t \<noteq> []" using a(1) by (auto simp: dropWhile_eq_Nil_conv)
    then obtain r where r: "dropWhile (\<lambda>c. c \<noteq> sep) t = sep # r"
      using hd_dropWhile [of "\<lambda>c. c \<noteq> sep" t] by (cases "dropWhile (\<lambda>c. c \<noteq> sep) t") auto
    then have t: "t = ?a @ sep # r" by (metis takeWhile_dropWhile_id)
    have "scan (?a @ sep # r) = length ?a" "?a \<noteq> []" "good (?a @ sep # r)"
      using scan_group [OF a(2), of "sep # r"] by simp_all
    then have "scan t = length ?a" "?a \<noteq> []" "good t" by (simp_all only: t [symmetric] not_False_eq_True)
    moreover have "byte_at t (length ?a) = sep" using byte_at_append0 [of ?a "sep # r"] unfolding t [symmetric] by simp
    moreover have "drop (length ?a + 1) t = r" by (subst t) simp
    ultimately show ?thesis using r by simp
  qed
  then show "sep \<in> set t \<Longrightarrow> G (takeWhile (\<lambda>c. c \<noteq> sep) t) \<Longrightarrow> drop (scan t + 1) t = tl (dropWhile (\<lambda>c. c \<noteq> sep) t)"
    by blast
  have left: "sep \<in> set t \<and> G (takeWhile (\<lambda>c. c \<noteq> sep) t)" if l: "scan t \<noteq> 0" "good t" "byte_at t (scan t) = sep"
  proof -
    let ?k = "scan t"
    have k: "G (take ?k t)" "sep \<notin> set (take ?k t)" using group_scan [OF l(1,2)] by blast+
    have len: "?k < length t" "t ! ?k = sep" using l(3) assms by (auto simp: byte_at_def split: if_splits)
    then have t: "t = take ?k t @ sep # drop (Suc ?k) t" by (metis Cons_nth_drop_Suc append_take_drop_id)
    have "takeWhile (\<lambda>c. c \<noteq> sep) (take ?k t @ sep # drop (Suc ?k) t) = take ?k t"
      using k(2) by (auto simp: takeWhile_append)
    then have "takeWhile (\<lambda>c. c \<noteq> sep) t = take ?k t" by (simp only: t [symmetric])
    then show ?thesis using k(1) len nth_mem by metis
  qed
  show "scan t \<noteq> 0 \<and> good t \<and> byte_at t (scan t) = sep \<longleftrightarrow> sep \<in> set t \<and> G (takeWhile (\<lambda>c. c \<noteq> sep) t)"
    using left right by blast
qed

lemma loop_groups:
  assumes "sep \<noteq> 0" "0 \<notin> set v"
  shows "loop (Suc n) v p = 0 \<longleftrightarrow> groups G sep (Suc n) (drop p v)"
proof (induction n arbitrary: p)
  case 0
  have "0 \<notin> set (drop p v)" using assms(2) by (meson in_set_dropD)
  then show ?case using last_group [of "drop p v"] by (auto simp: loop_Suc loop_0 Let_def)
next
  case (Suc n)
  let ?t = "drop p v"
  have "loop (Suc (Suc n)) v p = 0 \<longleftrightarrow>
      scan ?t \<noteq> 0 \<and> good ?t \<and> byte_at ?t (scan ?t) = sep \<and> groups G sep (Suc n) (drop (scan ?t + 1) ?t)"
    by (subst loop_Suc) (auto simp: Let_def Suc.IH add.commute add.left_commute)
  also have "\<dots> \<longleftrightarrow> groups G sep (Suc (Suc n)) ?t"
    using inner_group [OF assms(1), of ?t] by (simp del: drop_drop) metis
  finally show ?case .
qed

end

abbreviation digit :: "bool \<Rightarrow> u8 \<Rightarrow> bool" where
  "digit hex \<equiv> (if hex then isxdigit else isdigit)"

lemma digit_zero [simp]: "\<not> isdigit 0" "\<not> isxdigit 0"
  by (simp_all add: isdigit_iff isxdigit_iff)

lemma digit_sep [simp]: "\<not> isdigit 46" "\<not> isxdigit 58" "\<not> isxdigit 120" "\<not> isxdigit 88" "isxdigit 48"
  by (simp_all add: isdigit_iff isxdigit_iff)

lemma drop_byte: "drop p v = (if p < length v then byte_at v p # drop (Suc p) v else [])"
  by (simp add: byte_at_def Cons_nth_drop_Suc)

lemma byte_out: "length v \<le> p \<Longrightarrow> byte_at v p = 0"
  by (simp add: byte_at_def)

lemma skip_digits_bounded: "skip_digits hex v p (int n) = p + length (takeWhile (digit hex) (take n (drop p v)))"
proof (induction n arbitrary: p)
  case 0
  then show ?case by (subst skip_digits.simps) simp
next
  case (Suc n)
  show ?case
  proof (cases "p < length v")
    case True
    then show ?thesis using Suc [of "Suc p"]
      by (subst skip_digits.simps) (simp add: drop_byte [of p v])
  next
    case False
    then show ?thesis by (subst skip_digits.simps) (simp add: byte_out)
  qed
qed

lemma skip_digits_all: "i < 0 \<Longrightarrow> skip_digits hex v p i = p + length (takeWhile (digit hex) (drop p v))"
proof (induction hex v p i rule: skip_digits.induct)
  case (1 hex v p i)
  show ?case
  proof (cases "p < length v")
    case True
    then show ?thesis using 1
      by (subst skip_digits.simps) (simp add: drop_byte [of p v])
  next
    case False
    then show ?thesis by (subst skip_digits.simps) (simp add: byte_out)
  qed
qed

lemma byte_at_drop: "byte_at (drop p v) k = byte_at v (p + k)"
  by (auto simp: byte_at_def)

lemma byte_zero: "0 \<notin> set t \<Longrightarrow> byte_at t k = 0 \<longleftrightarrow> length t \<le> k"
  by (metis byte_at_def leD leI nth_mem)

lemma is_hex_prefix_drop: "is_hex_prefix (drop p v) k = is_hex_prefix v (p + k)"
  by (simp add: is_hex_prefix_def byte_at_drop add.assoc)

lemma byte_at_front: "i < length a \<Longrightarrow> byte_at (a @ r) i = byte_at a i"
  by (simp add: byte_at_def nth_append)

text \<open>The groups of the two kinds of address.\<close>

definition ip_scan :: "cstring \<Rightarrow> nat" where
  "ip_scan t = length (takeWhile isdigit (take 3 t))"

definition mac_scan :: "cstring \<Rightarrow> nat" where
  "mac_scan t = (if is_hex_prefix t 0 then 2 + length (takeWhile isxdigit (take 2 (drop 2 t)))
     else length (takeWhile isxdigit (take 2 t)))"

definition mac_good :: "cstring \<Rightarrow> bool" where
  "mac_good t \<longleftrightarrow> \<not> (mac_scan t = 2 \<and> is_hex_prefix t 0)"

lemma scan_digits:
  assumes "list_all D a" "length a \<le> n" "r = [] \<or> \<not> D (hd r)"
  shows "takeWhile D (take n (a @ r)) = a"
proof -
  have "takeWhile D (take m r) = []" for m using assms(3) by (cases r; cases m) auto
  moreover have "takeWhile D a = a" using assms(1) by (simp add: list_all_iff takeWhile_eq_all_conv)
  ultimately show ?thesis using assms(1,2) by (simp add: takeWhile_append2 list_all_iff)
qed

lemma take_scan: "take (length (takeWhile D (take n t))) t = takeWhile D (take n t)"
  by (metis append_take_drop_id append_eq_conv_conj takeWhile_eq_take take_take min.absorb_iff1 length_takeWhile_le takeWhile_dropWhile_id)

lemma takeWhile_all: "list_all D (takeWhile D t)"
  by (auto simp: list_all_iff dest: set_takeWhileD)

interpretation ip: group_loop ipaddr_loop ip_scan "\<lambda>t. True" 46 ip_group
proof (unfold_locales, goal_cases)
  case (2 n v p)
  have "skip_num False v p 3 = p + ip_scan (drop p v)"
    using skip_digits_bounded [of False v p 3] by (simp add: skip_num_def ip_scan_def)
  then show ?case by (simp add: Let_def byte_at_drop)
next
  case (3 a r)
  then have "takeWhile isdigit (take 3 (a @ r)) = a" by (intro scan_digits) (auto simp: ip_group_def)
  then show ?case using 3 unfolding ip_scan_def by (simp add: ip_group_def)
next
  case (4 t)
  let ?w = "takeWhile isdigit (take 3 t)"
  have "length ?w \<le> length (take 3 t)" by (rule length_takeWhile_le)
  moreover have "46 \<notin> set ?w" using takeWhile_all [of isdigit "take 3 t"] by (auto simp: list_all_iff)
  ultimately show ?case
    using 4 take_scan [of isdigit 3 t] takeWhile_all [of isdigit "take 3 t"] by (auto simp: ip_scan_def ip_group_def)
qed simp

lemma hex_pair_scan:
  assumes "hex_pair a" "r = [] \<or> hd r = 58"
  shows "takeWhile isxdigit (take 2 (a @ r)) = a"
  using assms by (intro scan_digits) (auto simp: hex_pair_def)

lemma hex_pair_no_prefix:
  assumes "hex_pair a" "r = [] \<or> hd r = 58"
  shows "\<not> is_hex_prefix (a @ r) 0"
proof
  assume p: "is_hex_prefix (a @ r) 0"
  obtain c a' where a: "a = c # a'" using assms(1) by (cases a) (auto simp: hex_pair_def)
  then have "byte_at (a' @ r) 0 = 120 \<or> byte_at (a' @ r) 0 = 88" using p by (simp add: is_hex_prefix_def)
  moreover have "isxdigit (byte_at (a' @ r) 0) \<or> byte_at (a' @ r) 0 = 58 \<or> byte_at (a' @ r) 0 = 0"
    using assms a by (cases a'; cases r) (auto simp: hex_pair_def byte_at_def)
  ultimately show False by auto
qed

lemma hex_prefix_list: "is_hex_prefix a 0 \<longleftrightarrow> (\<exists>x w. a = 48 # x # w \<and> (x = 120 \<or> x = 88))"
proof
  assume p: "is_hex_prefix a 0"
  then have "byte_at a 1 \<noteq> 0" by (auto simp: is_hex_prefix_def)
  then have "1 < length a" by (rule byte_at_less)
  then obtain c x w where "a = c # x # w" by (cases a; cases "tl a") auto
  then show "\<exists>x w. a = 48 # x # w \<and> (x = 120 \<or> x = 88)" using p by (auto simp: is_hex_prefix_def)
qed (auto simp: is_hex_prefix_def)

lemma hex_scan_pair:
  fixes n :: nat
  assumes "w = takeWhile isxdigit (take 2 t)" "w \<noteq> []"
  shows "hex_pair w" "58 \<notin> set w" "length w \<le> length t" "take (length w) t = w"
proof -
  have all: "list_all isxdigit w" unfolding assms(1) by (rule takeWhile_all)
  have "length w \<le> length (take 2 t)" unfolding assms(1) by (rule length_takeWhile_le)
  then show "hex_pair w" "length w \<le> length t" using all assms(2) by (auto simp: hex_pair_def)
  show "58 \<notin> set w" using all by (auto simp: list_all_iff)
  show "take (length w) t = w" unfolding assms(1) by (rule take_scan)
qed

interpretation mac: group_loop ethaddr_loop mac_scan mac_good 58 mac_group
proof (unfold_locales, goal_cases)
  case (2 n v p)
  have "skip_num True v p 2 = p + mac_scan (drop p v)"
    using skip_digits_bounded [of True v "p + 2" 2] skip_digits_bounded [of True v p 2] is_hex_prefix_drop [of p v 0]
    by (simp add: skip_num_def mac_scan_def add.commute)
  then show ?case using is_hex_prefix_drop [of p v 0] by (auto simp: Let_def byte_at_drop mac_good_def)
next
  case (3 a r)
  from 3(1) consider (plain) "hex_pair a" | (prefixed) "is_hex_prefix a 0" "hex_pair (drop 2 a)"
    by (auto simp: mac_group_def)
  then show ?case
  proof cases
    case plain
    then show ?thesis
      using hex_pair_scan [OF plain 3(2)] hex_pair_no_prefix [OF plain 3(2)]
      unfolding mac_scan_def mac_good_def by (auto simp: hex_pair_def)
  next
    case prefixed
    then obtain x w where a: "a = 48 # x # w" "x = 120 \<or> x = 88" "hex_pair w" by (auto simp: hex_prefix_list)
    have "is_hex_prefix (a @ r) 0" using a by (auto simp: is_hex_prefix_def)
    moreover have "takeWhile isxdigit (take 2 (drop 2 (a @ r))) = w" using hex_pair_scan [OF a(3) 3(2)] a(1) by simp
    ultimately show ?thesis using a unfolding mac_scan_def mac_good_def by (auto simp: hex_pair_def)
  qed
next
  case (4 t)
  show ?case
  proof (cases "is_hex_prefix t 0")
    case True
    then obtain x w where t: "t = 48 # x # w" "x = 120 \<or> x = 88" by (auto simp: hex_prefix_list)
    define u where "u = takeWhile isxdigit (take 2 w)"
    have k: "mac_scan t = 2 + length u" using True t by (simp add: mac_scan_def u_def)
    then have "u \<noteq> []" using 4(2) True by (auto simp: mac_good_def)
    note u = hex_scan_pair [OF u_def this]
    have "take (mac_scan t) t = 48 # x # u" using k t u(4) by simp
    then show ?thesis using k t u by (auto simp: mac_group_def is_hex_prefix_def)
  next
    case False
    define u where "u = takeWhile isxdigit (take 2 t)"
    have k: "mac_scan t = length u" using False by (simp add: mac_scan_def u_def)
    then have "u \<noteq> []" using 4(1) by auto
    note u = hex_scan_pair [OF u_def this]
    show ?thesis using k u by (simp add: mac_group_def)
  qed
qed simp



end
