(* ===== verification/EnvGuard.thy ===== *)
theory EnvGuard
  imports EnvFlags
begin

text \<open>
  The access rights of variables at work: the table of \<open>Hashtable\<close> with \<open>env_flags_validate\<close> as its \<open>change_ok\<close> and
  with entries initialised from the attribute lists. \<open>held\<close> says which entry the table has for a name. The
  lemmas show which entries an operation leaves alone and that a change without permission leaves the
  table as it is; a run of commands is an inductive relation, and protection is an invariant of it. The
  last part shows that setting \<open>.flags\<close> gives every variable the rights it would get when created.
\<close>

section \<open>Entries of the table\<close>

definition held :: "hsearch_data \<Rightarrow> cstring \<Rightarrow> env_entry \<Rightarrow> bool" where
  "held htab k e \<longleftrightarrow> (\<exists>i d. holds htab i k d \<and> entry (table htab ! i) = e)"

lemma held_data: "h_wf cval htab \<Longrightarrow> held htab k e \<Longrightarrow> e_key e = Some k \<and> hmap htab k = e_data e"
  using hmap_holds [of cval htab k] by (auto simp: held_def holds_def)

lemma held_slot: "holds htab i k d \<Longrightarrow> held htab k (entry (table htab ! i))"
  by (auto simp: held_def)

lemma held_unique: "h_wf cval htab \<Longrightarrow> held htab k e \<Longrightarrow> holds htab i k d \<Longrightarrow> entry (table htab ! i) = e"
  unfolding held_def by (metis holds_unique)

lemma holds_other:
  assumes "holds htab i k d" "h_size htab' = h_size htab" "table htab' ! i = table htab ! i"
  shows "holds htab' i k d"
  using assms by (simp add: holds_def)

lemma held_other:
  assumes "held htab k e" "h_size htab' = h_size htab" "\<And>i d. holds htab i k d \<Longrightarrow> table htab' ! i = table htab ! i"
  shows "held htab' k e"
  using assms holds_other [of htab _ k _ htab'] unfolding held_def by metis

section \<open>What an operation leaves alone\<close>

definition one_slot :: "hsearch_data \<Rightarrow> nat \<Rightarrow> hsearch_data \<Rightarrow> bool" where
  "one_slot htab i h \<longleftrightarrow> h_size h = h_size htab \<and> (\<exists>nd. table h = (table htab)[i := nd])"

lemma one_slot_simps [simp]:
  "one_slot htab i htab"
  "one_slot htab i (htab\<lparr>table := (table htab)[i := nd]\<rparr>)"
  "one_slot htab i (htab\<lparr>table := (table htab)[i := nd], filled := n\<rparr>)"
  by (auto simp: one_slot_def intro: exI [of _ "table htab ! i"])

lemma compare_table: "one_slot htab i (fst (compare_and_overwrite_entry env key data action htab errno flag hval i))"
  by (simp add: compare_and_overwrite_entry_def Let_def)

lemma new_table:
  assumes "i = (if fd \<noteq> 0 then fd else idx)"
  shows "one_slot htab i (fst (hsearch_new env key data action htab errno flag hval idx fd))"
  unfolding hsearch_new_def assms [symmetric] Let_def by (simp add: hdelete_slot_def)

lemma enter_other:
  assumes wf: "h_wf (char_val env) htab" and "hsearch_r env key (Some d) ENV_ENTER htab errno flag = Some (htab', rest)"
    "k \<noteq> key" "held htab k e"
  shows "held htab' k e"
proof -
  let ?h = "first_hash (char_val env) (h_size htab) key" and ?s = "h_size htab"
  have keep: "held htab' k e" if "table htab' = (table htab)[j := nd]" "h_size htab' = ?s" "\<And>d. \<not> holds htab j k d" for j nd
    using assms(4) that by (intro held_other [of htab k e htab']) (metis nth_list_update_neq)+
  from hsearch_outcome [OF wf, of key "Some d" ENV_ENTER errno flag] show ?thesis
  proof (elim disjE exE conjE)
    fix i d0 assume h: "holds htab i key d0"
      and "hsearch_r env key (Some d) ENV_ENTER htab errno flag =
        Some (compare_and_overwrite_entry env key (Some d) ENV_ENTER htab errno flag ?h i)"
    then have "fst (compare_and_overwrite_entry env key (Some d) ENV_ENTER htab errno flag ?h i) = htab'" using assms(2) by (metis fst_conv option.inject)
    then obtain nd where "table htab' = (table htab)[i := nd]" "h_size htab' = ?s"
      using compare_table [of htab i env key "Some d" ENV_ENTER errno flag ?h] unfolding one_slot_def by auto
    then show ?thesis using keep holds_same [OF h] assms(3) by blast
  next
    fix idx fd assume slot: "filled htab \<noteq> ?s \<longrightarrow> (\<exists>j < ?s. (if fd \<noteq> 0 then fd else idx) = probe_at ?s ?h j \<and>
        slot_used htab (probe_at ?s ?h j) \<le> 0 \<and> (\<forall>j' < j. slot_used htab (probe_at ?s ?h j') \<noteq> 0))"
      and "hsearch_r env key (Some d) ENV_ENTER htab errno flag =
        Some (hsearch_new env key (Some d) ENV_ENTER htab errno flag ?h idx fd)"
    then have new: "fst (hsearch_new env key (Some d) ENV_ENTER htab errno flag ?h idx fd) = htab'" using assms(2) by (metis fst_conv option.inject)
    show ?thesis
    proof (cases "filled htab = ?s")
      case True
      then show ?thesis using new assms(4) by (simp add: hsearch_new_def)
    next
      case False
      let ?i = "if fd \<noteq> 0 then fd else idx"
      have "slot_used htab ?i \<le> 0" using slot False by auto
      then have "\<not> holds htab ?i k d" for d by (simp add: holds_def)
      moreover obtain nd where "table htab' = (table htab)[?i := nd]" "h_size htab' = ?s"
        using new_table [of ?i fd idx htab env key "Some d" ENV_ENTER errno flag ?h, OF refl] unfolding new one_slot_def by blast
      ultimately show ?thesis using keep by blast
    qed
  qed
qed

lemma enter_denied:
  assumes wf: "h_wf (char_val env) htab" and "held htab key e" "change_denied htab e (Some d) env_op_overwrite flag"
  shows "hsearch_r env key (Some d) ENV_ENTER htab errno flag = Some (htab, EPERM, 0, None)"
proof -
  obtain i0 d0 where "holds htab i0 key d0" using assms(2) by (auto simp: held_def)
  then obtain i d' where i: "holds htab i key d'" "slot_matches htab (first_hash (char_val env) (h_size htab) key) key i"
      "hsearch_r env key (Some d) ENV_ENTER htab errno flag =
        Some (compare_and_overwrite_entry env key (Some d) ENV_ENTER htab errno flag (first_hash (char_val env) (h_size htab) key) i)"
    using hsearch_outcome [OF wf, of key "Some d" ENV_ENTER errno flag] by blast
  then show ?thesis
    using assms(3) held_unique [OF wf assms(2) i(1)] by (simp add: compare_and_overwrite_entry_def slot_matches_def Let_def)
qed

lemma delete_run:
  assumes wf: "h_wf (char_val env) htab" and i: "holds htab i key d"
  shows "hdelete_r env key htab errno flag =
    (if change_denied htab (entry (table htab ! i)) None env_op_delete flag then Some (htab, EPERM, - EPERM)
     else if do_callback env (entry (table htab ! i)) key None env_op_delete flag \<noteq> 0 then Some (htab, EINVAL, - EINVAL)
     else Some (hdelete_slot htab i, errno, 0))"
proof -
  have "hmap htab key = Some d" using hmap_holds [OF wf] i by blast
  then obtain j where "holds htab j key d" "hsearch_r env key None ENV_FIND htab errno 0 = Some (htab, errno, int j, Some j)"
    using find_spec [OF wf, of key None errno 0] by auto
  moreover from this have "j = i" using holds_unique [OF wf i] by simp
  moreover have "int i \<noteq> 0" using i by (simp add: holds_def)
  ultimately show ?thesis by (simp add: hdelete_r_def Let_def)
qed

lemma delete_absent: "h_wf (char_val env) htab \<Longrightarrow> hmap htab key = None \<Longrightarrow> hdelete_r env key htab errno flag = Some (htab, ESRCH, - ENOENT)"
  using find_spec [of env htab key None errno 0] by (simp add: hdelete_r_def)

lemma delete_other:
  assumes wf: "h_wf (char_val env) htab" and run: "hdelete_r env key htab errno flag = Some (htab', rest)" and "k \<noteq> key" "held htab k e"
  shows "held htab' k e"
proof (cases "hmap htab key")
  case None
  then show ?thesis using delete_absent [OF wf None] run assms(4) by simp
next
  case (Some d)
  then obtain i where i: "holds htab i key d" using hmap_holds [OF wf] by blast
  have "htab' = htab \<or> htab' = hdelete_slot htab i" using run unfolding delete_run [OF wf i] by (auto split: if_splits)
  moreover have "held (hdelete_slot htab i) k e"
  proof (rule held_other [OF assms(4)])
    fix j d' assume "holds htab j k d'"
    then have "j \<noteq> i" using holds_same [OF i] assms(3) by blast
    then show "table (hdelete_slot htab i) ! j = table htab ! j" by (simp add: hdelete_slot_def)
  qed (simp add: hdelete_slot_def)
  ultimately show ?thesis using assms(4) by auto
qed

lemma delete_denied:
  assumes wf: "h_wf (char_val env) htab" and "held htab key e" "change_denied htab e None env_op_delete flag"
  shows "hdelete_r env key htab errno flag = Some (htab, EPERM, - EPERM)"
  using assms(2,3) delete_run [OF wf] by (auto simp: held_def)

text \<open>A new entry is what \<open>entry_init\<close> makes of the key and the value; it stays if the change is approved.\<close>

lemma enter_result:
  assumes wf: "h_wf (char_val env) htab" and ok: "env_ok env" and "hmap htab key = None" and full: "filled htab \<noteq> h_size htab"
  obtains e0 h1 p where "e_key e0 = Some key" "e_data e0 = Some d" "held h1 key (entry_init env e0)"
    "hsearch_r env key (Some d) ENV_ENTER htab errno flag = Some
       (if change_denied htab (entry_init env e0) (Some d) env_op_create flag then (hdelete_slot h1 p, EPERM, 0, None)
        else if do_callback env (entry_init env e0) key (Some d) env_op_create flag \<noteq> 0 then (hdelete_slot h1 p, EINVAL, 0, None)
        else (h1, errno, 1, Some p))"
proof -
  let ?h = "first_hash (char_val env) (h_size htab) key" and ?s = "h_size htab"
  have none: "\<forall>i d. \<not> holds htab i key d" using assms(3) hmap_None [OF wf] by blast
  then obtain idx fd where run: "hsearch_r env key (Some d) ENV_ENTER htab errno flag =
      Some (hsearch_new env key (Some d) ENV_ENTER htab errno flag ?h idx fd)"
    and slot: "\<exists>j < ?s. (if fd \<noteq> 0 then fd else idx) = probe_at ?s ?h j"
    using hsearch_outcome [OF wf, of key "Some d" ENV_ENTER errno flag] full by blast
  define p where "p = (if fd \<noteq> 0 then fd else idx)"
  define e0 where "e0 = (entry (table htab ! p))\<lparr>e_key := Some key, e_data := Some d\<rparr>"
  define h1 where "h1 = htab\<lparr>table := (table htab)[p := \<lparr>used = int ?h, entry = entry_init env e0\<rparr>], filled := filled htab + 1\<rparr>"
  have h: "1 \<le> ?h" "?h \<le> ?s" "3 \<le> ?s" using first_hash_range [of ?s] h_wfD(2) [OF wf] by auto
  obtain j where "p = probe_at ?s ?h j" using slot unfolding p_def by blast
  then have p: "1 \<le> p" "p \<le> ?s" using probe_at_range [OF h(3,1,2), of j] by simp_all
  then have len: "p < length (table htab)" using h_wfD(3) [OF wf] by simp
  have new: "hsearch_new env key (Some d) ENV_ENTER htab errno flag ?h idx fd =
      (if change_denied h1 (entry_init env e0) (Some d) env_op_create flag then (hdelete_slot h1 p, EPERM, 0, None)
       else if do_callback env (entry_init env e0) key (Some d) env_op_create flag \<noteq> 0 then (hdelete_slot h1 p, EINVAL, 0, None)
       else (h1, errno, 1, Some p))"
    using full ok len unfolding hsearch_new_def p_def [symmetric] Let_def
    by (simp add: env_ok_def e0_def h1_def)
  have "e_key (entry_init env e0) = Some key" "e_data (entry_init env e0) = Some d"
    using ok by (simp_all add: env_ok_def e0_def)
  then have "holds h1 p key d" "entry (table h1 ! p) = entry_init env e0"
    using p len h(1) by (simp_all add: holds_def h1_def)
  then have "held h1 key (entry_init env e0)" by (auto simp: held_def)
  moreover have "change_denied h1 e v op f = change_denied htab e v op f" for e v op f by (simp add: change_denied_def h1_def)
  ultimately show thesis using that [of e0 h1 p] run new by (simp add: e0_def)
qed

lemma enter_new:
  assumes wf: "h_wf (char_val env) htab" and ok: "env_ok env" and none: "hmap htab key = None"
    and run: "hsearch_r env key (Some d) ENV_ENTER htab errno flag = Some (htab', errno', ret, Some i)"
  obtains e0 where "e_key e0 = Some key" "e_data e0 = Some d" "held htab' key (entry_init env e0)"
proof -
  have "\<forall>i d. \<not> holds htab i key d" using none hmap_None [OF wf] by blast
  then have full: "filled htab \<noteq> h_size htab"
    using hsearch_outcome [OF wf, of key "Some d" ENV_ENTER errno flag] run by (auto simp: hsearch_new_def)
  from enter_result [OF wf ok none full, of d errno flag] obtain e0 h1 p where
    "e_key e0 = Some key" "e_data e0 = Some d" "held h1 key (entry_init env e0)"
    "hsearch_r env key (Some d) ENV_ENTER htab errno flag = Some
       (if change_denied htab (entry_init env e0) (Some d) env_op_create flag then (hdelete_slot h1 p, EPERM, 0, None)
        else if do_callback env (entry_init env e0) key (Some d) env_op_create flag \<noteq> 0 then (hdelete_slot h1 p, EINVAL, 0, None)
        else (h1, errno, 1, Some p))" by metis
  then show thesis using run that [of e0] by (auto split: if_splits)
qed

section \<open>Runs of commands\<close>

text \<open>A command that is not forced, and the runs made of such commands and of reading variables.\<close>

definition unforced :: "cstring list \<Rightarrow> int \<Rightarrow> bool" where
  "unforced argv flag \<longleftrightarrow>
     (case set_opts argv flag of Some (rest, f) \<Rightarrow> f AND H_FORCE = 0 \<and> f AND H_DEFAULT = 0 | None \<Rightarrow> True)"

inductive env_run :: "env_cfg \<Rightarrow> env_gd \<Rightarrow> env_gd \<Rightarrow> bool" for cfg gd where
  start: "env_run cfg gd gd"
| command: "env_run cfg gd gd1 \<Longrightarrow> unforced argv flag \<Longrightarrow> env_do_env_set cfg mem_ok gd1 argv flag = Some (gd2, rc) \<Longrightarrow> env_run cfg gd gd2"
| get: "env_run cfg gd gd1 \<Longrightarrow> env_get cfg gd1 name = Some (gd2, value) \<Longrightarrow> env_run cfg gd gd2"

inductive_cases env_runE: "env_run cfg gd gd'"

definition guarded :: "flags_cfg \<Rightarrow> env_cfg \<Rightarrow> env_gd \<Rightarrow> bool" where
  "guarded fc cfg gd \<longleftrightarrow> h_wf (char_val (ec_henv cfg)) (env_htab gd) \<and> change_ok (env_htab gd) = Some (env_flags_validate fc cfg)"

definition protected :: "env_entry \<Rightarrow> bool" where
  "protected e \<longleftrightarrow> e_flags e AND PREVENT_DELETE \<noteq> 0 \<and> e_flags e AND PREVENT_OVERWR \<noteq> 0"

lemma validate_protected:
  assumes "protected e" "f AND H_FORCE = 0" "f AND H_DEFAULT = 0" "op = env_op_overwrite \<or> op = env_op_delete"
  shows "env_flags_validate fc cfg e v op f \<noteq> 0"
  using assms by (auto simp: env_flags_validate_def protected_def Let_def)

lemma command_guarded:
  assumes ok: "env_ok (ec_henv cfg)" and g: "guarded fc cfg gd" and h: "held (env_htab gd) k e" "protected e"
    and u: "unforced argv flag" and run: "env_do_env_set cfg mem_ok gd argv flag = Some (gd', rc)"
  shows "guarded fc cfg gd' \<and> held (env_htab gd') k e"
proof -
  let ?env = "ec_henv cfg" and ?h = "env_htab gd"
  have wf: "h_wf (char_val ?env) ?h" and co: "change_ok ?h = Some (env_flags_validate fc cfg)" using g by (auto simp: guarded_def)
  have same: ?thesis if "env_htab gd' = ?h" using that g h by (simp add: guarded_def)
  consider (usage) "set_opts argv flag = None" | (null) f where "set_opts argv flag = Some ([], f)"
    | (name) name args f where "set_opts argv flag = Some (name # args, f)"
    by (metis list.exhaust option.exhaust prod.exhaust)
  then show ?thesis
  proof cases
    case usage
    then show ?thesis using run same by (simp add: env_do_env_set_def)
  next
    case null
    then show ?thesis using run by (simp add: env_do_env_set_def)
  next
    case name
    then have f: "f AND H_FORCE = 0" "f AND H_DEFAULT = 0" using u by (auto simp: unforced_def)
    have denied: "change_denied ?h e v op f" if "op = env_op_overwrite \<or> op = env_op_delete" for v op
      using validate_protected [OF h(2) f that] co by (simp add: change_denied_def)
    show ?thesis
    proof (cases "61 \<in> set name \<or> args \<noteq> [] \<and> \<not> mem_ok")
      case True
      then have "env_htab gd' = ?h" using run name by (auto simp: env_do_env_set_def env_inc_id_def Let_def split: if_splits)
      then show ?thesis by (rule same)
    next
      case False
      show ?thesis
      proof (cases "args = []")
        case True
        obtain h' errno' ret where del: "hdelete_r ?env name ?h (env_errno gd) f = Some (h', errno', ret)"
            "h_wf (char_val ?env) h'" "change_ok h' = change_ok ?h"
          using delete_spec [OF wf, of name "env_errno gd" f] by blast
        then have "env_htab gd' = h'"
          using run name False True by (auto simp: env_do_env_set_def env_inc_id_def Let_def)
        moreover have "held h' k e"
          using delete_other [OF wf del(1)] delete_denied [OF wf _ denied, of name "env_errno gd"] del(1) h(1)
          by (cases "name = k") auto
        ultimately show ?thesis using del(2,3) co by (simp add: guarded_def)
      next
        case set: False
        obtain h' errno' ret rv where ent: "hsearch_r ?env name (Some (join_args args)) ENV_ENTER ?h (env_errno gd) f = Some (h', errno', ret, rv)"
            "h_wf (char_val ?env) h'" "change_ok h' = change_ok ?h"
          using enter_spec [OF wf ok, of name "join_args args" "env_errno gd" f] by blast
        then have "env_htab gd' = h'"
          using run name False set by (auto simp: env_do_env_set_def env_inc_id_def Let_def)
        moreover have "held h' k e"
          using enter_other [OF wf ent(1)] enter_denied [OF wf _ denied, of name "join_args args" "env_errno gd"] ent(1) h(1)
          by (cases "name = k") auto
        ultimately show ?thesis using ent(2,3) co by (simp add: guarded_def)
      qed
    qed
  qed
qed

lemma get_table: "h_wf (char_val (ec_henv cfg)) (env_htab gd) \<Longrightarrow> env_get cfg gd name = Some (gd', v) \<Longrightarrow> env_htab gd' = env_htab gd"
  using find_spec [of "ec_henv cfg" "env_htab gd" name None "env_errno gd" 0]
  by (auto simp: env_get_def split: if_splits option.splits)

lemma run_protected:
  assumes "env_run cfg gd gd'" "env_ok (ec_henv cfg)" "guarded fc cfg gd" "held (env_htab gd) k e" "protected e"
  shows "guarded fc cfg gd' \<and> held (env_htab gd') k e"
  using assms
proof (induction rule: env_run.induct)
  case (command gd1 argv flag mem_ok gd2 rc)
  then show ?case using command_guarded [of cfg fc gd1 k e argv flag mem_ok gd2 rc] by blast
next
  case (get gd1 name gd2 v)
  then have "env_htab gd2 = env_htab gd1" using get_table [of cfg gd1 name gd2 v] by (auto simp: guarded_def)
  then show ?case using get by (auto simp: guarded_def)
qed simp

section \<open>The rights of a variable\<close>

text \<open>The initialisation of a new entry after the first call, as \<open>hsearch_r\<close> makes it.\<close>

definition env_entry_init :: "flags_cfg \<Rightarrow> attr_state \<Rightarrow> attr_state \<Rightarrow> env_entry \<Rightarrow> env_entry" where
  "env_entry_init fc cst fst' e =
     (case env_callback_init fc None cst e of
        None \<Rightarrow> e
      | Some (_, e1) \<Rightarrow> (case env_flags_init fc None fst' e1 of None \<Rightarrow> e1 | Some (_, e2) \<Rightarrow> e2))"

text \<open>What the lists say of a variable: the last entry of its name in the dynamic list, or else in the static one.\<close>

definition flags_for :: "flags_cfg \<Rightarrow> attr_pair list \<Rightarrow> cstring \<Rightarrow> int" where
  "flags_for fc ps k = (case attrs_of ps k of Some v \<Rightarrow> if v = [] then 0 else env_parse_flags_to_bin fc v | None \<Rightarrow> 0)"

definition lists_ok :: "flags_cfg \<Rightarrow> attr_pair option list \<Rightarrow> attr_pair option list \<Rightarrow> bool" where
  "lists_ok fc xs ys \<longleftrightarrow> fc_regex fc = None \<and> fc_static fc = attr_text xs \<and> items_ok xs \<and> items_ok ys \<and>
     (\<forall>k v. attrs_of (items xs @ items ys) k = Some v \<longrightarrow> length v \<le> 2)"

lemma attrs_of_append:
  "attrs_of (ps @ qs) k = (case attrs_of qs k of Some v \<Rightarrow> Some v | None \<Rightarrow> attrs_of ps k)"
  by (auto simp: attrs_of_def map_add_def split: option.splits)

lemma flags_lookup_lists:
  assumes "lists_ok fc xs ys" "list_all clean k" "k \<noteq> []"
  shows "env_flags_lookup fc (Some (attr_text ys)) k =
    (case attrs_of (items xs @ items ys) k of Some v \<Rightarrow> (0, Some v) | None \<Rightarrow> (- ENOENT, None))"
  using assms lookup_last [of xs k] lookup_last [of ys k]
  by (auto simp: env_flags_lookup_def env_attr_lookup_def lists_ok_def attrs_of_append split: option.splits)

lemma flags_init_lists:
  assumes "lists_ok fc xs ys" "list_all clean k" "k \<noteq> []" "e_key e = Some k" "\<not> first_call st" "attr_list st = Some (attr_text ys)"
  shows "env_flags_init fc flags_var st e = Some (st,
    if flags_for fc (items xs @ items ys) k = 0 \<and> attrs_of (items xs @ items ys) k \<in> {None, Some []} then e
    else e\<lparr>e_flags := flags_for fc (items xs @ items ys) k\<rparr>)"
  using assms flags_lookup_lists [OF assms(1-3)]
  by (auto simp: env_flags_init_def flags_fit_def flags_for_def lists_ok_def Let_def split: option.splits)

lemma callback_init_keeps:
  "env_callback_init fc v st e = Some (st', e') \<Longrightarrow> e_key e' = e_key e \<and> e_data e' = e_data e \<and> e_flags e' = e_flags e"
  by (auto simp: env_callback_init_def Let_def split: if_splits option.splits)

lemma flags_init_keeps: "env_flags_init fc v st e = Some (st', e') \<Longrightarrow> e_key e' = e_key e \<and> e_data e' = e_data e"
  by (auto simp: env_flags_init_def Let_def split: if_splits)

lemma entry_init_keeps: "e_key (env_entry_init fc c f e) = e_key e \<and> e_data (env_entry_init fc c f e) = e_data e"
  by (auto simp: env_entry_init_def split: option.splits dest!: callback_init_keeps flags_init_keeps)

text \<open>\<open>111\<close> is the letter of write-once variables.\<close>

lemma bin_write_once:
  "env_parse_flags_to_bin fc [t, 111] AND PREVENT_DELETE \<noteq> 0" "env_parse_flags_to_bin fc [t, 111] AND PREVENT_OVERWR \<noteq> 0"
  "env_parse_flags_to_bin fc [t, 111] AND PREVENT_CREATE = 0"
proof -
  have bin: "env_parse_flags_to_bin fc [t, 111] = (int (env_flags_parse_vartype [t, 111]) AND 7) OR 40"
    by (simp add: env_parse_flags_to_bin_def env_flags_parse_varaccess_def env_flags_varaccess_rep_def env_flags_varaccess_mask_def)
  have "((x AND 7) OR 40) AND 8 = 8" "((x AND 7) OR 40) AND 32 = 32" "((x AND 7) OR 40) AND 16 = 0" for x :: int
    by (simp_all add: bit.conj_disj_distrib2 and.assoc)
  then show "env_parse_flags_to_bin fc [t, 111] AND PREVENT_DELETE \<noteq> 0" "env_parse_flags_to_bin fc [t, 111] AND PREVENT_OVERWR \<noteq> 0"
    "env_parse_flags_to_bin fc [t, 111] AND PREVENT_CREATE = 0"
    unfolding bin by simp_all
qed

lemma entry_init_lists:
  assumes "lists_ok fc xs ys" "\<not> first_call fst'" "attr_list fst' = Some (attr_text ys)" "list_all clean k" "k \<noteq> []"
    "attrs_of (items xs @ items ys) k = Some (x # w)" "e_key e0 = Some k"
    "env_callback_init fc None cst (empty_entry\<lparr>e_key := Some k\<rparr>) \<noteq> None"
  shows "e_flags (env_entry_init fc cst fst' e0) = env_parse_flags_to_bin fc (x # w)"
proof -
  have "env_callback_init fc None cst e0 \<noteq> None"
    using assms(7,8) by (auto simp: env_callback_init_def Let_def empty_entry_def split: if_splits option.splits)
  then obtain st e1 where cb: "env_callback_init fc None cst e0 = Some (st, e1)" by auto
  then have "e_key e1 = Some k" using callback_init_keeps assms(7) by metis
  then show ?thesis
    using flags_init_lists [OF assms(1,4,5) _ assms(2,3), of e1 None] cb assms(6) by (simp add: env_entry_init_def flags_for_def)
qed


text \<open>A table in which the variable \<open>s\<close> is write-once.\<close>

definition demo_fc :: flags_cfg where
  "demo_fc = \<lparr>fc_regex = None, fc_static = attr_text [Some ([115], Some [115, 111]), None], fc_writeable_list = False,
     fc_ignore_force = False, fc_callback_static = [], fc_callbacks = []\<rparr>"

definition demo_lists :: "cstring option \<Rightarrow> attr_state" where
  "demo_lists l = \<lparr>first_call = False, attr_list = l\<rparr>"

definition guard_cfg :: env_cfg where
  "guard_cfg = demo_cfg\<lparr>ec_henv := demo_env\<lparr>entry_init := env_entry_init demo_fc (demo_lists None) (demo_lists (Some []))\<rparr>\<rparr>"

lemma guard_cfg_simps:
  "env_ok (ec_henv guard_cfg)" "char_val (ec_henv guard_cfg) = uint"
  "entry_init (ec_henv guard_cfg) = env_entry_init demo_fc (demo_lists None) (demo_lists (Some []))"
  "do_callback (ec_henv guard_cfg) e k v op flag = 0"
  by (simp_all add: guard_cfg_def env_ok_def demo_env_def entry_init_keeps do_callback_def split: option.splits)

lemma demo_lists_ok: "lists_ok demo_fc [Some ([115], Some [115, 111]), None] []"
  by (simp add: lists_ok_def demo_fc_def pair_ok_def clean_def isspace_iff attrs_of_def)

lemma guard_callback: "env_callback_init demo_fc None (demo_lists None) (empty_entry\<lparr>e_key := Some [115]\<rparr>) \<noteq> None"
  using lookup_last [of "[]" "[115]"]
  by (simp add: env_callback_init_def demo_lists_def demo_fc_def env_attr_lookup_def clean_def isspace_iff empty_entry_def)

lemma guard_created:
  obtains gd gd' where "guarded demo_fc guard_cfg gd" "gd_env_ready gd" "hmap (env_htab gd) [115] = None"
    "env_set guard_cfg True gd [115] (Some [49]) = Some (gd', 0)" "h_wf uint (env_htab gd')"
proof -
  obtain h0 where h0: "h_ok demo_env h0" "hmap h0 = Map.empty" "5 \<le> h_size h0" by (rule demo_start)
  define h where "h = h0\<lparr>change_ok := Some (env_flags_validate demo_fc guard_cfg)\<rparr>"
  have wf: "h_wf uint h" using h0(1) by (simp add: h_def h_ok_def h_wf_def demo_env_simps)
  have map: "hmap h = Map.empty" using h0(2) by (simp add: h_def hmap_def)
  have "filled h = 0" using filled_card [OF wf] map by simp
  then have full: "filled h \<noteq> h_size h" using h0(3) by (simp add: h_def)
  have k: "list_all clean [115]" "attrs_of (items [Some ([115], Some [115, 111]), None] @ items []) [115] = Some [115, 111]"
    by (simp_all add: clean_def isspace_iff attrs_of_def)
  from enter_result [of "ec_henv guard_cfg" h "[115]" "[49]" 0 H_PROGRAMMATIC] obtain e0 h1 p where
    e0: "e_key e0 = Some [115]" and run: "hsearch_r (ec_henv guard_cfg) [115] (Some [49]) ENV_ENTER h 0 H_PROGRAMMATIC = Some
       (if change_denied h (entry_init (ec_henv guard_cfg) e0) (Some [49]) env_op_create H_PROGRAMMATIC then (hdelete_slot h1 p, EPERM, 0, None)
        else if do_callback (ec_henv guard_cfg) (entry_init (ec_henv guard_cfg) e0) [115] (Some [49]) env_op_create H_PROGRAMMATIC \<noteq> 0
          then (hdelete_slot h1 p, EINVAL, 0, None)
        else (h1, 0, 1, Some p))"
    using wf map full guard_cfg_simps by metis
  have "e_flags (entry_init (ec_henv guard_cfg) e0) = env_parse_flags_to_bin demo_fc [115, 111]"
    using entry_init_lists [OF demo_lists_ok _ _ k(1) _ k(2) e0 guard_callback] by (simp add: guard_cfg_simps demo_lists_def)
  also have "\<dots> = 40"
    by (simp add: env_parse_flags_to_bin_def env_flags_parse_vartype_def env_flags_parse_varaccess_def env_flags_vartype_rep_def
        env_flags_varaccess_rep_def env_flags_varaccess_mask_def)
  finally have "\<not> change_denied h (entry_init (ec_henv guard_cfg) e0) (Some [49]) env_op_create H_PROGRAMMATIC"
    by (simp add: change_denied_def h_def env_flags_validate_def vartype_of_def vartypes_def validate_type_def demo_fc_def)
  then have run1: "hsearch_r (ec_henv guard_cfg) [115] (Some [49]) ENV_ENTER h 0 H_PROGRAMMATIC = Some (h1, 0, 1, Some p)"
    using run by (simp add: guard_cfg_simps)
  then have "h_wf uint h1" using enter_spec [of "ec_henv guard_cfg" h "[115]" "[49]" 0 H_PROGRAMMATIC] wf guard_cfg_simps by simp
  moreover have "env_set guard_cfg True (demo_gd h) [115] (Some [49]) = Some ((env_inc_id (demo_gd h))\<lparr>env_htab := h1, env_errno := 0\<rparr>, 0)"
    using run1 by (simp add: env_set_def env_do_env_set_def set_opts_plain env_inc_id_def demo_gd_def)
  moreover have "guarded demo_fc guard_cfg (demo_gd h)" using wf by (simp add: guarded_def demo_gd_def guard_cfg_simps h_def)
  ultimately show thesis using that [of "demo_gd h"] map by (simp add: demo_gd_def)
qed


section \<open>A new list of flags\<close>

text \<open>Changes of entries that leave keys, values and the used slots alone.\<close>

definition entries_map :: "(nat \<Rightarrow> env_entry \<Rightarrow> env_entry) \<Rightarrow> hsearch_data \<Rightarrow> hsearch_data \<Rightarrow> bool" where
  "entries_map g h h' \<longleftrightarrow> h_size h' = h_size h \<and> filled h' = filled h \<and> change_ok h' = change_ok h \<and>
     length (table h') = length (table h) \<and> slot_used h' = slot_used h \<and> slot_key h' = slot_key h \<and> slot_data h' = slot_data h \<and>
     (\<forall>i \<in> {1..h_size h}. entry (table h' ! i) = g i (entry (table h ! i)))"

definition keeps :: "(env_entry \<Rightarrow> env_entry) \<Rightarrow> bool" where
  "keeps f \<longleftrightarrow> (\<forall>e. e_key (f e) = e_key e \<and> e_data (f e) = e_data e)"

lemma entries_map_refl: "entries_map (\<lambda>i e. e) h h"
  by (simp add: entries_map_def)

lemma entries_map_trans: "entries_map g h h1 \<Longrightarrow> entries_map g' h1 h2 \<Longrightarrow> entries_map (\<lambda>i e. g' i (g i e)) h h2"
  by (simp add: entries_map_def)

lemma entries_map_one:
  assumes "i < length (table h)" "keeps f"
  shows "entries_map (\<lambda>j e. if j = i then f e else e) h (set_entry h i (f (entry (table h ! i))))"
  using assms by (auto simp: entries_map_def keeps_def nth_list_update fun_eq_iff)

lemma entries_map_wf:
  assumes "entries_map g h h'" "h_wf cval h"
  shows "h_wf cval h'" "hmap h' = hmap h" "holds h i k d \<Longrightarrow> holds h' i k d" "held h k e \<Longrightarrow> \<exists>i. held h' k (g i e)"
proof -
  have same: "h_size h' = h_size h" "filled h' = filled h" "length (table h') = length (table h)"
    "slot_used h' = slot_used h" "slot_key h' = slot_key h" "slot_data h' = slot_data h"
    and e: "\<And>i. i \<in> {1..h_size h} \<Longrightarrow> entry (table h' ! i) = g i (entry (table h ! i))"
    using assms(1) by (auto simp: entries_map_def)
  have holds: "holds h' i k d = holds h i k d" for i k d
    unfolding holds_def same same(4-6) [THEN fun_cong] ..
  show wf': "h_wf cval h'"
    using assms(2) unfolding h_wf_def same same(4-6) [THEN fun_cong] .
  show "hmap h' = hmap h"
    by (rule hmap_eqI [OF wf']) (simp add: hmap_holds [OF assms(2)] holds)
  show "holds h i k d \<Longrightarrow> holds h' i k d" by (simp add: holds)
  show "held h k e \<Longrightarrow> \<exists>i. held h' k (g i e)" using e holds unfolding held_def by (metis holds_def)
qed

lemma held_map:
  assumes "entries_map g h h'" "h_wf cval h" "holds h i k d"
  shows "held h' k (g i (entry (table h ! i)))"
proof -
  have "entry (table h' ! i) = g i (entry (table h ! i))" using assms(1,3) by (auto simp: entries_map_def holds_def)
  then show ?thesis using entries_map_wf(3) [OF assms] by (auto simp: held_def)
qed

text \<open>The same in terms of names.\<close>

definition relabel :: "(u8 \<Rightarrow> int) \<Rightarrow> (cstring \<Rightarrow> env_entry \<Rightarrow> env_entry) \<Rightarrow> hsearch_data \<Rightarrow> hsearch_data \<Rightarrow> bool" where
  "relabel cval g h h' \<longleftrightarrow> h_wf cval h' \<and> hmap h' = hmap h \<and> change_ok h' = change_ok h \<and> (\<forall>k e. held h k e \<longrightarrow> held h' k (g k e))"

lemma relabel_trans: "relabel cval g h h1 \<Longrightarrow> relabel cval g' h1 h2 \<Longrightarrow> relabel cval (\<lambda>k e. g' k (g k e)) h h2"
  by (auto simp: relabel_def)

lemma walk_update:
  assumes "keeps f" "set is \<subseteq> {1..h_size h}" "length (table h) = h_size h + 1"
  shows "entries_map (\<lambda>i e. if i \<in> set is \<and> 0 < slot_used h i then f e else e) h (fold (walk_entry f) is h) \<or> \<not> distinct is"
  using assms
proof (induction "is" arbitrary: h)
  case Nil
  then show ?case using entries_map_refl [of h] by simp
next
  case (Cons i "is")
  define h1 where "h1 = walk_entry f i h"
  have i: "i < length (table h)" using Cons.prems by auto
  have m1: "entries_map (\<lambda>j e. if j = i \<and> 0 < slot_used h i then f e else e) h h1"
    using entries_map_one [OF i assms(1)] entries_map_refl [of h] by (auto simp: h1_def walk_entry_def)
  then have sz: "h_size h1 = h_size h" "length (table h1) = length (table h)" "slot_used h1 = slot_used h"
    by (auto simp: entries_map_def)
  show ?case
  proof (cases "distinct (i # is)")
    case True
    have "entries_map (\<lambda>j e. if j \<in> set is \<and> 0 < slot_used h j then f e else e) h1 (fold (walk_entry f) is h1)"
      using Cons.IH [of h1] Cons.prems True sz(1,2) sz(3) [THEN fun_cong] by auto
    from entries_map_trans [OF m1 this]
    have "entries_map (\<lambda>j e. if j \<in> set is \<and> 0 < slot_used h j then f (if j = i \<and> 0 < slot_used h i then f e else e)
        else if j = i \<and> 0 < slot_used h i then f e else e) h (fold (walk_entry f) (i # is) h)"
      by (simp add: h1_def)
    moreover have "(\<lambda>j e. if j \<in> set is \<and> 0 < slot_used h j then f (if j = i \<and> 0 < slot_used h i then f e else e)
        else if j = i \<and> 0 < slot_used h i then f e else e) =
      (\<lambda>j e. if j \<in> set (i # is) \<and> 0 < slot_used h j then f e else e)"
      using True by (auto simp: fun_eq_iff)
    ultimately show ?thesis by simp
  qed simp
qed

lemma hwalk_relabel:
  assumes wf: "h_wf cval h" and "keeps f"
  shows "relabel cval (\<lambda>k. f) h (hwalk_update f h)"
proof -
  have m: "entries_map (\<lambda>i e. if i \<in> set [1 ..< Suc (h_size h)] \<and> 0 < slot_used h i then f e else e) h (hwalk_update f h)"
  proof -
    have "set [1 ..< Suc (h_size h)] \<subseteq> {1..h_size h}" by auto
    then show ?thesis
      using walk_update [OF assms(2), of "[1 ..< Suc (h_size h)]" h] h_wfD(3) [OF wf] distinct_upt
      unfolding hwalk_update_def by blast
  qed
  have "held (hwalk_update f h) k (f e)" if hd: "held h k e" for k e
  proof -
    obtain i d where "holds h i k d" "entry (table h ! i) = e" using hd by (auto simp: held_def)
    then show ?thesis using held_map [OF m wf, of i k d] by (auto simp: holds_def simp del: upt_Suc)
  qed
  then show ?thesis
    using entries_map_wf(1,2) [OF m wf] m by (simp add: relabel_def entries_map_def)
qed

definition bin_of :: "flags_cfg \<Rightarrow> cstring option \<Rightarrow> int" where
  "bin_of fc a = (if a = None \<or> a = Some [] then 0 else env_parse_flags_to_bin fc (the a))"

lemma set_flags_relabel:
  assumes wf: "h_wf (char_val env) h"
  shows "\<exists>h' er'. set_flags env fc n a (h, er) = Some ((h', er'), 0) \<and>
    relabel (char_val env) (\<lambda>k e. if k = n then e\<lparr>e_flags := bin_of fc a\<rparr> else e) h h'"
proof (cases "hmap h n")
  case None
  then have "set_flags env fc n a (h, er) = Some ((h, ESRCH), 0)"
    using find_spec [OF wf, of n None er 0] by (simp add: set_flags_def)
  moreover have "\<not> held h n e" for e using None hmap_None [OF wf] by (auto simp: held_def)
  then have "relabel (char_val env) (\<lambda>k e. if k = n then e\<lparr>e_flags := bin_of fc a\<rparr> else e) h h"
    using wf by (auto simp: relabel_def)
  ultimately show ?thesis by blast
next
  case (Some d)
  then obtain i where i: "holds h i n d" "hsearch_r env n None ENV_FIND h er 0 = Some (h, er, int i, Some i)"
    using find_spec [OF wf, of n None er 0] by auto
  let ?f = "\<lambda>e. e\<lparr>e_flags := bin_of fc a\<rparr>"
  let ?h = "set_entry h i (?f (entry (table h ! i)))"
  have "set_flags env fc n a (h, er) = Some ((?h, er), 0)"
    using i(2) by (simp add: set_flags_def bin_of_def Let_def)
  moreover have m: "entries_map (\<lambda>j e. if j = i then ?f e else e) h ?h"
    using i(1) h_wfD(3) [OF wf] by (intro entries_map_one) (auto simp: holds_def keeps_def)
  have "held ?h k (if k = n then ?f e else e)" if hd: "held h k e" for k e
  proof -
    obtain j d' where j: "holds h j k d'" "entry (table h ! j) = e" using hd by (auto simp: held_def)
    have "j = i \<longleftrightarrow> k = n" using j(1) i(1) holds_unique [OF wf] holds_same by blast
    then show ?thesis using held_map [OF m wf j(1)] j(2) by auto
  qed
  then have "relabel (char_val env) (\<lambda>k e. if k = n then ?f e else e) h ?h"
    using entries_map_wf(1,2) [OF m wf] by (simp add: relabel_def)
  ultimately show ?thesis by blast
qed

lemma walk_flags_relabel:
  assumes wf: "h_wf (char_val env) h"
  shows "\<exists>h' er'. walk_items (set_flags env fc) ps (h, er) = Some ((h', er'), 0) \<and>
    relabel (char_val env) (\<lambda>k e. case map_of (rev ps) k of Some a \<Rightarrow> e\<lparr>e_flags := bin_of fc a\<rparr> | None \<Rightarrow> e) h h'"
  using wf
proof (induction ps arbitrary: h er)
  case Nil
  then show ?case by (auto simp: relabel_def)
next
  case (Cons p ps)
  obtain n a where p: "p = (n, a)" by (cases p)
  obtain h1 er1 where s1: "set_flags env fc n a (h, er) = Some ((h1, er1), 0)"
      "relabel (char_val env) (\<lambda>k e. if k = n then e\<lparr>e_flags := bin_of fc a\<rparr> else e) h h1"
    using set_flags_relabel [OF Cons.prems] by blast
  then obtain h2 er2 where s2: "walk_items (set_flags env fc) ps (h1, er1) = Some ((h2, er2), 0)"
      "relabel (char_val env) (\<lambda>k e. case map_of (rev ps) k of Some a \<Rightarrow> e\<lparr>e_flags := bin_of fc a\<rparr> | None \<Rightarrow> e) h1 h2"
    using Cons.IH [of h1 er1] by (auto simp: relabel_def)
  have eq: "(\<lambda>k e. case map_of (rev ps) k of Some a' \<Rightarrow> (if k = n then e\<lparr>e_flags := bin_of fc a\<rparr> else e)\<lparr>e_flags := bin_of fc a'\<rparr>
      | None \<Rightarrow> if k = n then e\<lparr>e_flags := bin_of fc a\<rparr> else e) =
    (\<lambda>k e. case map_of (rev (p # ps)) k of Some a \<Rightarrow> e\<lparr>e_flags := bin_of fc a\<rparr> | None \<Rightarrow> e)"
    by (auto simp: fun_eq_iff p map_add_def split: option.splits)
  from relabel_trans [OF s1(2) s2(2)]
  have "relabel (char_val env) (\<lambda>k e. case map_of (rev (p # ps)) k of Some a \<Rightarrow> e\<lparr>e_flags := bin_of fc a\<rparr> | None \<Rightarrow> e) h h2"
    unfolding eq .
  then show ?case using s1(1) s2(1) by (auto simp: p)
qed

lemma flags_for_bin:
  "flags_for fc ps k = (case map_of (rev ps) k of Some a \<Rightarrow> bin_of fc a | None \<Rightarrow> 0)"
  by (auto simp: flags_for_def attrs_of_def bin_of_def split: option.splits)

lemma on_flags_relabel:
  assumes wf: "h_wf (char_val env) h" and ok: "lists_ok fc xs ys"
  shows "\<exists>h' er'. on_flags env fc (\<lambda>e. True) (Some (attr_text ys)) (h, er) = Some (h', er') \<and>
    relabel (char_val env) (\<lambda>k e. e\<lparr>e_flags := flags_for fc (items xs @ items ys) k\<rparr>) h h'"
proof -
  let ?w = "\<lambda>ps k e. case map_of (rev ps) k of Some a \<Rightarrow> e\<lparr>e_flags := bin_of fc a\<rparr> | None \<Rightarrow> e"
  define h0 where "h0 = hwalk_update clear_flags h"
  have r0: "relabel (char_val env) (\<lambda>k. clear_flags) h h0"
    unfolding h0_def by (rule hwalk_relabel [OF wf]) (simp add: keeps_def clear_flags_def)
  then have "h_wf (char_val env) h0" by (simp add: relabel_def)
  then obtain h1 er1 where s1: "walk_items (set_flags env fc) (items xs) (h0, er) = Some ((h1, er1), 0)"
      "relabel (char_val env) (?w (items xs)) h0 h1"
    using walk_flags_relabel by blast
  then have "h_wf (char_val env) h1" by (simp add: relabel_def)
  then obtain h2 er2 where s2: "walk_items (set_flags env fc) (items ys) (h1, er1) = Some ((h2, er2), 0)"
      "relabel (char_val env) (?w (items ys)) h1 h2"
    using walk_flags_relabel by blast
  have run: "on_flags env fc (\<lambda>e. True) (Some (attr_text ys)) (h, er) = Some (h2, er2)"
    using ok s1(1) s2(1) by (simp add: on_flags_def attr_update_def env_attr_walk_def lists_ok_def h0_def walk_text)
  have "(\<lambda>k e. ?w (items ys) k (?w (items xs) k (clear_flags e))) =
      (\<lambda>k e. e\<lparr>e_flags := flags_for fc (items xs @ items ys) k\<rparr>)"
    by (auto simp: fun_eq_iff flags_for_bin clear_flags_def map_add_def split: option.splits)
  then show ?thesis using relabel_trans [OF relabel_trans [OF r0 s1(2)] s2(2)] run by auto
qed



section \<open>Where the code and its intent differ\<close>

text \<open>
  With regular expressions the blanket update does not know them: it looks for a variable whose name is
  the pattern. A static entry for a pattern, as that for the Ethernet addresses, is lost for existing
  variables as soon as \<open>.flags\<close> is set, although a new variable would get it.
\<close>

lemma on_flags_ignores_pattern:
  assumes wf: "h_wf (char_val env) h" and "fc_static fc = attr_text [Some (pat, Some a)]" "pair_ok (pat, Some a)"
    "hmap h pat = None" "held h k e"
  shows "\<exists>h' er'. on_flags env fc (\<lambda>e. True) None (h, er) = Some (h', er') \<and> held h' k (e\<lparr>e_flags := 0\<rparr>)"
proof -
  define h0 where "h0 = hwalk_update clear_flags h"
  have r0: "relabel (char_val env) (\<lambda>k. clear_flags) h h0"
    unfolding h0_def by (rule hwalk_relabel [OF wf]) (simp add: keeps_def clear_flags_def)
  then have h0: "h_wf (char_val env) h0" "hmap h0 pat = None" "held h0 k (e\<lparr>e_flags := 0\<rparr>)"
    using assms(4,5) by (auto simp: relabel_def clear_flags_def)
  then have "set_flags env fc pat (Some a) (h0, er) = Some ((h0, ESRCH), 0)"
    using find_spec [OF h0(1), of pat None er 0] by (simp add: set_flags_def)
  then have "on_flags env fc (\<lambda>e. True) None (h, er) = Some (h0, ESRCH)"
    using walk_text [of "[Some (pat, Some a)]" "\<lambda>e. True" "set_flags env fc" "(h0, er)"] assms(2,3)
    by (simp add: on_flags_def attr_update_def env_attr_walk_def h0_def)
  then show ?thesis using h0(3) by blast
qed

lemma pattern_gives_flags:
  assumes "fc_regex fc = Some r" "fc_static fc = attr_text [Some (pat, Some a)]" "pair_ok (pat, Some a)" "a \<noteq> []" "length a \<le> 2"
    "r (94 # pat @ [36]) = Some m" "m k" "e_key e = Some k" "\<not> first_call st" "attr_list st = None"
  shows "env_flags_init fc flags_var st e = Some (st, e\<lparr>e_flags := env_parse_flags_to_bin fc a\<rparr>)"
proof -
  have "env_attr_lookup (Some r) (Some (attr_text [Some (pat, Some a)])) k = (0, Some a)"
    using lookup_regex [of "[Some (pat, Some a)]" r k] assms(3,6,7) by (simp add: matching_def)
  then show ?thesis using assms by (simp add: env_flags_init_def env_flags_lookup_def flags_fit_def)
qed

text \<open>
  The list is fetched when the first variable is created; a variable that is created later gets its flags
  from this list, whatever \<open>.flags\<close> is then.
\<close>

lemma flags_list_stale:
  "\<not> first_call st \<Longrightarrow> env_flags_init fc flags_var st e = env_flags_init fc flags_var' st e"
  by (simp add: env_flags_init_def)

text \<open>Attributes of more than two characters overflow the array on the stack.\<close>

lemma flags_overflow:
  assumes "fc_regex fc = None" "items_ok ys" "list_all clean k" "k \<noteq> []" "attrs_of (items ys) k = Some a" "2 < length a"
    "e_key e = Some k" "\<not> first_call st" "attr_list st = Some (attr_text ys)"
  shows "env_flags_init fc flags_var st e = None"
  using assms lookup_last [OF assms(2-4)] by (simp add: env_flags_init_def env_flags_lookup_def env_attr_lookup_def flags_fit_def)

text \<open>
  \<open>env_get_default\<close> returns at most 31 characters, so a variable of the class change-default whose default value
  is longer can never be changed.
\<close>

lemma linear_end_is_zero: "linear_end m env sz e = Some e' \<Longrightarrow> m e' = 0"
proof (induction m env sz e rule: linear_end.induct)
  case (1 m env sz e)
  then show ?case by (subst (asm) (2) linear_end.simps) (auto split: if_splits)
qed

lemma linear_loop_end: "linear_loop m env sz name p = Some (value, e) \<Longrightarrow> m e = 0"
proof (induction m env sz name p rule: linear_loop.induct)
  case (1 m env sz name p)
  from 1(2) show ?case
    by (subst (asm) linear_loop.simps) (auto split: if_splits option.splits dest: linear_end_is_zero intro: 1(1))
qed

lemma takeWhile_shorter: "x \<in> set xs \<Longrightarrow> \<not> P x \<Longrightarrow> length (takeWhile P xs) < length xs"
  by (induction xs) auto

lemma env_get_default_short:
  assumes "env_get_default cfg name = Some (Some d)"
  shows "length d < 32"
proof -
  let ?m = "ec_mem cfg"
  obtain ret buf where r: "env_get_from_linear ?m (ec_default_ptr cfg) (config_env_size cfg) name 32 = Some (ret, buf)" "0 \<le> ret"
      "d = takeWhile (\<lambda>c. c \<noteq> 0) buf"
    using assms by (auto simp: env_get_default_def env_get_default_into_def buf_string_def split: if_splits)
  then obtain v e where l: "linear_loop ?m (ec_default_ptr cfg) (config_env_size cfg) name (ec_default_ptr cfg) = Some (v, e)"
      "buf = (if 32 \<le> e - v then (mem_bytes ?m v (min 32 (e - v + 1)))[31 := 0] else mem_bytes ?m v (min 32 (e - v + 1)))"
    by (auto simp: env_get_from_linear_def Let_def split: if_splits option.splits)
  have "length d \<le> length buf" unfolding r(3) by (rule length_takeWhile_le)
  moreover have "0 \<in> set buf" if "31 \<le> e - v"
  proof (cases "32 \<le> e - v")
    case True
    then show ?thesis using l(2) by (auto intro: set_update_memI)
  next
    case False
    then have "e - v = 31" "v + 31 = e" using that by simp_all
    then have "length buf = 32" "buf ! 31 = 0"
      using linear_loop_end [OF l(1)] l(2) by simp_all
    then show ?thesis using nth_mem [of 31 buf] by simp
  qed
  ultimately show ?thesis
    using takeWhile_shorter [of 0 buf "\<lambda>c. c \<noteq> 0"] l(2) r(3) by (cases "31 \<le> e - v") auto
qed

lemma long_default_frozen:
  assumes "e_flags e = 64" "e_key e = Some k" "e_data e = Some d" "32 \<le> length d" "env_get_default cfg k = Some def"
  shows "env_flags_validate fc cfg e v env_op_overwrite 0 \<noteq> 0"
  using assms env_get_default_short [of cfg k]
  by (auto simp: env_flags_validate_def Let_def split: option.splits)

end
