(* ===== verification/Printf.thy ===== *)
theory Printf
  imports Vsprintf "HOL-Library.Sublist"
begin

text \<open>
  Formatted output: the format interpreter \<open>vsnprintf_internal\<close> of \<open>lib/vsprintf.c\<close> with its wrappers, the \<open>%p\<close>
  extensions and the small converters at the end of the file. The format is the list of its
  bytes; the buffer, string arguments and addresses are in the store. An argument list is a list of
  tagged values: taking an argument of another type, or one that is not there, is undefined in C
  and \<open>None\<close> here. \<open>long\<close>, \<open>size_t\<close> and pointers have 64 bits. The build has no EFI loader and no UUID library.

  The record \<open>penv\<close> has the addresses of the literal \<open><NULL>\<close>, of the local array of the \<open>%p\<close> routines and of the
  array of \<open>vprintf\<close> with its size \<open>CONFIG_SYS_PBSIZE\<close>, and the options \<open>CONFIG_IPV6\<close> and \<open>CONFIG_ERRNO_STR\<close>
  (with \<open>errno_str\<close>). Buffers lie below the last 4095 addresses, so that the test \<open>IS_ERR(str)\<close> after
  \<open>%p\<close>, which is there for the EFI extension, does not hold.

  The lemmas about these definitions are in the theory \<open>PrintfText\<close>; those here show that the loop over
  the format ends.
\<close>

section \<open>Model\<close>

datatype varg = A_int u32 | A_long u64 | A_ptr ptr

record penv =
  pe_null :: ptr
  pe_local :: ptr
  pe_pbuf :: ptr
  pe_pbsize :: nat
  pe_ipv6 :: bool
  pe_errstr :: "(u64 \<Rightarrow> u8 list) option"

subsection \<open>Extensions of pointers\<close>

definition hex_asc :: "u8 list" where
  "hex_asc = [48, 49, 50, 51, 52, 53, 54, 55, 56, 57, 97, 98, 99, 100, 101, 102]"

definition hex_byte_pack :: "u8 \<Rightarrow> u8 list" where
  "hex_byte_pack b = [hex_asc ! unat (drop_bit 4 (b AND 0xf0)), hex_asc ! unat (b AND 0x0f)]"

text \<open>\<open>string\<close> on a local array.\<close>

definition string_local :: "penv \<Rightarrow> mem \<Rightarrow> ptr \<Rightarrow> ptr \<Rightarrow> u8 list \<Rightarrow> int \<Rightarrow> int \<Rightarrow> u32 \<Rightarrow> mem \<times> ptr" where
  "string_local pe m buf e t field_width precision flags =
     string_conv (pe_null pe) (mem_store m (pe_local pe) (t @ [0])) buf e (pe_local pe) field_width precision flags"

definition mac_address_string :: "penv \<Rightarrow> mem \<Rightarrow> ptr \<Rightarrow> ptr \<Rightarrow> ptr \<Rightarrow> int \<Rightarrow> int \<Rightarrow> u32 \<Rightarrow> mem \<times> ptr" where
  "mac_address_string pe m buf e addr field_width precision flags =
     string_local pe m buf e
       (concat (map (\<lambda>i. hex_byte_pack (m (addr + i)) @ (if \<not> flag 6 flags \<and> i \<noteq> 5 then [58] else [])) [0 ..< 6]))
       field_width precision (flags AND NOT 64)"

definition ip6_addr_string :: "penv \<Rightarrow> mem \<Rightarrow> ptr \<Rightarrow> ptr \<Rightarrow> ptr \<Rightarrow> int \<Rightarrow> int \<Rightarrow> u32 \<Rightarrow> mem \<times> ptr" where
  "ip6_addr_string pe m buf e addr field_width precision flags =
     string_local pe m buf e
       (concat (map (\<lambda>i. hex_byte_pack (m (addr + 2 * i)) @ hex_byte_pack (m (addr + 2 * i + 1)) @
          (if \<not> flag 6 flags \<and> i \<noteq> 7 then [58] else [])) [0 ..< 8]))
       field_width precision (flags AND NOT 64)"

definition ip4_addr_string :: "penv \<Rightarrow> mem \<Rightarrow> ptr \<Rightarrow> ptr \<Rightarrow> ptr \<Rightarrow> int \<Rightarrow> int \<Rightarrow> u32 \<Rightarrow> mem \<times> ptr" where
  "ip4_addr_string pe m buf e addr field_width precision flags =
     string_local pe m buf e
       (concat (map (\<lambda>i. rev (put_dec_trunc [] (ucast (m (addr + i)))) @ (if i \<noteq> 3 then [46] else [])) [0 ..< 4]))
       field_width precision (flags AND NOT 64)"

text \<open>A little-endian number in the store.\<close>

definition le_value :: "u8 list \<Rightarrow> u64" where
  "le_value bs = foldr (\<lambda>b v. ucast b + 256 * v) bs 0"

definition le_bytes :: "nat \<Rightarrow> u64 \<Rightarrow> u8 list" where
  "le_bytes n v = map (\<lambda>i. ucast (drop_bit (8 * i) v)) [0 ..< n]"

text \<open>\<open>fmt\<close> is the format after the letter \<open>p\<close>.\<close>

definition pointer :: "penv \<Rightarrow> u8 list \<Rightarrow> mem \<Rightarrow> ptr \<Rightarrow> ptr \<Rightarrow> ptr \<Rightarrow> int \<Rightarrow> int \<Rightarrow> u32 \<Rightarrow> mem \<times> ptr" where
  "pointer pe fmt m buf e p field_width precision flags =
     (let c = (if fmt = [] then 0 else fmt ! 0);
          c1 = (if length fmt \<le> 1 then 0 else fmt ! 1);
          plain = (\<lambda>num fw fl.
            if fw = - 1 then number m buf e num 16 16 precision (fl OR 32 OR 1)
            else number m buf e num 16 fw precision (fl OR 32))
      in if c = 97 then plain (le_value (mem_bytes m p 8)) 18 (flags OR 65)
         else if c = 109 then mac_address_string pe m buf e p field_width precision (flags OR 64)
         else if c = 77 then mac_address_string pe m buf e p field_width precision flags
         else if c = 105 \<or> c = 73 then
           let fl = (if c = 105 then flags OR 64 else flags)
           in if pe_ipv6 pe \<and> c1 = 54 then ip6_addr_string pe m buf e p field_width precision fl
              else if c1 = 52 then ip4_addr_string pe m buf e p field_width precision fl
              else plain (word_of_nat p) field_width (fl AND NOT 64)
         else plain (word_of_nat p) field_width flags)"

subsection \<open>Reading a conversion\<close>

fun fmt_flags :: "u8 list \<Rightarrow> u32 \<Rightarrow> u8 list \<times> u32" where
  "fmt_flags [] flags = ([], flags)"
| "fmt_flags (c # fmt) flags =
     (if c = 45 then fmt_flags fmt (flags OR 16)
      else if c = 43 then fmt_flags fmt (flags OR 4)
      else if c = 32 then fmt_flags fmt (flags OR 8)
      else if c = 35 then fmt_flags fmt (flags OR 64)
      else if c = 48 then fmt_flags fmt (flags OR 1)
      else (c # fmt, flags))"

definition is_digit :: "u8 \<Rightarrow> bool" where
  "is_digit c \<longleftrightarrow> 48 \<le> c \<and> c \<le> 57"

text \<open>Negating the smallest \<open>int\<close> is undefined.\<close>

definition fmt_width :: "u8 list \<Rightarrow> varg list \<Rightarrow> u32 \<Rightarrow> (u8 list \<times> varg list \<times> u32 \<times> int) option" where
  "fmt_width fmt args flags =
     (case fmt of
        [] \<Rightarrow> Some (fmt, args, flags, - 1)
      | c # rest \<Rightarrow>
          if is_digit c then (case skip_atoi fmt 0 of (w, rest') \<Rightarrow> Some (rest', args, flags, sint w))
          else if c = 42 then
            (case args of
               A_int w # args' \<Rightarrow>
                 if w = 0x80000000 then None
                 else if sint w < 0 then Some (rest, args', flags OR 16, - sint w)
                 else Some (rest, args', flags, sint w)
             | _ \<Rightarrow> None)
          else Some (fmt, args, flags, - 1))"

definition fmt_precision :: "u8 list \<Rightarrow> varg list \<Rightarrow> (u8 list \<times> varg list \<times> int) option" where
  "fmt_precision fmt args =
     (case fmt of
        c # rest \<Rightarrow>
          if c = 46 then
            (case rest of
               [] \<Rightarrow> Some (rest, args, 0)
             | d # rest' \<Rightarrow>
                 if is_digit d then (case skip_atoi rest 0 of (w, rest'') \<Rightarrow> Some (rest'', args, max 0 (sint w)))
                 else if d = 42 then (case args of A_int w # args' \<Rightarrow> Some (rest', args', max 0 (sint w)) | _ \<Rightarrow> None)
                 else Some (rest, args, 0))
          else Some (fmt, args, - 1)
      | [] \<Rightarrow> Some (fmt, args, - 1))"

text \<open>The qualifier is 0 when there is none.\<close>

definition fmt_qualifier :: "u8 list \<Rightarrow> u8 \<times> u8 list" where
  "fmt_qualifier fmt =
     (case fmt of
        c # rest \<Rightarrow>
          if c \<in> {104, 108, 76, 90, 122, 116} then
            if c = 108 \<and> rest \<noteq> [] \<and> hd rest = 108 then (76, tl rest) else (c, rest)
          else (0, fmt)
      | [] \<Rightarrow> (0, fmt))"

definition fmt_number :: "u8 \<Rightarrow> u32 \<Rightarrow> varg list \<Rightarrow> (u64 \<times> varg list) option" where
  "fmt_number qualifier flags args =
     (if qualifier \<in> {76, 108, 90, 122, 116} then (case args of A_long v # args' \<Rightarrow> Some (v, args') | _ \<Rightarrow> None)
      else
        case args of
          A_int v # args' \<Rightarrow>
            if qualifier = 104
            then Some (if flag 1 flags then scast (ucast v :: u16) else ucast (ucast v :: u16), args')
            else Some (if flag 1 flags then scast v else ucast v, args')
        | _ \<Rightarrow> None)"

subsection \<open>The interpreter\<close>

text \<open>\<open>while (--field_width > 0) ADDCH(str, ' ')\<close>.\<close>

function char_pad :: "mem \<Rightarrow> ptr \<Rightarrow> ptr \<Rightarrow> int \<Rightarrow> mem \<times> ptr \<times> int" where
  "char_pad m str e field_width =
     (if 0 < field_width - 1 then let (m', str') = ADDCH m str e 32 in char_pad m' str' e (field_width - 1)
      else (m, str, field_width - 1))"
  by pat_completeness auto
termination
  by (relation "measure (\<lambda>(m, str, e, fw). nat fw)") auto

declare char_pad.simps [simp del]

fun add_chars :: "mem \<Rightarrow> ptr \<Rightarrow> ptr \<Rightarrow> u8 list \<Rightarrow> mem \<times> ptr" where
  "add_chars m str e [] = (m, str)"
| "add_chars m str e (c # cs) = (let (m', str') = ADDCH m str e c in add_chars m' str' e cs)"

text \<open>The argument of \<open>%c\<close> is taken inside \<open>ADDCH\<close>, and so only if the character is written.\<close>

definition fmt_char :: "ptr \<Rightarrow> mem \<Rightarrow> ptr \<Rightarrow> varg list \<Rightarrow> u32 \<Rightarrow> int \<Rightarrow> (mem \<times> ptr \<times> varg list) option" where
  "fmt_char e m str args flags field_width =
     (let (m1, str1, fw1) = (if \<not> flag 4 flags then char_pad m str e field_width else (m, str, field_width));
          put = (if str1 < e then (case args of A_int v # args' \<Rightarrow> Some (m1(str1 := ucast v), args') | _ \<Rightarrow> None)
                 else Some (m1, args))
      in map_option (\<lambda>(m2, args2). let (m3, str3, fw3) = char_pad m2 (str1 + 1) e fw1 in (m3, str3, args2)) put)"

text \<open>The base and the flags that the letter of an integer conversion sets.\<close>

definition int_base :: "u8 \<Rightarrow> int" where
  "int_base c = (if c = 111 then 8 else if c = 120 \<or> c = 88 then 16 else 10)"

definition int_flags :: "u8 \<Rightarrow> bool \<Rightarrow> u32 \<Rightarrow> u32" where
  "int_flags c errstr flags =
     (let fl = (if c = 120 then flags OR 32 else if c = 100 \<or> c = 105 then flags OR 2 else flags)
      in if errstr then fl OR 128 else fl)"

definition fmt_integer ::
  "penv \<Rightarrow> ptr \<Rightarrow> mem \<Rightarrow> ptr \<Rightarrow> varg list \<Rightarrow> u8 \<Rightarrow> bool \<Rightarrow> u32 \<Rightarrow> int \<Rightarrow> int \<Rightarrow> u8 \<Rightarrow> (mem \<times> ptr \<times> varg list) option" where
  "fmt_integer pe e m str args c errstr flags field_width precision qualifier =
     (let fl = int_flags c errstr flags
      in map_option (\<lambda>(num, args').
             let (m1, str1) = number m str e num (int_base c) field_width precision fl;
                 (m2, str2) = (case pe_errstr pe of
                     Some errno_str \<Rightarrow> if errstr then add_chars m1 str1 e (58 # 32 # errno_str num) else (m1, str1)
                   | None \<Rightarrow> (m1, str1))
             in (m2, str2, args'))
           (fmt_number qualifier fl args))"

text \<open>
  A conversion, from the letter on: the store, the output pointer, the remaining arguments and the
  remaining format.
\<close>

definition fmt_convert ::
  "penv \<Rightarrow> ptr \<Rightarrow> ptr \<Rightarrow> mem \<Rightarrow> ptr \<Rightarrow> varg list \<Rightarrow> u8 list \<Rightarrow> u32 \<Rightarrow> int \<Rightarrow> int \<Rightarrow> u8 \<Rightarrow>
   (mem \<times> ptr \<times> varg list \<times> u8 list) option" where
  "fmt_convert pe buf e m str args fmt flags field_width precision qualifier =
     (case fmt of
        [] \<Rightarrow> (let (m', str') = ADDCH m str e 37 in Some (m', str', args, []))
      | c # rest \<Rightarrow>
          if c = 99 then map_option (\<lambda>(m', str', args'). (m', str', args', rest)) (fmt_char e m str args flags field_width)
          else if c = 115 then
            (case args of
               A_ptr s # args' \<Rightarrow>
                 let (m', str') = string_conv (pe_null pe) m str e s field_width precision flags in Some (m', str', args', rest)
             | _ \<Rightarrow> None)
          else if c = 112 then
            (case args of
               A_ptr p # args' \<Rightarrow>
                 let (m', str') = pointer pe rest m str e p field_width precision flags in Some (m', str', args', dropWhile isalnum rest)
             | _ \<Rightarrow> None)
          else if c = 110 then
            (case args of
               A_ptr ip # args' \<Rightarrow>
                 Some (mem_store m ip (le_bytes (if qualifier = 108 then 8 else 4) (word_of_nat (str - buf))), str, args', rest)
             | _ \<Rightarrow> None)
          else if c = 37 then (let (m', str') = ADDCH m str e 37 in Some (m', str', args, rest))
          else if c \<in> {111, 120, 88, 100, 105, 117} then
            let errstr = (c = 100 \<and> rest \<noteq> [] \<and> hd rest = 69)
            in map_option (\<lambda>(m', str', args'). (m', str', args', if errstr then tl rest else rest))
                 (fmt_integer pe e m str args c errstr flags field_width precision qualifier)
          else (let (m', str') = ADDCH m str e 37; (m'', str'') = ADDCH m' str' e c in Some (m'', str'', args, rest)))"

text \<open>What comes between the percent sign and the letter.\<close>

definition fmt_parse :: "varg list \<Rightarrow> u8 list \<Rightarrow> (varg list \<times> u8 list \<times> u32 \<times> int \<times> int \<times> u8) option" where
  "fmt_parse args fmt =
     (case fmt_flags fmt 0 of (fmt1, flags1) \<Rightarrow>
        Option.bind (fmt_width fmt1 args flags1) (\<lambda>(fmt2, args2, flags2, field_width).
          Option.bind (fmt_precision fmt2 args2) (\<lambda>(fmt3, args3, precision).
            case fmt_qualifier fmt3 of (qualifier, fmt4) \<Rightarrow> Some (args3, fmt4, flags2, field_width, precision, qualifier))))"

definition fmt_directive ::
  "penv \<Rightarrow> ptr \<Rightarrow> ptr \<Rightarrow> mem \<Rightarrow> ptr \<Rightarrow> varg list \<Rightarrow> u8 list \<Rightarrow> (mem \<times> ptr \<times> varg list \<times> u8 list) option" where
  "fmt_directive pe buf e m str args fmt =
     Option.bind (fmt_parse args fmt) (\<lambda>(args', fmt', flags, field_width, precision, qualifier).
       fmt_convert pe buf e m str args' fmt' flags field_width precision qualifier)"

text \<open>Each step leaves a suffix of the format.\<close>

lemma skip_atoi_suffix: "skip_atoi fmt i = (w, rest) \<Longrightarrow> suffix rest fmt"
  by (induction fmt i rule: skip_atoi.induct) (auto split: if_splits intro: suffix_ConsI)

lemma fmt_flags_suffix: "fmt_flags fmt fl = (rest, fl') \<Longrightarrow> suffix rest fmt"
  by (induction fmt fl rule: fmt_flags.induct) (auto split: if_splits intro: suffix_ConsI)

lemma fmt_width_suffix: "fmt_width fmt args fl = Some (rest, x) \<Longrightarrow> suffix rest fmt"
  by (auto simp: fmt_width_def split: list.splits if_splits prod.splits varg.splits dest!: skip_atoi_suffix intro: suffix_ConsI)

lemma fmt_precision_suffix: "fmt_precision fmt args = Some (rest, x) \<Longrightarrow> suffix rest fmt"
  by (auto simp: fmt_precision_def split: list.splits if_splits prod.splits varg.splits dest!: skip_atoi_suffix intro: suffix_ConsI)

lemma fmt_qualifier_suffix: "fmt_qualifier fmt = (q, rest) \<Longrightarrow> suffix rest fmt"
  by (auto simp: fmt_qualifier_def split: list.splits if_splits intro: suffix_ConsI suffix_tl suffix_order.trans)

lemma fmt_parse_suffix:
  assumes "fmt_parse args fmt = Some (args', rest, x)"
  shows "suffix rest fmt"
proof -
  obtain f1 fl1 f2 a2 fl2 fw f3 pr q where "fmt_flags fmt 0 = (f1, fl1)" "fmt_width f1 args fl1 = Some (f2, a2, fl2, fw)"
      "fmt_precision f2 a2 = Some (f3, args', pr)" "fmt_qualifier f3 = (q, rest)"
    using assms unfolding fmt_parse_def by (auto split: prod.splits Option.bind_splits)
  then show ?thesis
    using fmt_flags_suffix fmt_width_suffix fmt_precision_suffix fmt_qualifier_suffix by (meson suffix_order.trans)
qed

lemma suffix_after_letter: "rest = r \<or> rest = tl r \<or> rest = dropWhile isalnum r \<Longrightarrow> suffix rest (c # r)"
  using suffix_tl suffix_dropWhile by (blast intro: suffix_ConsI)

lemma fmt_convert_suffix:
  assumes run: "fmt_convert pe buf e m str args fmt fl fw pr q = Some (m', str', args', rest)"
  shows "suffix rest fmt"
proof (cases fmt)
  case (Cons c r)
  have "rest = r \<or> rest = tl r \<or> rest = dropWhile isalnum r"
    using run unfolding fmt_convert_def Cons list.case Let_def
    by (simp split: if_splits list.splits prod.splits varg.splits option.splits)
  then show ?thesis unfolding Cons by (rule suffix_after_letter)
qed (use run in \<open>auto simp: fmt_convert_def split: prod.splits\<close>)

lemma fmt_directive_suffix:
  "fmt_directive pe buf e m str args fmt = Some (m', str', args', rest) \<Longrightarrow> suffix rest fmt"
  unfolding fmt_directive_def
  by (auto split: Option.bind_splits dest!: fmt_parse_suffix fmt_convert_suffix)

text \<open>The loop over the format; it ends at the terminating null byte, which is the end of the list.\<close>

function vsn_loop :: "penv \<Rightarrow> ptr \<Rightarrow> ptr \<Rightarrow> mem \<Rightarrow> ptr \<Rightarrow> varg list \<Rightarrow> u8 list \<Rightarrow> (mem \<times> ptr) option" where
  "vsn_loop pe buf e m str args [] = Some (m, str)"
| "vsn_loop pe buf e m str args (c # fmt) =
     (if c \<noteq> 37 then vsn_loop pe buf e (fst (ADDCH m str e c)) (snd (ADDCH m str e c)) args fmt
      else Option.bind (fmt_directive pe buf e m str args fmt)
             (\<lambda>(m', str', args', fmt'). vsn_loop pe buf e m' str' args' fmt'))"
  by pat_completeness auto
termination
  by (relation "measure (\<lambda>(pe, buf, e, m, str, args, fmt). length fmt)") (auto dest!: fmt_directive_suffix suffix_length_le simp: less_Suc_eq_le)

text \<open>The address space has 64 bits; a buffer that would wrap ends at its last byte.\<close>

definition vsnprintf_internal :: "penv \<Rightarrow> mem \<Rightarrow> ptr \<Rightarrow> nat \<Rightarrow> u8 list \<Rightarrow> varg list \<Rightarrow> (mem \<times> int) option" where
  "vsnprintf_internal pe m buf size0 fmt args =
     (let e = (if 2 ^ 64 \<le> buf + size0 then 2 ^ 64 - 1 else buf + size0);
          sz = e - buf
      in map_option (\<lambda>(m1, str).
             if 0 < sz then
               let (m2, str2) = ADDCH m1 str e 0;
                   m3 = (if e < str2 then m2(e - 1 := 0) else m2)
               in (m3, to_int (str2 - 1 - buf))
             else (m1, to_int (str - buf)))
           (vsn_loop pe buf e m buf args fmt))"

definition vsnprintf :: "penv \<Rightarrow> mem \<Rightarrow> ptr \<Rightarrow> nat \<Rightarrow> u8 list \<Rightarrow> varg list \<Rightarrow> (mem \<times> int) option" where
  "vsnprintf pe m buf sz fmt args = vsnprintf_internal pe m buf sz fmt args"

text \<open>The comparison \<open>i < size\<close> converts \<open>i\<close> to the unsigned type of \<open>size\<close>.\<close>

definition vscnprintf :: "penv \<Rightarrow> mem \<Rightarrow> ptr \<Rightarrow> nat \<Rightarrow> u8 list \<Rightarrow> varg list \<Rightarrow> (mem \<times> int) option" where
  "vscnprintf pe m buf sz fmt args =
     map_option (\<lambda>(m', i). (m', if uint (word_of_int i :: u64) < int sz then i else if sz \<noteq> 0 then to_int (sz - 1) else 0))
       (vsnprintf pe m buf sz fmt args)"

definition snprintf :: "penv \<Rightarrow> mem \<Rightarrow> ptr \<Rightarrow> nat \<Rightarrow> u8 list \<Rightarrow> varg list \<Rightarrow> (mem \<times> int) option" where
  "snprintf pe m buf sz fmt args = vsnprintf pe m buf sz fmt args"

definition scnprintf :: "penv \<Rightarrow> mem \<Rightarrow> ptr \<Rightarrow> nat \<Rightarrow> u8 list \<Rightarrow> varg list \<Rightarrow> (mem \<times> int) option" where
  "scnprintf pe m buf sz fmt args = vscnprintf pe m buf sz fmt args"

definition vsprintf :: "penv \<Rightarrow> mem \<Rightarrow> ptr \<Rightarrow> u8 list \<Rightarrow> varg list \<Rightarrow> (mem \<times> int) option" where
  "vsprintf pe m buf fmt args = vsnprintf_internal pe m buf 0x7fffffff fmt args"

definition sprintf :: "penv \<Rightarrow> mem \<Rightarrow> ptr \<Rightarrow> u8 list \<Rightarrow> varg list \<Rightarrow> (mem \<times> int) option" where
  "sprintf pe m buf fmt args = vsprintf pe m buf fmt args"

text \<open>\<open>vprintf\<close>: the text is what \<open>puts\<close> gets, which is the string in \<open>printbuffer\<close>.\<close>

definition vprintf :: "penv \<Rightarrow> mem \<Rightarrow> u8 list \<Rightarrow> varg list \<Rightarrow> (mem \<times> int \<times> u8 list) option" where
  "vprintf pe m fmt args =
     Option.bind (vscnprintf pe m (pe_pbuf pe) (pe_pbsize pe) fmt args) (\<lambda>(m', i).
       if i = 0 then Some (m', i, [])
       else map_option (\<lambda>n. (m', i, mem_bytes m' (pe_pbuf pe) n)) (strlen m' (pe_pbuf pe)))"

definition printf :: "penv \<Rightarrow> mem \<Rightarrow> u8 list \<Rightarrow> varg list \<Rightarrow> (mem \<times> int \<times> u8 list) option" where
  "printf pe m fmt args = vprintf pe m fmt args"

subsection \<open>Small converters\<close>

text \<open>\<open>simple_itoa\<close> and \<open>simple_xtoa\<close>; \<open>toa\<close> is the address of the static array \<open>local_toa\<close>.\<close>

lemma div10_lt: "0 < (i :: u64) div 10 \<Longrightarrow> unat (i div 10) < unat i"
  by (simp add: unat_div word_less_nat_alt)

function itoa_loop :: "mem \<Rightarrow> ptr \<Rightarrow> u64 \<Rightarrow> mem \<times> ptr" where
  "itoa_loop m p i =
     (let m' = m(p := 48 + ucast (i mod 10)); i' = i div 10
      in if 0 < i' then itoa_loop m' (p - 1) i' else (m', p - 1))"
  by pat_completeness auto
termination
  by (relation "measure (\<lambda>(m, p, i). unat i)") (auto intro: div10_lt)

declare itoa_loop.simps [simp del]

definition simple_itoa :: "ptr \<Rightarrow> mem \<Rightarrow> u64 \<Rightarrow> mem \<times> ptr" where
  "simple_itoa toa m i = (case itoa_loop (m(toa + 21 := 0)) (toa + 20) i of (m', p) \<Rightarrow> (m', p + 1))"

lemma div256_lt: "0 < drop_bit 8 (i :: u64) \<Longrightarrow> unat (drop_bit 8 i) < unat i"
  by (auto simp: drop_bit_eq_div unat_div word_less_nat_alt)

function xtoa_loop :: "mem \<Rightarrow> ptr \<Rightarrow> u64 \<Rightarrow> mem \<times> ptr" where
  "xtoa_loop m p num =
     (let p' = p - 2; m' = mem_store m p' (hex_byte_pack (ucast (num AND 0xff))); num' = drop_bit 8 num
      in if 0 < num' then xtoa_loop m' p' num' else (m', p'))"
  by pat_completeness auto
termination
  by (relation "measure (\<lambda>(m, p, num). unat num)") (auto intro: div256_lt)

declare xtoa_loop.simps [simp del]

definition simple_xtoa :: "ptr \<Rightarrow> mem \<Rightarrow> u64 \<Rightarrow> mem \<times> ptr" where
  "simple_xtoa toa m num = xtoa_loop (m(toa + 16 := 0)) (toa + 16) num"

text \<open>
  \<open>print_grouped_ull\<close>: \<open>str\<close> is the address of its array of 21 bytes. The result is the store and the
  output; the loop steps by three bytes until it meets a null byte.
\<close>

partial_function (option) grouped_loop :: "penv \<Rightarrow> mem \<Rightarrow> ptr \<Rightarrow> ptr \<Rightarrow> u8 list \<Rightarrow> (mem \<times> u8 list) option" where
  "grouped_loop pe m str s out =
     (if m s = 0 then Some (m, out)
      else
        let sep = (if s \<noteq> str then [if m (s - 1) \<noteq> 32 then 44 else 32] else [])
        in Option.bind (printf pe m [37, 46, 42, 115] [A_int 3, A_ptr s]) (\<lambda>(m', i, text).
             grouped_loop pe m' str (s + 3) (out @ sep @ text)))"

definition print_grouped_ull :: "penv \<Rightarrow> ptr \<Rightarrow> mem \<Rightarrow> u64 \<Rightarrow> int \<Rightarrow> (mem \<times> u8 list) option" where
  "print_grouped_ull pe str m int_val digits =
     (let digits = sgn (digits + 2) * (\<bar>digits + 2\<bar> div 3)
      in Option.bind (sprintf pe m str [37, 42, 108, 108, 117] [A_int (word_of_int (digits * 3)), A_long int_val])
           (\<lambda>(m', i). grouped_loop pe m' str str []))"

definition str2off :: "mem \<Rightarrow> ptr \<Rightarrow> (bool \<times> u64) option" where
  "str2off m p = map_option (\<lambda>(num, endptr). (m p \<noteq> 0 \<and> m endptr = 0, num)) (simple_strtoull m p 16)"

definition str2long :: "mem \<Rightarrow> ptr \<Rightarrow> (bool \<times> u64) option" where
  "str2long m p = map_option (\<lambda>(num, endptr). (m p \<noteq> 0 \<and> m endptr = 0, num)) (hextoul m p)"

text \<open>\<open>DIV_ROUND_CLOSEST\<close> on unsigned numbers.\<close>

definition DIV_ROUND_CLOSEST :: "u64 \<Rightarrow> u64 \<Rightarrow> u64" where
  "DIV_ROUND_CLOSEST x d = (x + d div 2) div d"

definition strmhz :: "penv \<Rightarrow> mem \<Rightarrow> ptr \<Rightarrow> u64 \<Rightarrow> mem option" where
  "strmhz pe m buf hz =
     (let n = DIV_ROUND_CLOSEST hz 1000 div 1000
      in Option.bind (sprintf pe m buf [37, 108, 100] [A_long n]) (\<lambda>(m1, l).
           let hz = hz - n * 1000000; k = DIV_ROUND_CLOSEST hz 1000
           in if k \<noteq> 0 then map_option fst (sprintf pe m1 (buf + nat l) [46, 37, 48, 51, 108, 100] [A_long k])
              else Some m1))"

end
