(* ===== verification/PrintfText.thy ===== *)
theory PrintfText
  imports Printf
begin

text \<open>
  What formatted output writes. \<open>format_text\<close> gives the text that a format and its arguments stand for,
  without a buffer; the interpreter of the theory \<open>Printf\<close> writes that text, cut to the size of the buffer
  and terminated, and returns its full length. For every format, the \<open>%p\<close> extensions included,
  nothing outside the buffer and the local array changes.
\<close>

section \<open>The text of a format\<close>

definition char_text :: "u8 \<Rightarrow> u32 \<Rightarrow> int \<Rightarrow> u8 list" where
  "char_text c flags field_width =
     (let pad = replicate (nat (field_width - 1)) 32 in if flag 4 flags then c # pad else pad @ [c])"

definition string_text :: "u8 list \<Rightarrow> int \<Rightarrow> int \<Rightarrow> u32 \<Rightarrow> u8 list" where
  "string_text xs field_width precision flags =
     (let body = (if precision < 0 then xs else take (nat precision) xs);
          pad = replicate (nat field_width - length body) 32
      in if flag 4 flags then body @ pad else pad @ body)"

definition integer_text :: "penv \<Rightarrow> u64 \<Rightarrow> u8 \<Rightarrow> bool \<Rightarrow> u32 \<Rightarrow> int \<Rightarrow> int \<Rightarrow> u8 list" where
  "integer_text pe num c errstr flags field_width precision =
     number_text num (int_base c) field_width precision flags @
     (case pe_errstr pe of Some errno_str \<Rightarrow> if errstr then [58, 32] @ errno_str num else [] | None \<Rightarrow> [])"

text \<open>
  The text of a conversion, the arguments and the format after it; \<open>strs s\<close> is the string that the
  argument \<open>s\<close> of \<open>%s\<close> points to. \<open>%n\<close> and the \<open>%p\<close> extensions have none.
\<close>

definition conv_text ::
  "penv \<Rightarrow> (ptr \<Rightarrow> u8 list option) \<Rightarrow> varg list \<Rightarrow> u8 list \<Rightarrow> u32 \<Rightarrow> int \<Rightarrow> int \<Rightarrow> u8 \<Rightarrow> (u8 list \<times> varg list \<times> u8 list) option" where
  "conv_text pe strs args fmt flags field_width precision qualifier =
     (case fmt of
        [] \<Rightarrow> Some ([37], args, [])
      | c # rest \<Rightarrow>
          if c = 99 then (case args of A_int v # args' \<Rightarrow> Some (char_text (ucast v) flags field_width, args', rest) | _ \<Rightarrow> None)
          else if c = 115 then
            (case args of
               A_ptr s # args' \<Rightarrow> map_option (\<lambda>xs. (string_text xs field_width precision flags, args', rest)) (strs s)
             | _ \<Rightarrow> None)
          else if c = 112 then
            (case args of
               A_ptr p # args' \<Rightarrow>
                 if rest \<noteq> [] \<and> hd rest \<in> {97, 109, 77, 105, 73} then None
                 else Some (number_text (word_of_nat p) 16 (if field_width = - 1 then 16 else field_width) precision
                        (if field_width = - 1 then flags OR 33 else flags OR 32), args', dropWhile isalnum rest)
             | _ \<Rightarrow> None)
          else if c = 110 then None
          else if c = 37 then Some ([37], args, rest)
          else if c \<in> {111, 120, 88, 100, 105, 117} then
            let errstr = (c = 100 \<and> rest \<noteq> [] \<and> hd rest = 69); fl = int_flags c errstr flags
            in map_option (\<lambda>(num, args'). (integer_text pe num c errstr fl field_width precision, args', if errstr then tl rest else rest))
                 (fmt_number qualifier fl args)
          else Some ([37, c], args, rest))"

definition directive_text :: "penv \<Rightarrow> (ptr \<Rightarrow> u8 list option) \<Rightarrow> varg list \<Rightarrow> u8 list \<Rightarrow> (u8 list \<times> varg list \<times> u8 list) option" where
  "directive_text pe strs args fmt =
     Option.bind (fmt_parse args fmt) (\<lambda>(args', fmt', flags, field_width, precision, qualifier).
       conv_text pe strs args' fmt' flags field_width precision qualifier)"

lemma conv_text_suffix:
  assumes run: "conv_text pe strs args fmt fl fw pr q = Some (t, args', rest)"
  shows "suffix rest fmt"
proof (cases fmt)
  case (Cons c r)
  have "rest = r \<or> rest = tl r \<or> rest = dropWhile isalnum r"
    using run unfolding conv_text_def Cons list.case Let_def
    by (auto split: if_splits list.splits prod.splits varg.splits option.splits)
  then show ?thesis unfolding Cons by (rule suffix_after_letter)
qed (use run in \<open>auto simp: conv_text_def\<close>)

lemma directive_text_suffix: "directive_text pe strs args fmt = Some (t, args', rest) \<Longrightarrow> suffix rest fmt"
  unfolding directive_text_def
  by (auto split: Option.bind_splits dest!: fmt_parse_suffix conv_text_suffix)

function format_text :: "penv \<Rightarrow> (ptr \<Rightarrow> u8 list option) \<Rightarrow> varg list \<Rightarrow> u8 list \<Rightarrow> u8 list option" where
  "format_text pe strs args [] = Some []"
| "format_text pe strs args (c # fmt) =
     (if c \<noteq> 37 then map_option ((#) c) (format_text pe strs args fmt)
      else Option.bind (directive_text pe strs args fmt) (\<lambda>(t, args', fmt').
             map_option ((@) t) (format_text pe strs args' fmt')))"
  by pat_completeness auto
termination
  by (relation "measure (\<lambda>(pe, strs, args, fmt). length fmt)") (auto dest!: directive_text_suffix suffix_length_le simp: less_Suc_eq_le)

section \<open>The interpreter writes the text\<close>

lemma char_pad_emit:
  "char_pad m str e fw = (let (m', str') = emit m str e (replicate (nat (fw - 1)) 32) in (m', str', min fw 1 - 1))"
proof (induction m str e fw rule: char_pad.induct)
  case (1 m str e fw)
  show ?case
  proof (cases "0 < fw - 1")
    case True
    then have "nat (fw - 1) = Suc (nat (fw - 1 - 1))" by simp
    then show ?thesis using 1 True
      by (subst char_pad.simps) (auto simp: emit_Cons min_def split: prod.splits)
  qed (subst char_pad.simps, simp)
qed

lemma add_chars_emit: "add_chars m str e cs = emit m str e cs"
  by (induction cs arbitrary: m str) (auto simp: emit_Cons split: prod.splits)

lemma snd_emit [simp]: "snd (emit m str e cs) = str + length cs"
  by (simp add: emit_def)

text \<open>A character is written where there is room for the whole conversion.\<close>

lemma fmt_char_emit:
  assumes "str + length (char_text (ucast v) flags fw) \<le> e"
  shows "fmt_char e m str (A_int v # args) flags fw =
           (let (m', str') = emit m str e (char_text (ucast v) flags fw) in Some (m', str', args))"
proof (cases "flag 4 flags")
  case True
  then show ?thesis using assms
    by (simp add: fmt_char_def char_text_def char_pad_emit emit_Cons ADDCH_def Let_def split: prod.splits)
next
  case False
  let ?p = "replicate (nat (fw - 1)) (32 :: u8)"
  obtain m1 where m1: "emit m str e ?p = (m1, str + length ?p)" by (metis snd_emit prod.collapse)
  have t: "char_text (ucast v) flags fw = ?p @ [ucast v]" using False by (simp add: char_text_def)
  have z: "nat (min fw 1 - 1 - 1) = 0" by simp
  show ?thesis using assms False unfolding t emit_append m1
    by (simp add: fmt_char_def char_pad_emit m1 z ADDCH_emit [symmetric] ADDCH_def Let_def)
qed

lemma fmt_integer_emit:
  "fmt_integer pe e m str args c errstr flags fw pr q =
     map_option (\<lambda>(num, args'). let (m', str') = emit m str e (integer_text pe num c errstr (int_flags c errstr flags) fw pr)
                            in (m', str', args'))
       (fmt_number q (int_flags c errstr flags) args)"
proof -
  have "number m str e num (int_base c) fw pr fl = emit m str e (number_text num (int_base c) fw pr fl)" for num fl
    by (rule number_emit) (simp add: int_base_def)
  then show ?thesis
    by (auto simp: fmt_integer_def Let_def integer_text_def emit_append add_chars_emit option.map_comp o_def
        split: prod.splits option.splits intro!: option.map_cong0)
qed

text \<open>The strings are in the store, apart from the buffer; the null pointer stands for the literal.\<close>

definition strings_at :: "penv \<Rightarrow> (ptr \<Rightarrow> u8 list option) \<Rightarrow> ptr \<Rightarrow> ptr \<Rightarrow> mem \<Rightarrow> bool" where
  "strings_at pe strs buf e m \<longleftrightarrow>
     (\<forall>s xs. strs s = Some xs \<longrightarrow>
        (let a = (if s = NULL then pe_null pe else s)
         in a \<noteq> NULL \<and> cstr m a xs \<and> length xs < 2 ^ 31 \<and> (a + length xs < buf \<or> e \<le> a)))"

lemma cstr_emit:
  assumes "cstr m a xs" "a + length xs < buf \<or> e \<le> a" "buf \<le> str"
  shows "cstr (fst (emit m str e cs)) a xs"
proof -
  have "mem_bytes (fst (emit m str e cs)) a (length xs) = mem_bytes m a (length xs)"
    using assms by (auto simp: emit_def intro!: mem_store_disjoint simp: disjoint_range_def)
  moreover have "fst (emit m str e cs) (a + length xs) = m (a + length xs)"
    using assms by (auto simp: emit_def intro!: mem_store_other)
  ultimately show ?thesis using assms(1) by (simp add: cstr_def)
qed

lemma strings_at_emit: "strings_at pe strs buf e m \<Longrightarrow> buf \<le> str \<Longrightarrow> strings_at pe strs buf e (fst (emit m str e cs))"
  unfolding strings_at_def Let_def by (meson cstr_emit)

lemma string_conv_text:
  assumes "strings_at pe strs buf e m" "strs s = Some xs" "buf \<le> str" and pr: "pr = - 1 \<or> 0 \<le> pr \<and> pr < 2 ^ 31"
  shows "string_conv (pe_null pe) m str e s fw pr flags = emit m str e (string_text xs fw pr flags)"
proof -
  let ?a = "if s = NULL then pe_null pe else s" and ?k = "unat (word_of_int pr :: u64)"
  have a: "?a \<noteq> NULL" "cstr m ?a xs" "length xs < 2 ^ 31" "?a + length xs \<le> str \<or> e \<le> ?a"
    using assms(1) [unfolded strings_at_def Let_def, rule_format, OF assms(2)] assms(3) by linarith+
  have "take ?k xs = (if pr < 0 then xs else take (nat pr) xs)"
  proof (cases "pr = - 1")
    case True
    moreover have "unat (word_of_int (- 1) :: u64) = 2 ^ 64 - 1"
      by (simp add: unsigned_minus_1_eq_mask mask_eq_exp_minus_1)
    ultimately show ?thesis using a(3) by simp
  next
    case False
    then have "uint (word_of_int pr :: u64) = pr" using pr by (simp add: uint_word_of_int)
    then have "unat (word_of_int pr :: u64) = nat pr" by (metis nat_uint_eq)
    then show ?thesis using False pr by simp
  qed
  moreover have "string_conv (pe_null pe) m str e s fw pr flags = string_conv (pe_null pe) m str e ?a fw pr flags"
    by (simp add: string_conv_def)
  ultimately show ?thesis
    using string_conv_prints [OF a(2,1,3,4), of "pe_null pe" fw pr flags] by (simp add: string_text_def Let_def)
qed

lemma fmt_parse_precision:
  assumes "fmt_parse args fmt = Some (args', rest, fl, fw, pr, q)"
  shows "pr = - 1 \<or> 0 \<le> pr \<and> pr < 2 ^ 31"
proof -
  obtain f a f' where "fmt_precision f a = Some (f', args', pr)"
    using assms unfolding fmt_parse_def by (auto split: prod.splits Option.bind_splits)
  moreover have "sint (w :: u32) < 2 ^ 31" for w using sint_lt [of w] by simp
  ultimately show ?thesis
    by (auto simp: fmt_precision_def split: list.splits if_splits prod.splits varg.splits)
qed

lemma plain_pointer:
  assumes "rest = [] \<or> hd rest \<notin> {97, 109, 77, 105, 73}"
  shows "pointer pe rest m str e p fw pr flags =
           emit m str e (number_text (word_of_nat p) 16 (if fw = - 1 then 16 else fw) pr (if fw = - 1 then flags OR 33 else flags OR 32))"
proof -
  have "flags OR 32 OR 1 = flags OR 33" by (simp add: or.assoc)
  then show ?thesis using assms number_emit [of 16]
    by (auto simp: pointer_def Let_def hd_conv_nth)
qed

lemma fmt_convert_text:
  assumes "conv_text pe strs args fmt fl fw pr q = Some (t, args', rest)"
    and "strings_at pe strs buf e m" "buf \<le> str" and "pr = - 1 \<or> 0 \<le> pr \<and> pr < 2 ^ 31"
    and "99 \<notin> set fmt \<or> str + length t \<le> e"
  shows "fmt_convert pe buf e m str args fmt fl fw pr q = Some (fst (emit m str e t), str + length t, args', rest)"
proof (cases fmt)
  case Nil
  then show ?thesis using assms(1) by (auto simp: conv_text_def fmt_convert_def ADDCH_emit emit_def)
next
  case (Cons c r)
  have "c \<noteq> 110"
  proof
    assume "c = 110"
    then show False using assms(1) Cons by (simp add: conv_text_def)
  qed
  then consider "c = 99" | "c = 115" | "c = 112" | "c = 37" | "c \<in> {111, 120, 88, 100, 105, 117}"
    | "c \<notin> {99, 115, 112, 110, 37, 111, 120, 88, 100, 105, 117}"
    by auto
  then show ?thesis
  proof cases
    case 1
    then obtain v where "args = A_int v # args'" "t = char_text (ucast v) fl fw" "rest = r"
      using assms(1) Cons by (auto simp: conv_text_def split: list.splits varg.splits)
    then show ?thesis using 1 Cons assms(5) fmt_char_emit [of str v fl fw e m args']
      by (simp add: fmt_convert_def split: prod.splits) (auto simp: emit_def)
  next
    case 2
    then obtain s xs where "args = A_ptr s # args'" "strs s = Some xs" "t = string_text xs fw pr fl" "rest = r"
      using assms(1) Cons by (auto simp: conv_text_def split: list.splits varg.splits)
    then show ?thesis using 2 Cons string_conv_text [OF assms(2) _ assms(3,4)]
      by (simp add: fmt_convert_def) (simp add: emit_def)
  next
    case 3
    then show ?thesis using assms(1) Cons plain_pointer [of r pe m str e _ fw pr fl]
      by (auto simp: conv_text_def fmt_convert_def emit_def split: list.splits varg.splits if_splits)
  next
    case 4
    then show ?thesis using assms(1) Cons by (auto simp: conv_text_def fmt_convert_def ADDCH_emit emit_def)
  next
    case 5
    then have [simp]: "c \<noteq> 99" "c \<noteq> 115" "c \<noteq> 112" "c \<noteq> 110" "c \<noteq> 37" by auto
    show ?thesis using 5 assms(1) Cons
      by (auto simp: conv_text_def fmt_convert_def Let_def fmt_integer_emit emit_def simp del: insert_iff)
  next
    case 6
    then have "t = [37] @ [c]" "args' = args" "rest = r" using assms(1) Cons by (auto simp: conv_text_def)
    then show ?thesis using 6 Cons emit_append [of m str e "[37]" "[c]"]
      by (simp add: fmt_convert_def ADDCH_emit) (simp add: emit_def)
  qed
qed

lemma vsn_loop_text:
  assumes "format_text pe strs args fmt = Some t" "strings_at pe strs buf e m" "buf \<le> str"
    and "99 \<notin> set fmt \<or> str + length t \<le> e"
  shows "vsn_loop pe buf e m str args fmt = Some (emit m str e t)"
  using assms
proof (induction pe strs args fmt arbitrary: m str t
    rule: format_text.induct)
  case (2 pe strs args c fmt)
  show ?case
  proof (cases "c = 37")
    case False
    then obtain t' where t: "t = [c] @ t'" "format_text pe strs args fmt = Some t'" using "2.prems"(1) by auto
    have "vsn_loop pe buf e (fst (emit m str e [c])) (str + 1) args fmt = Some (emit (fst (emit m str e [c])) (str + 1) e t')"
      using "2.prems" False t by (intro "2.IH"(1)) (auto intro: strings_at_emit)
    moreover have "emit m str e t = emit (fst (emit m str e [c])) (str + 1) e t'"
      unfolding t(1) emit_append by (simp add: emit_def)
    ultimately show ?thesis using False by (simp add: ADDCH_emit)
  next
    case True
    then obtain d args' fmt' t' where d: "directive_text pe strs args fmt = Some (d, args', fmt')"
        and t: "t = d @ t'" "format_text pe strs args' fmt' = Some t'"
      using "2.prems"(1) by (auto split: Option.bind_splits)
    then obtain a f fl fw pr q where p: "fmt_parse args fmt = Some (a, f, fl, fw, pr, q)"
        and conv: "conv_text pe strs a f fl fw pr q = Some (d, args', fmt')"
      unfolding directive_text_def by (auto split: Option.bind_splits)
    have sub: "set f \<subseteq> set fmt" "set fmt' \<subseteq> set fmt"
      using fmt_parse_suffix [OF p] directive_text_suffix [OF d] by (auto dest: set_mono_suffix)
    have "fmt_convert pe buf e m str a f fl fw pr q = Some (fst (emit m str e d), str + length d, args', fmt')"
      using "2.prems" sub t by (intro fmt_convert_text [OF conv _ _ fmt_parse_precision [OF p]]) auto
    then have "fmt_directive pe buf e m str args fmt = Some (fst (emit m str e d), str + length d, args', fmt')"
      by (simp add: fmt_directive_def p)
    moreover have "vsn_loop pe buf e (fst (emit m str e d)) (str + length d) args' fmt' =
        Some (emit (fst (emit m str e d)) (str + length d) e t')"
      using "2.prems" True t sub d by (intro "2.IH"(2)) (auto intro: strings_at_emit)
    moreover have "emit m str e t = emit (fst (emit m str e d)) (str + length d) e t'"
      unfolding t(1) emit_append by (simp add: emit_def)
    ultimately show ?thesis using True by simp
  qed
qed simp

lemma vsnprintf_internal_text:
  assumes "format_text pe strs args fmt = Some t" "strings_at pe strs buf (buf + sz) m"
    and "99 \<notin> set fmt \<or> length t \<le> sz" and "buf + sz < 2 ^ 64" "length t < 2 ^ 31"
  shows "vsnprintf_internal pe m buf sz fmt args =
           Some (if sz = 0 then m else mem_store m buf (take (sz - 1) t @ [0]), int (length t))"
proof -
  have run: "vsn_loop pe buf (buf + sz) m buf args fmt = Some (emit m buf (buf + sz) t)"
    using assms by (intro vsn_loop_text) auto
  show ?thesis
  proof (cases "sz = 0")
    case True
    then show ?thesis using run assms(4,5) by (simp add: vsnprintf_internal_def emit_def nat_to_int)
  next
    case False
    show ?thesis
    proof (cases "length t < sz")
      case True
      then have "mem_store m buf (t @ [0]) = (mem_store m buf t)(buf + length t := 0)"
        using mem_store_snoc by blast
      then show ?thesis using True False run assms(4,5)
        by (simp add: vsnprintf_internal_def emit_def nat_to_int ADDCH_def Let_def)
    next
      case long: False
      have "(mem_store m buf (take sz t))(buf + sz - 1 := 0) = mem_store m buf (take (sz - 1) t @ [0])"
        using long False by (auto simp: mem_store_def nth_append fun_eq_iff)
      then show ?thesis using long False run assms(4,5)
        by (simp add: vsnprintf_internal_def emit_def nat_to_int ADDCH_def Let_def)
    qed
  qed
qed



section \<open>Nothing else is written\<close>

definition unchanged :: "nat set \<Rightarrow> mem \<Rightarrow> mem \<Rightarrow> bool" where
  "unchanged S m m' \<longleftrightarrow> (\<forall>a. a \<notin> S \<longrightarrow> m' a = m a)"

lemma unchanged_refl [simp]: "unchanged S m m"
  by (simp add: unchanged_def)

lemma unchanged_trans: "unchanged S m1 m2 \<Longrightarrow> unchanged S m2 m3 \<Longrightarrow> unchanged S m1 m3"
  by (simp add: unchanged_def)

lemma unchanged_store: "{p ..< p + length bs} \<subseteq> S \<Longrightarrow> unchanged S m (mem_store m p bs)"
  by (auto simp: unchanged_def mem_store_def)

text \<open>A step of the output: it only writes up to the end of the buffer, and the pointer moves on.\<close>

definition output_step :: "nat set \<Rightarrow> ptr \<Rightarrow> mem \<Rightarrow> mem \<times> ptr \<Rightarrow> bool" where
  "output_step S str m r \<longleftrightarrow> unchanged S m (fst r) \<and> str \<le> snd r"

lemma output_emit: "{str ..< e} \<subseteq> S \<Longrightarrow> output_step S str m (emit m str e cs)"
proof -
  assume "{str ..< e} \<subseteq> S"
  moreover have "{str ..< str + length (take (e - str) cs)} \<subseteq> {str ..< e}" by auto
  ultimately have "unchanged S m (mem_store m str (take (e - str) cs))"
    by (intro unchanged_store) (rule subset_trans)
  then show ?thesis by (simp add: output_step_def emit_def)
qed

lemma output_ADDCH: "{str ..< e} \<subseteq> S \<Longrightarrow> output_step S str m (ADDCH m str e c)"
  by (simp add: ADDCH_emit output_emit)

lemma output_trans:
  "output_step S str m (m', str') \<Longrightarrow> output_step S str' m' r \<Longrightarrow> output_step S str m r"
  by (auto simp: output_step_def intro: unchanged_trans)

lemma output_copy_loop: "{str ..< e} \<subseteq> S \<Longrightarrow> output_step S str m (copy_loop m str e s n)"
proof (induction n arbitrary: m str s)
  case (Suc n)
  obtain m' where a: "ADDCH m str e (m s) = (m', str + 1)" by (auto simp: ADDCH_def)
  have "{str + 1 ..< e} \<subseteq> S" using Suc.prems by auto
  then show ?case using output_trans [OF output_ADDCH [OF Suc.prems, of m "m s", unfolded a] Suc.IH] by (simp add: a)
qed (simp add: output_step_def)

lemma output_string_conv:
  assumes S: "{str ..< e} \<subseteq> S"
  shows "output_step S str m (string_conv null_text m str e s fw pr flags)"
proof -
  have mono: "{str' ..< e} \<subseteq> S" if "output_step S str m1 (m2, str')" for m1 m2 str'
    using S that by (auto simp: output_step_def)
  define a where "a = (if s = NULL then null_text else s)"
  define n where "n = to_int (strnlen m a (unat (word_of_int pr :: u64)))"
  obtain m1 str1 fw1 where 1: "(if \<not> flag 4 flags then width_loop m str e n fw else (m, str, fw)) = (m1, str1, fw1)"
    by (metis prod_cases3)
  then have o1: "output_step S str m (m1, str1)"
    using output_emit [OF S, of m "replicate (nat (fw - n)) 32"]
    by (auto simp: width_loop_emit output_step_def simp del: snd_emit split: if_splits prod.splits)
  obtain m2 str2 where 2: "copy_loop m1 str1 e a (nat n) = (m2, str2)" by force
  have o2: "output_step S str m (m2, str2)"
    using output_trans [OF o1 output_copy_loop [OF mono [OF o1]]] 2 by metis
  have "output_step S str m (emit m2 str2 e (replicate (nat (fw1 - n)) 32))"
    by (rule output_trans [OF o2 output_emit [OF mono [OF o2]]])
  then show ?thesis
    by (simp only: string_conv_def Let_def a_def [symmetric] n_def [symmetric] 1 prod.case 2)
      (simp add: width_loop_emit Let_def case_prod_beta' del: snd_emit)
qed

text \<open>The texts that the \<open>%p\<close> extensions build fit their arrays, with the terminating null byte.\<close>

lemma length_hex_byte_pack [simp]: "length (hex_byte_pack b) = 2"
  by (simp add: hex_byte_pack_def)

lemma length_quad: "length (put_dec_trunc [] (ucast (b :: u8))) \<le> 3"
proof -
  have b: "unat b < 10 ^ 3" using unsigned_less [of b, where 'a = nat] by simp
  then have "put_dec_trunc [] (word_of_nat (unat b)) = map dec_char (rev_digits 10 (unat b))"
    using put_dec_trunc_digits [of "unat b" "[]"] by simp
  moreover have "(word_of_nat (unat b) :: u32) = ucast b" by simp
  ultimately show ?thesis using length_rev_digits [OF b] by simp
qed

lemma mac_text_length:
  "length (concat (map (\<lambda>i. hex_byte_pack (f i) @ (if \<not> sp \<and> i \<noteq> 5 then [58] else [])) [0 ..< 6])) < 18"
  by (simp add: upt_rec)

lemma ip6_text_length:
  "length (concat (map (\<lambda>i. hex_byte_pack (f i) @ hex_byte_pack (g i) @ (if \<not> sp \<and> i \<noteq> 7 then [58] else [])) [0 ..< 8])) < 40"
  by (simp add: upt_rec)

lemma ip4_text_length:
  "length (concat (map (\<lambda>i. rev (put_dec_trunc [] (ucast (f i :: u8))) @ (if i \<noteq> 3 then [46] else [])) [0 ..< 4])) < 16"
  using length_quad [of "f 0"] length_quad [of "f 1"] length_quad [of "f 2"] length_quad [of "f 3"]
  by (simp add: upt_rec numeral_2_eq_2 numeral_3_eq_3)

lemma output_string_local:
  assumes "{str ..< e} \<subseteq> S" "{pe_local pe ..< pe_local pe + 40} \<subseteq> S" "length t < 40"
  shows "output_step S str m (string_local pe m str e t fw pr flags)"
proof -
  have "{pe_local pe ..< pe_local pe + length (t @ [0])} \<subseteq> S" using assms by auto
  then have "output_step S str m (mem_store m (pe_local pe) (t @ [0]), str)"
    by (simp add: output_step_def unchanged_store)
  from output_trans [OF this output_string_conv [OF assms(1)]] show ?thesis by (simp add: string_local_def)
qed

lemma output_pointer:
  assumes "{str ..< e} \<subseteq> S" "{pe_local pe ..< pe_local pe + 40} \<subseteq> S"
  shows "output_step S str m (pointer pe fmt m str e p fw pr flags)"
proof -
  have n: "output_step S str m (number m str e num 16 w pr fl)" for num w fl
    using output_emit [OF assms(1)] by (simp add: number_emit)
  have "output_step S str m (mac_address_string pe m str e p w pr fl)" for w fl
    unfolding mac_address_string_def
    by (rule output_string_local [OF assms]) (rule order.strict_trans [OF mac_text_length], simp)
  moreover have "output_step S str m (ip6_addr_string pe m str e p w pr fl)" for w fl
    unfolding ip6_addr_string_def by (rule output_string_local [OF assms]) (rule ip6_text_length)
  moreover have "output_step S str m (ip4_addr_string pe m str e p w pr fl)" for w fl
    unfolding ip4_addr_string_def
    by (rule output_string_local [OF assms]) (rule order.strict_trans [OF ip4_text_length], simp)
  ultimately show ?thesis using n by (simp add: pointer_def Let_def)
qed

lemma output_fmt_char:
  assumes S: "{str ..< e} \<subseteq> S" and run: "fmt_char e m str args flags fw = Some (m', str', args')"
  shows "output_step S str m (m', str')"
proof -
  obtain m1 str1 fw1 where 1: "(if \<not> flag 4 flags then char_pad m str e fw else (m, str, fw)) = (m1, str1, fw1)"
    by (metis prod_cases3)
  then have o1: "output_step S str m (m1, str1)"
    using output_emit [OF S, of m "replicate (nat (fw - 1)) 32"]
    by (auto simp: char_pad_emit output_step_def simp del: snd_emit split: if_splits prod.splits)
  then have S1: "{str1 ..< e} \<subseteq> S" using S by (auto simp: output_step_def)
  obtain c m2 where 2: "m2 = fst (ADDCH m1 str1 e c)" and 3: "emit m2 (str1 + 1) e (replicate (nat (fw1 - 1)) 32) = (m', str')"
    using run by (auto simp: fmt_char_def 1 Let_def char_pad_emit ADDCH_def split: if_splits list.splits varg.splits prod.splits)
  have "output_step S str m (m2, str1 + 1)"
    using output_trans [OF o1 output_ADDCH [OF S1, of m1 c]] by (simp add: 2 ADDCH_def)
  moreover have "{str1 + 1 ..< e} \<subseteq> S" using S1 by auto
  ultimately show ?thesis by (metis 3 output_trans output_emit)
qed

lemma fmt_integer_writes:
  assumes "fmt_integer pe e m str args c errstr flags fw pr q = Some (m', str', args')"
  shows "\<exists>cs. emit m str e cs = (m', str')"
proof -
  obtain num where "emit m str e (integer_text pe num c errstr (int_flags c errstr flags) fw pr) = (m', str')"
    using assms unfolding fmt_integer_emit by (auto simp: Let_def case_prod_beta' simp del: snd_emit)
  then show ?thesis by (rule exI)
qed

lemma output_fmt_convert:
  assumes S: "{str ..< e} \<subseteq> S" "{pe_local pe ..< pe_local pe + 40} \<subseteq> S" and n: "110 \<notin> set fmt"
    and run: "fmt_convert pe buf e m str args fmt fl fw pr q = Some (m', str', args', rest)"
  shows "output_step S str m (m', str')"
proof (cases fmt)
  case Nil
  then show ?thesis using run output_ADDCH [OF S(1), of m 37] by (auto simp: fmt_convert_def split: prod.splits)
next
  case (Cons c r)
  consider "c = 99" | "c = 115" | "c = 112" | "c = 37" | "c \<in> {111, 120, 88, 100, 105, 117}"
    | "c \<notin> {99, 115, 112, 110, 37, 111, 120, 88, 100, 105, 117}"
    using n Cons by auto
  then show ?thesis
  proof cases
    case 1
    then obtain a where "fmt_char e m str args fl fw = Some (m', str', a)" using run Cons by (auto simp: fmt_convert_def)
    then show ?thesis by (rule output_fmt_char [OF S(1)])
  next
    case 2
    then obtain s where "string_conv (pe_null pe) m str e s fw pr fl = (m', str')"
      using run Cons by (auto simp: fmt_convert_def split: list.splits varg.splits prod.splits)
    then show ?thesis using output_string_conv [OF S(1)] by metis
  next
    case 3
    then obtain p where "pointer pe r m str e p fw pr fl = (m', str')"
      using run Cons by (auto simp: fmt_convert_def split: list.splits varg.splits prod.splits)
    then show ?thesis using output_pointer [OF S] by metis
  next
    case 4
    then show ?thesis using run Cons output_ADDCH [OF S(1), of m 37] by (auto simp: fmt_convert_def split: prod.splits)
  next
    case 5
    then have [simp]: "c \<noteq> 99" "c \<noteq> 115" "c \<noteq> 112" "c \<noteq> 110" "c \<noteq> 37" by auto
    obtain errstr a where "fmt_integer pe e m str args c errstr fl fw pr q = Some (m', str', a)"
      using 5 run Cons by (auto simp: fmt_convert_def Let_def simp del: insert_iff)
    from fmt_integer_writes [OF this] show ?thesis using output_emit [OF S(1)] by metis
  next
    case 6
    then have "emit m str e ([37] @ [c]) = (m', str')"
      using run Cons unfolding emit_append by (auto simp: fmt_convert_def ADDCH_emit split: prod.splits)
    then show ?thesis using output_emit [OF S(1)] by metis
  qed
qed

lemma output_vsn_loop:
  assumes "{str ..< e} \<subseteq> S" "{pe_local pe ..< pe_local pe + 40} \<subseteq> S" "110 \<notin> set fmt"
    and "vsn_loop pe buf e m str args fmt = Some r"
  shows "output_step S str m r"
  using assms
proof (induction pe buf e m str args fmt rule: vsn_loop.induct)
  case (1 pe buf e m str args)
  then show ?case by (auto simp: output_step_def)
next
  case (2 pe buf e m str args c fmt)
  have step: "{str' ..< e} \<subseteq> S" if "output_step S str m (m', str')" for m' str'
    using "2.prems"(1) that by (auto simp: output_step_def)
  show ?case
  proof (cases "c = 37")
    case False
    have o: "output_step S str m (fst (ADDCH m str e c), snd (ADDCH m str e c))"
      using output_ADDCH [OF "2.prems"(1)] by simp
    have "output_step S (snd (ADDCH m str e c)) (fst (ADDCH m str e c)) r"
      using "2.prems" False by (intro "2.IH"(1) step [OF o]) auto
    then show ?thesis by (rule output_trans [OF o])
  next
    case True
    then obtain m' str' args' fmt' where d: "fmt_directive pe buf e m str args fmt = Some (m', str', args', fmt')"
        and rest: "vsn_loop pe buf e m' str' args' fmt' = Some r"
      using "2.prems"(4) by (auto split: Option.bind_splits)
    obtain a f fl fw pr q where p: "fmt_parse args fmt = Some (a, f, fl, fw, pr, q)"
        and conv: "fmt_convert pe buf e m str a f fl fw pr q = Some (m', str', args', fmt')"
      using d by (auto simp: fmt_directive_def split: Option.bind_splits)
    have sub: "set f \<subseteq> set fmt" "set fmt' \<subseteq> set fmt"
      using fmt_parse_suffix [OF p] fmt_directive_suffix [OF d] by (auto dest: set_mono_suffix)
    then have o: "output_step S str m (m', str')"
      using "2.prems" by (intro output_fmt_convert [OF _ _ _ conv]) auto
    have "output_step S str' m' r"
      using "2.prems" True sub rest d by (intro "2.IH"(2) step [OF o]) auto
    then show ?thesis by (rule output_trans [OF o])
  qed
qed



text \<open>
  The argument of \<open>%c\<close> is left when the buffer is full, and the next conversion takes it: the text of
  \<open>"ab%c%d"\<close> with \<open>'A'\<close> and 5 is \<open>abA5\<close>, but with two bytes the length that comes back is that of \<open>ab.65\<close>.
\<close>

lemma char_argument_left:
  "format_text pe strs [A_int 65, A_int 5] [97, 98, 37, 99, 37, 100] = Some [97, 98, 65, 53] \<and>
   map_option snd (vsnprintf pe m 100 2 [97, 98, 37, 99, 37, 100] [A_int 65, A_int 5]) = Some 5 \<and>
   map_option snd (vsnprintf pe m 100 3 [97, 98, 37, 99, 37, 100] [A_int 65, A_int 5]) = Some 4"
proof -
  note fmt_defs = fmt_directive_def directive_text_def fmt_convert_def conv_text_def fmt_char_def fmt_integer_emit fmt_number_def
  have n: "number_text 65 10 (- 1) (- 1) 2 = [54, 53]" "number_text 5 10 (- 1) (- 1) 2 = [53]" by code_simp+
  have parse: "fmt_parse [A_int 65, A_int 5] [99, 37, 100] = Some ([A_int 65, A_int 5], [99, 37, 100], 0, - 1, - 1, 0)"
    "fmt_parse [A_int 65, A_int 5] [100] = Some ([A_int 65, A_int 5], [100], 0, - 1, - 1, 0)"
    "fmt_parse [A_int 5] [100] = Some ([A_int 5], [100], 0, - 1, - 1, 0)"
    by code_simp+
  have fl: "int_flags 100 False 0 = 2" "flag 1 2" "\<not> flag 4 0" by code_simp+
  have i: "integer_text pe v 100 False 2 (- 1) (- 1) = number_text v 10 (- 1) (- 1) 2" for v
    by (simp add: integer_text_def int_base_def split: option.splits)
  show ?thesis
    by (simp add: vsnprintf_def vsnprintf_internal_def fmt_defs parse fl i n Let_def char_pad.simps ADDCH_def
        char_text_def emit_def nat_to_int)
qed

end
