(* ===== verification/PrintfUse.thy ===== *)
theory PrintfUse
  imports PrintfText
begin

text \<open>
  The small converters of \<open>lib/vsprintf.c\<close>. \<open>simple_itoa\<close> and \<open>simple_xtoa\<close> leave in their static array a text
  that the parsing routines read back; \<open>strmhz\<close> writes a frequency in MHz rounded to three decimals, on
  unsigned arithmetic that wraps; the array of \<open>print_grouped_ull\<close> is one byte short.
\<close>

section \<open>Numbers in the static array\<close>

lemma num_digits_10:
  "num_digits 10 lc n = (if n < 10 then [dec_char n] else num_digits 10 lc (n div 10) @ [dec_char (n mod 10)])"
  by (subst num_digits_def, subst rev_digits_10) (simp add: num_digits_def)

lemma num_digits_nz: "num_digits b lc n \<noteq> []"
  by (subst num_digits_def, subst rev_digits.simps) simp

lemma mem_store_before:
  "p + length bs = q \<Longrightarrow> mem_store (mem_store m q cs) p bs = mem_store m p (bs @ cs)"
  by (rule ext) (auto simp: mem_store_def nth_append)

lemma itoa_loop_store:
  assumes "length (num_digits 10 0 (unat i)) \<le> p + 1"
  shows "itoa_loop m p i =
           (let ds = num_digits 10 0 (unat i) in (mem_store m (p + 1 - length ds) ds, p - length ds))"
  using assms
proof (induction m p i rule: itoa_loop.induct)
  case (1 m p i)
  let ?ds = "num_digits 10 0 (unat i)" and ?ds' = "num_digits 10 0 (unat (i div 10))"
  have c: "48 + ucast (i mod 10) = dec_char (unat i mod 10)"
    by (rule word_unat_eq_iff [THEN iffD2])
      (simp add: dec_char_def unat_of_nat unat_mod unsigned_ucast_eq unat_plus_if' take_bit_nat_eq_self)
  show ?case
  proof (cases "0 < i div 10")
    case True
    then have "10 \<le> unat i" by (simp add: word_less_nat_alt unat_div)
    then have ds: "?ds = ?ds' @ [dec_char (unat i mod 10)]"
      by (subst num_digits_10) (simp add: unat_div)
    then have len: "length ?ds = Suc (length ?ds')" by simp
    have "mem_store (m(p := dec_char (unat i mod 10))) (p - length ?ds') ?ds' = mem_store m (p - length ?ds') ?ds"
      using "1.prems" len mem_store_before [of "p - length ?ds'" ?ds' p m "[dec_char (unat i mod 10)]"]
      by (simp add: ds mem_store_Cons)
    moreover have "p - 1 + 1 - length ?ds' = p - length ?ds'"
      using "1.prems" len num_digits_nz [of 10 0 "unat (i div 10)"] by (cases p) auto
    ultimately show ?thesis using "1.IH" [OF refl refl True] "1.prems" True len
      by (subst itoa_loop.simps) (simp add: c Let_def del: fun_upd_apply)
  next
    case False
    then have "unat i < 10" by (simp add: word_less_nat_alt unat_div)
    then have "?ds = [dec_char (unat i)]" "unat i mod 10 = unat i" by (simp_all add: num_digits_10 [of 0 "unat i"])
    then show ?thesis using False c by (subst itoa_loop.simps) (simp add: mem_store_Cons)
  qed
qed

text \<open>The hexadecimal text has two digits for each byte.\<close>

definition xtoa_text :: "nat \<Rightarrow> u8 list" where
  "xtoa_text n = (let ds = num_digits 16 32 n in replicate (length ds mod 2) 48 @ ds)"

lemma num_digits_16:
  "num_digits 16 32 n = (if n < 16 then [hex_digits ! n OR 32] else num_digits 16 32 (n div 16) @ [hex_digits ! (n mod 16) OR 32])"
  by (subst num_digits_def, subst rev_digits.simps) (simp add: num_digits_def)

lemma hex_asc_digits: "d < 16 \<Longrightarrow> hex_asc ! d = hex_digits ! d OR 32"
proof -
  have "\<forall>d \<in> {0 ..< 16}. hex_asc ! d = hex_digits ! d OR 32" by code_simp
  then show "d < 16 \<Longrightarrow> hex_asc ! d = hex_digits ! d OR 32" by simp
qed

lemma hex_byte_pack_digits:
  "hex_byte_pack b = [hex_digits ! (unat b div 16) OR 32, hex_digits ! (unat b mod 16) OR 32]"
proof -
  have lt: "unat b < 256" using unsigned_less [of b, where 'a = nat] by simp
  have nibble: "unat (w AND 0x0f) = unat w mod 16" for w :: u8
  proof -
    have "w AND 0x0f = take_bit 4 w" by (simp add: take_bit_eq_mask mask_eq_exp_minus_1)
    then show ?thesis by (simp only: unsigned_take_bit_eq) (simp add: take_bit_eq_mod)
  qed
  have "drop_bit 4 (b AND 0xf0) = drop_bit 4 b AND 0x0f" by (simp add: drop_bit_and)
  then have "unat (drop_bit 4 (b AND 0xf0)) = unat (drop_bit 4 b) mod 16" using nibble by simp
  also have "unat (drop_bit 4 b) = unat b div 16" by (simp add: unat_drop_bit_eq drop_bit_nat_def)
  finally have hi: "unat (drop_bit 4 (b AND 0xf0)) = unat b div 16" using lt by simp
  show ?thesis unfolding hex_byte_pack_def hi nibble using lt by (simp add: hex_asc_digits)
qed

lemma xtoa_text_step:
  "xtoa_text n = (if n < 256 then hex_byte_pack (word_of_nat n) else xtoa_text (n div 256) @ hex_byte_pack (word_of_nat (n mod 256)))"
proof -
  have z: "hex_digits ! 0 OR 32 = 48" by code_simp
  consider "n < 16" | "16 \<le> n" "n < 256" | "256 \<le> n" by linarith
  then show ?thesis
  proof cases
    case 1
    then show ?thesis using z by (simp add: xtoa_text_def num_digits_16 [of n] hex_byte_pack_digits unat_of_nat)
  next
    case 2
    then have "n div 16 < 16" by simp
    then show ?thesis using 2
      by (simp add: xtoa_text_def num_digits_16 [of n] num_digits_16 [of "n div 16"] hex_byte_pack_digits unat_of_nat)
  next
    case 3
    then have "16 \<le> n" "16 \<le> n div 16" "n div 16 div 16 = n div 256" by (simp_all add: div_mult2_eq [symmetric])
    then have ds: "num_digits 16 32 n =
        num_digits 16 32 (n div 256) @ [hex_digits ! (n div 16 mod 16) OR 32, hex_digits ! (n mod 16) OR 32]"
      by (simp add: num_digits_16 [of n] num_digits_16 [of "n div 16"])
    have "n mod 256 div 16 = n div 16 mod 16" using mod_mult_div [of 16 n 16] by simp
    moreover have "n mod 256 mod 16 = n mod 16" by (simp add: mod_mod_cancel)
    moreover have "unat (word_of_nat (n mod 256) :: u8) = n mod 256" by (simp add: unat_of_nat)
    ultimately show ?thesis using 3 by (simp add: xtoa_text_def ds hex_byte_pack_digits Let_def)
  qed
qed

lemma xtoa_loop_store:
  assumes "length (xtoa_text (unat num)) \<le> p"
  shows "xtoa_loop m p num =
           (let ds = xtoa_text (unat num) in (mem_store m (p - length ds) ds, p - length ds))"
  using assms
proof (induction m p num rule: xtoa_loop.induct)
  case (1 m p num)
  let ?ds = "xtoa_text (unat num)" and ?ds' = "xtoa_text (unat (drop_bit 8 num))"
  have low: "ucast (num AND 0xff) = (word_of_nat (unat num mod 256) :: u8)"
  proof (rule word_unat_eq_iff [THEN iffD2])
    have "num AND 0xff = take_bit 8 num" by (simp add: take_bit_eq_mask mask_eq_exp_minus_1)
    then have "unat (num AND 0xff) = unat num mod 256"
      by (simp only: unsigned_take_bit_eq) (simp add: take_bit_eq_mod)
    then show "unat (ucast (num AND 0xff) :: u8) = unat (word_of_nat (unat num mod 256) :: u8)"
      by (simp add: unsigned_ucast_eq unat_of_nat take_bit_eq_mod)
  qed
  have d: "unat (drop_bit 8 num) = unat num div 256" by (simp add: unat_drop_bit_eq drop_bit_nat_def)
  let ?b = "hex_byte_pack (word_of_nat (unat num mod 256))"
  show ?case
  proof (cases "0 < drop_bit 8 num")
    case True
    then have "256 \<le> unat num" by (simp add: word_less_nat_alt d)
    then have ds: "?ds = ?ds' @ ?b" using d by (simp add: xtoa_text_step [of "unat num"])
    then have len: "length ?ds = length ?ds' + 2" by simp
    have "mem_store (mem_store m (p - 2) ?b) (p - 2 - length ?ds') ?ds' = mem_store m (p - 2 - length ?ds') ?ds"
      unfolding ds using "1.prems" len by (intro mem_store_before) simp
    then show ?thesis using "1.IH" [OF refl refl refl] "1.prems" True len
      by (subst xtoa_loop.simps) (simp add: low Let_def)
  next
    case False
    then have "unat num < 256" by (simp add: word_less_nat_alt d)
    then have "?ds = ?b" by (simp add: xtoa_text_step [of "unat num"])
    then show ?thesis using False by (subst xtoa_loop.simps) (simp add: low Let_def)
  qed
qed

lemma num_digits_chars:
  assumes "base = 10 \<or> base = 16" "lc = 0 \<or> lc = 32"
  shows "0 \<notin> set (num_digits base lc n)"
proof -
  have b: "base = 8 \<or> base = 10 \<or> base = 16" and le: "2 \<le> base" "base \<le> 16" using assms(1) by auto
  have "\<forall>d\<in>set (map digit (num_digits base lc n)). d < 16"
    unfolding digit_num_digits [OF b assms(2)] using rev_digits_less [OF le(1)] le(2) by (metis order_less_le_trans set_rev)
  then show ?thesis by auto
qed

lemma stored_cstr:
  assumes "0 \<notin> set ds" "p + length ds = q"
  shows "cstr (mem_store (m(q := 0)) p ds) p ds"
  using assms by (auto simp: cstr_def mem_store_def nth_append intro!: nth_equalityI)

lemma unchanged_stored:
  assumes "{p .. q} \<subseteq> S" "p + length ds \<le> q + 1" "p \<le> q"
  shows "unchanged S m (mem_store (m(q := 0)) p ds)"
proof -
  have "mem_store (m(q := 0)) p ds a = m a" if "a \<notin> S" for a
  proof -
    have "a \<notin> {p .. q}" using that assms(1) by blast
    then show ?thesis using assms(2,3) by (auto simp: mem_store_def)
  qed
  then show ?thesis by (simp add: unchanged_def)
qed

lemma simple_itoa_back:
  "case simple_itoa toa m i of (m', p) \<Rightarrow>
     toa < p \<and> dectoul m' p = Some (i, toa + 21) \<and> unchanged {toa ..< toa + 22} m m'"
proof -
  let ?ds = "num_digits 10 0 (unat i)"
  have "unat i < 10 ^ 20" using unsigned_less [of i, where 'a = nat] by simp
  from length_rev_digits [OF this] have len: "length ?ds \<le> 20" by (simp add: num_digits_def)
  define p where "p = toa + 21 - length ?ds"
  define m' where "m' = mem_store (m(toa + 21 := 0)) p ?ds"
  have p: "p + length ?ds = toa + 21" "toa < p" "Suc (toa + 20 - length ?ds) = p" "toa + 20 + 1 - length ?ds = p"
    using len by (simp_all add: p_def)
  have run: "simple_itoa toa m i = (m', p)"
    using itoa_loop_store [of i "toa + 20" "m(toa + 21 := 0)"] len p
    by (simp add: simple_itoa_def Let_def m'_def del: fun_upd_apply)
  have "cstr m' p ?ds" unfolding m'_def using p num_digits_chars [of 10 0] by (intro stored_cstr) auto
  then have "dectoul m' p = Some (i, toa + 21)"
    using parse_printed [of 10 0 "[]" m' p 0 i] p by (simp add: dectoul_def)
  moreover have "unchanged {toa ..< toa + 22} m m'"
    unfolding m'_def using p by (intro unchanged_stored) auto
  ultimately show ?thesis using run p by simp
qed

lemma simple_xtoa_back:
  "case simple_xtoa toa m i of (m', p) \<Rightarrow>
     toa \<le> p \<and> hextoul m' p = Some (i, toa + 16) \<and> str2long m' p = Some (True, i) \<and> unchanged {toa ..< toa + 22} m m'"
proof -
  let ?xs = "xtoa_text (unat i)" and ?hs = "num_digits 16 32 (unat i)"
  have "unat i < 16 ^ 16" using unsigned_less [of i, where 'a = nat] by simp
  from length_rev_digits [OF this] have "length ?hs \<le> 16" by (simp add: num_digits_def)
  then have len: "length ?xs \<le> 16" by (simp add: xtoa_text_def Let_def) presburger
  define p where "p = toa + 16 - length ?xs"
  define m' where "m' = mem_store (m(toa + 16 := 0)) p ?xs"
  have p: "p + length ?xs = toa + 16" "toa \<le> p" using len by (simp_all add: p_def)
  have run: "simple_xtoa toa m i = (m', p)"
    using xtoa_loop_store [of i "toa + 16" "m(toa + 16 := 0)"] len
    by (simp add: simple_xtoa_def Let_def m'_def p_def del: fun_upd_apply)
  have xs: "?xs = [] @ replicate (length ?hs mod 2) 48 @ ?hs" by (simp add: xtoa_text_def Let_def)
  have "0 \<notin> set ?xs" using num_digits_chars [of 16 32 "unat i"] by (auto simp: xtoa_text_def Let_def)
  then have c: "cstr m' p ?xs" unfolding m'_def using p by (intro stored_cstr) auto
  have h: "hextoul m' p = Some (i, toa + 16)"
    using parse_printed [of 16 32 "[]" m' p "length ?hs mod 2" i, folded xs] c p by (simp add: hextoul_def)
  have "?xs \<noteq> []" using num_digits_nz [of 16 32 "unat i"] by (simp add: xtoa_text_def Let_def)
  then have "m' p \<noteq> 0" using c by (cases ?xs) auto
  moreover have "m' (toa + 16) = 0" using c p by (simp add: cstr_def)
  ultimately have "str2long m' p = Some (True, i)" using h by (simp add: str2long_def)
  moreover have "unchanged {toa ..< toa + 22} m m'" unfolding m'_def using p by (intro unchanged_stored) auto
  ultimately show ?thesis using run h p by simp
qed

text \<open>
  \<open>simple_itoa\<close> and \<open>simple_xtoa\<close> leave their text inside the 22 bytes of the static array and
  change nothing else, and the parsing routines read the number back from the pointer that they
  return: \<open>dectoul\<close> the decimal text, \<open>hextoul\<close> and \<open>str2long\<close> the hexadecimal one, up to its end.\<close>

theorem toa_roundtrip:
  "(case simple_itoa toa m i of (m', p) \<Rightarrow>
      toa < p \<and> dectoul m' p = Some (i, toa + 21) \<and> unchanged {toa ..< toa + 22} m m') \<and>
   (case simple_xtoa toa m i of (m', p) \<Rightarrow>
      toa \<le> p \<and> hextoul m' p = Some (i, toa + 16) \<and> str2long m' p = Some (True, i) \<and>
      unchanged {toa ..< toa + 22} m m')"
  by (intro conjI simple_itoa_back simple_xtoa_back)

section \<open>Frequencies\<close>

text \<open>The value rounded to kHz, in MHz with three decimals, which are left out when they are zero.\<close>

definition mhz_text :: "nat \<Rightarrow> u8 list" where
  "mhz_text hz =
     (let k = (hz + 500) div 1000; r = k mod 1000
      in num_digits 10 0 (k div 1000) @ (if r = 0 then [] else 46 # map dec_char [r div 100, r div 10 mod 10, r mod 10]))"

lemma num_digits_locase: "num_digits 10 lc n = num_digits 10 0 n"
  by (simp add: num_digits_def)

lemma three_digits:
  assumes "r < 1000"
  shows "replicate (3 - length (num_digits 10 0 r)) 48 @ num_digits 10 0 r = map dec_char [r div 100, r div 10 mod 10, r mod 10]"
proof -
  have z: "dec_char 0 = 48" by (simp add: dec_char_def)
  consider "r < 10" | "10 \<le> r" "r < 100" | "100 \<le> r" by linarith
  then show ?thesis
  proof cases
    case 1
    then show ?thesis by (simp add: num_digits_10 [of 0 r] z numeral_2_eq_2)
  next
    case 2
    then have "r div 10 < 10" by simp
    then show ?thesis using 2 by (simp add: num_digits_10 [of 0 r] num_digits_10 [of 0 "r div 10"] z)
  next
    case 3
    have "r div 10 div 10 = r div 100" "r div 100 < 10" "10 \<le> r div 10"
      using assms 3 by (simp_all add: div_mult2_eq [symmetric])
    then show ?thesis using 3
      by (simp add: num_digits_10 [of 0 r] num_digits_10 [of 0 "r div 10"] num_digits_10 [of 0 "r div 100"])
  qed
qed

lemma format_ld:
  assumes "unat v < 2 ^ 63"
  shows "format_text pe strs [A_long v] [37, 108, 100] = Some (num_digits 10 0 (unat v))"
    and "unat v < 1000 \<Longrightarrow> format_text pe strs [A_long v] [46, 37, 48, 51, 108, 100] =
           Some (46 # map dec_char [unat v div 100, unat v div 10 mod 10, unat v mod 10])"
proof -
  have parse: "fmt_parse [A_long v] [108, 100] = Some ([A_long v], [100], 0, - 1, - 1, 108)"
    "fmt_parse [A_long v] [48, 51, 108, 100] = Some ([A_long v], [100], 1, 3, - 1, 108)"
    by (simp_all add: fmt_parse_def fmt_width_def fmt_precision_def fmt_qualifier_def is_digit_def)
  have fl: "int_flags 100 False 0 = 2" "int_flags 100 False 1 = 3" "flag 1 2" "flag 1 3" "flag 0 3" "\<not> flag 0 2"
    "\<not> flag 2 2" "\<not> flag 2 3" "\<not> flag 3 2" "\<not> flag 3 3" "\<not> flag 4 2" "\<not> flag 4 3" "\<not> flag 6 2" "\<not> flag 6 3"
    by code_simp+
  have "uint v < 2 ^ 63" using assms by (simp add: nat_less_iff flip: nat_uint_eq)
  moreover have "- (2 ^ 63) \<le> uint v" using uint_ge_0 [of v] by (rule order_trans [rotated]) simp
  ultimately have "sint v = uint v" using signed_take_bit_int_eq_self [of 63 "uint v"] by (simp add: sint_uint)
  then have pos: "\<not> v <s 0" by (simp add: word_sless_alt)
  have t: "number_text v 10 (- 1) (- 1) 2 = num_digits 10 0 (unat v)"
    "number_text v 10 3 (- 1) 3 = replicate (3 - length (num_digits 10 0 (unat v))) 48 @ num_digits 10 0 (unat v)"
    using pos by (simp_all add: number_text_def fl num_digits_locase [of "ucast _"] Let_def nat_diff_distrib')
  show "format_text pe strs [A_long v] [37, 108, 100] = Some (num_digits 10 0 (unat v))"
    by (simp add: directive_text_def parse conv_text_def fl fmt_number_def integer_text_def int_base_def t split: option.splits)
  show "format_text pe strs [A_long v] [46, 37, 48, 51, 108, 100] =
           Some (46 # map dec_char [unat v div 100, unat v div 10 mod 10, unat v mod 10])" if "unat v < 1000"
    by (simp add: directive_text_def parse conv_text_def fl fmt_number_def integer_text_def int_base_def t three_digits [OF that]
        split: option.splits)
qed

lemma sprintf_text:
  assumes "format_text pe (\<lambda>_. None) args fmt = Some t" "99 \<notin> set fmt" "length t \<le> 100" "buf + 2 ^ 31 \<le> 2 ^ 64"
  shows "sprintf pe m buf fmt args = Some (mem_store m buf (t @ [0]), int (length t))"
  using vsnprintf_internal_text [OF assms(1), of buf "0x7fffffff" m] assms(2-4)
  by (simp add: sprintf_def vsprintf_def strings_at_def)

text \<open>The two roundings, the second on a difference that may have wrapped around.\<close>

lemma mhz_words:
  fixes hz :: u64
  assumes "unat hz < 2 ^ 63"
  defines "k \<equiv> (unat hz + 500) div 1000"
  defines "n \<equiv> DIV_ROUND_CLOSEST hz 1000 div 1000"
  shows "unat n = k div 1000" "unat (DIV_ROUND_CLOSEST (hz - n * 1000000) 1000) = k mod 1000"
proof -
  have h: "unat (hz + 500) = unat hz + 500" using assms(1) by (subst unat_plus_no_wrap) simp_all
  then have "unat (DIV_ROUND_CLOSEST hz 1000) = k" by (simp add: DIV_ROUND_CLOSEST_def unat_div k_def)
  then show n: "unat n = k div 1000" by (simp add: n_def unat_div)
  have "k div 1000 * 1000000 \<le> unat hz + 500" by (simp add: k_def div_mult2_eq [symmetric])
  then have "unat (n * 1000000) = k div 1000 * 1000000"
    using assms(1) n by (subst unat_mult_lem [THEN iffD1]) simp_all
  then have "unat (hz + 500 - n * 1000000) = unat hz + 500 - k div 1000 * 1000000"
    using h \<open>k div 1000 * 1000000 \<le> unat hz + 500\<close> by (subst unat_sub) (simp_all add: word_le_nat_alt)
  moreover have e: "hz - n * 1000000 + 1000 div 2 = hz + 500 - n * 1000000" by simp
  moreover have "(unat hz + 500 - k div 1000 * 1000000) div 1000 = k mod 1000"
  proof -
    define q r t where "q = k div 1000" and "r = k mod 1000" and "t = (unat hz + 500) mod 1000"
    have "k = q * 1000 + r" "unat hz + 500 = k * 1000 + t" by (simp_all add: q_def r_def t_def k_def)
    then have "unat hz + 500 - q * 1000000 = r * 1000 + t" by simp
    then show ?thesis by (simp add: q_def [symmetric] r_def [symmetric] t_def)
  qed
  ultimately show "unat (DIV_ROUND_CLOSEST (hz - n * 1000000) 1000) = k mod 1000"
    unfolding DIV_ROUND_CLOSEST_def unat_div e by simp
qed



text \<open>For the value that \<open>vsprintf.h\<close> gives as an example the text is \<open>2.700\<close>.\<close>

lemma mhz_example: "mhz_text 2700000 = [50, 46, 55, 48, 48]"
  by (simp add: mhz_text_def num_digits_10 dec_char_def)

section \<open>Grouped digits\<close>

text \<open>
  \<open>print_grouped_ull\<close> with 19 or more digits: the text has 21 characters, and with its null byte does
  not fit the array of 21 bytes.
\<close>

lemma grouped_text:
  "format_text pe strs [A_int 21, A_long v] [37, 42, 108, 108, 117] = Some (number_text v 10 21 (- 1) 0)"
  "length (number_text v 10 21 (- 1) 0) = 21"
proof -
  have "fmt_parse [A_int 21, A_long v] [42, 108, 108, 117] = Some ([A_long v], [117], 0, 21, - 1, 76)"
    by (simp add: fmt_parse_def fmt_width_def fmt_precision_def fmt_qualifier_def is_digit_def)
  then show "format_text pe strs [A_int 21, A_long v] [37, 42, 108, 108, 117] = Some (number_text v 10 21 (- 1) 0)"
    by (simp add: directive_text_def conv_text_def int_flags_def fmt_number_def integer_text_def int_base_def split: option.splits)
  have "unat v < 10 ^ 20" using unsigned_less [of v, where 'a = nat] by simp
  from length_rev_digits [OF this] have "length (num_digits 10 0 (unat v)) \<le> 20" by (simp add: num_digits_def)
  then show "length (number_text v 10 21 (- 1) 0) = 21"
    by (simp add: number_text_def flag_def Let_def nat_diff_distrib')
qed

lemma grouped_overflow:
  assumes "str + 2 ^ 32 \<le> 2 ^ 64" "d = 19 \<or> d = 20 \<or> d = (21 :: int)"
  shows "sprintf pe m str [37, 42, 108, 108, 117] [A_int (word_of_int (sgn (d + 2) * (\<bar>d + 2\<bar> div 3) * 3)), A_long v] =
           Some (mem_store m str (number_text v 10 21 (- 1) 0 @ [0]), 21)"
proof -
  have "sgn (d + 2) * (\<bar>d + 2\<bar> div 3) * 3 = 21" using assms(2) by auto
  then show ?thesis using sprintf_text [OF grouped_text(1), of v str] grouped_text(2) assms(1) by simp
qed

end
