(* ===== verification/Hexdump.thy ===== *)
theory Hexdump
  imports PrintfUse
begin

text \<open>
  Hexadecimal dumps: \<open>lib/hexdump.c\<close> and the inline routines of \<open>include/hexdump.h\<close>, on the store. The groups of two,
  four and eight bytes are read as little-endian numbers and printed with \<open>snprintf\<close>; the addresses of the
  literals \<open>""\<close> and \<open>" "\<close> that it gets are parameters. \<open>hex_dump_to_buffer\<close> is shown to write one line of text, cut to the
  buffer, and \<open>hex2bin\<close> to undo \<open>bin2hex\<close>.
\<close>

section \<open>Model\<close>

definition hex_to_bin :: "u8 \<Rightarrow> int" where
  "hex_to_bin ch =
     (if 48 \<le> ch \<and> ch \<le> 57 then uint ch - 48
      else let ch = tolower ch in if 97 \<le> ch \<and> ch \<le> 102 then uint ch - 97 + 10 else - 1)"

text \<open>\<open>hex2bin\<close>; both characters are read before either is checked.\<close>

fun hex2bin :: "mem \<Rightarrow> ptr \<Rightarrow> ptr \<Rightarrow> nat \<Rightarrow> mem \<times> int" where
  "hex2bin m dst src 0 = (m, 0)"
| "hex2bin m dst src (Suc count) =
     (let hi = hex_to_bin (m src); lo = hex_to_bin (m (src + 1))
      in if hi < 0 \<or> lo < 0 then (m, - 1)
         else hex2bin (m(dst := word_of_int (push_bit 4 hi OR lo))) (dst + 1) (src + 2) count)"

fun bin2hex :: "mem \<Rightarrow> ptr \<Rightarrow> ptr \<Rightarrow> nat \<Rightarrow> mem \<times> ptr" where
  "bin2hex m dst src 0 = (m, dst)"
| "bin2hex m dst src (Suc count) = bin2hex (mem_store m dst (hex_byte_pack (m src))) (dst + 2) (src + 1) count"

definition is_power_of_2 :: "u64 \<Rightarrow> bool" where
  "is_power_of_2 n \<longleftrightarrow> n \<noteq> 0 \<and> n AND (n - 1) = 0"

text \<open>The format environment and the addresses of the two literals.\<close>

record hdenv =
  he_print :: penv
  he_empty :: ptr
  he_space :: ptr

text \<open>How a part of \<open>hex_dump_to_buffer\<close> ends: it goes on, or jumps to one of the two labels.\<close>

datatype dump_exit = Go | Over1 | Over2

text \<open>The loops for groups of 8, 4 and 2 bytes: the store, \<open>lx\<close> and the exit.\<close>

definition group_arg :: "nat \<Rightarrow> u64 \<Rightarrow> varg" where
  "group_arg groupsize v = (if groupsize = 8 then A_long v else A_int (ucast v))"

definition group_format :: "nat \<Rightarrow> u8 list" where
  "group_format groupsize =
     (if groupsize = 8 then [37, 115, 37, 49, 54, 46, 49, 54, 108, 108, 120]
      else if groupsize = 4 then [37, 115, 37, 56, 46, 56, 120]
      else [37, 115, 37, 52, 46, 52, 120])"

fun group_dump ::
  "hdenv \<Rightarrow> nat \<Rightarrow> ptr \<Rightarrow> ptr \<Rightarrow> nat \<Rightarrow> nat \<Rightarrow> nat \<Rightarrow> mem \<Rightarrow> nat \<Rightarrow> (mem \<times> nat \<times> dump_exit) option" where
  "group_dump he groupsize buf linebuf linebuflen 0 j m lx = Some (m, lx, Go)"
| "group_dump he groupsize buf linebuf linebuflen (Suc n) j m lx =
     Option.bind (snprintf (he_print he) m (linebuf + lx) (linebuflen - lx) (group_format groupsize)
         [A_ptr (if j \<noteq> 0 then he_space he else he_empty he),
          group_arg groupsize (le_value (mem_bytes m (buf + groupsize * j) groupsize))])
       (\<lambda>(m', ret).
          if int (linebuflen - lx) \<le> uint (word_of_int ret :: u64) then Some (m', lx, Over1)
          else group_dump he groupsize buf linebuf linebuflen n (j + 1) m' (lx + nat ret))"

text \<open>One character after the check for room; a state that is to jump stays as it is.\<close>

definition put_checked :: "ptr \<Rightarrow> nat \<Rightarrow> u8 \<Rightarrow> mem \<times> nat \<times> dump_exit \<Rightarrow> mem \<times> nat \<times> dump_exit" where
  "put_checked linebuf linebuflen c s =
     (case s of (m, lx, ex) \<Rightarrow>
        if ex \<noteq> Go then s else if linebuflen < lx + 2 then (m, lx, Over2) else (m(linebuf + lx := c), lx + 1, Go))"

fun byte_dump :: "ptr \<Rightarrow> ptr \<Rightarrow> nat \<Rightarrow> nat \<Rightarrow> nat \<Rightarrow> mem \<times> nat \<times> dump_exit \<Rightarrow> mem \<times> nat \<times> dump_exit" where
  "byte_dump buf linebuf linebuflen 0 j s = s"
| "byte_dump buf linebuf linebuflen (Suc n) j s =
     (let ch = fst s (buf + j);
          s1 = put_checked linebuf linebuflen (hex_byte_pack ch ! 0) s;
          s2 = put_checked linebuf linebuflen (hex_byte_pack ch ! 1) s1;
          s3 = put_checked linebuf linebuflen 32 s2
      in byte_dump buf linebuf linebuflen n (j + 1) s3)"

function spaces_loop :: "ptr \<Rightarrow> nat \<Rightarrow> int \<Rightarrow> mem \<times> nat \<times> dump_exit \<Rightarrow> mem \<times> nat \<times> dump_exit" where
  "spaces_loop linebuf linebuflen ascii_column (m, lx, ex) =
     (if ex = Go \<and> int lx < ascii_column
      then spaces_loop linebuf linebuflen ascii_column (put_checked linebuf linebuflen 32 (m, lx, ex))
      else (m, lx, ex))"
  by pat_completeness auto
termination
  by (relation "measure (\<lambda>(linebuf, linebuflen, col, m, lx, ex). if ex = Go then Suc (nat (col - int lx)) else 0)")
    (auto simp: put_checked_def)

declare spaces_loop.simps [simp del]

definition printable :: "u8 \<Rightarrow> u8" where
  "printable ch = (if ch \<le> 0x7f \<and> isprint ch then ch else 46)"

fun ascii_loop :: "ptr \<Rightarrow> ptr \<Rightarrow> nat \<Rightarrow> nat \<Rightarrow> nat \<Rightarrow> mem \<times> nat \<times> dump_exit \<Rightarrow> mem \<times> nat \<times> dump_exit" where
  "ascii_loop buf linebuf linebuflen 0 j s = s"
| "ascii_loop buf linebuf linebuflen (Suc n) j s =
     ascii_loop buf linebuf linebuflen n (j + 1) (put_checked linebuf linebuflen (printable (fst s (buf + j))) s)"

text \<open>The \<open>lx--\<close> after the loop over the bytes, which has run at least once.\<close>

definition drop_last_space :: "mem \<times> nat \<times> dump_exit \<Rightarrow> mem \<times> nat \<times> dump_exit" where
  "drop_last_space s = (case s of (m, lx, ex) \<Rightarrow> (m, if ex = Go then lx - 1 else lx, ex))"

text \<open>The labels \<open>nil\<close>, \<open>overflow2\<close> and \<open>overflow1\<close> at the end.\<close>

definition dump_end :: "ptr \<Rightarrow> int \<Rightarrow> mem \<times> nat \<times> dump_exit \<Rightarrow> mem \<times> int" where
  "dump_end linebuf overflow s =
     (case s of
        (m, lx, Go) \<Rightarrow> (m(linebuf + lx := 0), int lx)
      | (m, lx, Over1) \<Rightarrow> (m, overflow)
      | (m, lx, Over2) \<Rightarrow> (m(linebuf + lx := 0), overflow))"

text \<open>
  The comparison \<open>len > rowsize\<close> is unsigned. A negative \<open>rowsize\<close> is rounded toward zero by the division.
\<close>

definition hex_dump_to_buffer ::
  "hdenv \<Rightarrow> mem \<Rightarrow> ptr \<Rightarrow> nat \<Rightarrow> int \<Rightarrow> int \<Rightarrow> ptr \<Rightarrow> nat \<Rightarrow> bool \<Rightarrow> (mem \<times> int) option" where
  "hex_dump_to_buffer he m buf len rowsize groupsize linebuf linebuflen ascii =
     (let rowsize = (if rowsize = 0 then 16 else min rowsize 64);
          len = (if uint (word_of_int rowsize :: u64) < int len then nat rowsize else len);
          groupsize = (if \<not> is_power_of_2 (word_of_int groupsize) \<or> 8 < groupsize then 1 else nat groupsize);
          groupsize = (if len mod groupsize \<noteq> 0 then 1 else groupsize);
          ngroups = len div groupsize;
          ascii_column = rowsize * 2 + sgn rowsize * (\<bar>rowsize\<bar> div int groupsize) + 1;
          overflow = (if ascii then ascii_column + int len else int ((groupsize * 2 + 1) * ngroups) - 1)
      in if linebuflen = 0 then Some (m, overflow)
         else if len = 0 then Some (m(linebuf := 0), 0)
         else
           map_option (\<lambda>s.
               let s = (if ascii then ascii_loop buf linebuf linebuflen len 0 (spaces_loop linebuf linebuflen ascii_column s) else s)
               in dump_end linebuf overflow s)
             (if groupsize = 8 \<or> groupsize = 4 \<or> groupsize = 2
              then group_dump he groupsize buf linebuf linebuflen ngroups 0 m 0
              else Some (drop_last_space (byte_dump buf linebuf linebuflen len 0 (m, 0, Go)))))"

section \<open>Conversion of bytes\<close>

lemma bin2hex_store:
  assumes "src + n \<le> dst \<or> dst + 2 * n \<le> src"
  shows "bin2hex m dst src n = (mem_store m dst (concat (map hex_byte_pack (mem_bytes m src n))), dst + 2 * n)"
  using assms
proof (induction n arbitrary: m dst src)
  case (Suc n)
  let ?m = "mem_store m dst (hex_byte_pack (m src))"
  have "mem_bytes ?m (src + 1) n = mem_bytes m (src + 1) n"
    using Suc.prems by (intro mem_store_disjoint) (auto simp: disjoint_range_def)
  moreover have "bin2hex ?m (dst + 2) (src + 1) n =
      (mem_store ?m (dst + 2) (concat (map hex_byte_pack (mem_bytes ?m (src + 1) n))), dst + 2 + 2 * n)"
    using Suc.prems by (intro Suc.IH) auto
  ultimately show ?case by (simp add: mem_bytes_Suc mem_store_append)
qed simp

lemma hex_to_bin_digit: "d < 16 \<Longrightarrow> hex_to_bin (hex_digits ! d OR 32) = int d"
proof -
  have "\<forall>d\<in>{0 ..< 16}. hex_to_bin (hex_digits ! d OR 32) = int d" by code_simp
  then show "d < 16 \<Longrightarrow> hex_to_bin (hex_digits ! d OR 32) = int d" by simp
qed

lemma nibbles: "word_of_int (push_bit 4 (int (unat b div 16)) OR int (unat b mod 16)) = (b :: u8)"
proof -
  have "int (unat b mod 16) = take_bit 4 (int (unat b))" by (simp add: take_bit_eq_mod of_nat_mod)
  moreover have "int (unat b div 16) = drop_bit 4 (int (unat b))" by (simp add: drop_bit_eq_div of_nat_div)
  ultimately have "push_bit 4 (int (unat b div 16)) OR int (unat b mod 16) = int (unat b)"
    by (simp only:) (rule bit_eqI, auto simp: bit_simps)
  then show ?thesis by simp
qed

lemma hex2bin_store:
  assumes "mem_bytes m src (2 * length bs) = concat (map hex_byte_pack bs)"
    and "dst + length bs \<le> src \<or> src + 2 * length bs \<le> dst"
  shows "hex2bin m dst src (length bs) = (mem_store m dst bs, 0)"
  using assms
proof (induction bs arbitrary: m dst src)
  case (Cons b bs)
  have lt: "unat b div 16 < 16" "unat b mod 16 < 16" using unsigned_less [of b, where 'a = nat] by simp_all
  have "mem_bytes m src (Suc (Suc (2 * length bs))) = hex_byte_pack b @ concat (map hex_byte_pack bs)"
    using Cons.prems(1) by simp
  then have h: "hex_to_bin (m src) = int (unat b div 16)" "hex_to_bin (m (src + 1)) = int (unat b mod 16)"
      and rest: "mem_bytes m (src + 2) (2 * length bs) = concat (map hex_byte_pack bs)"
    using lt by (auto simp: mem_bytes_Suc hex_byte_pack_digits hex_to_bin_digit)
  have "mem_bytes (m(dst := b)) (src + 2) (2 * length bs) = mem_bytes m (src + 2) (2 * length bs)"
    using Cons.prems(2) by (intro mem_bytes_upd_other) auto
  then have "hex2bin (m(dst := b)) (dst + 1) (src + 2) (length bs) = (mem_store (m(dst := b)) (dst + 1) bs, 0)"
    using rest Cons.prems(2) by (intro Cons.IH) (auto simp del: fun_upd_apply)
  then show ?case using h nibbles [of b] by (simp add: mem_store_Cons)
qed simp

text \<open>
  \<open>bin2hex\<close> writes two characters for each byte and returns the end of the text, and \<open>hex2bin\<close> on that
  text succeeds and gives the bytes back, wherever source, text and destination do not overlap.\<close>

theorem bin2hex_hex2bin:
  assumes "bin2hex m h src n = (m', q)" "src + n \<le> h \<or> h + 2 * n \<le> src" "dst + n \<le> h \<or> h + 2 * n \<le> dst"
  shows "q = h + 2 * n \<and> hex2bin m' dst h n = (mem_store m' dst (mem_bytes m src n), 0)"
proof -
  let ?bs = "mem_bytes m src n"
  have out: "m' = mem_store m h (concat (map hex_byte_pack ?bs))" "q = h + 2 * n"
    using bin2hex_store [OF assms(2), of m] assms(1) by simp_all
  have "length (concat (map hex_byte_pack xs)) = 2 * length xs" for xs by (induction xs) simp_all
  then have "mem_bytes m' h (2 * length ?bs) = concat (map hex_byte_pack ?bs)"
    unfolding out by (intro mem_store_same) simp
  then show ?thesis using hex2bin_store [of m' h ?bs dst] assms(3) out(2) by simp
qed

theorem bin2hex_hex2bin_witness:
  "case bin2hex (\<lambda>_. 171) 100 200 2 of (m', q) \<Rightarrow>
     q = 104 \<and> mem_bytes m' 100 4 = [97, 98, 97, 98] \<and> hex2bin m' 300 100 2 = (mem_store m' 300 [171, 171], 0)"
proof -
  obtain m' q where run: "bin2hex (\<lambda>_. 171) 100 200 2 = (m', q)" by force
  have "hex_byte_pack 171 = [97, 98]" by code_simp
  then have chars: "mem_bytes m' 100 4 = [97, 98, 97, 98]"
    using bin2hex_store [of 200 2 100 "\<lambda>_. 171"] run by (auto simp: mem_bytes_def mem_store_def numeral_eq_Suc)
  have "mem_bytes (\<lambda>_. 171 :: u8) 200 2 = [171, 171]" by code_simp
  then have "q = 104 \<and> hex2bin m' 300 100 2 = (mem_store m' 300 [171, 171], 0)"
    using bin2hex_hex2bin [OF run, of 300] by simp
  with chars show ?thesis unfolding run prod.case by blast
qed

section \<open>The text of a line\<close>

definition group_text :: "nat \<Rightarrow> u8 list \<Rightarrow> nat \<Rightarrow> u8 list" where
  "group_text g bs j = concat (map hex_byte_pack (rev (take g (drop (g * j) bs))))"

text \<open>Groups of \<open>g\<close> bytes, the last byte of a group first, with spaces between them.\<close>

definition hex_text :: "nat \<Rightarrow> u8 list \<Rightarrow> nat \<Rightarrow> u8 list" where
  "hex_text g bs n = concat (map (\<lambda>j. (if j \<noteq> 0 then [32] else []) @ group_text g bs j) [0 ..< n])"

text \<open>A line: the groups and, padded to a column that depends on the length of a row, the characters.\<close>

definition dump_text :: "nat \<Rightarrow> nat \<Rightarrow> bool \<Rightarrow> u8 list \<Rightarrow> u8 list" where
  "dump_text row g ascii bs =
     (let h = hex_text g bs (length bs div g)
      in if bs = [] then [] else if ascii then h @ replicate (2 * row + row div g + 1 - length h) 32 @ map printable bs else h)"

lemma length_pairs: "length (concat (map hex_byte_pack xs)) = 2 * length xs"
  by (induction xs) simp_all

lemma length_group_text: "g * Suc j \<le> length bs \<Longrightarrow> length (group_text g bs j) = 2 * g"
  by (simp add: group_text_def length_pairs algebra_simps)

lemma hex_text_Suc: "hex_text g bs (Suc n) = hex_text g bs n @ (if n \<noteq> 0 then [32] else []) @ group_text g bs n"
  by (simp add: hex_text_def)

lemma length_hex_text: "g * n \<le> length bs \<Longrightarrow> length (hex_text g bs n) = (2 * g + 1) * n - (if n = 0 then 0 else 1)"
proof (induction n)
  case (Suc n)
  have "g * n \<le> length bs" using Suc.prems by simp
  from Suc.IH [OF this] show ?case using length_group_text [OF Suc.prems]
    by (cases n) (simp_all add: hex_text_Suc)
qed (simp add: hex_text_def)

section \<open>Groups of bytes as numbers\<close>

definition le_nat :: "u8 list \<Rightarrow> nat" where
  "le_nat bs = foldr (\<lambda>b n. unat b + 256 * n) bs 0"

lemma le_nat_simps [simp]: "le_nat [] = 0" "le_nat (b # bs) = unat b + 256 * le_nat bs"
  by (simp_all add: le_nat_def)

lemma le_nat_less: "le_nat bs < 256 ^ length bs"
proof (induction bs)
  case (Cons b bs)
  have "unat b < 256" using unsigned_less [of b, where 'a = nat] by simp
  then show ?case using Cons by simp
qed simp

lemma unat_le_value: "length bs \<le> 8 \<Longrightarrow> unat (le_value bs) = le_nat bs"
proof (induction bs)
  case (Cons b bs)
  have "le_nat (b # bs) < 256 ^ 8"
    using le_nat_less [of "b # bs"] power_increasing [of "length (b # bs)" 8 "256 :: nat"] Cons.prems by simp
  moreover have "le_value (b # bs) = word_of_nat (le_nat (b # bs))"
  proof -
    have "le_value (b # bs) = ucast b + 256 * le_value bs" by (simp add: le_value_def)
    also have "\<dots> = word_of_nat (unat b + 256 * unat (le_value bs))" by simp
    also have "unat b + 256 * unat (le_value bs) = le_nat (b # bs)" using Cons by simp
    finally show ?thesis .
  qed
  moreover have "unat (word_of_nat n :: u64) = n" if "n < 256 ^ 8" for n using that by (simp add: unat_of_nat)
  ultimately show ?case by (simp only:)
qed (simp add: le_value_def)

definition hex_fixed :: "nat \<Rightarrow> nat \<Rightarrow> u8 list" where
  "hex_fixed k n = replicate (k - length (num_digits 16 32 n)) 48 @ num_digits 16 32 n"

lemma num_digits_16_byte:
  assumes "0 < n" "b < 256"
  shows "num_digits 16 32 (b + 256 * n) = num_digits 16 32 n @ hex_byte_pack (word_of_nat b)"
proof -
  let ?v = "b + 256 * n"
  have v: "16 \<le> ?v" "16 \<le> ?v div 16" "?v div 16 div 16 = n" "?v div 16 mod 16 = b div 16" "?v mod 16 = b mod 16"
  proof -
    have e: "?v = b + 16 * (16 * n)" by simp
    have d: "?v div 16 = b div 16 + 16 * n" unfolding e by simp
    show "16 \<le> ?v" using assms(1) by simp
    show "?v mod 16 = b mod 16" unfolding e by (simp only: mod_mult_self2)
    have "b div 16 < 16" using assms(2) by simp
    then show "16 \<le> ?v div 16" "?v div 16 div 16 = n" "?v div 16 mod 16 = b div 16"
      using assms(1) unfolding d by simp_all
  qed
  have "num_digits 16 32 ?v = num_digits 16 32 n @ [hex_digits ! (b div 16) OR 32, hex_digits ! (b mod 16) OR 32]"
    using v num_digits_16 [of ?v] num_digits_16 [of "?v div 16"] by simp
  then show ?thesis using assms(2) by (simp add: hex_byte_pack_digits unat_of_nat)
qed

lemma length_byte_digits:
  assumes "b < 256"
  shows "length (num_digits 16 32 b) = 1 \<or> length (num_digits 16 32 b) = 2"
proof -
  have "b div 16 < 16" using assms by simp
  then show ?thesis using num_digits_16 [of b] num_digits_16 [of "b div 16"] by auto
qed

lemma hex_fixed_byte:
  assumes "b < 256"
  shows "hex_fixed (k + 2) b = replicate k 48 @ hex_byte_pack (word_of_nat b)"
proof -
  let ?ds = "num_digits 16 32 b"
  have "xtoa_text b = hex_byte_pack (word_of_nat b)" using assms by (simp add: xtoa_text_step)
  moreover have "replicate (k + 2 - length ?ds) (48 :: u8) = replicate k 48 @ replicate (length ?ds mod 2) 48"
    using length_byte_digits [OF assms] by (auto simp flip: replicate_add)
  ultimately show ?thesis by (simp add: hex_fixed_def xtoa_text_def Let_def)
qed

lemma hex_fixed_bytes:
  "bs \<noteq> [] \<Longrightarrow> hex_fixed (2 * length bs) (le_nat bs) = concat (map hex_byte_pack (rev bs))"
proof (induction bs rule: list_nonempty_induct)
  case (single b)
  then show ?case using hex_fixed_byte [of "unat b" 0] unsigned_less [of b, where 'a = nat] by (simp add: numeral_2_eq_2)
next
  case (cons b bs)
  have b: "unat b < 256" using unsigned_less [of b, where 'a = nat] by simp
  show ?case
  proof (cases "le_nat bs = 0")
    case True
    have "num_digits 16 32 0 = [48]" by (subst num_digits_16) (simp add: hex_digits_def)
    then have "hex_fixed (2 * length bs) 0 = replicate (2 * length bs) 48"
      using cons.hyps by (cases bs) (simp_all add: hex_fixed_def replicate_append_same)
    then show ?thesis using True cons.IH hex_fixed_byte [OF b, of "2 * length bs"] by simp
  next
    case False
    then have "num_digits 16 32 (le_nat (b # bs)) = num_digits 16 32 (le_nat bs) @ hex_byte_pack b"
      using num_digits_16_byte [of "le_nat bs" "unat b"] b by simp
    then show ?thesis using cons.IH by (simp add: hex_fixed_def)
  qed
qed

text \<open>What \<open>snprintf\<close> is asked to print for a group.\<close>

lemma number_text_fixed:
  assumes "length (num_digits 16 32 (unat v)) \<le> k"
  shows "number_text v 16 (int k) (int k) 32 = hex_fixed k (unat v)"
proof -
  have fl: "\<not> flag 1 32" "\<not> flag 6 32" "\<not> flag 4 32" "\<not> flag 0 32" "ucast (32 AND 32 :: u32) = (32 :: u8)" by code_simp+
  show ?thesis using assms by (simp add: number_text_def fl fl(1) [unfolded One_nat_def] hex_fixed_def Let_def)
qed

lemma format_group:
  assumes "g = 8 \<or> g = 4 \<or> g = 2" "length bs = g"
  shows "format_text pe (\<lambda>s. if s = a then Some sep else None) [A_ptr a, group_arg g (le_value bs)] (group_format g) =
           Some (sep @ concat (map hex_byte_pack (rev bs)))"
proof -
  let ?v = "le_value bs" and ?k = "2 * g"
  have v: "unat ?v = le_nat bs" "unat ?v < 256 ^ g" using unat_le_value [of bs] le_nat_less [of bs] assms by auto
  have "16 ^ (2 * g) = (256 :: nat) ^ g" by (simp add: power_mult)
  then have "length (num_digits 16 32 (unat ?v)) \<le> ?k"
    using length_rev_digits [of "unat ?v" 16 "2 * g"] v(2) assms(1) by (auto simp: num_digits_def)
  then have t: "number_text ?v 16 (int ?k) (int ?k) 32 = concat (map hex_byte_pack (rev bs))"
    using number_text_fixed [of ?v ?k] hex_fixed_bytes [of bs] assms v(1) by (cases bs) auto
  have str: "string_text sep (- 1) (- 1) 0 = sep" by (simp add: string_text_def)
  have fl: "int_flags 120 False 0 = 32" "\<not> flag 1 32" by code_simp+
  have p1: "fmt_parse [A_ptr a, x] (115 # r) = Some ([A_ptr a, x], 115 # r, 0, - 1, - 1, 0)" for x r
    by (simp add: fmt_parse_def fmt_width_def fmt_precision_def fmt_qualifier_def is_digit_def)
  have i: "integer_text pe n 120 False 32 w k = number_text n 16 w k 32" for n w k
    by (simp add: integer_text_def int_base_def split: option.splits)
  have p2: "fmt_parse [A_long n] [49, 54, 46, 49, 54, 108, 108, 120] = Some ([A_long n], [120], 0, 16, 16, 76)"
    "fmt_parse [A_int w] [56, 46, 56, 120] = Some ([A_int w], [120], 0, 8, 8, 0)"
    "fmt_parse [A_int w] [52, 46, 52, 120] = Some ([A_int w], [120], 0, 4, 4, 0)" for n w
    by (simp_all add: fmt_parse_def fmt_width_def fmt_precision_def fmt_qualifier_def is_digit_def)
  have u: "ucast (ucast ?v :: u32) = ?v" if "g = 4 \<or> g = 2"
  proof (rule word_unat_eq_iff [THEN iffD2])
    have "unat ?v < 2 ^ 32" using v(2) that by auto
    then show "unat (ucast (ucast ?v :: u32) :: u64) = unat ?v"
      by (simp add: unsigned_ucast_eq unsigned_take_bit_eq take_bit_nat_eq_self)
  qed
  show ?thesis using assms(1) t u
    by (auto simp: group_format_def group_arg_def directive_text_def p1 p2 conv_text_def str fl fl(2) [unfolded One_nat_def] i fmt_number_def)
qed

section \<open>Writing the line\<close>

text \<open>
  The text \<open>t\<close> has been put into a line of \<open>L\<close> bytes at \<open>lb\<close>. While there is room the byte at \<open>lx\<close> is free; after a jump
  to \<open>overflow2\<close> it waits for the null byte, and a jump to \<open>overflow1\<close> leaves a terminated text.
\<close>

definition line_state :: "mem \<Rightarrow> ptr \<Rightarrow> nat \<Rightarrow> u8 list \<Rightarrow> mem \<times> nat \<times> dump_exit \<Rightarrow> bool" where
  "line_state m0 lb L t s \<longleftrightarrow>
     (case s of
        (m, lx, Go) \<Rightarrow> length t < L \<and> lx = length t \<and> (\<forall>a. a \<noteq> lb + lx \<longrightarrow> m a = mem_store m0 lb t a)
      | (m, lx, Over1) \<Rightarrow> L \<le> length t \<and> m = mem_store m0 lb (take (L - 1) t @ [0])
      | (m, lx, Over2) \<Rightarrow> L \<le> length t + 1 \<and> lx = L - 1 \<and> (\<forall>a. a \<noteq> lb + lx \<longrightarrow> m a = mem_store m0 lb (take (L - 1) t) a))"

lemma line_state_more:
  assumes "line_state m0 lb L t s" "snd (snd s) \<noteq> Go"
  shows "line_state m0 lb L (t @ u) s"
  using assms by (auto simp: line_state_def split: prod.splits dump_exit.splits)

lemma put_line:
  assumes "line_state m0 lb L t s" "0 < L"
  shows "line_state m0 lb L (t @ [c]) (put_checked lb L c s)"
proof -
  obtain m lx ex where s: "s = (m, lx, ex)" by (cases s)
  show ?thesis
  proof (cases "ex = Go")
    case False
    then show ?thesis using line_state_more [OF assms(1), of "[c]"] by (simp add: s put_checked_def)
  next
    case True
    then have st: "length t < L" "lx = length t" "\<forall>a. a \<noteq> lb + lx \<longrightarrow> m a = mem_store m0 lb t a"
      using assms(1) by (auto simp: s line_state_def)
    show ?thesis
    proof (cases "L < lx + 2")
      case True
      then have "take (L - Suc 0) (t @ [c]) = t" "L = Suc (length t)" using st(1,2) by auto
      then show ?thesis using True st \<open>ex = Go\<close> by (simp add: s put_checked_def line_state_def)
    next
      case False
      then show ?thesis using st \<open>ex = Go\<close>
        by (auto simp: s put_checked_def line_state_def mem_store_snoc)
    qed
  qed
qed

lemma line_outside:
  assumes "line_state m0 lb L t s" "0 < L" "a < lb \<or> lb + L \<le> a"
  shows "fst s a = m0 a"
proof -
  have "a \<noteq> lb + k" if "k < L" for k using assms(3) that by auto
  moreover have "a \<noteq> lb + L - Suc 0" using assms(2,3) by auto
  moreover have "mem_store m0 lb bs a = m0 a" if "length bs \<le> L" for bs
    using assms(3) that by (intro mem_store_other) auto
  ultimately show ?thesis using assms(1,2)
    by (auto simp: line_state_def split: prod.splits dump_exit.splits)
qed

lemma spaces_line:
  assumes "line_state m0 lb L t s" "0 < L" "length t \<le> col"
  shows "line_state m0 lb L (t @ replicate (col - length t) 32) (spaces_loop lb L (int col) s)"
  using assms(1,3)
proof (induction "col - length t" arbitrary: t s)
  case 0
  then obtain m lx ex where s: "s = (m, lx, ex)" "\<not> (ex = Go \<and> int lx < int col)"
    by (cases s) (auto simp: line_state_def split: dump_exit.splits)
  have "spaces_loop lb L (int col) s = s" unfolding s(1) using s(2) by (subst spaces_loop.simps) auto
  moreover have "col - length t = 0" using 0 by simp
  ultimately show ?case using 0 by (simp only: replicate_0 append_Nil2)
next
  case (Suc n)
  obtain m lx ex where s: "s = (m, lx, ex)" by (cases s)
  show ?case
  proof (cases "ex = Go")
    case False
    then have "spaces_loop lb L (int col) s = s" by (simp add: s spaces_loop.simps)
    then show ?thesis using False Suc.prems by (simp add: s line_state_more)
  next
    case True
    then have "int lx < int col" using Suc by (auto simp: s line_state_def)
    then have e: "spaces_loop lb L (int col) s = spaces_loop lb L (int col) (put_checked lb L 32 s)"
      unfolding s using True by (subst spaces_loop.simps) simp
    have "line_state m0 lb L ((t @ [32]) @ replicate (col - length (t @ [32])) 32) (spaces_loop lb L (int col) (put_checked lb L 32 s))"
      using Suc by (intro Suc.hyps(1) put_line) (auto simp: assms(2))
    moreover have "col - length t = Suc (col - length (t @ [32]))" using Suc.hyps(2) by simp
    ultimately show ?thesis unfolding e by simp
  qed
qed

lemma ascii_line:
  assumes "line_state m0 lb L t s" "0 < L" "buf + j + n \<le> lb \<or> lb + L \<le> buf + j"
  shows "line_state m0 lb L (t @ map printable (mem_bytes m0 (buf + j) n)) (ascii_loop buf lb L n j s)"
  using assms(1,3)
proof (induction n arbitrary: t s j)
  case (Suc n)
  have "fst s (buf + j) = m0 (buf + j)" using Suc.prems by (intro line_outside [OF _ assms(2)]) auto
  then have "line_state m0 lb L (t @ [printable (m0 (buf + j))]) (put_checked lb L (printable (fst s (buf + j))) s)"
    using put_line [OF Suc.prems(1) assms(2)] by simp
  moreover have "buf + (j + 1) + n \<le> lb \<or> lb + L \<le> buf + (j + 1)" using Suc.prems(2) by auto
  ultimately show ?case using Suc.IH by (fastforce simp: mem_bytes_Suc)
qed simp

text \<open>The loop over single bytes, which puts a space after each of them.\<close>

definition exact_state :: "mem \<Rightarrow> ptr \<Rightarrow> nat \<Rightarrow> u8 list \<Rightarrow> mem \<times> nat \<times> dump_exit" where
  "exact_state m0 lb L t =
     (if length t < L then (mem_store m0 lb t, length t, Go) else (mem_store m0 lb (take (L - 1) t), L - 1, Over2))"

lemma put_exact: "0 < L \<Longrightarrow> put_checked lb L c (exact_state m0 lb L t) = exact_state m0 lb L (t @ [c])"
  by (auto simp: exact_state_def put_checked_def mem_store_snoc)

lemma exact_outside: "0 < L \<Longrightarrow> a < lb \<or> lb + L \<le> a \<Longrightarrow> fst (exact_state m0 lb L t) a = m0 a"
  by (auto simp: exact_state_def intro!: mem_store_other)

lemma byte_dump_exact:
  assumes "0 < L" "buf + j + n \<le> lb \<or> lb + L \<le> buf + j"
  shows "byte_dump buf lb L n j (exact_state m0 lb L t) =
           exact_state m0 lb L (t @ concat (map (\<lambda>b. hex_byte_pack b @ [32]) (mem_bytes m0 (buf + j) n)))"
  using assms(2)
proof (induction n arbitrary: t j)
  case (Suc n)
  let ?b = "m0 (buf + j)"
  have "fst (exact_state m0 lb L t) (buf + j) = ?b" using Suc.prems by (intro exact_outside [OF assms(1)]) auto
  moreover obtain x y where "hex_byte_pack ?b = [x, y]" by (simp add: hex_byte_pack_def)
  moreover have "buf + (j + 1) + n \<le> lb \<or> lb + L \<le> buf + (j + 1)" using Suc.prems by auto
  ultimately show ?case using Suc.IH [of "j + 1" "t @ hex_byte_pack ?b @ [32]"]
    by (simp add: put_exact [OF assms(1)] mem_bytes_Suc Let_def)
qed simp

lemma byte_text:
  assumes "n \<le> length bs"
  shows "concat (map (\<lambda>b. hex_byte_pack b @ [32]) (take n bs)) = hex_text 1 bs n @ (if n = 0 then [] else [32])"
  using assms
proof (induction n)
  case (Suc n)
  have "group_text 1 bs n = hex_byte_pack (bs ! n)" using Suc.prems by (simp add: group_text_def take_Suc_conv_app_nth)
  then show ?case using Suc by (cases n) (simp_all add: take_Suc_conv_app_nth hex_text_Suc Suc_le_eq)
qed (simp add: hex_text_def)

lemma drop_space_line: "0 < L \<Longrightarrow> line_state m0 lb L t (drop_last_space (exact_state m0 lb L (t @ [32])))"
  by (auto simp: drop_last_space_def exact_state_def line_state_def mem_store_snoc)

lemma byte_line:
  assumes "0 < L" "0 < n" "buf + n \<le> lb \<or> lb + L \<le> buf"
  shows "line_state m0 lb L (hex_text 1 (mem_bytes m0 buf n) n) (drop_last_space (byte_dump buf lb L n 0 (m0, 0, Go)))"
proof -
  have "(m0, 0, Go) = exact_state m0 lb L []" using assms(1) by (simp add: exact_state_def)
  then have "byte_dump buf lb L n 0 (m0, 0, Go) = exact_state m0 lb L (hex_text 1 (mem_bytes m0 buf n) n @ [32])"
    using byte_dump_exact [OF assms(1), of buf 0 n lb m0 "[]"] byte_text [of n "mem_bytes m0 buf n"] assms(2,3) by simp
  then show ?thesis using drop_space_line [OF assms(1)] by simp
qed

text \<open>The loop over groups: the literals are in the store, apart from the line.\<close>

definition dump_literals :: "hdenv \<Rightarrow> ptr \<Rightarrow> nat \<Rightarrow> mem \<Rightarrow> bool" where
  "dump_literals he lb L m \<longleftrightarrow>
     he_empty he \<noteq> NULL \<and> m (he_empty he) = 0 \<and> (he_empty he < lb \<or> lb + L \<le> he_empty he) \<and>
     he_space he \<noteq> NULL \<and> m (he_space he) = 32 \<and> m (he_space he + 1) = 0 \<and> (he_space he + 1 < lb \<or> lb + L \<le> he_space he)"

lemma mem_store_resume:
  assumes "\<forall>a. a \<noteq> lb + length t \<longrightarrow> m a = mem_store m0 lb t a" "w \<noteq> []"
  shows "mem_store m (lb + length t) w = mem_store m0 lb (t @ w)"
proof (rule ext)
  fix a
  show "mem_store m (lb + length t) w a = mem_store m0 lb (t @ w) a"
    using assms(2) assms(1) [rule_format, of a] by (cases "a = lb + length t") (auto simp: mem_store_def nth_append)
qed

lemma mem_bytes_slice: "i + k \<le> n \<Longrightarrow> mem_bytes m (p + i) k = take k (drop i (mem_bytes m p n))"
  by (rule nth_equalityI) (auto simp: add.assoc)

lemma hex_text_prefix: "\<exists>w. hex_text g bs (i + k) = hex_text g bs i @ w"
  using upt_add_eq_append [of 0 i k] by (auto simp: hex_text_def)

lemma group_print:
  fixes j :: nat and he :: hdenv
  defines "a \<equiv> if j \<noteq> 0 then he_space he else he_empty he" and "sep \<equiv> if j \<noteq> 0 then [32] else [] :: u8 list"
  assumes g: "g = 8 \<or> g = 4 \<or> g = 2" and L: "lb + L < 2 ^ 64" "length t < L" and lits: "dump_literals he lb L m0"
    and data: "bs = mem_bytes m0 buf (length bs)" "buf + length bs \<le> lb \<or> lb + L \<le> buf" "g * j + g \<le> length bs"
    and m: "\<forall>a. a \<noteq> lb + length t \<longrightarrow> m a = mem_store m0 lb t a"
    and u: "u = sep @ group_text g bs j"
  shows "snprintf (he_print he) m (lb + length t) (L - length t) (group_format g)
           [A_ptr a, group_arg g (le_value (mem_bytes m (buf + g * j) g))] =
         Some (mem_store m0 lb (take (L - 1) (t @ u) @ [0]), int (length u)) \<and> length u \<le> 17"
proof
  let ?grp = "take g (drop (g * j) bs)" and ?strs = "\<lambda>s. if s = a then Some sep else None"
  have outside: "m a = m0 a" if "a < lb \<or> lb + L \<le> a" for a
    using that L(2) m mem_store_other [of a lb t m0] by (cases "a = lb + length t") auto
  have "mem_bytes m (buf + g * j) g = mem_bytes m0 (buf + g * j) g"
    using data(2,3) by (intro mem_bytes_cong outside) auto
  also have "\<dots> = ?grp" using mem_bytes_slice [OF data(3), of m0 buf] data(1) by metis
  finally have grp: "mem_bytes m (buf + g * j) g = ?grp" .
  have fmt: "format_text (he_print he) ?strs [A_ptr a, group_arg g (le_value ?grp)] (group_format g) = Some u"
    using format_group [OF g, of ?grp] data(3) by (simp add: group_text_def u)
  show len: "length u \<le> 17" using length_group_text [of g j bs] data(3) g by (auto simp: u sep_def algebra_simps)
  have "strings_at (he_print he) ?strs (lb + length t) (lb + length t + (L - length t)) m"
    using lits L(2) outside by (auto simp: strings_at_def dump_literals_def a_def sep_def)
  moreover have "99 \<notin> set (group_format g)" using g by (auto simp: group_format_def)
  ultimately have "snprintf (he_print he) m (lb + length t) (L - length t) (group_format g) [A_ptr a, group_arg g (le_value ?grp)] =
      Some (mem_store m (lb + length t) (take (L - length t - 1) u @ [0]), int (length u))"
    using vsnprintf_internal_text [OF fmt] L len by (simp add: snprintf_def vsnprintf_def)
  then show "snprintf (he_print he) m (lb + length t) (L - length t) (group_format g)
           [A_ptr a, group_arg g (le_value (mem_bytes m (buf + g * j) g))] =
         Some (mem_store m0 lb (take (L - 1) (t @ u) @ [0]), int (length u))"
    using mem_store_resume [OF m, of "take (L - length t - 1) u @ [0]"] L(2) grp by simp
qed

lemma group_line:
  assumes g: "g = 8 \<or> g = 4 \<or> g = 2" and L: "lb + L < 2 ^ 64" and lits: "dump_literals he lb L m0"
    and data: "bs = mem_bytes m0 buf (length bs)" "buf + length bs \<le> lb \<or> lb + L \<le> buf"
    and j: "g * (j + n) \<le> length bs" "t = hex_text g bs j" "length t < L"
    and m: "\<forall>a. a \<noteq> lb + length t \<longrightarrow> m a = mem_store m0 lb t a"
  shows "\<exists>s. group_dump he g buf lb L n j m (length t) = Some s \<and> line_state m0 lb L (hex_text g bs (j + n)) s"
  using j m
proof (induction n arbitrary: j m t)
  case 0
  then show ?case by (auto simp: line_state_def)
next
  case (Suc n)
  define u where "u = (if j \<noteq> 0 then [32] else []) @ group_text g bs j"
  have len: "g * j + g \<le> length bs" using Suc.prems(1) by (simp add: algebra_simps)
  note run = group_print [OF g L Suc.prems(3) lits data len Suc.prems(4) u_def]
  have ret: "uint (word_of_int (int (length u)) :: u64) = int (length u)"
    using run by (subst uint_word_of_int) simp
  have next_text: "hex_text g bs (Suc j) = t @ u" by (simp add: hex_text_Suc u_def Suc.prems(2))
  show ?case
  proof (cases "L - length t \<le> length u")
    case True
    obtain w where w: "hex_text g bs (j + Suc n) = (t @ u) @ w"
      using hex_text_prefix [of g bs "Suc j" n] next_text by auto
    have "line_state m0 lb L (hex_text g bs (j + Suc n)) (mem_store m0 lb (take (L - 1) (t @ u) @ [0]), length t, Over1)"
      unfolding w using True by (auto simp: line_state_def)
    then show ?thesis using True run ret by simp
  next
    case False
    let ?m = "mem_store m0 lb ((t @ u) @ [0])"
    have rel: "\<forall>a. a \<noteq> lb + length (t @ u) \<longrightarrow> ?m a = mem_store m0 lb (t @ u) a"
      unfolding mem_store_snoc by simp
    have "length (t @ u) < L" "g * (Suc j + n) \<le> length bs" using False Suc.prems by auto
    from Suc.IH [OF this(2) next_text [symmetric] this(1) rel]
    obtain s where "group_dump he g buf lb L n (Suc j) ?m (length (t @ u)) = Some s"
        "line_state m0 lb L (hex_text g bs (Suc j + n)) s" by blast
    then show ?thesis using False run ret Suc.prems(3) by (cases s) auto
  qed
qed

section \<open>The whole line\<close>

text \<open>The sizes that the code settles on.\<close>

definition dump_row :: "int \<Rightarrow> nat" where
  "dump_row rowsize = (if rowsize = 0 then 16 else nat (min rowsize 64))"

definition dump_group :: "int \<Rightarrow> nat \<Rightarrow> nat" where
  "dump_group groupsize n = (if (groupsize = 2 \<or> groupsize = 4 \<or> groupsize = 8) \<and> n mod nat groupsize = 0 then nat groupsize else 1)"

lemma dump_sizes:
  assumes "0 \<le> rowsize" "0 \<le> groupsize"
  shows "(if rowsize = 0 then 16 else min rowsize 64) = int (dump_row rowsize)"
    and "(if uint (word_of_int (int (dump_row rowsize)) :: u64) < int len then nat (int (dump_row rowsize)) else len) = min len (dump_row rowsize)"
    and "(let g = if \<not> is_power_of_2 (word_of_int groupsize) \<or> 8 < groupsize then 1 else nat groupsize
          in if n mod g \<noteq> 0 then 1 else g) = dump_group groupsize n"
proof -
  show "(if rowsize = 0 then 16 else min rowsize 64) = int (dump_row rowsize)"
    using assms(1) by (simp add: dump_row_def)
  have "dump_row rowsize \<le> 64" by (auto simp: dump_row_def min_def)
  then have "uint (word_of_int (int (dump_row rowsize)) :: u64) = int (dump_row rowsize)" by (subst uint_word_of_int) simp
  then show "(if uint (word_of_int (int (dump_row rowsize)) :: u64) < int len then nat (int (dump_row rowsize)) else len) = min len (dump_row rowsize)"
    by simp
  have p: "\<not> is_power_of_2 (0 :: u64)" "is_power_of_2 1" "is_power_of_2 2" "\<not> is_power_of_2 3" "is_power_of_2 4"
      "\<not> is_power_of_2 5" "\<not> is_power_of_2 6" "\<not> is_power_of_2 7" "is_power_of_2 8"
    by code_simp+
  have "8 < groupsize \<or> groupsize \<in> {0, 1, 2, 3, 4, 5, 6, 7, 8}" using assms(2) by simp presburger
  then show "(let g = if \<not> is_power_of_2 (word_of_int groupsize) \<or> 8 < groupsize then 1 else nat groupsize
          in if n mod g \<noteq> 0 then 1 else g) = dump_group groupsize n"
    by (auto simp: dump_group_def p)
qed

lemma dump_row_pos: "0 \<le> rowsize \<Longrightarrow> 0 < dump_row rowsize"
  by (auto simp: dump_row_def)

lemma dump_group_dvd: "n mod dump_group groupsize n = 0"
  by (auto simp: dump_group_def)

lemma dump_group_cases: "dump_group groupsize n = 1 \<or> dump_group groupsize n = 2 \<or> dump_group groupsize n = 4 \<or> dump_group groupsize n = 8"
  by (auto simp: dump_group_def)

lemma length_dump_text:
  assumes "bs \<noteq> []" "length bs mod g = 0" "0 < g" "length bs \<le> row"
  shows "length (hex_text g bs (length bs div g)) = (2 * g + 1) * (length bs div g) - 1"
    and "length (hex_text g bs (length bs div g)) \<le> 2 * row + row div g + 1"
    and "length (dump_text row g ascii bs) = (if ascii then 2 * row + row div g + 1 + length bs else (2 * g + 1) * (length bs div g) - 1)"
proof -
  let ?n = "length bs div g"
  have gn: "g * ?n = length bs" using assms(2) by (metis mod_0_imp_dvd dvd_mult_div_cancel)
  then have "0 < ?n" using assms(1) by (cases ?n) auto
  then show h: "length (hex_text g bs ?n) = (2 * g + 1) * ?n - 1" using length_hex_text [of g ?n bs] gn by simp
  have "?n \<le> row div g" using assms(4) by (rule div_le_mono)
  moreover have "(2 * g + 1) * ?n = 2 * length bs + ?n" using gn by (simp add: algebra_simps)
  ultimately show le: "length (hex_text g bs ?n) \<le> 2 * row + row div g + 1" using h assms(4) by simp
  show "length (dump_text row g ascii bs) = (if ascii then 2 * row + row div g + 1 + length bs else (2 * g + 1) * ?n - 1)"
    using h le assms(1) by (simp add: dump_text_def Let_def)
qed

lemma line_end:
  assumes "line_state m0 lb L t s" "0 < L" "ov = int (length t)"
  shows "dump_end lb ov s = (mem_store m0 lb (take (L - 1) t @ [0]), int (length t))"
proof -
  obtain m lx ex where s: "s = (m, lx, ex)" by (cases s)
  have upd: "m(lb + length w := 0) = mem_store m0 lb (w @ [0])" if "\<forall>a. a \<noteq> lb + length w \<longrightarrow> m a = mem_store m0 lb w a" for w
    using that by (auto simp: mem_store_snoc)
  show ?thesis
  proof (cases ex)
    case Go
    then have "length t < L" using assms by (simp add: s line_state_def)
    then have "take (L - 1) t = t" by simp
    then show ?thesis using assms upd [of t] Go by (simp add: s line_state_def dump_end_def)
  next
    case Over1
    then show ?thesis using assms by (simp add: s line_state_def dump_end_def)
  next
    case Over2
    then have "length (take (L - 1) t) = lx" using assms by (auto simp: s line_state_def min_def)
    then show ?thesis using assms upd [of "take (L - 1) t"] Over2 by (simp add: s line_state_def dump_end_def)
  qed
qed

text \<open>The first part of the line, in both ways of writing it.\<close>

lemma hex_part:
  assumes g: "g = 1 \<or> g = 2 \<or> g = 4 \<or> g = 8" and n: "0 < n" "n mod g = 0" and L: "0 < L" "lb + L < 2 ^ 64"
    and lits: "dump_literals he lb L m" and apart: "buf + n \<le> lb \<or> lb + L \<le> buf"
  shows "\<exists>s. (if g = 8 \<or> g = 4 \<or> g = 2 then group_dump he g buf lb L (n div g) 0 m 0
               else Some (drop_last_space (byte_dump buf lb L n 0 (m, 0, Go)))) = Some s \<and>
             line_state m lb L (hex_text g (mem_bytes m buf n) (n div g)) s"
proof (cases "g = 1")
  case True
  then show ?thesis using byte_line [OF L(1) n(1) apart, of m] by simp
next
  case False
  then have g': "g = 8 \<or> g = 4 \<or> g = 2" using g by auto
  have "g * (0 + n div g) \<le> length (mem_bytes m buf n)" by simp
  moreover have "[] = hex_text g (mem_bytes m buf n) 0" by (simp add: hex_text_def)
  ultimately show ?thesis using group_line [OF g' L(2) lits, of "mem_bytes m buf n" buf 0 "n div g" "[]" m] L(1) apart g' by simp
qed

lemma hex_dump_code:
  assumes "0 \<le> rowsize" "0 \<le> groupsize"
    and n: "n = min len row" and row: "row = dump_row rowsize" and g: "g = dump_group groupsize n"
    and col: "col = 2 * row + row div g + 1"
    and ov: "ov = (if ascii then int col + int n else int ((g * 2 + 1) * (n div g)) - 1)"
  shows "hex_dump_to_buffer he m buf len rowsize groupsize lb L ascii =
      (if L = 0 then Some (m, ov) else if n = 0 then Some (m(lb := 0), 0)
       else map_option (\<lambda>s. dump_end lb ov (if ascii then ascii_loop buf lb L n 0 (spaces_loop lb L (int col) s) else s))
              (if g = 8 \<or> g = 4 \<or> g = 2 then group_dump he g buf lb L (n div g) 0 m 0
               else Some (drop_last_space (byte_dump buf lb L n 0 (m, 0, Go)))))"
proof -
  have r: "(if rowsize = 0 then 16 else min rowsize 64) = int row" unfolding row by (rule dump_sizes(1) [OF assms(1,2)])
  have l: "(if uint (word_of_int (int row) :: u64) < int len then nat (int row) else len) = n"
    unfolding n row by (rule dump_sizes(2) [OF assms(1,2)])
  have c: "int row * 2 + sgn (int row) * (\<bar>int row\<bar> div int g) + 1 = int col"
    by (cases row) (simp_all add: col of_nat_div)
  show ?thesis
    by (simp only: hex_dump_to_buffer_def Let_def r l dump_sizes(3) [OF assms(1,2), unfolded Let_def] g [symmetric] c ov)
qed

text \<open>
  C31. \<open>hex_dump_to_buffer\<close> writes one line: the bytes of a row as groups of hexadecimal digits, the last
  byte of a group first, and if asked for the characters in a column after them. The line is cut to
  the size of its buffer and terminated, nothing else changes, and the length of the whole line is
  returned. The row size 0 stands for 16 and is at most 64, and a group size that is not 1, 2, 4 or 8,
  or does not divide the number of bytes, stands for 1.\<close>

theorem hex_dump_prints:
  fixes ascii :: bool and m :: mem
  assumes "0 \<le> rowsize" "0 \<le> groupsize" "0 < L \<or> 0 < len" "lb + L < 2 ^ 64" "dump_literals he lb L m"
    and "buf + len \<le> lb \<or> lb + L \<le> buf"
  defines "n \<equiv> min len (dump_row rowsize)"
  defines "t \<equiv> dump_text (dump_row rowsize) (dump_group groupsize n) ascii (mem_bytes m buf n)"
  shows "hex_dump_to_buffer he m buf len rowsize groupsize lb L ascii =
           Some (if L = 0 then m else mem_store m lb (take (L - 1) t @ [0]), int (length t))"
proof (cases "n = 0")
  case True
  have n: "n = min len (dump_row rowsize)" by (simp add: n_def)
  have "len = 0" using True dump_row_pos [OF assms(1)] by (simp add: n_def)
  then have "t = []" "0 < L" using True assms(3) by (simp_all add: t_def dump_text_def)
  moreover have "mem_store m lb [0] = m(lb := 0)" by (simp add: mem_store_Cons)
  ultimately show ?thesis using True hex_dump_code [OF assms(1,2) n refl refl refl refl] by simp
next
  case False
  define g row bs where "g = dump_group groupsize n" and "row = dump_row rowsize" and "bs = mem_bytes m buf n"
  define col where "col = 2 * row + row div g + 1"
  define ov where "ov = (if ascii then int col + int n else int ((g * 2 + 1) * (n div g)) - 1)"
  have "n = min len row" by (simp add: n_def row_def)
  note code = hex_dump_code [OF assms(1,2) this row_def g_def col_def ov_def]
  have sizes: "n mod g = 0" "g = 1 \<or> g = 2 \<or> g = 4 \<or> g = 8" "0 < g" "n \<le> row" "length bs = n" "bs \<noteq> []"
    using dump_group_dvd [of n groupsize] dump_group_cases [of groupsize n] False
    by (auto simp: g_def row_def n_def bs_def mem_bytes_def)
  note len = length_dump_text [of bs g row, unfolded sizes(5), OF sizes(6,1,3,4)]
  have t: "t = (if ascii then (hex_text g bs (n div g) @ replicate (col - length (hex_text g bs (n div g))) 32) @ map printable bs
                else hex_text g bs (n div g))"
    using sizes by (simp add: t_def g_def [symmetric] row_def [symmetric] bs_def [symmetric] dump_text_def col_def Let_def)
  have "1 \<le> (2 * g + 1) * (n div g)" using sizes(1,3) False by (auto simp: Suc_le_eq div_greater_zero_iff)
  then have ov: "ov = int (length t)"
    using len(3) [of ascii] by (auto simp: ov_def t_def g_def [symmetric] row_def [symmetric] bs_def [symmetric] col_def of_nat_diff algebra_simps)
  show ?thesis
  proof (cases "L = 0")
    case True
    then show ?thesis using code ov by simp
  next
    case L: False
    have apart: "buf + n \<le> lb \<or> lb + L \<le> buf" using assms(6) by (auto simp: n_def)
    obtain s where s: "(if g = 8 \<or> g = 4 \<or> g = 2 then group_dump he g buf lb L (n div g) 0 m 0
               else Some (drop_last_space (byte_dump buf lb L n 0 (m, 0, Go)))) = Some s"
        "line_state m lb L (hex_text g bs (n div g)) s"
      using hex_part [OF sizes(2) _ sizes(1) _ assms(4,5) apart] False L unfolding bs_def by blast
    have "line_state m lb L t (if ascii then ascii_loop buf lb L n 0 (spaces_loop lb L (int col) s) else s)"
      using ascii_line [OF spaces_line [OF s(2)], of col buf 0 n] s(2) len(2) L apart by (simp add: t col_def bs_def)
    from line_end [OF this _ ov] show ?thesis using code L False s(1) by simp
  qed
qed

theorem hex_dump_prints_witness:
  "let he = \<lparr>he_print = \<lparr>pe_null = 0, pe_local = 900, pe_pbuf = 0, pe_pbsize = 0, pe_ipv6 = False, pe_errstr = None\<rparr>, he_empty = 8, he_space = 9\<rparr>;
       m = mem_store (\<lambda>_. 0) 9 [32]
   in hex_dump_to_buffer he m 200 2 16 2 100 4 False = Some (mem_store m 100 [48, 48, 48, 0], 4)"
proof -
  let ?he = "\<lparr>he_print = \<lparr>pe_null = 0, pe_local = 900, pe_pbuf = 0, pe_pbsize = 0, pe_ipv6 = False, pe_errstr = None\<rparr>, he_empty = 8, he_space = 9\<rparr>"
  let ?m = "mem_store (\<lambda>_. 0) 9 [32 :: u8]"
  have "mem_bytes ?m 200 2 = [0, 0]" by code_simp
  moreover have "dump_text 16 2 False [0, 0] = [48, 48, 48, 48]" by code_simp
  moreover have "dump_literals ?he 100 4 ?m" by (simp add: dump_literals_def mem_store_def)
  moreover have "dump_row 16 = 16" "dump_group 2 2 = 2" by (simp_all add: dump_row_def dump_group_def)
  ultimately show ?thesis using hex_dump_prints [of 16 2 4 2 100 ?he ?m 200 False] by simp
qed

text \<open>With no bytes and no room the line is empty, but the length that comes back is not 0.\<close>

lemma hex_dump_nothing:
  "hex_dump_to_buffer he m buf 0 16 1 lb 0 False = Some (m, - 1) \<and>
   hex_dump_to_buffer he m buf 0 16 1 lb 0 True = Some (m, 49)"
  by (simp add: hex_dump_code [OF _ _ refl refl refl refl refl] dump_row_def dump_group_def)

end
