(* ===== verification/Spec2Isabelle.thy ===== *)
theory Spec2Isabelle
  imports Circbuf Lmb Strings Membuff Envtext Vsprintf CliGetch CliSimple Charset Blkcache AndroidAb Rtc EnvGuard Hexdump
begin

text \<open>
  \<^bold>\<open>U-Boot: the boot-time libraries and the environment.\<close>

  U-Boot starts a board, keeps its configuration in the \<^emph>\<open>environment\<close>, reads commands from a console
  and loads an operating system from a device. Most of the repository programs hardware. This
  development models the part that is the program's own logic: the memory map used for loading, the
  environment from its hash table to its stored form, the command line, the block cache and the
  choice of the boot slot, and the libraries that these are built from. File names below are relative
  to \<open>src/u-boot\<close>.

  \<^bold>\<open>How the parts work together.\<close> A line typed at the console passes the escape-sequence machine
  (\<open>CliGetch\<close>), is cut into commands and words and its macros are expanded from the environment
  (\<open>CliSimple\<close>). A variable is set in the hash table (\<open>EnvCommon\<close> over \<open>Hashtable\<close>) if its type and access
  rights allow it (\<open>EnvFlags\<close>); the table is
  exported as text (\<open>Envtext\<close>, which sorts with \<open>Qsort\<close>), the text gets a checksum (\<open>Crc\<close>) and a serial
  number and is written to a device, and it is read back, checked and imported at the next boot. The
  boot code finds memory for images in the logical memory blocks (\<open>Lmb\<close>) and reads devices through
  the block cache (\<open>Blkcache\<close>); on Android systems it chooses the slot from a control block that is
  read and written in this way (\<open>AndroidAb\<close>). Strings, numbers and character sets (\<open>Strings\<close>, \<open>Ctype\<close>, \<open>Strto\<close>,
  \<open>Vsprintf\<close>, \<open>Charset\<close>), two ring buffers for the console (\<open>Circbuf\<close>, \<open>Membuff\<close>) and the calendar (\<open>Rtc\<close>) are
  used throughout.

  \<^bold>\<open>How the code is modelled.\<close> \<open>Prelude\<close> has the machine types, a byte-addressed store \<open>mem\<close> and the
  \<open>errno\<close> values. Code that works on buffers takes and returns the store, so overlap, aliasing and
  writes outside a buffer are visible; code that treats a string as a value takes the list of its
  bytes. Integers whose overflow the code depends on are words; the others are \<open>int\<close> or \<open>nat\<close>, and the text
  of the theory says why. An error is a return value as in the code; \<open>None\<close> is an access outside an
  array, a use of a null pointer or a loop that does not return. Code outside the repository or
  outside the component (\<open>malloc\<close>, drivers, callbacks, regular expressions) is an argument.

  \<^bold>\<open>The theories.\<close>

  \<^item> \<open>Interfaces\<close>: the contracts as locales, each interpreted by its provider: \<open>block_allocator\<close> by \<open>Lmb\<close>,
    \<open>byte_fifo\<close> by \<open>Membuff\<close>, \<open>string_map\<close> by \<open>Hashtable\<close>, \<open>read_cache\<close> and \<open>block_store\<close> by \<open>Blkcache\<close>. Clients are
    verified against them: \<open>Envtext\<close> and \<open>EnvCommon\<close> use the map, \<open>AndroidAb\<close> the block store.
  \<^item> \<open>Circbuf\<close> (\<open>lib/circbuf.c\<close>), \<open>Membuff\<close> (\<open>lib/membuff.c\<close>): both rings implement bounded queues; no byte
    outside the buffer is written.
  \<^item> \<open>Lmb\<close> (\<open>lib/lmb.c\<close>): the tables stay sorted, disjoint and merged; adding and freeing change exactly
    the given range; an allocation is aligned, inside memory, below its limit and disjoint from every
    earlier one.
  \<^item> \<open>Ctype\<close>, \<open>Strings\<close> (\<open>lib/ctype.c\<close>, \<open>lib/string.c\<close>): the routines on the store compute the list functions of
    their names; \<open>memmove\<close> for every overlap and alignment.
  \<^item> \<open>Strto\<close>, \<open>Vsprintf\<close> (\<open>lib/strto.c\<close>, \<open>lib/vsprintf.c\<close>): the division-free decimal conversion is exact, what \<open>number\<close>
    prints \<open>simple_strtoul\<close> reads back, and writing stops at the end of the buffer.
  \<^item> \<open>Printf\<close>, \<open>PrintfText\<close>, \<open>PrintfUse\<close> (\<open>lib/vsprintf.c\<close>): the format interpreter writes the text that the format denotes, cut to
    the buffer and terminated, and for no format writes outside; the converters that use it.
  \<^item> \<open>Hexdump\<close> (\<open>lib/hexdump.c\<close>): a line of a dump, printed byte by byte or with \<open>snprintf\<close>, is the specified text cut to its
    buffer; \<open>hex2bin\<close> undoes \<open>bin2hex\<close>.
  \<^item> \<open>Qsort\<close> (\<open>lib/qsort.c\<close>): the Shell sort sorts.
  \<^item> \<open>Hashtable\<close>, \<open>Envtext\<close> (\<open>lib/hashtable.c\<close>): open addressing with deleted slots implements a finite map; every
    search ends; an exported table is imported with the same contents.
  \<^item> \<open>EnvCommon\<close> (\<open>env/common.c\<close>): setting and getting variables, the search in the text before the table
    exists, the stored form, the rejection of damaged copies and the choice of the newer of two.
  \<^item> \<open>EnvAttr\<close>, \<open>EnvFlags\<close>, \<open>EnvGuard\<close> (\<open>env/attr.c\<close>, \<open>env/flags.c\<close>, \<open>env/callback.c\<close>): attribute lists, the formats of typed values, and the
    table with access rights as its permission check: a write-once variable keeps its first value
    through every run of unforced commands, and setting \<open>.flags\<close> gives the same rights as creating.
  \<^item> \<open>CliGetch\<close>, \<open>CliSimple\<close> (\<open>common/cli_getch.c\<close>, \<open>common/cli_simple.c\<close>): the escape machine refines a table-driven decoder; macro
    expansion, word splitting and running a command line return, stay inside their buffers and
    compute what the grammar of their input says.
  \<^item> \<open>Charset\<close> (\<open>lib/charset.c\<close>): UTF-8 to UTF-16 and back is the identity on valid text.
  \<^item> \<open>Crc\<close> (\<open>lib/crc32.c\<close> and the smaller checksums): the table-driven routines are the shift registers of
    their polynomials; every burst of up to four bytes is detected.
  \<^item> \<open>Blkcache\<close> (\<open>drivers/block/blkcache.c\<close>, \<open>drivers/block/blk-uclass.c\<close>): reading through the cache gives the bytes of the device
    after any sequence of reads, writes and erasures; the counters are right.
  \<^item> \<open>AndroidAb\<close> (\<open>boot/android_ab.c\<close>): the best bootable slot is chosen and stored; attempts run out.
  \<^item> \<open>Rtc\<close> (\<open>lib/date.c\<close>, \<open>lib/rtc-lib.c\<close>): seconds and dates are converted into each other without loss; both
    computations of the day of the week agree.

  \<^bold>\<open>Loops and bounds.\<close> Loops are structural or have a measure. Those that may not return are partial
  functions into \<open>option\<close>: the search for a prime (\<open>isprime_loop\<close>, \<open>next_prime\<close>), the chunked checksum
  (\<open>crc32_wd_loop\<close>, which does not return for chunk size 0), the loops over strings in the store, and the
  printing of digit groups, which steps over the end of a text whose length is not a multiple of three. Fuel is used in three places: \<open>hsearch_loop\<close> gets the
  size of the table, which \<open>hsearch_loop_total\<close> shows to be enough for every table; the loop that
  drains an escape sequence gets 9 turns, one more than the sequence can hold; the copy loops of
  \<open>membuff_put\<close> and \<open>membuff_get\<close> get 2, as the free or used space of a ring has at most two parts.

  \<^bold>\<open>Not modelled.\<close> Drivers, processors, boards and device trees program hardware; file systems, network
  protocols and EFI services are built on them; \<open>dlmalloc\<close>, \<open>libfdt\<close>, the hush shell, the decompressors,
  the ciphers and \<open>slre\<close> come from other projects. Of modelled files, code that only prints is left out,
  and so are the \<open>printf\<close> extensions for EFI paths and UUIDs, the lookup of devices in the driver model and
  the storage drivers of the environment.
\<close>

end
